(* ===== verification/Prelude.thy ===== *)
theory Prelude
  imports Complex_Main "HOL-Library.Char_ord" "HOL-Library.List_Lexorder"
    "HOL-Library.Product_Lexorder"
begin

text \<open>
  Shared vocabulary of the development: Python's string operations and truth values on
  \<^typ>\<open>string\<close>, first-match queries on lists of rows, reachability over a successor function, and
  the named collections the component theories add to.

  Strings are lists of bytes in UTF-8, ordered lexicographically, which is Python's order by code
  point on \<^verbatim>\<open>str\<close>. Python floats are \<^typ>\<open>rat\<close>: comparisons are exact, rounding is not modelled.
\<close>

named_theorems db_simps \<open>rewriting of table lookups\<close>
named_theorems dict_simps \<open>rewriting of Python dictionary operations\<close>

type_synonym ident = string
type_synonym pyfloat = rat

section \<open>Python strings\<close>

definition startswith :: "string \<Rightarrow> string \<Rightarrow> bool" where
  "startswith s p \<longleftrightarrow> take (length p) s = p"

definition endswith :: "string \<Rightarrow> string \<Rightarrow> bool" where
  "endswith s p \<longleftrightarrow> length p \<le> length s \<and> drop (length s - length p) s = p"

text \<open>The slice \<^verbatim>\<open>s[:-n]\<close> for a positive \<open>n\<close>.\<close>

definition drop_tail :: "nat \<Rightarrow> string \<Rightarrow> string" where
  "drop_tail n s = take (length s - n) s"

definition char_lower :: "char \<Rightarrow> char" where
  "char_lower c =
     (if (65::nat) \<le> of_char c \<and> of_char c \<le> (90::nat) then char_of (of_char c + (32::nat)) else c)"

definition lower :: "string \<Rightarrow> string" where
  "lower s = map char_lower s"

text \<open>The decimal digits of a natural number, as \<^verbatim>\<open>str(n)\<close> prints them.\<close>

fun show_nat :: "nat \<Rightarrow> string" where
  "show_nat n = (if n < 10 then [char_of (48 + n)] else show_nat (n div 10) @ [char_of (48 + n mod 10)])"

declare show_nat.simps [simp del]

definition show_int :: "int \<Rightarrow> string" where
  "show_int i = (if i < 0 then CHR ''-'' # show_nat (nat (- i)) else show_nat (nat i))"

text \<open>The truth value of a \<^verbatim>\<open>str | None\<close>: both \<^verbatim>\<open>None\<close> and the empty string are false.\<close>

fun truthy :: "string option \<Rightarrow> bool" where
  "truthy None = False"
| "truthy (Some s) = (s \<noteq> [])"

lemma truthy_iff: "truthy x \<longleftrightarrow> (\<exists>s. x = Some s \<and> s \<noteq> [])"
  by (cases x) auto

lemma endswith_append [simp]: "endswith (s @ p) p"
  by (simp add: endswith_def)

lemma drop_tail_append [simp]: "drop_tail (length p) (s @ p) = s"
  by (simp add: drop_tail_def)

lemma endswithD: "endswith s p \<Longrightarrow> s = drop_tail (length p) s @ p"
  by (metis append_take_drop_id drop_tail_def endswith_def)

section \<open>First-match queries\<close>

lemma find_SomeD: "find P xs = Some x \<Longrightarrow> x \<in> set xs \<and> P x"
  by (auto simp: find_Some_iff in_set_conv_nth)

lemma find_None_iff': "find P xs = None \<longleftrightarrow> (\<forall>x \<in> set xs. \<not> P x)"
  by (auto simp: find_None_iff)

lemma find_key_iff:
  assumes "distinct (map f xs)"
  shows "find (\<lambda>x. f x = k) xs = Some r \<longleftrightarrow> r \<in> set xs \<and> f r = k"
  using assms by (induction xs) auto

lemma find_append: "find P (xs @ ys) = (case find P xs of Some x \<Rightarrow> Some x | None \<Rightarrow> find P ys)"
  by (induction xs) auto

lemma find_map: "find P (map f xs) = map_option f (find (P \<circ> f) xs)"
  by (induction xs) auto

text \<open>Membership in the rows a loop body with \<^verbatim>\<open>continue\<close> on missing lookups collects.\<close>

lemma in_set_case_option:
  "x \<in> set (case m of None \<Rightarrow> [] | Some p \<Rightarrow> f p) \<longleftrightarrow> (\<exists>p. m = Some p \<and> x \<in> set (f p))"
  by (cases m) auto

lemma in_set_case_prod: "x \<in> set (case p of (a, b) \<Rightarrow> f a b) \<longleftrightarrow> (\<exists>a b. p = (a, b) \<and> x \<in> set (f a b))"
  by (cases p) auto

lemma in_set_if: "x \<in> set (if c then xs else []) \<longleftrightarrow> c \<and> x \<in> set xs"
  by simp

lemma in_set_concat_map: "x \<in> set (concat (map f xs)) \<longleftrightarrow> (\<exists>y \<in> set xs. x \<in> set (f y))"
  by simp

lemma in_set_append: "x \<in> set (xs @ ys) \<longleftrightarrow> x \<in> set xs \<or> x \<in> set ys"
  by simp

lemma in_set_single: "x \<in> set [y] \<longleftrightarrow> x = y" "x \<in> set [y, z] \<longleftrightarrow> x = y \<or> x = z"
  by simp_all

lemmas loop_rows = in_set_case_option in_set_case_prod in_set_if in_set_concat_map in_set_append
  in_set_single

lemma hd_sort_key_in: "xs \<noteq> [] \<Longrightarrow> hd (sort_key f xs) \<in> set xs"
  by (metis hd_in_set length_0_conv length_sort set_sort)

lemma hd_sort_key_le: "x \<in> set xs \<Longrightarrow> f (hd (sort_key f xs)) \<le> f x"
proof -
  assume x: "x \<in> set xs"
  then obtain y ys where ys: "sort_key f xs = y # ys"
    by (metis list.exhaust list.set_intros(1) set_sort empty_iff list.set(1))
  have "sorted (map f (sort_key f xs))" by (rule sorted_sort_key)
  moreover have "x \<in> set (y # ys)" using x ys by (metis set_sort)
  ultimately show ?thesis using ys by auto
qed

lemma map_of_rev_distinct: "distinct (map fst kvs) \<Longrightarrow> map_of (rev kvs) = map_of kvs"
proof (induction kvs)
  case (Cons kv kvs)
  then have "map_of kvs (fst kv) = None"
    by (auto simp: map_of_eq_None_iff)
  with Cons show ?case
    by (cases kv) (auto simp: map_add_def fun_eq_iff split: option.splits)
qed simp

section \<open>Reachability\<close>

definition edges_of :: "('a \<Rightarrow> 'a set) \<Rightarrow> ('a \<times> 'a) set" where
  "edges_of succs = {(x, y). y \<in> succs x}"

definition reach_from :: "('a \<Rightarrow> 'a set) \<Rightarrow> 'a set \<Rightarrow> 'a set" where
  "reach_from succs S = (edges_of succs)\<^sup>* `` S"

lemma edges_of_iff [simp]: "(x, y) \<in> edges_of succs \<longleftrightarrow> y \<in> succs x"
  by (simp add: edges_of_def)

lemma reach_from_incl: "S \<subseteq> reach_from succs S"
  by (auto simp: reach_from_def)

lemma reach_from_mono: "S \<subseteq> T \<Longrightarrow> reach_from succs S \<subseteq> reach_from succs T"
  by (auto simp: reach_from_def)

lemma reach_from_closed: "x \<in> reach_from succs S \<Longrightarrow> y \<in> succs x \<Longrightarrow> y \<in> reach_from succs S"
  unfolding reach_from_def Image_iff edges_of_iff [symmetric]
  by (blast intro: rtrancl_into_rtrancl)

lemma reach_from_least:
  assumes "S \<subseteq> C" and "\<And>x y. x \<in> C \<Longrightarrow> y \<in> succs x \<Longrightarrow> y \<in> C"
  shows "reach_from succs S \<subseteq> C"
proof
  fix y assume "y \<in> reach_from succs S"
  then obtain x where "x \<in> S" and "(x, y) \<in> (edges_of succs)\<^sup>*"
    by (auto simp: reach_from_def)
  from this(2,1) show "y \<in> C"
    by (induction rule: rtrancl_induct) (use assms in auto)
qed

lemma reach_from_eqI:
  assumes "S \<subseteq> C" and "C \<subseteq> reach_from succs S"
    and "\<And>x y. x \<in> C \<Longrightarrow> y \<in> succs x \<Longrightarrow> y \<in> C"
  shows "reach_from succs S = C"
  using assms reach_from_least [of S C succs] by blast

lemma reach_from_grow:
  assumes "S \<subseteq> T" and "T \<subseteq> S \<union> (\<Union>x \<in> S. succs x)"
  shows "reach_from succs T = reach_from succs S"
proof
  have "T \<subseteq> reach_from succs S"
    using assms(2) reach_from_incl [of S succs] by (blast intro: reach_from_closed)
  then show "reach_from succs T \<subseteq> reach_from succs S"
    by (rule reach_from_least) (rule reach_from_closed)
qed (rule reach_from_mono [OF assms(1)])

lemma reach_from_induct [consumes 1, case_names base step]:
  assumes "y \<in> reach_from succs S"
    and "\<And>x. x \<in> S \<Longrightarrow> P x"
    and "\<And>x y. x \<in> reach_from succs S \<Longrightarrow> P x \<Longrightarrow> y \<in> succs x \<Longrightarrow> P y"
  shows "P y"
proof -
  have "reach_from succs S \<subseteq> {x \<in> reach_from succs S. P x}"
  proof (rule reach_from_least)
    show "S \<subseteq> {x \<in> reach_from succs S. P x}"
      using assms(2) reach_from_incl [of S succs] by blast
    show "y \<in> {x \<in> reach_from succs S. P x}"
      if "x \<in> {x \<in> reach_from succs S. P x}" "y \<in> succs x" for x y
      using that assms(3) reach_from_closed [of x succs S y] by blast
  qed
  with assms(1) show ?thesis by blast
qed

section \<open>Dictionaries with list values\<close>

text \<open>
  A Python dictionary is an association list in insertion order. \<open>dict_append\<close> is
  \<^verbatim>\<open>d.setdefault(k, []).append(v)\<close>.
\<close>

fun dict_append :: "'k \<Rightarrow> 'v \<Rightarrow> ('k \<times> 'v list) list \<Rightarrow> ('k \<times> 'v list) list" where
  "dict_append k v [] = [(k, [v])]"
| "dict_append k v ((k', vs) # d) =
     (if k = k' then (k', vs @ [v]) # d else (k', vs) # dict_append k v d)"

definition dict_get_list :: "('k \<times> 'v list) list \<Rightarrow> 'k \<Rightarrow> 'v list" where
  "dict_get_list d k = (case map_of d k of None \<Rightarrow> [] | Some vs \<Rightarrow> vs)"

lemma dict_get_append [dict_simps]:
  "dict_get_list (dict_append k v d) k' =
     (if k = k' then dict_get_list d k @ [v] else dict_get_list d k')"
  by (induction k v d rule: dict_append.induct) (auto simp: dict_get_list_def)

lemma dict_get_Nil [dict_simps]: "dict_get_list [] k = []"
  by (simp add: dict_get_list_def)

lemma keys_dict_append [dict_simps]: "fst ` set (dict_append k v d) = insert k (fst ` set d)"
  by (induction k v d rule: dict_append.induct) auto

lemma dict_get_notin: "k \<notin> fst ` set d \<Longrightarrow> dict_get_list d k = []"
  by (simp add: dict_get_list_def map_of_eq_None_iff [symmetric])

end
