(* ===== verification/Models.thy ===== *)
theory Models
  imports Prelude
begin

text \<open>
  The relational data model (\<^verbatim>\<open>backend/models_pkg\<close>) and the errors (\<^verbatim>\<open>backend/errors.py\<close>).
  Every table is a list of rows in the order a query without \<^verbatim>\<open>ORDER BY\<close> returns them; the record
  \<open>db\<close> is the database one session sees. \<^verbatim>\<open>session.get(T, key)\<close> is a first-match lookup by primary
  key, and the locale \<open>table\<close> states what the services rely on: the row found is a row of the
  table with that key, and with distinct keys the lookup is exact.
\<close>

section \<open>Enumerations\<close>

datatype DeviceType =
    BACKBONE_GATEWAY | POP | CORE_SITE | CORE_ROUTER | EDGE_ROUTER | AON_SWITCH | OLT | ONT
  | AON_CPE | SPLITTER | HOP | NVT | ODF | BUSINESS_ONT

datatype Status = UP | DOWN | DEGRADED | BLOCKING

datatype DeviceRole = ACTIVE | PASSIVE | ALWAYS_ONLINE

datatype SignalStatus = SIG_OK | SIG_WARNING | SIG_CRITICAL | NO_SIGNAL

datatype InterfaceRole = ROLE_MANAGEMENT | ROLE_P2P_UPLINK | ROLE_ACCESS

datatype PortRole = PORT_ACCESS | PORT_UPLINK | PORT_PON | PORT_TRUNK

datatype AdminStatus = ADMIN_UP | ADMIN_DOWN

datatype LinkType = FIBER | P2P | MGMT

datatype MacEntryType = MAC_DYNAMIC | MAC_STATIC

section \<open>Rows\<close>

record device =
  dev_id :: ident
  dev_name :: string
  dev_type :: DeviceType
  dev_status :: Status
  dev_provisioned :: bool
  dev_admin_override_status :: "Status option"
  dev_tx_power_dbm :: "pyfloat option"
  dev_sensitivity_min_dbm :: "pyfloat option"
  dev_insertion_loss_db :: "pyfloat option"
  dev_capacity :: "int option"
  dev_signal_power_dbm :: "pyfloat option"
  dev_signal_margin_db :: "pyfloat option"
  dev_attenuation_db :: "pyfloat option"
  dev_signal_status :: "SignalStatus option"
  dev_parent_container_id :: "ident option"
  dev_slot_id :: "string option"
  dev_tariff_id :: "int option"
  dev_vrf_id :: "int option"
  dev_hardware_model_id :: "int option"

record iface =
  if_id :: ident
  if_device_id :: ident
  if_name :: string
  if_role :: "InterfaceRole option"
  if_admin_status :: AdminStatus
  if_capacity :: "int option"
  if_port_role :: "PortRole option"
  if_bridge_domain_id :: "int option"
  if_profile_name :: "string option"
  if_mac_address :: "string option"

record link =
  ln_id :: ident
  ln_a_interface_id :: ident
  ln_b_interface_id :: ident
  ln_status :: Status
  ln_kind :: LinkType
  ln_admin_override_status :: "Status option"
  ln_protection_mode :: "string option"
  ln_length_km :: "pyfloat option"
  ln_physical_medium_id :: "int option"

record medium =
  pm_id :: int
  pm_code :: string
  pm_name :: string
  pm_kind :: string
  pm_max_range_km :: "pyfloat option"

record interface_address =
  ia_id :: int
  ia_interface_id :: ident
  ia_ip :: string
  ia_prefix_len :: int
  ia_vrf_id :: "int option"
  ia_prefix_id :: "int option"

record vrf =
  vrf_id :: int
  vrf_name :: string

record ip_prefix =
  px_id :: int
  px_prefix :: string
  px_vrf_id :: int
  px_description :: "string option"

record route =
  rt_id :: "int option"
  rt_vrf_id :: int
  rt_prefix :: string
  rt_next_hop :: "string option"
  rt_interface_id :: "ident option"
  rt_admin_distance :: int
  rt_metric :: int

record neighbor =
  nb_interface_id :: ident
  nb_ip_address :: string
  nb_mac_address :: string

record bridge_domain =
  bd_id :: int
  bd_name :: string
  bd_device_id :: ident

record mac_entry =
  me_mac_address :: string
  me_interface_id :: ident
  me_bridge_domain_id :: int
  me_type :: MacEntryType

record hardware_model =
  hm_id :: int
  hm_device_type :: DeviceType
  hm_vendor :: string
  hm_model :: string
  hm_version :: string
  hm_capacity_gbps :: "pyfloat option"
  hm_tx_power_dbm :: "pyfloat option"
  hm_sensitivity_min_dbm :: "pyfloat option"
  hm_insertion_loss_db :: "pyfloat option"
  hm_meta_source :: "string option"

record port_profile =
  pp_hardware_model_id :: int
  pp_name :: string
  pp_count :: int
  pp_speed_gbps :: "pyfloat option"
  pp_role :: "string option"
  pp_media :: "string option"
  pp_port_role :: "PortRole option"
  pp_max_subscribers :: "int option"

record db =
  devices :: "device list"
  interfaces :: "iface list"
  links :: "link list"
  media :: "medium list"
  addresses :: "interface_address list"
  vrfs :: "vrf list"
  prefixes :: "ip_prefix list"
  routes :: "route list"
  neighbors :: "neighbor list"
  bridge_domains :: "bridge_domain list"
  mac_entries :: "mac_entry list"
  hardware_models :: "hardware_model list"
  port_profiles :: "port_profile list"

definition empty_db :: db where
  "empty_db = \<lparr>devices = [], interfaces = [], links = [], media = [], addresses = [], vrfs = [],
     prefixes = [], routes = [], neighbors = [], bridge_domains = [], mac_entries = [],
     hardware_models = [], port_profiles = []\<rparr>"

text \<open>Rows with the column defaults of the models.\<close>

definition Device :: "ident \<Rightarrow> DeviceType \<Rightarrow> device" where
  "Device i t = \<lparr>dev_id = i, dev_name = i, dev_type = t, dev_status = UP, dev_provisioned = False,
     dev_admin_override_status = None, dev_tx_power_dbm = None, dev_sensitivity_min_dbm = None,
     dev_insertion_loss_db = None, dev_capacity = None, dev_signal_power_dbm = None,
     dev_signal_margin_db = None, dev_attenuation_db = None, dev_signal_status = None,
     dev_parent_container_id = None, dev_slot_id = None, dev_tariff_id = None,
     dev_vrf_id = None, dev_hardware_model_id = None\<rparr>"

definition Interface :: "ident \<Rightarrow> ident \<Rightarrow> string \<Rightarrow> iface" where
  "Interface i d n = \<lparr>if_id = i, if_device_id = d, if_name = n, if_role = None,
     if_admin_status = ADMIN_UP, if_capacity = None, if_port_role = None,
     if_bridge_domain_id = None, if_profile_name = None, if_mac_address = None\<rparr>"

definition Link :: "ident \<Rightarrow> ident \<Rightarrow> ident \<Rightarrow> link" where
  "Link i a b = \<lparr>ln_id = i, ln_a_interface_id = a, ln_b_interface_id = b, ln_status = UP,
     ln_kind = FIBER, ln_admin_override_status = None, ln_protection_mode = None,
     ln_length_km = None, ln_physical_medium_id = None\<rparr>"

lemmas row_defs = Device_def Interface_def Link_def empty_db_def

definition derive_role :: "device \<Rightarrow> DeviceRole" where
  "derive_role d =
     (if dev_type d \<in> {SPLITTER, HOP, NVT, ODF} then PASSIVE
      else if dev_type d \<in> {BACKBONE_GATEWAY, POP, CORE_SITE} then ALWAYS_ONLINE
      else ACTIVE)"

section \<open>Lookup by primary key\<close>

definition get_device :: "db \<Rightarrow> ident \<Rightarrow> device option" where
  "get_device s k = find (\<lambda>r. dev_id r = k) (devices s)"

definition get_interface :: "db \<Rightarrow> ident \<Rightarrow> iface option" where
  "get_interface s k = find (\<lambda>r. if_id r = k) (interfaces s)"

definition get_link :: "db \<Rightarrow> ident \<Rightarrow> link option" where
  "get_link s k = find (\<lambda>r. ln_id r = k) (links s)"

definition get_medium :: "db \<Rightarrow> int \<Rightarrow> medium option" where
  "get_medium s k = find (\<lambda>r. pm_id r = k) (media s)"

definition get_hardware_model :: "db \<Rightarrow> int \<Rightarrow> hardware_model option" where
  "get_hardware_model s k = find (\<lambda>r. hm_id r = k) (hardware_models s)"

lemmas get_defs = get_device_def get_interface_def get_link_def get_medium_def
  get_hardware_model_def

locale table =
  fixes rows :: "'s \<Rightarrow> 'r list" and key :: "'r \<Rightarrow> 'k" and get :: "'s \<Rightarrow> 'k \<Rightarrow> 'r option"
  assumes get_find: "get s k = find (\<lambda>r. key r = k) (rows s)"
begin

lemma get_SomeD: "get s k = Some r \<Longrightarrow> r \<in> set (rows s) \<and> key r = k"
  by (auto simp: get_find dest: find_SomeD)

lemma get_None_iff: "get s k = None \<longleftrightarrow> k \<notin> key ` set (rows s)"
  by (auto simp: get_find find_None_iff')

lemma get_exact: "distinct (map key (rows s)) \<Longrightarrow> r \<in> set (rows s) \<Longrightarrow> get s (key r) = Some r"
  by (simp add: get_find find_key_iff)

lemma get_key: "get s k = Some r \<Longrightarrow> key r = k"
  by (simp add: get_SomeD)

lemma get_cong: "rows s = rows t \<Longrightarrow> get s k = get t k"
  by (simp add: get_find)

end

interpretation dev: table devices dev_id get_device
  by unfold_locales (simp add: get_device_def)

interpretation ifc: table interfaces if_id get_interface
  by unfold_locales (simp add: get_interface_def)

interpretation lnk: table links ln_id get_link
  by unfold_locales (simp add: get_link_def)

interpretation med: table media pm_id get_medium
  by unfold_locales (simp add: get_medium_def)

interpretation hwm: table hardware_models hm_id get_hardware_model
  by unfold_locales (simp add: get_hardware_model_def)

text \<open>The key constraints of the tables the topology services read.\<close>

definition wf_db :: "db \<Rightarrow> bool" where
  "wf_db s \<longleftrightarrow> distinct (map dev_id (devices s)) \<and> distinct (map if_id (interfaces s)) \<and>
     distinct (map ln_id (links s))"

lemma wf_db_get_device: "wf_db s \<Longrightarrow> d \<in> set (devices s) \<Longrightarrow> get_device s (dev_id d) = Some d"
  by (simp add: wf_db_def dev.get_exact)

lemma wf_db_device_eq:
  "wf_db s \<Longrightarrow> d \<in> set (devices s) \<Longrightarrow> get_device s (dev_id a) = Some a \<Longrightarrow> dev_id d = dev_id a \<Longrightarrow> d = a"
  by (metis option.inject wf_db_get_device)

lemma wf_db_get_interface:
  "wf_db s \<Longrightarrow> i \<in> set (interfaces s) \<Longrightarrow> get_interface s (if_id i) = Some i"
  by (simp add: wf_db_def ifc.get_exact)

lemma wf_db_get_link: "wf_db s \<Longrightarrow> l \<in> set (links s) \<Longrightarrow> get_link s (ln_id l) = Some l"
  by (simp add: wf_db_def lnk.get_exact)

text \<open>The device that owns an interface: the two lookups the services chain.\<close>

definition owner :: "db \<Rightarrow> ident \<Rightarrow> device option" where
  "owner s i = (case get_interface s i of None \<Rightarrow> None | Some r \<Rightarrow> get_device s (if_device_id r))"

lemma owner_SomeD: "owner s i = Some d \<Longrightarrow> d \<in> set (devices s)"
  by (auto simp: owner_def split: option.splits dest: dev.get_SomeD)

section \<open>Errors\<close>

datatype ErrorCode =
    INVALID_PROVISION_PATH | ALREADY_PROVISIONED | POOL_EXHAUSTED | DUPLICATE_MGMT_INTERFACE
  | INVALID_LINK_TYPE | POP_LINK_DISALLOWED | CONTAINER_REQUIRED | LINK_INVALID_PAIRING
  | LINK_INVALID_UPSTREAM | LINK_MULTIPLE_UPSTREAMS

record http_exception =
  status_code :: int
  detail :: string

definition http :: "int \<Rightarrow> string \<Rightarrow> http_exception" where
  "http n d = \<lparr>status_code = n, detail = d\<rparr>"

fun ErrorCode_value :: "ErrorCode \<Rightarrow> string" where
  "ErrorCode_value INVALID_PROVISION_PATH = ''INVALID_PROVISION_PATH''"
| "ErrorCode_value ALREADY_PROVISIONED = ''ALREADY_PROVISIONED''"
| "ErrorCode_value POOL_EXHAUSTED = ''POOL_EXHAUSTED''"
| "ErrorCode_value DUPLICATE_MGMT_INTERFACE = ''DUPLICATE_MGMT_INTERFACE''"
| "ErrorCode_value INVALID_LINK_TYPE = ''INVALID_LINK_TYPE''"
| "ErrorCode_value POP_LINK_DISALLOWED = ''POP_LINK_DISALLOWED''"
| "ErrorCode_value CONTAINER_REQUIRED = ''CONTAINER_REQUIRED''"
| "ErrorCode_value LINK_INVALID_PAIRING = ''LINK_INVALID_PAIRING''"
| "ErrorCode_value LINK_INVALID_UPSTREAM = ''LINK_INVALID_UPSTREAM''"
| "ErrorCode_value LINK_MULTIPLE_UPSTREAMS = ''LINK_MULTIPLE_UPSTREAMS''"

fun DEFAULT_STATUS :: "ErrorCode \<Rightarrow> int" where
  "DEFAULT_STATUS INVALID_PROVISION_PATH = 400"
| "DEFAULT_STATUS ALREADY_PROVISIONED = 409"
| "DEFAULT_STATUS POOL_EXHAUSTED = 409"
| "DEFAULT_STATUS DUPLICATE_MGMT_INTERFACE = 400"
| "DEFAULT_STATUS INVALID_LINK_TYPE = 400"
| "DEFAULT_STATUS POP_LINK_DISALLOWED = 400"
| "DEFAULT_STATUS CONTAINER_REQUIRED = 422"
| "DEFAULT_STATUS LINK_INVALID_PAIRING = 400"
| "DEFAULT_STATUS LINK_INVALID_UPSTREAM = 400"
| "DEFAULT_STATUS LINK_MULTIPLE_UPSTREAMS = 400"

text \<open>Every suffix the services pass is free of leading and trailing blanks, so \<^verbatim>\<open>strip()\<close> only
  matters for an empty suffix, which it removes together with the separating blank.\<close>

definition strip_detail :: "string \<Rightarrow> string" where
  "strip_detail s = rev (dropWhile (\<lambda>c. c = CHR '' '') (rev (dropWhile (\<lambda>c. c = CHR '' '') s)))"

definition raise_error :: "ErrorCode \<Rightarrow> string option \<Rightarrow> int option \<Rightarrow> http_exception" where
  "raise_error code suffix sc =
     \<lparr>status_code = (case sc of Some n \<Rightarrow> (if n \<noteq> 0 then n else DEFAULT_STATUS code)
                             | None \<Rightarrow> DEFAULT_STATUS code),
      detail = (case suffix of None \<Rightarrow> ErrorCode_value code
                | Some sfx \<Rightarrow> strip_detail (ErrorCode_value code @ '' '' @ sfx))\<rparr>"

end
