(* ===== verification/Link_Rules.thy ===== *)
theory Link_Rules
  imports Models
begin

text \<open>
  Link classification: the rule table of \<^verbatim>\<open>backend/link_rules.py\<close>, its second copy in
  \<^verbatim>\<open>backend/constants/link_types.py\<close> with the service \<^verbatim>\<open>link_classification_service.py\<close>, and the
  physical media each class admits.
\<close>

section \<open>Device classes\<close>

definition ROUTER_CLASS :: "DeviceType set" where
  "ROUTER_CLASS = {BACKBONE_GATEWAY, CORE_ROUTER, EDGE_ROUTER}"

definition PASSIVE_INLINE :: "DeviceType set" where
  "PASSIVE_INLINE = {SPLITTER, HOP, NVT, ODF}"

definition ONT_CLASS :: "DeviceType set" where
  "ONT_CLASS = {ONT, BUSINESS_ONT}"

lemmas class_defs = ROUTER_CLASS_def PASSIVE_INLINE_def ONT_CLASS_def

section \<open>Rules\<close>

record link_rule_result =
  rule_id :: string
  allowed :: bool
  link_class :: string

record rule_def =
  r_rule_id :: string
  r_allowed :: bool
  r_link_class :: string
  r_matcher :: "device \<Rightarrow> device \<Rightarrow> bool"

definition match_router_router :: "device \<Rightarrow> device \<Rightarrow> bool" where
  "match_router_router a b \<longleftrightarrow> dev_type a \<in> ROUTER_CLASS \<and> dev_type b \<in> ROUTER_CLASS"

definition match_olt_passive :: "device \<Rightarrow> device \<Rightarrow> bool" where
  "match_olt_passive a b \<longleftrightarrow> (dev_type a = OLT \<and> dev_type b \<in> PASSIVE_INLINE) \<or>
     (dev_type b = OLT \<and> dev_type a \<in> PASSIVE_INLINE)"

definition match_passive_passive :: "device \<Rightarrow> device \<Rightarrow> bool" where
  "match_passive_passive a b \<longleftrightarrow> dev_type a \<in> PASSIVE_INLINE \<and> dev_type b \<in> PASSIVE_INLINE"

definition match_passive_ont :: "device \<Rightarrow> device \<Rightarrow> bool" where
  "match_passive_ont a b \<longleftrightarrow> (dev_type a \<in> PASSIVE_INLINE \<and> dev_type b \<in> ONT_CLASS) \<or>
     (dev_type b \<in> PASSIVE_INLINE \<and> dev_type a \<in> ONT_CLASS)"

definition match_olt_ont_direct :: "device \<Rightarrow> device \<Rightarrow> bool" where
  "match_olt_ont_direct a b \<longleftrightarrow> (dev_type a = OLT \<and> dev_type b \<in> ONT_CLASS) \<or>
     (dev_type b = OLT \<and> dev_type a \<in> ONT_CLASS)"

definition match_aon_switch_cpe :: "device \<Rightarrow> device \<Rightarrow> bool" where
  "match_aon_switch_cpe a b \<longleftrightarrow> (dev_type a = AON_SWITCH \<and> dev_type b = AON_CPE) \<or>
     (dev_type b = AON_SWITCH \<and> dev_type a = AON_CPE)"

definition match_aon_switch_router :: "device \<Rightarrow> device \<Rightarrow> bool" where
  "match_aon_switch_router a b \<longleftrightarrow> (dev_type a = AON_SWITCH \<and> dev_type b \<in> ROUTER_CLASS) \<or>
     (dev_type b = AON_SWITCH \<and> dev_type a \<in> ROUTER_CLASS)"

definition match_olt_router :: "device \<Rightarrow> device \<Rightarrow> bool" where
  "match_olt_router a b \<longleftrightarrow> (dev_type a = OLT \<and> dev_type b \<in> ROUTER_CLASS) \<or>
     (dev_type b = OLT \<and> dev_type a \<in> ROUTER_CLASS)"

definition match_active_passive_invalid :: "device \<Rightarrow> device \<Rightarrow> bool" where
  "match_active_passive_invalid a b \<longleftrightarrow>
     (dev_type a \<in> PASSIVE_INLINE \<and> dev_type b \<in> ROUTER_CLASS \<union> {AON_SWITCH, AON_CPE}) \<or>
     (dev_type b \<in> PASSIVE_INLINE \<and> dev_type a \<in> ROUTER_CLASS \<union> {AON_SWITCH, AON_CPE})"

definition match_ont_ont_invalid :: "device \<Rightarrow> device \<Rightarrow> bool" where
  "match_ont_ont_invalid a b \<longleftrightarrow> dev_type a \<in> ONT_CLASS \<and> dev_type b \<in> ONT_CLASS"

lemmas match_defs = match_router_router_def match_olt_passive_def match_passive_passive_def
  match_passive_ont_def match_olt_ont_direct_def match_aon_switch_cpe_def
  match_aon_switch_router_def match_olt_router_def match_active_passive_invalid_def
  match_ont_ont_invalid_def

definition RuleDef :: "string \<Rightarrow> bool \<Rightarrow> string \<Rightarrow> (device \<Rightarrow> device \<Rightarrow> bool) \<Rightarrow> rule_def" where
  "RuleDef i ok c m = \<lparr>r_rule_id = i, r_allowed = ok, r_link_class = c, r_matcher = m\<rparr>"

definition RULES :: "rule_def list" where
  "RULES =
    [RuleDef ''L1'' True ''routed_p2p'' match_router_router,
     RuleDef ''L2'' True ''optical_segment'' match_olt_passive,
     RuleDef ''L3'' True ''optical_segment'' match_passive_passive,
     RuleDef ''L4'' True ''optical_termination'' match_passive_ont,
     RuleDef ''L5'' True ''optical_segment'' match_olt_ont_direct,
     RuleDef ''L6'' True ''access_edge'' match_aon_switch_cpe,
     RuleDef ''L6A'' True ''access_uplink_aon'' match_aon_switch_router,
     RuleDef ''L6B'' True ''access_uplink_olt'' match_olt_router,
     RuleDef ''L7'' False ''mixed_invalid'' match_active_passive_invalid,
     RuleDef ''L8'' False ''peer_invalid'' match_ont_ont_invalid]"

text \<open>The rule table of \<^verbatim>\<open>constants/link_types.py\<close>: other order, other uplink class.\<close>

definition LINK_TYPE_RULES :: "rule_def list" where
  "LINK_TYPE_RULES =
    [RuleDef ''L1'' True ''routed_p2p'' match_router_router,
     RuleDef ''L2'' True ''optical_segment'' match_olt_passive,
     RuleDef ''L3'' True ''optical_segment'' match_passive_passive,
     RuleDef ''L4'' True ''optical_termination'' match_passive_ont,
     RuleDef ''L5'' True ''optical_segment'' match_olt_ont_direct,
     RuleDef ''L6A'' True ''access_uplink'' match_aon_switch_router,
     RuleDef ''L6B'' True ''access_uplink'' match_olt_router,
     RuleDef ''L6'' True ''access_edge'' match_aon_switch_cpe,
     RuleDef ''L7'' False ''mixed_invalid'' match_active_passive_invalid,
     RuleDef ''L8'' False ''peer_invalid'' match_ont_ont_invalid]"

fun first_rule :: "rule_def list \<Rightarrow> device \<Rightarrow> device \<Rightarrow> link_rule_result" where
  "first_rule [] a b = \<lparr>rule_id = ''L9'', allowed = False, link_class = ''reverse_invalid''\<rparr>"
| "first_rule (r # rs) a b =
     (if r_matcher r a b
      then \<lparr>rule_id = r_rule_id r, allowed = r_allowed r, link_class = r_link_class r\<rparr>
      else first_rule rs a b)"

definition classify_link :: "device \<Rightarrow> device \<Rightarrow> link_rule_result" where
  "classify_link a b = first_rule RULES a b"

definition classify :: "device \<Rightarrow> device \<Rightarrow> link_rule_result" where
  "classify a b = first_rule LINK_TYPE_RULES a b"

definition allowed_media_codes_for_class :: "string \<Rightarrow> string set" where
  "allowed_media_codes_for_class c =
     (if c = ''routed_p2p'' then {''SMF_G652D'', ''SMF_G657A1'', ''SMF_G657A2''}
      else if c \<in> {''optical_segment'', ''optical_termination''}
      then {''SMF_G652D'', ''SMF_G657A1'', ''SMF_G657A2'', ''MMF_OM3'', ''MMF_OM4''}
      else if c = ''access_edge'' then {''CAT6A_UTP''}
      else if c = ''access_uplink_olt'' then {''SMF_G652D'', ''SMF_G657A1'', ''SMF_G657A2''}
      else if c = ''access_uplink_aon''
      then {''SMF_G652D'', ''SMF_G657A1'', ''SMF_G657A2'', ''MMF_OM3'', ''MMF_OM4'', ''CAT6A_UTP''}
      else {})"

section \<open>Shared lemmas\<close>

lemma match_symmetric: "r \<in> set RULES \<union> set LINK_TYPE_RULES \<Longrightarrow> r_matcher r a b = r_matcher r b a"
  unfolding RULES_def LINK_TYPE_RULES_def by (auto simp: RuleDef_def match_defs)

lemma first_rule_symmetric:
  "(\<And>r. r \<in> set rs \<Longrightarrow> r_matcher r a b = r_matcher r b a) \<Longrightarrow> first_rule rs a b = first_rule rs b a"
  by (induction rs) auto

lemma first_rule_cong:
  "(\<And>r. r \<in> set rs \<Longrightarrow> r_matcher r a b = r_matcher r a' b') \<Longrightarrow> first_rule rs a b = first_rule rs a' b'"
  by (induction rs) auto

text \<open>The result depends on the types of the two devices only.\<close>

lemma matcher_types:
  assumes "dev_type a = dev_type a'" "dev_type b = dev_type b'" "r \<in> set RULES \<union> set LINK_TYPE_RULES"
  shows "r_matcher r a b = r_matcher r a' b'"
  using assms unfolding RULES_def LINK_TYPE_RULES_def by (auto simp: RuleDef_def match_defs)

lemma switch_cpe_exclusive:
  "match_aon_switch_cpe a b \<Longrightarrow> \<not> match_aon_switch_router a b \<and> \<not> match_olt_router a b"
  by (auto simp: match_defs class_defs)

lemma link_has_media:
  "allowed (classify_link a b) \<longleftrightarrow> allowed_media_codes_for_class (link_class (classify_link a b)) \<noteq> {}"
  by (simp add: classify_link_def RULES_def RuleDef_def allowed_media_codes_for_class_def)

lemma classify_agrees:
  "allowed (classify a b) = allowed (classify_link a b)"
  "link_class (classify a b) =
     (if link_class (classify_link a b) \<in> {''access_uplink_aon'', ''access_uplink_olt''}
      then ''access_uplink'' else link_class (classify_link a b))"
  "rule_id (classify a b) = rule_id (classify_link a b)"
  using switch_cpe_exclusive [of a b]
  by (auto simp: classify_link_def classify_def RULES_def LINK_TYPE_RULES_def RuleDef_def)

section \<open>Properties\<close>

text \<open>Classification does not depend on the order of the two endpoints: a link drawn from
  \<open>a\<close> to \<open>b\<close> gets the rule, the verdict and the class of the link drawn from \<open>b\<close> to \<open>a\<close>, in both
  classifiers.\<close>

theorem classify_symmetric:
  "classify_link a b = classify_link b a \<and> classify a b = classify b a"
  unfolding classify_link_def classify_def
  by (intro conjI first_rule_symmetric match_symmetric) auto

text \<open>The two classifiers agree. The rule tables of \<^verbatim>\<open>link_rules.py\<close> and of
  \<^verbatim>\<open>constants/link_types.py\<close> list the rules in different orders, yet every pair of devices gets
  the same rule and the same verdict from both, and the same class up to the two uplink classes,
  which the second table merges into one.\<close>

theorem classifiers_agree:
  "rule_id (classify a b) = rule_id (classify_link a b) \<and>
   allowed (classify a b) = allowed (classify_link a b) \<and>
   link_class (classify a b) =
     (if link_class (classify_link a b) \<in> {''access_uplink_aon'', ''access_uplink_olt''}
      then ''access_uplink'' else link_class (classify_link a b))"
  by (intro conjI classify_agrees)

text \<open>A pair of devices may be linked exactly when its class admits some physical medium: the
  rule table and the media table never contradict each other.\<close>

theorem allowed_iff_media:
  "allowed (classify_link a b) \<longleftrightarrow>
     allowed_media_codes_for_class (link_class (classify_link a b)) \<noteq> {}"
  by (rule link_has_media)

end
