(* ===== verification/Link_State.thy ===== *)
theory Link_State
  imports Link_Rules
begin

text \<open>
  The state of a link: \<^verbatim>\<open>services/status_link.py\<close> (effective status and passability),
  \<^verbatim>\<open>services/link_validator_service.py\<close> (physical viability) and the link helpers of
  \<^verbatim>\<open>backend/utils.py\<close>. The second session the services open reads the same database \<open>s\<close>; the
  environment variable for the Ethernet range is the parameter \<open>env_range\<close>.
\<close>

section \<open>Effective status\<close>

definition forced_down :: "device \<Rightarrow> bool" where
  "forced_down d \<longleftrightarrow> dev_admin_override_status d = Some DOWN"

text \<open>The row \<open>evaluate_link_status\<close> works on: by id, else by the endpoints in either order, else
  the only row of the table.\<close>

definition resolve_link_row :: "db \<Rightarrow> link \<Rightarrow> link option" where
  "resolve_link_row s l =
     (let a = ln_a_interface_id l; b = ln_b_interface_id l;
          by_id = (if ln_id l \<noteq> [] then get_link s (ln_id l) else None);
          by_ab = (if by_id = None \<and> a \<noteq> [] \<and> b \<noteq> []
                   then (case find (\<lambda>r. ln_a_interface_id r = a \<and> ln_b_interface_id r = b) (links s) of
                           Some r \<Rightarrow> Some r
                         | None \<Rightarrow> find (\<lambda>r. ln_a_interface_id r = b \<and> ln_b_interface_id r = a) (links s))
                   else by_id)
      in if by_ab = None then (case links s of [r] \<Rightarrow> Some r | _ \<Rightarrow> None) else by_ab)"

definition evaluate_link_status :: "db \<Rightarrow> link \<Rightarrow> Status" where
  "evaluate_link_status s l =
     (case resolve_link_row s l of
        None \<Rightarrow> UP
      | Some lk \<Rightarrow>
          (case ln_admin_override_status lk of
             Some ov \<Rightarrow> ov
           | None \<Rightarrow>
               (case (get_interface s (ln_a_interface_id lk), get_interface s (ln_b_interface_id lk)) of
                  (Some ia, Some ib) \<Rightarrow>
                    (case (get_device s (if_device_id ia), get_device s (if_device_id ib)) of
                       (Some da, Some d_b) \<Rightarrow>
                         if forced_down da \<or> forced_down d_b then DOWN else ln_status lk
                     | _ \<Rightarrow> ln_status lk)
                | _ \<Rightarrow> ln_status lk)))"

section \<open>Passability\<close>

definition is_link_passable :: "db \<Rightarrow> link \<Rightarrow> bool" where
  "is_link_passable s l =
     (let fresh = (if ln_admin_override_status l = None \<and> ln_id l \<noteq> []
                   then (case get_link s (ln_id l) of
                           None \<Rightarrow> None | Some r \<Rightarrow> ln_admin_override_status r)
                   else None)
      in if fresh = Some DOWN then False
         else if fresh = Some UP then True
         else case ln_admin_override_status l of
                Some ov \<Rightarrow> ov = UP
              | None \<Rightarrow>
                  if ln_status l \<noteq> UP then False
                  else let lk = (case (if ln_id l \<noteq> [] then get_link s (ln_id l) else None) of
                                   None \<Rightarrow> l | Some r \<Rightarrow> r)
                       in case (get_interface s (ln_a_interface_id lk),
                                get_interface s (ln_b_interface_id lk)) of
                            (Some ia, Some ib) \<Rightarrow>
                              (case (get_device s (if_device_id ia), get_device s (if_device_id ib)) of
                                 (Some da, Some d_b) \<Rightarrow> \<not> forced_down da \<and> \<not> forced_down d_b
                               | _ \<Rightarrow> False)
                          | _ \<Rightarrow> False)"

section \<open>Physical viability\<close>

definition ETHERNET_MAX_RANGE_KM_DEFAULT :: pyfloat where
  "ETHERNET_MAX_RANGE_KM_DEFAULT = 10"

definition is_optical_context :: "db \<Rightarrow> link \<Rightarrow> bool" where
  "is_optical_context s l =
     (case (get_interface s (ln_a_interface_id l), get_interface s (ln_b_interface_id l)) of
        (Some ia, Some ib) \<Rightarrow>
          (case (get_device s (if_device_id ia), get_device s (if_device_id ib)) of
             (Some da, Some d_b) \<Rightarrow>
               dev_type da \<in> {ONT, BUSINESS_ONT} \<or> dev_type d_b \<in> {ONT, BUSINESS_ONT}
           | _ \<Rightarrow> False)
      | _ \<Rightarrow> False)"

definition is_link_physically_viable :: "pyfloat option \<Rightarrow> db \<Rightarrow> link \<Rightarrow> bool" where
  "is_link_physically_viable env_range s l =
     (case ln_physical_medium_id l of
        Some mid \<Rightarrow>
          (case get_medium s mid of
             None \<Rightarrow> False
           | Some pm \<Rightarrow>
               (case (get_interface s (ln_a_interface_id l), get_interface s (ln_b_interface_id l)) of
                  (Some ia, Some ib) \<Rightarrow>
                    (case (get_device s (if_device_id ia), get_device s (if_device_id ib)) of
                       (Some da, Some d_b) \<Rightarrow>
                         if pm_code pm \<notin> allowed_media_codes_for_class (link_class (classify_link da d_b))
                         then False
                         else if pm_kind pm \<noteq> ''optical''
                         then (case pm_max_range_km pm of
                                 None \<Rightarrow> True
                               | Some r \<Rightarrow> (case ln_length_km l of None \<Rightarrow> True | Some len \<Rightarrow> len \<le> r))
                         else True
                     | _ \<Rightarrow> False)
                | _ \<Rightarrow> False))
      | None \<Rightarrow>
          if is_optical_context s l then True
          else (let max_km = (case env_range of None \<Rightarrow> ETHERNET_MAX_RANGE_KM_DEFAULT | Some r \<Rightarrow> r)
                in case ln_length_km l of None \<Rightarrow> True | Some len \<Rightarrow> len \<le> max_km))"

section \<open>Link helpers\<close>

definition derive_dev :: "ident \<Rightarrow> ident" where
  "derive_dev i = (if endswith i ''-if0'' then drop_tail 4 i else i)"

definition canonical_link_id :: "ident \<Rightarrow> ident \<Rightarrow> ident" where
  "canonical_link_id a b =
     (let (a_id, b_id) = (if a > b then (b, a) else (a, b))
      in derive_dev a_id @ ''__'' @ derive_dev b_id)"

text \<open>\<^verbatim>\<open>ensure_default_interface\<close> returns the interface, creating \<^verbatim>\<open><device>-if0\<close> on demand; \<open>mac\<close> is
  the address \<^verbatim>\<open>next_mac()\<close> hands out.\<close>

definition ensure_default_interface :: "db \<Rightarrow> ident \<Rightarrow> string \<Rightarrow> iface option \<times> db" where
  "ensure_default_interface s i mac =
     (case get_interface s i of
        Some r \<Rightarrow> (Some r, s)
      | None \<Rightarrow>
          if endswith i ''-if0''
          then (case get_device s (drop_tail 4 i) of
                  Some d \<Rightarrow>
                    (let r = (Interface i (dev_id d) ''if0'')\<lparr>if_mac_address := Some mac\<rparr>
                     in (Some r, s\<lparr>interfaces := interfaces s @ [r]\<rparr>))
                | None \<Rightarrow> (None, s))
          else (None, s))"

text \<open>The message of a rejected parent is part of the result, as in the source.\<close>

fun DeviceType_name :: "DeviceType \<Rightarrow> string" where
  "DeviceType_name BACKBONE_GATEWAY = ''BACKBONE_GATEWAY''"
| "DeviceType_name POP = ''POP''"
| "DeviceType_name CORE_SITE = ''CORE_SITE''"
| "DeviceType_name CORE_ROUTER = ''CORE_ROUTER''"
| "DeviceType_name EDGE_ROUTER = ''EDGE_ROUTER''"
| "DeviceType_name AON_SWITCH = ''AON_SWITCH''"
| "DeviceType_name OLT = ''OLT''"
| "DeviceType_name ONT = ''ONT''"
| "DeviceType_name AON_CPE = ''AON_CPE''"
| "DeviceType_name SPLITTER = ''SPLITTER''"
| "DeviceType_name HOP = ''HOP''"
| "DeviceType_name NVT = ''NVT''"
| "DeviceType_name ODF = ''ODF''"
| "DeviceType_name BUSINESS_ONT = ''BUSINESS_ONT''"

definition DeviceType_str :: "DeviceType \<Rightarrow> string" where
  "DeviceType_str t = ''DeviceType.'' @ DeviceType_name t"

definition validate_parent_child :: "db \<Rightarrow> DeviceType \<Rightarrow> ident option \<Rightarrow> bool \<times> string option" where
  "validate_parent_child s t parent_id =
     (let parent = (case parent_id of None \<Rightarrow> None | Some p \<Rightarrow> get_device s p)
      in if t \<in> {POP, CORE_SITE} then
           (if parent_id \<noteq> None then (False, Some (DeviceType_str t @ '' must not have a parent''))
            else (True, None))
         else if t \<in> {BACKBONE_GATEWAY, CORE_ROUTER} then
           (if truthy parent_id then
              (case parent of
                 None \<Rightarrow> (False, Some ''Parent device not found'')
               | Some p \<Rightarrow> if dev_type p \<noteq> CORE_SITE
                           then (False, Some (DeviceType_str t @ '' parent must be CORE_SITE''))
                           else (True, None))
            else (True, None))
         else if t \<in> {OLT, AON_SWITCH} then
           (if truthy parent_id then
              (case parent of
                 None \<Rightarrow> (False, Some ''Parent device not found'')
               | Some p \<Rightarrow> if dev_type p \<noteq> POP
                           then (False, Some (DeviceType_str t @ '' parent must be POP''))
                           else (True, None))
            else (True, None))
         else if t = EDGE_ROUTER then
           (if truthy parent_id then
              (case parent of
                 None \<Rightarrow> (False, Some ''Parent device not found'')
               | Some p \<Rightarrow> if dev_type p \<notin> {POP, CORE_SITE}
                           then (False, Some ''EDGE_ROUTER parent must be POP or CORE_SITE'')
                           else (True, None))
            else (True, None))
         else if t \<in> {SPLITTER, HOP, NVT, ODF} then
           (if truthy parent_id \<and> parent = None then (False, Some ''Parent container not found'')
            else (True, None))
         else if t \<in> {ONT, BUSINESS_ONT, AON_CPE} then
           (if truthy parent_id then
              (case parent of
                 None \<Rightarrow> (False, Some ''Parent device not found'')
               | Some p \<Rightarrow> if dev_type p \<in> {POP, CORE_SITE}
                           then (False, Some (DeviceType_str t @
                                  '' must not be directly parented by container (POP/CORE_SITE)''))
                           else (True, None))
            else (True, None))
         else (True, None))"

section \<open>Passability of a stored link\<close>

lemma link_passable_row:
  assumes "wf_db s" "l \<in> set (links s)"
  shows "is_link_passable s l \<longleftrightarrow>
    (case ln_admin_override_status l of
       Some ov \<Rightarrow> ov = UP
     | None \<Rightarrow> ln_status l = UP \<and>
         (\<exists>da d_b. owner s (ln_a_interface_id l) = Some da \<and> owner s (ln_b_interface_id l) = Some d_b \<and>
            \<not> forced_down da \<and> \<not> forced_down d_b))"
proof -
  have "get_link s (ln_id l) = Some l" by (rule wf_db_get_link) fact+
  then show ?thesis
    by (auto simp: is_link_passable_def owner_def Let_def split: option.splits)
qed

lemma evaluate_link_row:
  assumes "wf_db s" "l \<in> set (links s)" "ln_id l \<noteq> []"
  shows "evaluate_link_status s l =
    (case ln_admin_override_status l of
       Some ov \<Rightarrow> ov
     | None \<Rightarrow> if (\<exists>da d_b. owner s (ln_a_interface_id l) = Some da \<and> owner s (ln_b_interface_id l) = Some d_b \<and>
                     (forced_down da \<or> forced_down d_b))
               then DOWN else ln_status l)"
proof -
  have "get_link s (ln_id l) = Some l" by (rule wf_db_get_link) fact+
  then have "resolve_link_row s l = Some l" using assms(3) by (simp add: resolve_link_row_def)
  then show ?thesis by (auto simp: evaluate_link_status_def owner_def split: option.splits)
qed

section \<open>Properties\<close>

text \<open>Passability and effective status of a stored link agree: a link is passable exactly when its
  effective status is up and either an administrative override says so or both end devices can be
  found. A device forced down therefore blocks every link without an override.\<close>

theorem link_passable_iff_effective_up:
  assumes "wf_db s" "l \<in> set (links s)" "ln_id l \<noteq> []"
  shows "is_link_passable s l \<longleftrightarrow> evaluate_link_status s l = UP \<and>
     (ln_admin_override_status l \<noteq> None \<or>
      (owner s (ln_a_interface_id l) \<noteq> None \<and> owner s (ln_b_interface_id l) \<noteq> None))"
  unfolding link_passable_row [OF assms(1,2)] evaluate_link_row [OF assms]
  by (cases "ln_admin_override_status l") auto

definition demo_link_db :: db where
  "demo_link_db = empty_db\<lparr>
     devices := [(Device ''a'' OLT)\<lparr>dev_admin_override_status := Some DOWN\<rparr>, Device ''b'' CORE_ROUTER],
     interfaces := [Interface ''a-1'' ''a'' ''1'', Interface ''b-1'' ''b'' ''1''],
     links := [Link ''k'' ''a-1'' ''b-1'']\<rparr>"

theorem link_passable_iff_effective_up_witness:
  "\<not> is_link_passable demo_link_db (Link ''k'' ''a-1'' ''b-1'') \<and>
   evaluate_link_status demo_link_db (Link ''k'' ''a-1'' ''b-1'') = DOWN"
proof -
  have "wf_db demo_link_db" "Link ''k'' ''a-1'' ''b-1'' \<in> set (links demo_link_db)"
    "ln_id (Link ''k'' ''a-1'' ''b-1'') \<noteq> []"
    by (simp_all add: wf_db_def demo_link_db_def row_defs)
  from link_passable_iff_effective_up [OF this]
  have "is_link_passable demo_link_db (Link ''k'' ''a-1'' ''b-1'') \<Longrightarrow>
    evaluate_link_status demo_link_db (Link ''k'' ''a-1'' ''b-1'') = UP" by simp
  moreover have "evaluate_link_status demo_link_db (Link ''k'' ''a-1'' ''b-1'') = DOWN" by code_simp
  ultimately show ?thesis by auto
qed

end
