(* ===== verification/L3_Trace.thy ===== *)
theory L3_Trace
  imports Link_State
begin

text \<open>
  The L3 trace to a backbone anchor (\<^verbatim>\<open>services/dependency_resolver_trace.py\<close>). The nested \<^verbatim>\<open>_step\<close>
  is \<open>trace_step\<close>: it carries the visited set and the chain, and its choice of the next device is
  \<open>next_peer\<close>, with one function per kind of device. A device of the trace other than the first is a
  row of the database, so the unvisited rows shrink and the recursion ends; Python's recursion limit
  is not modelled.
\<close>

section \<open>Links and peers\<close>

record dep_check =
  dc_ok :: bool
  dc_reason :: "string option"
  dc_chain :: "ident list"

definition trace_link_passable :: "db \<Rightarrow> link \<Rightarrow> bool" where
  "trace_link_passable s l \<longleftrightarrow>
     (case ln_admin_override_status l of Some ov \<Rightarrow> ov = UP | None \<Rightarrow> ln_status l = UP) \<and>
     (case (get_interface s (ln_a_interface_id l), get_interface s (ln_b_interface_id l)) of
        (Some ia, Some ib) \<Rightarrow>
          list_all (\<lambda>r. case (if if_device_id r \<noteq> [] then get_device s (if_device_id r) else None) of
                          None \<Rightarrow> False | Some dv \<Rightarrow> \<not> forced_down dv) [ia, ib]
      | _ \<Rightarrow> False)"

definition links_on :: "db \<Rightarrow> ident \<Rightarrow> link list" where
  "links_on s i = filter (\<lambda>l. ln_a_interface_id l = i \<or> ln_b_interface_id l = i) (links s)"

definition far_end :: "link \<Rightarrow> ident \<Rightarrow> ident" where
  "far_end l i = (if ln_a_interface_id l = i then ln_b_interface_id l else ln_a_interface_id l)"

definition peer_device :: "db \<Rightarrow> ident \<Rightarrow> device option" where
  "peer_device s i =
     (case get_interface s i of
        None \<Rightarrow> None
      | Some r \<Rightarrow> if if_device_id r \<noteq> [] then get_device s (if_device_id r) else None)"

definition resolve_peer_via_if :: "db \<Rightarrow> ident \<Rightarrow> string option \<Rightarrow> device option" where
  "resolve_peer_via_if s i expect_ip =
     (let ls = filter (trace_link_passable s) (links_on s i)
      in if ls = [] then None
         else let matching = (case expect_ip of
                    None \<Rightarrow> []
                  | Some ip \<Rightarrow> filter (\<lambda>l. far_end l i \<noteq> [] \<and>
                       list_ex (\<lambda>a. ia_interface_id a = far_end l i \<and> ia_ip a = ip) (addresses s)) ls);
                  chosen = hd (sort_key ln_id (if matching \<noteq> [] then matching else ls))
              in peer_device s (far_end chosen i))"

definition L3_ROUTERS :: "DeviceType set" where
  "L3_ROUTERS = {CORE_ROUTER, EDGE_ROUTER}"

definition upstream_candidates :: "db \<Rightarrow> device \<Rightarrow> (int \<times> device) list" where
  "upstream_candidates s dev =
     concat (map (\<lambda>i. concat (map (\<lambda>l.
        (let p = far_end l (if_id i)
         in if p = [] then []
            else case peer_device s p of
                   None \<Rightarrow> []
                 | Some pd \<Rightarrow>
                     if dev_type pd \<in> {CORE_ROUTER, EDGE_ROUTER, BACKBONE_GATEWAY} then [(1, pd)]
                     else if dev_type pd \<notin> L3_ROUTERS then [(2, pd)] else []))
        (filter (trace_link_passable s) (links_on s (if_id i)))))
      (filter (\<lambda>i. if_device_id i = dev_id dev) (interfaces s)))"

definition access_peer :: "db \<Rightarrow> device \<Rightarrow> string + device" where
  "access_peer s dev =
     (if filter (\<lambda>i. if_device_id i = dev_id dev) (interfaces s) = [] then Inl ''no_interfaces''
      else let cands = upstream_candidates s dev
           in if cands = [] then Inl ''no_upstream_router''
              else let peer = snd (hd (sort_key fst cands))
                   in if forced_down peer then Inl ''peer_forced_down'' else Inr peer)"

fun eligible_routes :: "db \<Rightarrow> device \<Rightarrow> route list \<Rightarrow> string + route list" where
  "eligible_routes s dev [] = Inr []"
| "eligible_routes s dev (r # rs) =
     (case (case rt_interface_id r of None \<Rightarrow> None | Some i \<Rightarrow> get_interface s i) of
        None \<Rightarrow> eligible_routes s dev rs
      | Some eg \<Rightarrow>
          if if_device_id eg \<noteq> dev_id dev then eligible_routes s dev rs
          else if if_admin_status eg \<noteq> ADMIN_UP then Inl ''egress_admin_down''
          else if \<not> truthy (rt_next_hop r) then Inl ''no_next_hop''
          else (case eligible_routes s dev rs of Inl e \<Rightarrow> Inl e | Inr cs \<Rightarrow> Inr (r # cs)))"

definition route_key :: "route \<Rightarrow> int \<times> int \<times> int" where
  "route_key r = (rt_admin_distance r, rt_metric r, case rt_id r of None \<Rightarrow> -1 | Some k \<Rightarrow> k)"

definition router_peer :: "db \<Rightarrow> device \<Rightarrow> string + device" where
  "router_peer s dev =
     (let rts = filter (\<lambda>r. Some (rt_vrf_id r) = dev_vrf_id dev \<and> rt_prefix r = ''0.0.0.0/0'') (routes s)
      in if rts = [] then Inl ''no_default_route''
         else case eligible_routes s dev rts of
                Inl e \<Rightarrow> Inl e
              | Inr cands \<Rightarrow>
                  if cands = [] then Inl ''no_eligible_route''
                  else let chosen = hd (sort_key route_key cands)
                       in case (case rt_interface_id chosen of None \<Rightarrow> None | Some i \<Rightarrow> get_interface s i) of
                            None \<Rightarrow> Inl ''egress_missing''
                          | Some eg \<Rightarrow>
                              (case resolve_peer_via_if s (if_id eg) (rt_next_hop chosen) of
                                 None \<Rightarrow> Inl ''peer_unresolved''
                               | Some peer \<Rightarrow>
                                   if forced_down peer then Inl ''peer_forced_down'' else Inr peer))"

definition next_peer :: "db \<Rightarrow> device \<Rightarrow> string + device" where
  "next_peer s dev =
     (if dev_type dev \<in> L3_ROUTERS \<and> dev_vrf_id dev = None then Inl ''no_vrf''
      else if dev_type dev \<notin> {CORE_ROUTER, EDGE_ROUTER, BACKBONE_GATEWAY} then access_peer s dev
      else router_peer s dev)"

section \<open>What the next peer is\<close>

text \<open>One hop of a chain: a passable link between an interface of \<open>u\<close> and one of \<open>v\<close>.\<close>

definition l3_hop :: "db \<Rightarrow> ident \<Rightarrow> ident \<Rightarrow> bool" where
  "l3_hop s u v \<longleftrightarrow> (\<exists>l \<in> set (links s). \<exists>i \<in> set (interfaces s). \<exists>j \<in> set (interfaces s).
     trace_link_passable s l \<and> if_device_id i = u \<and> if_device_id j = v \<and>
     {ln_a_interface_id l, ln_b_interface_id l} = {if_id i, if_id j})"

lemma peer_device_SomeD:
  "peer_device s i = Some d \<Longrightarrow> get_device s (dev_id d) = Some d \<and>
     (\<exists>j \<in> set (interfaces s). if_id j = i \<and> if_device_id j = dev_id d)"
proof -
  assume "peer_device s i = Some d"
  then obtain r where r: "get_interface s i = Some r" "get_device s (if_device_id r) = Some d"
    by (auto simp: peer_device_def split: option.splits if_splits)
  then have "dev_id d = if_device_id r" "r \<in> set (interfaces s)" "if_id r = i"
    using dev.get_SomeD ifc.get_SomeD by blast+
  with r show ?thesis by auto
qed

lemma hop_via_link:
  assumes "l \<in> set (links_on s (if_id i))" "trace_link_passable s l" "i \<in> set (interfaces s)"
    and "peer_device s (far_end l (if_id i)) = Some d"
  shows "l3_hop s (if_device_id i) (dev_id d)"
  using assms peer_device_SomeD [OF assms(4)]
  unfolding l3_hop_def links_on_def far_end_def by (fastforce split: if_splits)

lemma upstream_candidates_hop:
  assumes "(k, p) \<in> set (upstream_candidates s dev)"
  shows "l3_hop s (dev_id dev) (dev_id p) \<and> get_device s (dev_id p) = Some p"
proof -
  obtain i l where "i \<in> set (interfaces s)" "if_device_id i = dev_id dev"
    "l \<in> set (links_on s (if_id i))" "trace_link_passable s l"
    and p: "peer_device s (far_end l (if_id i)) = Some p"
    using assms by (auto simp: upstream_candidates_def Let_def split: option.splits if_splits)
  with hop_via_link [of l s i p] peer_device_SomeD [OF p] show ?thesis by simp
qed

lemma access_peer_hop:
  assumes "access_peer s dev = Inr p"
  shows "l3_hop s (dev_id dev) (dev_id p) \<and> get_device s (dev_id p) = Some p \<and> \<not> forced_down p"
proof -
  from assms have ne: "upstream_candidates s dev \<noteq> []"
    and p: "p = snd (hd (sort_key fst (upstream_candidates s dev)))" and up: "\<not> forced_down p"
    by (auto simp: access_peer_def Let_def split: if_splits)
  from hd_sort_key_in [OF ne, of fst] p
  obtain k where "(k, p) \<in> set (upstream_candidates s dev)"
    by (metis prod.collapse)
  with up show ?thesis by (auto dest: upstream_candidates_hop)
qed

lemma resolve_peer_hop:
  assumes "resolve_peer_via_if s (if_id i) ip = Some p" "i \<in> set (interfaces s)"
  shows "l3_hop s (if_device_id i) (dev_id p) \<and> get_device s (dev_id p) = Some p"
proof -
  let ?ls = "filter (trace_link_passable s) (links_on s (if_id i))"
  obtain ms where "ms \<noteq> []" "set ms \<subseteq> set ?ls"
    and p: "peer_device s (far_end (hd (sort_key ln_id ms)) (if_id i)) = Some p"
  proof
    let ?m = "case ip of None \<Rightarrow> [] | Some x \<Rightarrow> filter (\<lambda>l. far_end l (if_id i) \<noteq> [] \<and>
       list_ex (\<lambda>a. ia_interface_id a = far_end l (if_id i) \<and> ia_ip a = x) (addresses s)) ?ls"
    let ?ms = "if ?m \<noteq> [] then ?m else ?ls"
    show "?ms \<noteq> []" "peer_device s (far_end (hd (sort_key ln_id ?ms)) (if_id i)) = Some p"
      using assms(1) unfolding resolve_peer_via_if_def Let_def by (auto split: if_splits)
    show "set ?ms \<subseteq> set ?ls" by (auto split: option.splits)
  qed
  then have "hd (sort_key ln_id ms) \<in> set ?ls" using hd_sort_key_in by blast
  with p assms(2) show ?thesis by (auto intro: hop_via_link dest: peer_device_SomeD)
qed

lemma eligible_routes_set:
  "eligible_routes s dev rs = Inr cs \<Longrightarrow> r \<in> set cs \<Longrightarrow> r \<in> set rs \<and>
     (\<exists>i eg. rt_interface_id r = Some i \<and> get_interface s i = Some eg \<and>
        if_device_id eg = dev_id dev \<and> if_admin_status eg = ADMIN_UP \<and> truthy (rt_next_hop r))"
  by (induction rs arbitrary: cs) (auto split: option.splits if_splits sum.splits)

lemma router_peer_hop:
  assumes "router_peer s dev = Inr p"
  shows "l3_hop s (dev_id dev) (dev_id p) \<and> get_device s (dev_id p) = Some p \<and> \<not> forced_down p"
proof -
  from assms obtain cs i eg where cs: "cs \<noteq> []"
    "eligible_routes s dev (filter (\<lambda>r. Some (rt_vrf_id r) = dev_vrf_id dev \<and>
        rt_prefix r = ''0.0.0.0/0'') (routes s)) = Inr cs"
    and eg: "rt_interface_id (hd (sort_key route_key cs)) = Some i" "get_interface s i = Some eg"
    and p: "resolve_peer_via_if s (if_id eg) (rt_next_hop (hd (sort_key route_key cs))) = Some p"
      "\<not> forced_down p"
    by (auto simp: router_peer_def Let_def split: if_splits sum.splits option.splits)
  from eligible_routes_set [OF cs(2) hd_sort_key_in [OF cs(1), of route_key]] eg
  have "if_device_id eg = dev_id dev" "eg \<in> set (interfaces s)" by (auto dest: ifc.get_SomeD)
  with resolve_peer_hop [OF p(1)] p(2) show ?thesis by auto
qed

lemma next_peer_hop:
  "next_peer s dev = Inr p \<Longrightarrow>
   l3_hop s (dev_id dev) (dev_id p) \<and> get_device s (dev_id p) = Some p \<and> \<not> forced_down p"
  by (auto simp: next_peer_def split: if_splits dest: access_peer_hop router_peer_hop)

section \<open>The trace\<close>

definition dep_fail :: "string \<Rightarrow> ident list \<Rightarrow> dep_check" where
  "dep_fail r ch = \<lparr>dc_ok = False, dc_reason = Some r, dc_chain = ch\<rparr>"

lemma next_peer_in_ids: "next_peer s dev = Inr p \<Longrightarrow> dev_id p \<in> dev_id ` set (devices s)"
  using next_peer_hop [of s dev p] by (auto dest: dev.get_SomeD)

function trace_step :: "db \<Rightarrow> device \<Rightarrow> ident set \<Rightarrow> ident list \<Rightarrow> dep_check" where
  "trace_step s dev visited chain =
     (if dev_id dev \<in> visited then dep_fail ''loop'' chain
      else if forced_down dev then dep_fail ''forced_down'' chain
      else if dev_type dev = BACKBONE_GATEWAY then \<lparr>dc_ok = True, dc_reason = None, dc_chain = chain\<rparr>
      else case next_peer s dev of
             Inl r \<Rightarrow> dep_fail r chain
           | Inr peer \<Rightarrow> trace_step s peer (insert (dev_id dev) visited) (chain @ [dev_id peer]))"
  by pat_completeness auto
termination
proof (relation "measure (\<lambda>(s, dev, visited, chain).
    card (insert (dev_id dev) (dev_id ` set (devices s)) - visited))", goal_cases)
  case (2 s dev visited chain peer)
  let ?ids = "dev_id ` set (devices s)"
  have "insert (dev_id peer) ?ids - insert (dev_id dev) visited = ?ids - insert (dev_id dev) visited"
    using next_peer_in_ids [OF 2(4)] by auto
  moreover have "card (?ids - insert (dev_id dev) visited) < card (insert (dev_id dev) ?ids - visited)"
    using 2(1) by (intro psubset_card_mono) auto
  ultimately show ?case by simp
qed simp

declare trace_step.simps [simp del]

definition trace_l3_path_to_anchor :: "db \<Rightarrow> device \<Rightarrow> dep_check" where
  "trace_l3_path_to_anchor s dev =
     (if forced_down dev then dep_fail ''self_forced_down'' [dev_id dev]
      else if dev_type dev \<in> L3_ROUTERS \<and> dev_vrf_id dev = None then dep_fail ''no_vrf'' [dev_id dev]
      else trace_step s dev {} [dev_id dev])"

definition has_l3_reachability_to_anchor :: "db \<Rightarrow> device \<Rightarrow> bool" where
  "has_l3_reachability_to_anchor s dev = dc_ok (trace_l3_path_to_anchor s dev)"

section \<open>Paths to an anchor\<close>

text \<open>The specification: a path follows the next peers, ends at the first backbone gateway and visits
  no device that is forced down.\<close>

inductive l3_path :: "db \<Rightarrow> device \<Rightarrow> ident list \<Rightarrow> bool" for s where
  at_anchor: "\<not> forced_down d \<Longrightarrow> dev_type d = BACKBONE_GATEWAY \<Longrightarrow> l3_path s d [dev_id d]"
| hop: "\<not> forced_down d \<Longrightarrow> dev_type d \<noteq> BACKBONE_GATEWAY \<Longrightarrow> next_peer s d = Inr p \<Longrightarrow>
    l3_path s p ch \<Longrightarrow> l3_path s d (dev_id d # ch)"

inductive_cases l3_path_elim: "l3_path s d ch"

lemma l3_path_hd: "l3_path s d ch \<Longrightarrow> ch \<noteq> [] \<and> hd ch = dev_id d"
  by (auto elim: l3_path_elim)

lemma l3_path_collapse: "l3_path s d ch \<Longrightarrow> dev_id d # tl ch = ch"
  by (auto elim: l3_path_elim)

lemma l3_path_unique: "l3_path s d ch \<Longrightarrow> l3_path s d ch' \<Longrightarrow> ch' = ch"
proof (induction arbitrary: ch' rule: l3_path.induct)
  case (hop d p ch)
  from hop.prems hop.hyps obtain ch2 where "ch' = dev_id d # ch2" "l3_path s p ch2"
    by (auto elim: l3_path_elim)
  with hop.IH show ?case by simp
qed (auto elim: l3_path_elim)

lemma l3_path_suffix:
  assumes "l3_path s d ch" "get_device s (dev_id d) = Some d" "k \<in> set ch"
  shows "\<exists>e ch'. get_device s k = Some e \<and> \<not> forced_down e \<and> l3_path s e ch' \<and> length ch' \<le> length ch"
  using assms
proof (induction rule: l3_path.induct)
  case (hop d p ch)
  show ?case
  proof (cases "k = dev_id d")
    case False
    with hop next_peer_hop [OF hop.hyps(3)] show ?thesis by fastforce
  qed (use hop l3_path.hop in fastforce)
qed (use at_anchor in fastforce)

lemma l3_path_tail_fresh:
  assumes "l3_path s p ch" "next_peer s d = Inr p" "\<not> forced_down d" "dev_type d \<noteq> BACKBONE_GATEWAY"
    and "get_device s (dev_id d) = Some d"
  shows "dev_id d \<notin> set ch"
proof
  assume "dev_id d \<in> set ch"
  from l3_path_suffix [OF assms(1) _ this] next_peer_hop [OF assms(2)] assms(5)
  obtain ch' where "l3_path s d ch'" "length ch' \<le> length ch" by auto
  moreover have "l3_path s d (dev_id d # ch)" using assms by (auto intro: hop)
  ultimately show False by (auto dest: l3_path_unique)
qed

lemma l3_path_props:
  assumes "l3_path s d ch" "get_device s (dev_id d) = Some d"
  shows "distinct ch \<and> successively (l3_hop s) ch \<and>
    (\<exists>g. get_device s (last ch) = Some g \<and> dev_type g = BACKBONE_GATEWAY \<and> \<not> forced_down g)"
  using assms
proof (induction rule: l3_path.induct)
  case (hop d p ch)
  from l3_path_tail_fresh [OF hop.hyps(4,3,1,2) hop.prems] next_peer_hop [OF hop.hyps(3)]
    hop.IH l3_path_hd [OF hop.hyps(4)]
  show ?case by (cases ch) auto
qed auto

text \<open>The trace computes the path, if there is one.\<close>

lemma trace_step_complete:
  assumes "l3_path s d ch" "get_device s (dev_id d) = Some d" "set ch \<inter> V = {}"
  shows "trace_step s d V pre = \<lparr>dc_ok = True, dc_reason = None, dc_chain = pre @ tl ch\<rparr>"
  using assms
proof (induction arbitrary: V pre rule: l3_path.induct)
  case (hop d p ch)
  have "set ch \<inter> insert (dev_id d) V = {}"
    using l3_path_tail_fresh [OF hop.hyps(4,3,1,2) hop.prems(1)] hop.prems(2) by auto
  moreover have "dev_id p # tl ch = ch" by (rule l3_path_collapse) fact
  ultimately show ?case
    using hop.IH [of "insert (dev_id d) V" "pre @ [dev_id p]"] hop.hyps hop.prems next_peer_hop [OF hop.hyps(3)]
    by (subst trace_step.simps) simp
qed (simp add: trace_step.simps)

lemma trace_step_sound:
  "dc_ok (trace_step s d V pre) \<Longrightarrow> \<exists>ch. l3_path s d ch"
proof (induction s d V pre rule: trace_step.induct)
  case (1 s d V pre)
  from 1(2) show ?case
    by (subst (asm) trace_step.simps)
      (auto simp: dep_fail_def split: if_splits sum.splits dest!: 1(1) intro: l3_path.intros)
qed

lemma trace_path_iff:
  assumes "get_device s (dev_id d) = Some d"
  shows "dc_ok (trace_l3_path_to_anchor s d) \<and> dc_chain (trace_l3_path_to_anchor s d) = ch \<longleftrightarrow> l3_path s d ch"
proof
  assume *: "dc_ok (trace_l3_path_to_anchor s d) \<and> dc_chain (trace_l3_path_to_anchor s d) = ch"
  then have ok: "trace_l3_path_to_anchor s d = trace_step s d {} [dev_id d]"
    by (auto simp: trace_l3_path_to_anchor_def dep_fail_def split: if_splits)
  with * obtain ch' where p: "l3_path s d ch'" by (auto dest: trace_step_sound)
  have "ch = ch'"
    using * unfolding ok trace_step_complete [OF p assms, of "{}" "[dev_id d]", simplified]
    by (simp add: l3_path_collapse [OF p])
  with p show "l3_path s d ch" by simp
next
  assume p: "l3_path s d ch"
  then have "\<not> forced_down d" "\<not> (dev_type d \<in> L3_ROUTERS \<and> dev_vrf_id d = None)"
    by (cases; auto simp: L3_ROUTERS_def next_peer_def)+
  then have "trace_l3_path_to_anchor s d = trace_step s d {} [dev_id d]"
    by (simp only: trace_l3_path_to_anchor_def if_False)
  then show "dc_ok (trace_l3_path_to_anchor s d) \<and> dc_chain (trace_l3_path_to_anchor s d) = ch"
    using trace_step_complete [OF p assms, of "{}" "[dev_id d]"] by (simp add: l3_path_collapse [OF p])
qed

text \<open>What a failure says.\<close>

definition PEER_REASONS :: "string set" where
  "PEER_REASONS = {''no_vrf'', ''no_interfaces'', ''no_upstream_router'', ''peer_forced_down'',
     ''egress_admin_down'', ''no_next_hop'', ''no_default_route'', ''no_eligible_route'',
     ''peer_unresolved''}"

lemma PEER_REASONS_other [simp]:
  "''loop'' \<notin> PEER_REASONS" "''self_forced_down'' \<notin> PEER_REASONS" "''no_vrf'' \<in> PEER_REASONS"
  by (simp_all add: PEER_REASONS_def)

lemma eligible_routes_error:
  "eligible_routes s d rs = Inl e \<Longrightarrow> e \<in> {''egress_admin_down'', ''no_next_hop''}"
  by (induction rs) (auto split: option.splits if_splits sum.splits)

lemma router_peer_error: "router_peer s d = Inl e \<Longrightarrow> e \<in> PEER_REASONS"
proof -
  assume e: "router_peer s d = Inl e"
  let ?rs = "filter (\<lambda>r. Some (rt_vrf_id r) = dev_vrf_id d \<and> rt_prefix r = ''0.0.0.0/0'') (routes s)"
  show ?thesis
  proof (cases "eligible_routes s d ?rs")
    case (Inl x)
    then show ?thesis using e eligible_routes_error [OF Inl]
      by (auto simp: router_peer_def Let_def PEER_REASONS_def split: if_splits)
  next
    case (Inr cs)
    then have "cs \<noteq> [] \<Longrightarrow> \<exists>i eg. rt_interface_id (hd (sort_key route_key cs)) = Some i \<and> get_interface s i = Some eg"
      using eligible_routes_set [OF Inr hd_sort_key_in [of cs route_key]] by auto
    with Inr e show ?thesis
      by (auto simp: router_peer_def Let_def PEER_REASONS_def split: if_splits option.splits)
  qed
qed

lemma next_peer_error: "next_peer s d = Inl e \<Longrightarrow> e \<in> PEER_REASONS"
  by (auto simp: next_peer_def access_peer_def Let_def split: if_splits dest!: router_peer_error)
    (auto simp: PEER_REASONS_def)

definition chain_ok :: "db \<Rightarrow> ident list \<Rightarrow> bool" where
  "chain_ok s ch \<longleftrightarrow> ch \<noteq> [] \<and> distinct (butlast ch) \<and> successively (l3_hop s) ch"

lemma chain_ok_snoc:
  assumes "chain_ok s ch" "last ch = dev_id d" "dev_id d \<notin> set (butlast ch)" "next_peer s d = Inr p"
  shows "chain_ok s (ch @ [dev_id p])"
proof -
  have "distinct ch"
    using assms(1-3) by (metis append_butlast_last_id chain_ok_def distinct_append distinct_singleton
        disjoint_insert(1) inf_bot_right list.set(1) list.simps(15))
  with assms next_peer_hop [OF assms(4)] show ?thesis
    by (auto simp: chain_ok_def successively_append_iff)
qed

lemma trace_step_chain:
  assumes "chain_ok s pre" "last pre = dev_id d" "V = set (butlast pre)" "\<not> forced_down d"
  shows "let r = trace_step s d V pre in chain_ok s (dc_chain r) \<and> hd (dc_chain r) = hd pre \<and>
     (\<not> dc_ok r \<longrightarrow> (dc_reason r = Some ''loop'' \<and> \<not> distinct (dc_chain r)) \<or>
        (\<exists>e \<in> PEER_REASONS. dc_reason r = Some e \<and> distinct (dc_chain r)))"
  using assms
proof (induction s d V pre rule: trace_step.induct)
  case (1 s d V pre)
  have pre: "pre = butlast pre @ [dev_id d]"
    using 1(2,3) by (metis append_butlast_last_id chain_ok_def)
  show ?case
  proof (cases "dev_id d \<in> V")
    case True
    then have "\<not> distinct pre" using pre 1(4) by (metis distinct_append disjoint_insert(2) list.set_intros(1)
          Int_iff empty_iff)
    with True 1(2) show ?thesis by (simp add: trace_step.simps dep_fail_def Let_def)
  next
    case False
    then have dist: "distinct pre" using pre 1(2,4) by (metis chain_ok_def distinct_append distinct_singleton
          disjoint_insert(2) empty_iff inf_bot_right list.set(1) list.simps(15))
    show ?thesis
    proof (cases "dev_type d = BACKBONE_GATEWAY")
      case True
      with False 1(2,5) show ?thesis by (simp add: trace_step.simps Let_def)
    next
      case nb: False
      show ?thesis
      proof (cases "next_peer s d")
        case (Inl e)
        with False nb 1(2,5) dist next_peer_error [OF Inl] show ?thesis
          by (subst trace_step.simps) (simp add: dep_fail_def Let_def)
      next
        case (Inr p)
        have "chain_ok s (pre @ [dev_id p])"
          using chain_ok_snoc [OF 1(2,3) _ Inr] False 1(4) by simp
        moreover have "insert (dev_id d) V = set pre" using pre 1(4) by (metis Un_insert_right
            append_Nil2 list.simps(15) set_append sup_bot.right_neutral list.set(1))
        moreover have "hd (pre @ [dev_id p]) = hd pre" using 1(2) by (simp add: chain_ok_def)
        ultimately show ?thesis
          using 1(1) [OF False 1(5) nb Inr] False 1(5) nb Inr next_peer_hop [OF Inr]
          by (subst trace_step.simps) simp
      qed
    qed
  qed
qed

section \<open>Properties\<close>

text \<open>An OLT below an edge router whose default route leads to the backbone gateway, and a second
  edge router whose default route leads back to the first over a link that is administratively up
  but whose far router is forced down.\<close>

definition demo_olt :: device where
  "demo_olt = Device ''olt'' OLT"

definition demo_l3 :: db where
  "demo_l3 = empty_db\<lparr>
     devices := [demo_olt, (Device ''er'' EDGE_ROUTER)\<lparr>dev_vrf_id := Some 1\<rparr>,
       Device ''bb'' BACKBONE_GATEWAY,
       (Device ''dead'' EDGE_ROUTER)\<lparr>dev_vrf_id := Some 1, dev_admin_override_status := Some DOWN\<rparr>,
       Device ''olt2'' OLT],
     interfaces := [Interface ''olt-u'' ''olt'' ''u'', Interface ''er-a'' ''er'' ''a'',
       Interface ''er-b'' ''er'' ''b'', Interface ''bb-a'' ''bb'' ''a'',
       Interface ''dead-a'' ''dead'' ''a'', Interface ''olt2-u'' ''olt2'' ''u''],
     links := [Link ''k1'' ''olt-u'' ''er-a'', Link ''k2'' ''er-b'' ''bb-a'',
       (Link ''k3'' ''olt2-u'' ''dead-a'')\<lparr>ln_admin_override_status := Some UP\<rparr>],
     routes := [\<lparr>rt_id = Some 1, rt_vrf_id = 1, rt_prefix = ''0.0.0.0/0'',
       rt_next_hop = Some ''10.0.0.2'', rt_interface_id = Some ''er-b'', rt_admin_distance = 1,
       rt_metric = 0\<rparr>]\<rparr>"

lemmas demo_l3_defs = demo_l3_def demo_olt_def row_defs

lemma demo_olt_row: "get_device demo_l3 (dev_id demo_olt) = Some demo_olt"
  by (simp add: get_device_def demo_l3_defs)

lemma demo_trace:
  "trace_l3_path_to_anchor demo_l3 demo_olt =
     \<lparr>dc_ok = True, dc_reason = None, dc_chain = [''olt'', ''er'', ''bb'']\<rparr>"
  by code_simp

text \<open>C3: The trace decides the existence of a path to a live backbone gateway. For a device of the
  database it succeeds with a chain exactly when that chain is the path that follows the chosen
  next peers (the best upstream candidate of an access device, the best default route of a router)
  through devices that are not forced down up to a gateway; its visited set never cuts such a path
  short.\<close>

theorem trace_finds_path:
  assumes "get_device s (dev_id d) = Some d"
  shows "(dc_ok (trace_l3_path_to_anchor s d) \<and> dc_chain (trace_l3_path_to_anchor s d) = ch \<longleftrightarrow>
            l3_path s d ch) \<and>
         (has_l3_reachability_to_anchor s d \<longleftrightarrow> (\<exists>ch. l3_path s d ch))"
  using trace_path_iff [OF assms] by (auto simp: has_l3_reachability_to_anchor_def)

theorem trace_finds_path_witness:
  "l3_path demo_l3 demo_olt [''olt'', ''er'', ''bb''] \<and> has_l3_reachability_to_anchor demo_l3 demo_olt"
  using trace_finds_path [OF demo_olt_row, of "[''olt'', ''er'', ''bb'']"]
  by (auto simp: demo_trace)

text \<open>C6: A reported chain is a real route: it starts at the device, ends at a gateway that is not forced
  down, repeats no device, joins consecutive devices by links that are up and whose end devices are
  not forced down, and is no longer than the number of devices.\<close>

theorem trace_chain_valid:
  assumes "get_device s (dev_id d) = Some d" "dc_ok (trace_l3_path_to_anchor s d)"
    and "ch = dc_chain (trace_l3_path_to_anchor s d)"
  shows "hd ch = dev_id d \<and> distinct ch \<and> successively (l3_hop s) ch \<and>
     (\<forall>k \<in> set ch. \<exists>e. get_device s k = Some e \<and> \<not> forced_down e) \<and>
     (\<exists>g. get_device s (last ch) = Some g \<and> dev_type g = BACKBONE_GATEWAY) \<and>
     length ch \<le> length (devices s)"
proof -
  from assms trace_path_iff [OF assms(1)] have p: "l3_path s d ch" by blast
  have live: "\<exists>e. get_device s k = Some e \<and> \<not> forced_down e" if "k \<in> set ch" for k
    using l3_path_suffix [OF p assms(1) that] by blast
  then have "set ch \<subseteq> dev_id ` set (devices s)" by (fastforce dest: dev.get_SomeD)
  then have "card (set ch) \<le> length (devices s)"
    by (metis card_image_le card_length card_mono finite_imageI finite_set order_trans)
  with l3_path_props [OF p assms(1)] l3_path_hd [OF p] live show ?thesis
    by (auto simp: distinct_card)
qed

theorem trace_chain_valid_witness:
  "successively (l3_hop demo_l3) [''olt'', ''er'', ''bb''] \<and> length [''olt'', ''er'', ''bb''] \<le> length (devices demo_l3)"
proof -
  have ok: "dc_ok (trace_l3_path_to_anchor demo_l3 demo_olt)"
    and ch: "[''olt'', ''er'', ''bb''] = dc_chain (trace_l3_path_to_anchor demo_l3 demo_olt)"
    by (simp_all add: demo_trace)
  from trace_chain_valid [OF demo_olt_row ok ch] show ?thesis by blast
qed

text \<open>A failed trace explains itself. The reason is that the device itself is forced down, that the
  last device of the chain has no next peer (one of nine reasons), or that the walk came back to a
  device; the last reason is given exactly when the chain repeats a device. The branches for a
  forced-down device inside the walk and for a missing egress interface are never taken.\<close>

theorem trace_failure_reason:
  assumes "\<not> dc_ok (trace_l3_path_to_anchor s d)"
  shows "\<exists>e \<in> insert ''self_forced_down'' (insert ''loop'' PEER_REASONS).
     dc_reason (trace_l3_path_to_anchor s d) = Some e \<and>
     hd (dc_chain (trace_l3_path_to_anchor s d)) = dev_id d \<and>
     (e = ''self_forced_down'' \<longleftrightarrow> forced_down d) \<and>
     (e = ''loop'' \<longleftrightarrow> \<not> distinct (dc_chain (trace_l3_path_to_anchor s d)))"
proof -
  consider (down) "forced_down d" | (vrf) "\<not> forced_down d" "dev_type d \<in> L3_ROUTERS \<and> dev_vrf_id d = None"
    | (walk) "\<not> forced_down d" "trace_l3_path_to_anchor s d = trace_step s d {} [dev_id d]"
    unfolding trace_l3_path_to_anchor_def by (cases "dev_type d \<in> L3_ROUTERS \<and> dev_vrf_id d = None") auto
  then show ?thesis
  proof cases
    case down
    then show ?thesis by (simp add: trace_l3_path_to_anchor_def dep_fail_def)
  next
    case vrf
    then show ?thesis by (intro bexI [of _ "''no_vrf''"]) (simp_all add: trace_l3_path_to_anchor_def dep_fail_def)
  next
    case walk
    have "chain_ok s [dev_id d]" by (simp add: chain_ok_def)
    from trace_step_chain [OF this, of d "{}"] walk assms
    consider "dc_reason (trace_l3_path_to_anchor s d) = Some ''loop''"
        "\<not> distinct (dc_chain (trace_l3_path_to_anchor s d))"
        "hd (dc_chain (trace_l3_path_to_anchor s d)) = dev_id d"
      | e where "e \<in> PEER_REASONS" "dc_reason (trace_l3_path_to_anchor s d) = Some e"
        "distinct (dc_chain (trace_l3_path_to_anchor s d))"
        "hd (dc_chain (trace_l3_path_to_anchor s d)) = dev_id d"
      unfolding Let_def by auto
    then show ?thesis
    proof cases
      case (2 e)
      then have "e \<noteq> ''loop''" "e \<noteq> ''self_forced_down''" using PEER_REASONS_other by metis+
      with 2 walk(1) show ?thesis by (intro bexI [of _ e]) simp_all
    qed (use walk(1) in \<open>intro bexI [of _ "''loop''"], simp_all\<close>)
  qed
qed

theorem trace_failure_reason_witness:
  "dc_reason (trace_l3_path_to_anchor demo_l3 (Device ''olt2'' OLT)) = Some ''no_upstream_router'' \<and>
   (\<exists>e \<in> insert ''self_forced_down'' (insert ''loop'' PEER_REASONS).
     dc_reason (trace_l3_path_to_anchor demo_l3 (Device ''olt2'' OLT)) = Some e)"
proof -
  have t: "trace_l3_path_to_anchor demo_l3 (Device ''olt2'' OLT) =
    \<lparr>dc_ok = False, dc_reason = Some ''no_upstream_router'', dc_chain = [''olt2'']\<rparr>" by code_simp
  then have "\<not> dc_ok (trace_l3_path_to_anchor demo_l3 (Device ''olt2'' OLT))" by simp
  from trace_failure_reason [OF this] t show ?thesis by auto
qed

text \<open>Every link the trace crosses is passable for the status evaluation. The converse fails in
  exactly one way: with the override up, the status evaluation passes a link without looking at
  its end devices, while the trace still demands that both exist and are not forced down.\<close>

theorem trace_passable_versus_link_passable:
  assumes "wf_db s" "l \<in> set (links s)"
    and "\<And>i. i \<in> set (interfaces s) \<Longrightarrow> if_device_id i \<noteq> []"
  shows "trace_link_passable s l \<longleftrightarrow> is_link_passable s l \<and>
     (ln_admin_override_status l = Some UP \<longrightarrow>
       (\<exists>da d_b. owner s (ln_a_interface_id l) = Some da \<and> owner s (ln_b_interface_id l) = Some d_b \<and>
          \<not> forced_down da \<and> \<not> forced_down d_b))"
proof -
  have dev: "get_interface s k = Some i \<Longrightarrow> if_device_id i \<noteq> []" for k i
    using assms(3) [of i] by (auto dest: ifc.get_SomeD)
  show ?thesis
    unfolding trace_link_passable_def link_passable_row [OF assms(1,2)]
    by (cases "ln_admin_override_status l") (auto simp: owner_def dev split: option.splits)
qed

theorem trace_passable_versus_link_passable_witness:
  "is_link_passable demo_l3 (links demo_l3 ! 2) \<and> \<not> trace_link_passable demo_l3 (links demo_l3 ! 2) \<and>
   (trace_link_passable demo_l3 (links demo_l3 ! 0) \<longleftrightarrow> is_link_passable demo_l3 (links demo_l3 ! 0))"
proof -
  have wf: "wf_db demo_l3" by (simp add: wf_db_def demo_l3_defs)
  have k0: "links demo_l3 ! 0 \<in> set (links demo_l3)" and k2: "links demo_l3 ! 2 \<in> set (links demo_l3)"
    by (simp_all add: demo_l3_defs)
  have ne: "\<And>i. i \<in> set (interfaces demo_l3) \<Longrightarrow> if_device_id i \<noteq> []" by (auto simp: demo_l3_defs)
  have ov: "ln_admin_override_status (links demo_l3 ! 0) = None"
    "ln_admin_override_status (links demo_l3 ! 2) = Some UP" by (simp_all add: demo_l3_defs)
  have own: "owner demo_l3 (ln_b_interface_id (links demo_l3 ! 2)) = get_device demo_l3 ''dead''"
    "\<forall>d. get_device demo_l3 ''dead'' = Some d \<longrightarrow> forced_down d"
    by (simp_all add: owner_def get_device_def get_interface_def forced_down_def demo_l3_defs)
  have "is_link_passable demo_l3 (links demo_l3 ! 2)"
    unfolding link_passable_row [OF wf k2] ov by simp
  with trace_passable_versus_link_passable [OF wf k0 ne] trace_passable_versus_link_passable [OF wf k2 ne]
  show ?thesis unfolding ov own(1) using own(2) by auto
qed

end
