(* ===== verification/Worklist.thy ===== *)
theory Worklist
  imports Prelude
begin

text \<open>
  The interface every graph traversal of the program meets. The services walk the topology with
  hand-written queue loops of two shapes: a node is marked when it is taken from the queue
  (\<open>worklist\<close>), or when it is put into it (\<open>flood\<close>). Each locale fixes the loop as a function of
  the queue and the marked set, states its equations and its induction principle, and proves once
  that the loop computes exactly the nodes reachable from where it starts. The component theories
  interpret the locales on their own loops.
\<close>

section \<open>Marking at the exit of the queue\<close>

text \<open>Only new nodes of a finite set enter the queue, so the unmarked nodes shrink with every node
  that is marked.\<close>

lemma worklist_induct:
  assumes N: "finite N" "\<And>x q V. x \<notin> V \<Longrightarrow> set (enqueue x q V) \<subseteq> set q \<union> N"
    and "\<And>V. P [] V"
    and "\<And>x q V. x \<in> V \<Longrightarrow> P q V \<Longrightarrow> P (x # q) V"
    and "\<And>x q V. x \<notin> V \<Longrightarrow> P (enqueue x q V) (insert x V) \<Longrightarrow> P (x # q) V"
  shows "P q V"
proof -
  have "wf (measures [\<lambda>(q, V). card (N \<union> set q - V), \<lambda>(q, V). length q])" by simp
  then show ?thesis
  proof (induction "(q, V)" arbitrary: q V rule: wf_induct_rule)
    case less
    show ?case
    proof (cases q)
      case (Cons x q')
      show ?thesis
      proof (cases "x \<in> V")
        case True
        then have "N \<union> set (x # q') - V = N \<union> set q' - V" by auto
        with less Cons True assms(4) show ?thesis by simp
      next
        case False
        have "card (N \<union> set (enqueue x q' V) - insert x V) < card (N \<union> set (x # q') - V)"
          using False N(1) N(2) [OF False, of q'] by (intro psubset_card_mono) auto
        with less Cons False assms(5) show ?thesis by simp
      qed
    qed (simp add: assms(3))
  qed
qed

locale worklist =
  fixes succs :: "'a \<Rightarrow> 'a set"
    and enqueue :: "'a \<Rightarrow> 'a list \<Rightarrow> 'a set \<Rightarrow> 'a list"
    and run :: "'a list \<Rightarrow> 'a set \<Rightarrow> 'a set"
  assumes run_Nil: "run [] V = V"
    and run_seen: "x \<in> V \<Longrightarrow> run (x # q) V = run q V"
    and run_new: "x \<notin> V \<Longrightarrow> run (x # q) V = run (enqueue x q V) (insert x V)"
    and enqueue_set: "x \<notin> V \<Longrightarrow> set (enqueue x q V) = set q \<union> (succs x - insert x V)"
    and run_induct:
      "(\<And>V. P [] V) \<Longrightarrow>
       (\<And>x q V. x \<in> V \<Longrightarrow> P q V \<Longrightarrow> P (x # q) V) \<Longrightarrow>
       (\<And>x q V. x \<notin> V \<Longrightarrow> P (enqueue x q V) (insert x V) \<Longrightarrow> P (x # q) V) \<Longrightarrow> P q V"
begin

lemma run_incl: "V \<union> set q \<subseteq> run q V"
proof (rule run_induct [of "\<lambda>q V. V \<union> set q \<subseteq> run q V"])
  show "V \<union> set [] \<subseteq> run [] V" for V by (simp add: run_Nil)
  show "V \<union> set (x # q) \<subseteq> run (x # q) V" if "x \<in> V" "V \<union> set q \<subseteq> run q V" for x q V
    using that by (auto simp: run_seen)
  show "V \<union> set (x # q) \<subseteq> run (x # q) V"
    if "x \<notin> V" "insert x V \<union> set (enqueue x q V) \<subseteq> run (enqueue x q V) (insert x V)" for x q V
    using that by (auto simp: run_new enqueue_set)
qed

lemma run_sound: "run q V \<subseteq> reach_from succs (V \<union> set q)"
proof (rule run_induct [of "\<lambda>q V. run q V \<subseteq> reach_from succs (V \<union> set q)"])
  show "run [] V \<subseteq> reach_from succs (V \<union> set [])" for V
    using reach_from_incl [of V succs] by (simp add: run_Nil)
  show "run (x # q) V \<subseteq> reach_from succs (V \<union> set (x # q))"
    if "x \<in> V" "run q V \<subseteq> reach_from succs (V \<union> set q)" for x q V
    using that by (simp add: run_seen insert_absorb)
  show "run (x # q) V \<subseteq> reach_from succs (V \<union> set (x # q))"
    if x: "x \<notin> V"
      and IH: "run (enqueue x q V) (insert x V)
                 \<subseteq> reach_from succs (insert x V \<union> set (enqueue x q V))" for x q V
  proof -
    have "insert x V \<union> set (enqueue x q V) \<subseteq> reach_from succs (V \<union> set (x # q))"
      using x reach_from_incl [of "V \<union> set (x # q)" succs]
      by (auto simp: enqueue_set intro: reach_from_closed)
    then have "reach_from succs (insert x V \<union> set (enqueue x q V))
                 \<subseteq> reach_from succs (V \<union> set (x # q))"
      by (rule reach_from_least) (rule reach_from_closed)
    with IH x show ?thesis by (auto simp: run_new)
  qed
qed

lemma run_closed:
  "(\<And>x y. x \<in> V \<Longrightarrow> y \<in> succs x \<Longrightarrow> y \<in> V \<union> set q) \<Longrightarrow>
   x \<in> run q V \<Longrightarrow> y \<in> succs x \<Longrightarrow> y \<in> run q V"
proof (rule run_induct [of "\<lambda>q V. (\<forall>x y. x \<in> V \<longrightarrow> y \<in> succs x \<longrightarrow> y \<in> V \<union> set q) \<longrightarrow>
      (\<forall>x y. x \<in> run q V \<longrightarrow> y \<in> succs x \<longrightarrow> y \<in> run q V)", rule_format])
  show "y \<in> run [] V"
    if "\<And>x y. x \<in> V \<Longrightarrow> y \<in> succs x \<Longrightarrow> y \<in> V \<union> set []" "x \<in> run [] V" "y \<in> succs x" for V x y
    using that by (auto simp: run_Nil)
qed (fastforce simp: run_seen, fastforce simp: run_new enqueue_set, auto)

theorem run_eq_reach: "run q {} = reach_from succs (set q)"
proof (rule sym, rule reach_from_eqI)
  show "set q \<subseteq> run q {}" using run_incl [of "{}" q] by simp
  show "run q {} \<subseteq> reach_from succs (set q)" using run_sound [of q "{}"] by simp
  show "x \<in> run q {} \<Longrightarrow> y \<in> succs x \<Longrightarrow> y \<in> run q {}" for x y
    by (rule run_closed [of "{}" q x y]) auto
qed

end

section \<open>Stopping at a goal\<close>

text \<open>The same loop with an early return: \<open>hit\<close> is tested on the node that leaves the queue.\<close>

locale worklist_search =
  fixes succs :: "'a \<Rightarrow> 'a set"
    and enqueue :: "'a \<Rightarrow> 'a list \<Rightarrow> 'a set \<Rightarrow> 'a list"
    and hit :: "'a \<Rightarrow> bool"
    and found :: "'a list \<Rightarrow> 'a set \<Rightarrow> bool"
  assumes found_Nil: "\<not> found [] V"
    and found_hit: "x \<notin> V \<Longrightarrow> hit x \<Longrightarrow> found (x # q) V"
    and found_seen: "\<not> hit x \<Longrightarrow> x \<in> V \<Longrightarrow> found (x # q) V = found q V"
    and found_new: "\<not> hit x \<Longrightarrow> x \<notin> V \<Longrightarrow> found (x # q) V = found (enqueue x q V) (insert x V)"
    and enqueue_set: "x \<notin> V \<Longrightarrow> set (enqueue x q V) = set q \<union> (succs x - insert x V)"
    and found_induct:
      "(\<And>V. P [] V) \<Longrightarrow>
       (\<And>x q V. x \<in> V \<Longrightarrow> P q V \<Longrightarrow> P (x # q) V) \<Longrightarrow>
       (\<And>x q V. x \<notin> V \<Longrightarrow> P (enqueue x q V) (insert x V) \<Longrightarrow> P (x # q) V) \<Longrightarrow> P q V"
begin

lemma found_gen:
  "(\<forall>x \<in> V. \<not> hit x \<and> succs x \<subseteq> V \<union> set q) \<longrightarrow>
   (found q V \<longleftrightarrow> (\<exists>y \<in> reach_from succs (V \<union> set q). hit y))"
proof (rule found_induct [of "\<lambda>q V. (\<forall>x \<in> V. \<not> hit x \<and> succs x \<subseteq> V \<union> set q) \<longrightarrow>
   (found q V \<longleftrightarrow> (\<exists>y \<in> reach_from succs (V \<union> set q). hit y))"])
  fix V show "(\<forall>x \<in> V. \<not> hit x \<and> succs x \<subseteq> V \<union> set []) \<longrightarrow>
    (found [] V \<longleftrightarrow> (\<exists>y \<in> reach_from succs (V \<union> set []). hit y))"
  proof
    assume *: "\<forall>x \<in> V. \<not> hit x \<and> succs x \<subseteq> V \<union> set []"
    then have "reach_from succs V \<subseteq> V" by (intro reach_from_least) auto
    with * show "found [] V \<longleftrightarrow> (\<exists>y \<in> reach_from succs (V \<union> set []). hit y)"
      by (auto simp: found_Nil)
  qed
next
  fix x q V assume x: "x \<in> V"
    and IH: "(\<forall>x \<in> V. \<not> hit x \<and> succs x \<subseteq> V \<union> set q) \<longrightarrow>
      (found q V \<longleftrightarrow> (\<exists>y \<in> reach_from succs (V \<union> set q). hit y))"
  from x have "V \<union> set (x # q) = V \<union> set q" by auto
  with x IH show "(\<forall>y \<in> V. \<not> hit y \<and> succs y \<subseteq> V \<union> set (x # q)) \<longrightarrow>
      (found (x # q) V \<longleftrightarrow> (\<exists>y \<in> reach_from succs (V \<union> set (x # q)). hit y))"
    by (auto simp: found_seen)
next
  fix x q V assume x: "x \<notin> V"
    and IH: "(\<forall>y \<in> insert x V. \<not> hit y \<and> succs y \<subseteq> insert x V \<union> set (enqueue x q V)) \<longrightarrow>
      (found (enqueue x q V) (insert x V) \<longleftrightarrow>
        (\<exists>y \<in> reach_from succs (insert x V \<union> set (enqueue x q V)). hit y))"
  show "(\<forall>y \<in> V. \<not> hit y \<and> succs y \<subseteq> V \<union> set (x # q)) \<longrightarrow>
      (found (x # q) V \<longleftrightarrow> (\<exists>y \<in> reach_from succs (V \<union> set (x # q)). hit y))"
  proof (cases "hit x")
    case True
    then show ?thesis
      using found_hit [OF x, of q] reach_from_incl [of "V \<union> set (x # q)" succs] by auto
  next
    case False
    have "reach_from succs (insert x V \<union> set (enqueue x q V)) = reach_from succs (V \<union> set (x # q))"
      using enqueue_set [OF x, of q] by (intro reach_from_grow) auto
    with False x IH show ?thesis
      using enqueue_set [OF x, of q] by (auto simp: found_new)
  qed
qed

theorem found_iff_reach: "found q {} \<longleftrightarrow> (\<exists>y \<in> reach_from succs (set q). hit y)"
  using found_gen [of "{}" q] by simp

end

section \<open>Marking at the entry of the queue\<close>

locale flood =
  fixes succs :: "'a \<Rightarrow> 'a set"
    and enqueue :: "'a \<Rightarrow> 'a list \<Rightarrow> 'a set \<Rightarrow> 'a list"
    and run :: "'a list \<Rightarrow> 'a set \<Rightarrow> 'a set"
  assumes run_Nil: "run [] R = R"
    and run_Cons: "run (x # q) R = run (enqueue x q R) (R \<union> succs x)"
    and enqueue_set: "set (enqueue x q R) = set q \<union> (succs x - R)"
    and run_induct:
      "(\<And>R. P [] R) \<Longrightarrow>
       (\<And>x q R. P (enqueue x q R) (R \<union> succs x) \<Longrightarrow> P (x # q) R) \<Longrightarrow> P q R"
begin

lemma run_incl: "R \<subseteq> run q R"
  by (rule run_induct [of "\<lambda>q R. R \<subseteq> run q R"]) (auto simp: run_Nil run_Cons)

lemma run_sound: "set q \<subseteq> R \<Longrightarrow> run q R \<subseteq> reach_from succs R"
proof (rule run_induct [of "\<lambda>q R. set q \<subseteq> R \<longrightarrow> run q R \<subseteq> reach_from succs R", rule_format])
  show "run [] R \<subseteq> reach_from succs R" if "set [] \<subseteq> R" for R
    using reach_from_incl [of R succs] by (simp add: run_Nil)
  show "run (x # q) R \<subseteq> reach_from succs R"
    if IH: "set (enqueue x q R) \<subseteq> R \<union> succs x \<Longrightarrow>
            run (enqueue x q R) (R \<union> succs x) \<subseteq> reach_from succs (R \<union> succs x)"
      and q: "set (x # q) \<subseteq> R" for x q R
  proof -
    have "R \<union> succs x \<subseteq> reach_from succs R"
      using q reach_from_incl [of R succs] by (auto intro: reach_from_closed)
    then have "reach_from succs (R \<union> succs x) \<subseteq> reach_from succs R"
      by (rule reach_from_least) (rule reach_from_closed)
    with IH q show ?thesis by (auto simp: run_Cons enqueue_set)
  qed
qed

lemma run_closed:
  "(\<And>x y. x \<in> R - set q \<Longrightarrow> y \<in> succs x \<Longrightarrow> y \<in> R) \<Longrightarrow>
   x \<in> run q R \<Longrightarrow> y \<in> succs x \<Longrightarrow> y \<in> run q R"
proof (rule run_induct [of "\<lambda>q R. (\<forall>x y. x \<in> R - set q \<longrightarrow> y \<in> succs x \<longrightarrow> y \<in> R) \<longrightarrow>
      (\<forall>x y. x \<in> run q R \<longrightarrow> y \<in> succs x \<longrightarrow> y \<in> run q R)", rule_format])
  show "y \<in> run [] R"
    if "\<And>x y. x \<in> R - set [] \<Longrightarrow> y \<in> succs x \<Longrightarrow> y \<in> R" "x \<in> run [] R" "y \<in> succs x" for R x y
    using that by (simp add: run_Nil)
  show "y \<in> run (z # q) R"
    if IH: "\<And>x y. (\<And>x y. x \<in> R \<union> succs z - set (enqueue z q R) \<Longrightarrow> y \<in> succs x \<Longrightarrow>
                        y \<in> R \<union> succs z) \<Longrightarrow>
              x \<in> run (enqueue z q R) (R \<union> succs z) \<Longrightarrow> y \<in> succs x \<Longrightarrow>
              y \<in> run (enqueue z q R) (R \<union> succs z)"
      and cl: "\<And>x y. x \<in> R - set (z # q) \<Longrightarrow> y \<in> succs x \<Longrightarrow> y \<in> R"
      and xy: "x \<in> run (z # q) R" "y \<in> succs x" for z q R x y
    unfolding run_Cons
  proof (rule IH)
    show "b \<in> R \<union> succs z" if "a \<in> R \<union> succs z - set (enqueue z q R)" "b \<in> succs a" for a b
      using that cl [of a b] by (cases "a = z") (auto simp: enqueue_set)
  qed (use xy in \<open>simp_all add: run_Cons\<close>)
qed auto

theorem run_eq_reach: "run q (set q) = reach_from succs (set q)"
proof (rule sym, rule reach_from_eqI)
  show "set q \<subseteq> run q (set q)" by (rule run_incl)
  show "run q (set q) \<subseteq> reach_from succs (set q)" by (rule run_sound) simp
  show "x \<in> run q (set q) \<Longrightarrow> y \<in> succs x \<Longrightarrow> y \<in> run q (set q)" for x y
    by (rule run_closed [of "set q" q x y]) auto
qed

end

section \<open>Marking at the entry, stopping at a goal\<close>

locale flood_search =
  fixes succs :: "'a \<Rightarrow> 'a set"
    and enqueue :: "'a \<Rightarrow> 'a list \<Rightarrow> 'a set \<Rightarrow> 'a list"
    and hit :: "'a \<Rightarrow> bool"
    and found :: "'a list \<Rightarrow> 'a set \<Rightarrow> bool"
  assumes found_Nil: "\<not> found [] R"
    and found_Cons: "found (x # q) R \<longleftrightarrow> hit x \<or> found (enqueue x q R) (R \<union> succs x)"
    and enqueue_set: "set (enqueue x q R) = set q \<union> (succs x - R)"
    and found_induct:
      "(\<And>R. P [] R) \<Longrightarrow>
       (\<And>x q R. P (enqueue x q R) (R \<union> succs x) \<Longrightarrow> P (x # q) R) \<Longrightarrow> P q R"
begin

lemma found_gen:
  "set q \<subseteq> R \<and> (\<forall>x \<in> R - set q. \<not> hit x \<and> succs x \<subseteq> R) \<longrightarrow>
   (found q R \<longleftrightarrow> (\<exists>y \<in> reach_from succs R. hit y))"
proof (rule found_induct [of "\<lambda>q R. set q \<subseteq> R \<and> (\<forall>x \<in> R - set q. \<not> hit x \<and> succs x \<subseteq> R) \<longrightarrow>
   (found q R \<longleftrightarrow> (\<exists>y \<in> reach_from succs R. hit y))"])
  fix R show "set [] \<subseteq> R \<and> (\<forall>x \<in> R - set []. \<not> hit x \<and> succs x \<subseteq> R) \<longrightarrow>
    (found [] R \<longleftrightarrow> (\<exists>y \<in> reach_from succs R. hit y))"
  proof
    assume *: "set [] \<subseteq> R \<and> (\<forall>x \<in> R - set []. \<not> hit x \<and> succs x \<subseteq> R)"
    then have "reach_from succs R \<subseteq> R" by (intro reach_from_least) auto
    with * show "found [] R \<longleftrightarrow> (\<exists>y \<in> reach_from succs R. hit y)" by (auto simp: found_Nil)
  qed
next
  fix x q R
  assume IH: "set (enqueue x q R) \<subseteq> R \<union> succs x \<and>
      (\<forall>y \<in> R \<union> succs x - set (enqueue x q R). \<not> hit y \<and> succs y \<subseteq> R \<union> succs x) \<longrightarrow>
      (found (enqueue x q R) (R \<union> succs x) \<longleftrightarrow> (\<exists>y \<in> reach_from succs (R \<union> succs x). hit y))"
  show "set (x # q) \<subseteq> R \<and> (\<forall>y \<in> R - set (x # q). \<not> hit y \<and> succs y \<subseteq> R) \<longrightarrow>
      (found (x # q) R \<longleftrightarrow> (\<exists>y \<in> reach_from succs R. hit y))"
  proof
    assume *: "set (x # q) \<subseteq> R \<and> (\<forall>y \<in> R - set (x # q). \<not> hit y \<and> succs y \<subseteq> R)"
    show "found (x # q) R \<longleftrightarrow> (\<exists>y \<in> reach_from succs R. hit y)"
    proof (cases "hit x")
      case True
      with * show ?thesis using reach_from_incl [of R succs] by (auto simp: found_Cons)
    next
      case False
      have "reach_from succs (R \<union> succs x) = reach_from succs R"
        using * by (intro reach_from_grow) auto
      moreover have "set (enqueue x q R) \<subseteq> R \<union> succs x" using * by (auto simp: enqueue_set)
      moreover have "\<not> hit y \<and> succs y \<subseteq> R \<union> succs x"
        if "y \<in> R \<union> succs x - set (enqueue x q R)" for y
        using that * False by (cases "y = x") (auto simp: enqueue_set)
      ultimately show ?thesis using IH False by (simp add: found_Cons)
    qed
  qed
qed

theorem found_iff_reach: "found q (set q) \<longleftrightarrow> (\<exists>y \<in> reach_from succs (set q). hit y)"
  using found_gen [of q "set q"] by simp

end

text \<open>Every round of such a loop takes one node from the queue and moves new nodes from the unmarked
  ones to the queue, so unmarked nodes and queue together shrink.\<close>

lemma Un_unmarked [simp]: "R \<union> {x \<in> A. x \<notin> R} = R \<union> A"
  by auto

lemma flood_decreases:
  assumes "finite N" "distinct ns" "set ns \<subseteq> N - R"
  shows "card (N - (R \<union> set ns)) + length (q @ ns) < card (N - R) + length (x # q)"
proof -
  have "card (N - R - set ns) = card (N - R) - card (set ns)"
    using assms by (intro card_Diff_subset) auto
  moreover have "card (set ns) \<le> card (N - R)" using assms by (intro card_mono) auto
  moreover have "N - R - set ns = N - (R \<union> set ns)" by auto
  ultimately show ?thesis using distinct_card [OF assms(2)] by simp
qed

end
