(* ===== verification/Splitter.thy ===== *)
theory Splitter
  imports Models Worklist
begin

text \<open>
  Splitter ports and their usage (\<^verbatim>\<open>services/splitter_service.py\<close>): the default port set, and three
  breadth-first walks over the links from an OUT port. A dictionary is an association list read by
  \<^const>\<open>map_of\<close>; a dictionary comprehension, in which a later key wins, is \<open>dict_of\<close>. The walks are
  recursive functions over the queue and the visited set, one per loop of the source.
\<close>

definition dict_of :: "('k \<times> 'v) list \<Rightarrow> ('k \<times> 'v) list" where
  "dict_of kvs = rev kvs"

section \<open>Default ports\<close>

definition DEFAULT_SPLIT_RATIO :: nat where
  "DEFAULT_SPLIT_RATIO = 32"

fun nat_digits :: "nat \<Rightarrow> string" where
  "nat_digits n = (if n < 10 then [char_of (48 + n)] else nat_digits (n div 10) @ [char_of (48 + n mod 10)])"

declare nat_digits.simps [simp del]

text \<open>The rows of the splitter are read once; the added rows do not enter \<open>names\<close>.\<close>

definition ensure_default_ports_for_splitter :: "db \<Rightarrow> device \<Rightarrow> nat option \<Rightarrow> db" where
  "ensure_default_ports_for_splitter s spl ratio =
     (if dev_type spl \<noteq> SPLITTER then s
      else let n = (case ratio of None \<Rightarrow> DEFAULT_SPLIT_RATIO
                    | Some r \<Rightarrow> (if r = 0 then DEFAULT_SPLIT_RATIO else r));
               names = if_name ` set (filter (\<lambda>i. if_device_id i = dev_id spl) (interfaces s));
               wanted = ''in'' # map (\<lambda>k. ''out'' @ nat_digits k) [1..<n + 1];
               new = map (\<lambda>nm. Interface (dev_id spl @ ''-'' @ nm) (dev_id spl) nm)
                         (filter (\<lambda>nm. nm \<notin> names) wanted)
           in s\<lparr>interfaces := interfaces s @ new\<rparr>)"

section \<open>Walking the links\<close>

definition links_by_if :: "db \<Rightarrow> (ident \<times> link list) list" where
  "links_by_if s =
     foldl (\<lambda>d l. dict_append (ln_b_interface_id l) l (dict_append (ln_a_interface_id l) l d)) [] (links s)"

definition iter_counterparts :: "(ident \<times> link list) list \<Rightarrow> ident \<Rightarrow> ident list" where
  "iter_counterparts lbi i =
     concat (map (\<lambda>l. if ln_a_interface_id l = i then [ln_b_interface_id l]
                      else if ln_b_interface_id l = i then [ln_a_interface_id l] else [])
                 (dict_get_list lbi i))"

definition splitter_out_ifaces :: "db \<Rightarrow> device \<Rightarrow> iface list" where
  "splitter_out_ifaces s spl =
     (let s_ifaces = filter (\<lambda>i. if_device_id i = dev_id spl) (interfaces s);
          outs = filter (\<lambda>i. startswith (lower (if_name i)) ''out'') s_ifaces
      in if outs = [] then filter (\<lambda>i. lower (if_name i) \<noteq> ''in'') s_ifaces else outs)"

definition dev_by_if :: "db \<Rightarrow> (ident \<times> ident) list" where
  "dev_by_if s = dict_of (map (\<lambda>i. (if_id i, if_device_id i))
                     (filter (\<lambda>i. if_id i \<in> fst ` set (links_by_if s)) (interfaces s)))"

definition dtype_by_dev :: "db \<Rightarrow> (ident \<times> ident) list \<Rightarrow> (ident \<times> DeviceType) list" where
  "dtype_by_dev s dbi = dict_of (map (\<lambda>d. (dev_id d, dev_type d))
                     (filter (\<lambda>d. dev_id d \<in> snd ` set dbi) (devices s)))"

definition is_ont_type :: "DeviceType option \<Rightarrow> bool" where
  "is_ont_type t \<longleftrightarrow> t = Some ONT \<or> t = Some BUSINESS_ONT"

lemma iter_counterparts_notin: "i \<notin> fst ` set lbi \<Longrightarrow> iter_counterparts lbi i = []"
  by (simp add: iter_counterparts_def dict_get_notin)

text \<open>Every loop below shrinks the unvisited keys, or keeps them and shortens the queue.\<close>

lemma walk_decreases:
  assumes "cur \<notin> V" and "cur \<notin> K \<Longrightarrow> nbs = []" and "finite K"
  shows "card (K - insert cur V) < card (K - V) \<or>
         card (K - insert cur V) = card (K - V) \<and> length (q @ nbs) < length (cur # q)"
proof (cases "cur \<in> K")
  case True
  with assms show ?thesis by (intro disjI1 psubset_card_mono) auto
next
  case False
  then have "K - insert cur V = K - V" by auto
  with assms(2) [OF False] show ?thesis by simp
qed

text \<open>The loop of \<^verbatim>\<open>has_ont_reachable\<close>; \<open>S\<close> is \<^verbatim>\<open>seen_onts\<close>.\<close>

definition walk_next :: "(ident \<times> link list) list \<Rightarrow> (ident \<times> ident) list \<Rightarrow> ident \<Rightarrow> ident set \<Rightarrow> ident list" where
  "walk_next lbi dbi cur V =
     filter (\<lambda>nb. nb \<notin> V \<and> truthy (map_of dbi nb)) (iter_counterparts lbi cur)"

definition onts_among :: "(ident \<times> ident) list \<Rightarrow> (ident \<times> DeviceType) list \<Rightarrow> ident list \<Rightarrow> ident set" where
  "onts_among dbi dtd nbs =
     set (filter (\<lambda>d. is_ont_type (map_of dtd d)) (List.map_filter (map_of dbi) nbs))"

lemma walk_next_notin: "cur \<notin> fst ` set lbi \<Longrightarrow> walk_next lbi dbi cur V = []"
  by (simp add: walk_next_def iter_counterparts_notin)

function has_ont_loop ::
  "(ident \<times> link list) list \<Rightarrow> (ident \<times> ident) list \<Rightarrow> (ident \<times> DeviceType) list \<Rightarrow>
   ident list \<Rightarrow> ident set \<Rightarrow> ident set \<Rightarrow> ident set \<times> ident set" where
  "has_ont_loop lbi dbi dtd [] V S = (V, S)"
| "has_ont_loop lbi dbi dtd (cur # q) V S =
     (if cur \<in> V then has_ont_loop lbi dbi dtd q V S
      else let V' = insert cur V; nbs = walk_next lbi dbi cur V'
           in has_ont_loop lbi dbi dtd (q @ nbs) V' (S \<union> onts_among dbi dtd nbs))"
  by pat_completeness auto
termination
proof (relation "measures [\<lambda>(lbi, dbi, dtd, q, V, S). card (fst ` set lbi - V),
                           \<lambda>(lbi, dbi, dtd, q, V, S). length q]", goal_cases)
  case (3 lbi dbi dtd cur q V S V' nbs)
  then show ?case
    using walk_decreases [of cur V "fst ` set lbi" nbs q] by (simp add: walk_next_notin)
qed simp_all

definition splitter_dev_by_if :: "db \<Rightarrow> device \<Rightarrow> (ident \<times> ident) list" where
  "splitter_dev_by_if s spl =
     dev_by_if s @ map (\<lambda>i. (if_id i, dev_id spl))
       (filter (\<lambda>i. if_device_id i = dev_id spl) (interfaces s))"

definition has_ont_reachable :: "db \<Rightarrow> device \<Rightarrow> iface \<Rightarrow> bool \<times> ident set" where
  "has_ont_reachable s spl start_if =
     (let dbi = splitter_dev_by_if s spl;
          seen = snd (has_ont_loop (links_by_if s) dbi (dtype_by_dev s dbi) [if_id start_if] {} {})
      in (card seen > 0, seen))"

definition compute_splitter_usage :: "db \<Rightarrow> device \<Rightarrow> nat \<times> nat \<times> nat" where
  "compute_splitter_usage s spl =
     (if dev_type spl \<noteq> SPLITTER then (0, 0, 0)
      else let outs = splitter_out_ifaces s spl
           in if length outs = 0 then (0, 0, 0)
              else let res = map (has_ont_reachable s spl) outs
                   in (length outs, length (filter fst res), card (\<Union> (set (map snd res)))))"

text \<open>The loop of \<^verbatim>\<open>_reaches\<close>: the goal is tested when a node leaves the queue, before the visited test.\<close>

function reaches_loop :: "(ident \<times> link list) list \<Rightarrow> ident \<Rightarrow> ident list \<Rightarrow> ident set \<Rightarrow> bool" where
  "reaches_loop lbi goal [] V = False"
| "reaches_loop lbi goal (cur # q) V =
     (if cur = goal then True
      else if cur \<in> V then reaches_loop lbi goal q V
      else let V' = insert cur V
           in reaches_loop lbi goal (q @ filter (\<lambda>nb. nb \<notin> V') (iter_counterparts lbi cur)) V')"
  by pat_completeness auto
termination
proof (relation "measures [\<lambda>(lbi, goal, q, V). card (fst ` set lbi - V),
                           \<lambda>(lbi, goal, q, V). length q]", goal_cases)
  case (3 lbi goal cur q V V')
  then show ?case
    using walk_decreases [of cur V "fst ` set lbi"
        "filter (\<lambda>nb. nb \<notin> V') (iter_counterparts lbi cur)" q]
    by (simp add: iter_counterparts_notin)
qed simp_all

definition find_out_interface_reaching :: "db \<Rightarrow> device \<Rightarrow> ident \<Rightarrow> iface option" where
  "find_out_interface_reaching s spl target =
     (if dev_type spl \<noteq> SPLITTER then None
      else find (\<lambda>o'. reaches_loop (links_by_if s) target [if_id o'] {}) (splitter_out_ifaces s spl))"

text \<open>The loop of \<^verbatim>\<open>out_interface_has_ont\<close>, which returns at the first ONT it meets.\<close>

function out_has_ont_loop ::
  "(ident \<times> link list) list \<Rightarrow> (ident \<times> ident) list \<Rightarrow> (ident \<times> DeviceType) list \<Rightarrow>
   ident list \<Rightarrow> ident set \<Rightarrow> bool" where
  "out_has_ont_loop lbi dbi dtd [] V = False"
| "out_has_ont_loop lbi dbi dtd (cur # q) V =
     (if cur \<in> V then out_has_ont_loop lbi dbi dtd q V
      else let V' = insert cur V; nbs = walk_next lbi dbi cur V'
           in if onts_among dbi dtd nbs \<noteq> {} then True
              else out_has_ont_loop lbi dbi dtd (q @ nbs) V')"
  by pat_completeness auto
termination
proof (relation "measures [\<lambda>(lbi, dbi, dtd, q, V). card (fst ` set lbi - V),
                           \<lambda>(lbi, dbi, dtd, q, V). length q]", goal_cases)
  case (3 lbi dbi dtd cur q V V' nbs)
  then show ?case
    using walk_decreases [of cur V "fst ` set lbi" nbs q] by (simp add: walk_next_notin)
qed simp_all

definition out_interface_has_ont :: "db \<Rightarrow> ident \<Rightarrow> bool" where
  "out_interface_has_ont s i =
     (let dbi = dev_by_if s in out_has_ont_loop (links_by_if s) dbi (dtype_by_dev s dbi) [i] {})"

section \<open>Specification: the link graph on interfaces\<close>

definition if_peers :: "db \<Rightarrow> ident \<Rightarrow> ident set" where
  "if_peers s i = {j. \<exists>l \<in> set (links s). ln_a_interface_id l = i \<and> ln_b_interface_id l = j \<or>
                                       ln_b_interface_id l = i \<and> ln_a_interface_id l = j}"

definition known_peers :: "db \<Rightarrow> ident \<Rightarrow> ident set" where
  "known_peers s i = {j \<in> if_peers s i. \<exists>r. get_interface s j = Some r \<and> if_device_id r \<noteq> []}"

definition ont_of :: "db \<Rightarrow> ident \<Rightarrow> ident set" where
  "ont_of s j = {d. \<exists>r dv. get_interface s j = Some r \<and> d = if_device_id r \<and>
                    get_device s d = Some dv \<and> dev_type dv \<in> {ONT, BUSINESS_ONT}}"

definition served_onts :: "db \<Rightarrow> ident \<Rightarrow> ident set" where
  "served_onts s i = (\<Union>j \<in> reach_from (known_peers s) {i}. ont_of s j)"

lemma links_by_if_gen:
  "set (dict_get_list (foldl (\<lambda>d l. dict_append (ln_b_interface_id l) l
        (dict_append (ln_a_interface_id l) l d)) d ls) i) =
   set (dict_get_list d i) \<union> {l \<in> set ls. ln_a_interface_id l = i \<or> ln_b_interface_id l = i}"
  by (induction ls arbitrary: d) (auto simp: dict_simps)

lemma set_links_by_if:
  "set (dict_get_list (links_by_if s) i) = {l \<in> set (links s). ln_a_interface_id l = i \<or> ln_b_interface_id l = i}"
  by (simp add: links_by_if_def links_by_if_gen dict_simps)

lemma keys_links_by_if_gen:
  "fst ` set (foldl (\<lambda>d l. dict_append (ln_b_interface_id l) l
        (dict_append (ln_a_interface_id l) l d)) d ls) =
   fst ` set d \<union> ln_a_interface_id ` set ls \<union> ln_b_interface_id ` set ls"
  by (induction ls arbitrary: d) (auto simp: dict_simps)

lemma keys_links_by_if:
  "fst ` set (links_by_if s) = ln_a_interface_id ` set (links s) \<union> ln_b_interface_id ` set (links s)"
  by (simp add: links_by_if_def keys_links_by_if_gen)

lemma set_iter_counterparts: "set (iter_counterparts (links_by_if s) i) = if_peers s i"
  by (auto simp: iter_counterparts_def set_links_by_if if_peers_def split: if_splits)

lemma if_peers_keys: "j \<in> if_peers s i \<Longrightarrow> j \<in> fst ` set (links_by_if s)"
  by (auto simp: if_peers_def keys_links_by_if)

section \<open>The loops\<close>

lemma has_ont_induct:
  assumes "\<And>V. P [] V"
    and "\<And>x q V. x \<in> V \<Longrightarrow> P q V \<Longrightarrow> P (x # q) V"
    and "\<And>x q V. x \<notin> V \<Longrightarrow> P (q @ walk_next lbi dbi x (insert x V)) (insert x V) \<Longrightarrow> P (x # q) V"
  shows "P q V"
proof -
  have "l = lbi \<longrightarrow> d = dbi \<longrightarrow> P q V" for l d and dtd :: "(ident \<times> DeviceType) list" and S :: "ident set"
    by (induction l d dtd q V S rule: has_ont_loop.induct) (use assms in metis)+
  then show ?thesis by blast
qed

lemma has_ont_loop_acc:
  "has_ont_loop lbi dbi dtd q V S =
     (fst (has_ont_loop lbi dbi dtd q V {}), S \<union> snd (has_ont_loop lbi dbi dtd q V {}))"
proof -
  have "\<forall>S. has_ont_loop lbi dbi dtd q V S =
     (fst (has_ont_loop lbi dbi dtd q V {}), S \<union> snd (has_ont_loop lbi dbi dtd q V {}))"
  proof (rule has_ont_induct [of "\<lambda>q V. \<forall>S. has_ont_loop lbi dbi dtd q V S =
     (fst (has_ont_loop lbi dbi dtd q V {}), S \<union> snd (has_ont_loop lbi dbi dtd q V {}))" lbi dbi])
    fix x q V
    let ?n = "walk_next lbi dbi x (insert x V)"
    assume x: "x \<notin> V"
      and IH: "\<forall>S. has_ont_loop lbi dbi dtd (q @ ?n) (insert x V) S =
        (fst (has_ont_loop lbi dbi dtd (q @ ?n) (insert x V) {}),
         S \<union> snd (has_ont_loop lbi dbi dtd (q @ ?n) (insert x V) {}))"
    have *: "has_ont_loop lbi dbi dtd (x # q) V S =
        (fst (has_ont_loop lbi dbi dtd (q @ ?n) (insert x V) {}),
         S \<union> onts_among dbi dtd ?n \<union> snd (has_ont_loop lbi dbi dtd (q @ ?n) (insert x V) {}))" for S
      using x by (simp add: Let_def IH [rule_format, of "S \<union> onts_among dbi dtd ?n"])
    show "\<forall>S. has_ont_loop lbi dbi dtd (x # q) V S =
      (fst (has_ont_loop lbi dbi dtd (x # q) V {}), S \<union> snd (has_ont_loop lbi dbi dtd (x # q) V {}))"
      unfolding * by auto
  next
    fix x q V
    assume x: "x \<in> V" and IH: "\<forall>S. has_ont_loop lbi dbi dtd q V S =
     (fst (has_ont_loop lbi dbi dtd q V {}), S \<union> snd (has_ont_loop lbi dbi dtd q V {}))"
    from x have *: "has_ont_loop lbi dbi dtd (x # q) V S = has_ont_loop lbi dbi dtd q V S" for S
      by simp
    show "\<forall>S. has_ont_loop lbi dbi dtd (x # q) V S =
      (fst (has_ont_loop lbi dbi dtd (x # q) V {}), S \<union> snd (has_ont_loop lbi dbi dtd (x # q) V {}))"
      unfolding * by (rule IH)
  qed simp
  then show ?thesis by blast
qed

lemma fst_has_ont_loop: "fst (has_ont_loop lbi dbi dtd q V S) = fst (has_ont_loop lbi dbi dtd q V {})"
  by (subst has_ont_loop_acc) simp

lemma snd_has_ont_loop: "snd (has_ont_loop lbi dbi dtd q V S) = S \<union> snd (has_ont_loop lbi dbi dtd q V {})"
  by (subst has_ont_loop_acc) simp

interpretation ont_walk: worklist "\<lambda>i. set (walk_next lbi dbi i {})"
  "\<lambda>x q V. q @ walk_next lbi dbi x (insert x V)" "\<lambda>q V. fst (has_ont_loop lbi dbi dtd q V {})"
  for lbi dbi dtd
proof
  show "P q V" if "\<And>V. P [] V" "\<And>x q V. x \<in> V \<Longrightarrow> P q V \<Longrightarrow> P (x # q) V"
    "\<And>x q V. x \<notin> V \<Longrightarrow> P (q @ walk_next lbi dbi x (insert x V)) (insert x V) \<Longrightarrow> P (x # q) V"
    for P q V using that by (rule has_ont_induct)
  show "fst (has_ont_loop lbi dbi dtd (x # q) V {}) =
      fst (has_ont_loop lbi dbi dtd (q @ walk_next lbi dbi x (insert x V)) (insert x V) {})"
    if "x \<notin> V" for x q V
    using that fst_has_ont_loop [of lbi dbi dtd _ _ "onts_among dbi dtd (walk_next lbi dbi x (insert x V))"]
    by (simp add: Let_def)
qed (auto simp: walk_next_def)

text \<open>The ONTs a walk collects are the owners of what it visits, up to the owners it started with.\<close>

definition onts_in :: "(ident \<times> ident) list \<Rightarrow> (ident \<times> DeviceType) list \<Rightarrow> ident set \<Rightarrow> ident set" where
  "onts_in dbi dtd A = {d. \<exists>j \<in> A. map_of dbi j = Some d \<and> is_ont_type (map_of dtd d)}"

lemma onts_among_eq: "onts_among dbi dtd xs = onts_in dbi dtd (set xs)"
  by (force simp: onts_among_def onts_in_def map_filter_def image_iff)

lemma onts_in_Un: "onts_in dbi dtd (A \<union> B) = onts_in dbi dtd A \<union> onts_in dbi dtd B"
  by (auto simp: onts_in_def)

lemma onts_in_mono: "A \<subseteq> B \<Longrightarrow> onts_in dbi dtd A \<subseteq> onts_in dbi dtd B"
  by (auto simp: onts_in_def)

lemma has_ont_loop_collects:
  "onts_in dbi dtd (V \<union> set q) \<subseteq> S \<Longrightarrow> S \<subseteq> onts_in dbi dtd (V \<union> set q) \<Longrightarrow>
   snd (has_ont_loop lbi dbi dtd q V S) = onts_in dbi dtd (fst (has_ont_loop lbi dbi dtd q V S))"
proof (induction lbi dbi dtd q V S rule: has_ont_loop.induct)
  case (2 lbi dbi dtd cur q V S)
  show ?case
  proof (cases "cur \<in> V")
    case True
    with 2 show ?thesis by (simp add: insert_absorb)
  next
    case False
    let ?n = "walk_next lbi dbi cur (insert cur V)"
    have "onts_in dbi dtd (insert cur V \<union> set (q @ ?n)) = S \<union> onts_among dbi dtd ?n"
      using "2.prems" onts_in_Un [of dbi dtd "V \<union> set (cur # q)" "set ?n"]
      by (simp add: onts_among_eq Un_assoc)
    with False "2.IH"(2) [OF False refl refl] show ?thesis by (simp add: Let_def)
  qed
qed simp

lemma out_has_ont_iff:
  "out_has_ont_loop lbi dbi dtd q V \<longleftrightarrow> snd (has_ont_loop lbi dbi dtd q V {}) \<noteq> {}"
proof (induction lbi dbi dtd q V rule: out_has_ont_loop.induct)
  case (2 lbi dbi dtd cur q V)
  show ?case
    using 2 snd_has_ont_loop [of lbi dbi dtd _ _ "onts_among dbi dtd (walk_next lbi dbi cur (insert cur V))"]
    by (cases "cur \<in> V") (auto simp: Let_def)
qed simp

section \<open>Relating the dictionaries to the tables\<close>

text \<open>What the walks need of their interface dictionary: its entries are rows, and it holds every row
  that some link mentions.\<close>

definition dbi_ok :: "db \<Rightarrow> (ident \<times> ident) list \<Rightarrow> bool" where
  "dbi_ok s dbi \<longleftrightarrow>
     (\<forall>j d. map_of dbi j = Some d \<longrightarrow> (\<exists>r. get_interface s j = Some r \<and> if_device_id r = d)) \<and>
     (\<forall>j r. j \<in> fst ` set (links_by_if s) \<longrightarrow> get_interface s j = Some r \<longrightarrow>
            map_of dbi j = Some (if_device_id r))"

lemma map_of_rows:
  assumes "distinct (map f xs)"
  shows "map_of (dict_of (map (\<lambda>x. (f x, g x)) (filter P xs))) k =
     (case find (\<lambda>x. f x = k) xs of None \<Rightarrow> None | Some x \<Rightarrow> if P x then Some (g x) else None)"
proof -
  have "distinct (map fst (map (\<lambda>x. (f x, g x)) (filter P xs)))"
    using assms by (simp add: comp_def distinct_map_filter)
  then have "map_of (dict_of (map (\<lambda>x. (f x, g x)) (filter P xs))) = map_of (map (\<lambda>x. (f x, g x)) (filter P xs))"
    unfolding dict_of_def by (rule map_of_rev_distinct)
  moreover have "map_of (map (\<lambda>x. (f x, g x)) (filter P xs)) k =
     (case find (\<lambda>x. f x = k) xs of None \<Rightarrow> None | Some x \<Rightarrow> if P x then Some (g x) else None)"
    using assms
  proof (induction xs)
    case (Cons x xs)
    show ?case
    proof (cases "f x = k")
      case True
      with Cons.prems have "k \<notin> f ` set xs" by auto
      then have "find (\<lambda>x. f x = k) xs = None" by (auto simp: find_None_iff')
      with Cons True show ?thesis by simp
    qed (use Cons in simp)
  qed simp
  ultimately show ?thesis by simp
qed

lemma dbi_ok_dev_by_if:
  assumes "wf_db s"
  shows "dbi_ok s (dev_by_if s)"
proof -
  have "map_of (dev_by_if s) j = (case get_interface s j of None \<Rightarrow> None
          | Some r \<Rightarrow> if if_id r \<in> fst ` set (links_by_if s) then Some (if_device_id r) else None)" for j
    using assms by (simp add: dev_by_if_def map_of_rows wf_db_def get_interface_def)
  then show ?thesis
    by (auto simp: dbi_ok_def split: option.splits if_splits dest: ifc.get_key)
qed

lemma dbi_ok_splitter_dev_by_if:
  assumes "wf_db s"
  shows "dbi_ok s (splitter_dev_by_if s spl)"
proof -
  have extra: "\<exists>r. get_interface s j = Some r \<and> if_device_id r = d"
    if "map_of (map (\<lambda>i. (if_id i, dev_id spl)) (filter (\<lambda>i. if_device_id i = dev_id spl) (interfaces s))) j
          = Some d" for j d
    using that assms by (auto dest!: map_of_SomeD simp: wf_db_get_interface)
  from dbi_ok_dev_by_if [OF assms] show ?thesis
    unfolding dbi_ok_def splitter_dev_by_if_def
    by (auto simp: map_of_append map_add_Some_iff map_add_def split: option.splits dest: extra)
qed

lemma is_ont_type_dtype:
  assumes "wf_db s" "map_of dbi j = Some d"
  shows "is_ont_type (map_of (dtype_by_dev s dbi) d) \<longleftrightarrow>
     (\<exists>dv. get_device s d = Some dv \<and> dev_type dv \<in> {ONT, BUSINESS_ONT})"
proof -
  have "d \<in> snd ` set dbi" using assms(2) by (force dest: map_of_SomeD)
  then have "map_of (dtype_by_dev s dbi) d = map_option dev_type (get_device s d)"
    using assms(1)
    by (auto simp: dtype_by_dev_def map_of_rows wf_db_def get_device_def dest: find_SomeD split: option.splits)
  then show ?thesis by (auto simp: is_ont_type_def)
qed

lemma set_walk_next:
  assumes "dbi_ok s dbi"
  shows "set (walk_next (links_by_if s) dbi i {}) = known_peers s i"
proof -
  have "truthy (map_of dbi j) \<longleftrightarrow> (\<exists>r. get_interface s j = Some r \<and> if_device_id r \<noteq> [])"
    if "j \<in> if_peers s i" for j
    using assms if_peers_keys [OF that] unfolding dbi_ok_def truthy_iff by metis
  then show ?thesis
    by (auto simp: walk_next_def set_iter_counterparts known_peers_def)
qed

lemma onts_in_ont_of:
  assumes "wf_db s" "dbi_ok s dbi"
  shows "onts_in dbi (dtype_by_dev s dbi) A \<subseteq> (\<Union>j \<in> A. ont_of s j)"
    and "A \<subseteq> fst ` set (links_by_if s) \<Longrightarrow>
         (\<Union>j \<in> A. ont_of s j) \<subseteq> onts_in dbi (dtype_by_dev s dbi) A"
proof -
  have 1: "map_of dbi j = Some d \<Longrightarrow> get_interface s j \<noteq> None \<and> if_device_id (the (get_interface s j)) = d"
    for j d using assms(2) by (fastforce simp: dbi_ok_def)
  show "onts_in dbi (dtype_by_dev s dbi) A \<subseteq> (\<Union>j \<in> A. ont_of s j)"
    using is_ont_type_dtype [OF assms(1), of dbi] 1 by (fastforce simp: onts_in_def ont_of_def)
  have 2: "j \<in> fst ` set (links_by_if s) \<Longrightarrow> get_interface s j = Some r \<Longrightarrow>
     map_of dbi j = Some (if_device_id r)" for j r using assms(2) by (simp add: dbi_ok_def)
  show "(\<Union>j \<in> A. ont_of s j) \<subseteq> onts_in dbi (dtype_by_dev s dbi) A"
    if "A \<subseteq> fst ` set (links_by_if s)"
  proof
    fix d assume "d \<in> (\<Union>j \<in> A. ont_of s j)"
    then obtain j r dv where j: "j \<in> A" "get_interface s j = Some r" "d = if_device_id r"
      "get_device s d = Some dv" "dev_type dv \<in> {ONT, BUSINESS_ONT}"
      by (auto simp: ont_of_def)
    with that 2 have "map_of dbi j = Some d" by blast
    with j is_ont_type_dtype [OF assms(1) this] show "d \<in> onts_in dbi (dtype_by_dev s dbi) A"
      by (auto simp: onts_in_def)
  qed
qed

lemma has_ont_loop_served:
  assumes wf: "wf_db s" and ok: "dbi_ok s dbi" and start: "ont_of s i = {}"
  shows "snd (has_ont_loop (links_by_if s) dbi (dtype_by_dev s dbi) [i] {} {}) = served_onts s i"
proof -
  let ?dtd = "dtype_by_dev s dbi" and ?R = "reach_from (known_peers s) {i}"
  have visited: "fst (has_ont_loop (links_by_if s) dbi ?dtd [i] {} {}) = ?R"
    using ont_walk.run_eq_reach [of "links_by_if s" dbi ?dtd "[i]"] by (simp add: set_walk_next [OF ok])
  have "onts_in dbi ?dtd {i} = {}" using onts_in_ont_of(1) [OF wf ok, of "{i}"] start by auto
  then have "snd (has_ont_loop (links_by_if s) dbi ?dtd [i] {} {}) = onts_in dbi ?dtd ?R"
    using has_ont_loop_collects [of dbi ?dtd "{}" "[i]" "{}" "links_by_if s"] visited by simp
  moreover have "j = i \<or> j \<in> fst ` set (links_by_if s)" if "j \<in> ?R" for j
    using that by (induction rule: reach_from_induct) (auto simp: known_peers_def dest: if_peers_keys)
  then have "onts_in dbi ?dtd ?R = served_onts s i"
    using onts_in_ont_of(1) [OF wf ok, of ?R] onts_in_ont_of(2) [OF wf ok, of "?R - {i}"] start
      onts_in_mono [of "?R - {i}" ?R dbi ?dtd]
    unfolding served_onts_def by fast
  ultimately show ?thesis by simp
qed

lemma served_onts_finite: "finite (served_onts s i)"
proof -
  have "served_onts s i \<subseteq> dev_id ` set (devices s)"
    by (force simp: served_onts_def ont_of_def dest!: dev.get_SomeD)
  then show ?thesis by (rule finite_subset) simp
qed

lemma out_iface_row: "o' \<in> set (splitter_out_ifaces s spl) \<Longrightarrow> o' \<in> set (interfaces s) \<and> if_device_id o' = dev_id spl"
  by (auto simp: splitter_out_ifaces_def Let_def split: if_splits)

lemma out_iface_no_ont:
  assumes "wf_db s" "get_device s (dev_id spl) = Some spl" "dev_type spl = SPLITTER"
    and "o' \<in> set (splitter_out_ifaces s spl)"
  shows "ont_of s (if_id o') = {}"
  using assms out_iface_row [OF assms(4)] wf_db_get_interface [OF assms(1), of o'] by (simp add: ont_of_def)

lemma has_ont_reachable_served:
  assumes "wf_db s" "ont_of s (if_id o') = {}"
  shows "has_ont_reachable s spl o' = (served_onts s (if_id o') \<noteq> {}, served_onts s (if_id o'))"
  using has_ont_loop_served [OF assms(1) dbi_ok_splitter_dev_by_if [OF assms(1), of spl] assms(2)]
  by (simp add: has_ont_reachable_def Let_def card_gt_0_iff served_onts_finite)

lemma out_interface_has_ont_served:
  assumes "wf_db s" "ont_of s i = {}"
  shows "out_interface_has_ont s i \<longleftrightarrow> served_onts s i \<noteq> {}"
  using has_ont_loop_served [OF assms(1) dbi_ok_dev_by_if [OF assms(1)] assms(2)]
  by (simp add: out_interface_has_ont_def out_has_ont_iff)

lemma splitter_usage_served:
  assumes "wf_db s" "get_device s (dev_id spl) = Some spl" "dev_type spl = SPLITTER"
  shows "compute_splitter_usage s spl =
     (length (splitter_out_ifaces s spl),
      length (filter (\<lambda>o'. served_onts s (if_id o') \<noteq> {}) (splitter_out_ifaces s spl)),
      card (\<Union>o' \<in> set (splitter_out_ifaces s spl). served_onts s (if_id o')))"
proof -
  let ?outs = "splitter_out_ifaces s spl"
  have *: "has_ont_reachable s spl o' = (served_onts s (if_id o') \<noteq> {}, served_onts s (if_id o'))"
    if "o' \<in> set ?outs" for o'
    using has_ont_reachable_served [OF assms(1) out_iface_no_ont [OF assms that]] .
  then have "filter (fst \<circ> has_ont_reachable s spl) ?outs = filter (\<lambda>o'. served_onts s (if_id o') \<noteq> {}) ?outs"
    by (auto intro: filter_cong)
  with * assms(3) show ?thesis
    by (auto simp: compute_splitter_usage_def Let_def filter_map)
qed

text \<open>Termination of the walk without the device test gives its induction principle.\<close>

lemma counterparts_induct:
  assumes "\<And>V. P [] V"
    and "\<And>x q V. x \<in> V \<Longrightarrow> P q V \<Longrightarrow> P (x # q) V"
    and "\<And>x q V. x \<notin> V \<Longrightarrow> P (q @ filter (\<lambda>nb. nb \<notin> insert x V) (iter_counterparts lbi x)) (insert x V)
      \<Longrightarrow> P (x # q) V"
  shows "P q V"
proof -
  define K where "K = fst ` set lbi"
  have "wf (measures [\<lambda>(q, V). card (K - V), \<lambda>(q :: ident list, V). length q])" by simp
  then show ?thesis
  proof (induction "(q, V)" arbitrary: q V rule: wf_induct_rule)
    case less
    show ?case
    proof (cases q)
      case (Cons x q')
      show ?thesis
      proof (cases "x \<in> V")
        case False
        let ?n = "filter (\<lambda>nb. nb \<notin> insert x V) (iter_counterparts lbi x)"
        have "((q' @ ?n, insert x V), (q, V)) \<in> measures [\<lambda>(q, V). card (K - V), \<lambda>(q, V). length q]"
          using walk_decreases [OF False, of K ?n q'] Cons
          by (simp add: K_def iter_counterparts_notin)
        with less Cons False show ?thesis by (simp add: assms(3))
      qed (use less Cons assms(2) in simp)
    qed (simp add: assms(1))
  qed
qed

interpretation reach_walk: worklist_search "\<lambda>i. set (iter_counterparts lbi i)"
  "\<lambda>x q V. q @ filter (\<lambda>nb. nb \<notin> insert x V) (iter_counterparts lbi x)"
  "\<lambda>x. x = goal" "reaches_loop lbi goal" for lbi goal
proof
  show "P q V" if "\<And>V. P [] V" "\<And>x q V. x \<in> V \<Longrightarrow> P q V \<Longrightarrow> P (x # q) V"
    "\<And>x q V. x \<notin> V \<Longrightarrow> P (q @ filter (\<lambda>nb. nb \<notin> insert x V) (iter_counterparts lbi x)) (insert x V)
        \<Longrightarrow> P (x # q) V" for P and q :: "ident list" and V
    using that by (rule counterparts_induct)
qed (auto simp: Let_def)

section \<open>Properties\<close>

text \<open>A splitter with two OUT ports: the first leads straight to an ONT, the second to an NVT whose
  other port leads to a second ONT.\<close>

definition demo_splitter :: device where
  "demo_splitter = Device ''sp'' SPLITTER"

definition demo_db :: db where
  "demo_db = empty_db\<lparr>
     devices := [demo_splitter, Device ''ont1'' ONT, Device ''nvt'' NVT, Device ''ont2'' ONT],
     interfaces := [Interface ''sp-in'' ''sp'' ''in'', Interface ''sp-out1'' ''sp'' ''out1'',
                    Interface ''sp-out2'' ''sp'' ''out2'', Interface ''ont1-if0'' ''ont1'' ''if0'',
                    Interface ''nvt-a'' ''nvt'' ''a'', Interface ''nvt-b'' ''nvt'' ''b'',
                    Interface ''ont2-if0'' ''ont2'' ''if0''],
     links := [Link ''l1'' ''ont1-if0'' ''sp-out1'', Link ''l2'' ''nvt-a'' ''sp-out2'',
               Link ''l3'' ''nvt-b'' ''ont2-if0'']\<rparr>"

lemmas demo_defs = demo_db_def demo_splitter_def row_defs

lemma demo_wf: "wf_db demo_db"
  by (simp add: wf_db_def demo_defs)

lemma demo_get: "get_device demo_db (dev_id demo_splitter) = Some demo_splitter"
  by (simp add: get_device_def demo_defs)

text \<open>The usage a splitter reports is what its links say. The three numbers are the OUT ports, the
  OUT ports from which the walk over links meets an ONT, and the number of different ONTs met from
  all OUT ports together; no more ports are used than exist, and a port is used exactly when an ONT
  is served.\<close>

theorem splitter_usage_counts:
  assumes "wf_db s" "get_device s (dev_id spl) = Some spl" "dev_type spl = SPLITTER"
    and "compute_splitter_usage s spl = (ports, used, onts)"
  shows "ports = length (splitter_out_ifaces s spl) \<and>
     used = length (filter (\<lambda>o'. served_onts s (if_id o') \<noteq> {}) (splitter_out_ifaces s spl)) \<and>
     onts = card (\<Union>o' \<in> set (splitter_out_ifaces s spl). served_onts s (if_id o')) \<and>
     used \<le> ports \<and> (used = 0 \<longleftrightarrow> onts = 0)"
  using assms(4) [unfolded splitter_usage_served [OF assms(1-3)], symmetric]
  by (auto simp: filter_empty_conv card_eq_0_iff served_onts_finite)

theorem splitter_usage_counts_witness:
  "compute_splitter_usage demo_db demo_splitter = (2, 1, 1) \<and>
   (2::nat) = length (splitter_out_ifaces demo_db demo_splitter) \<and> (1::nat) \<le> 2"
proof -
  have u: "compute_splitter_usage demo_db demo_splitter = (2, 1, 1)" by code_simp
  have "dev_type demo_splitter = SPLITTER" by (simp add: demo_defs)
  from splitter_usage_counts [OF demo_wf demo_get this u] u show ?thesis by simp
qed

text \<open>The occupancy test the link policy uses for one OUT port and the usage counter agree: the
  ports counted as used are the ports for which \<^verbatim>\<open>out_interface_has_ont\<close> answers yes.\<close>

theorem splitter_port_check_agrees:
  assumes "wf_db s" "get_device s (dev_id spl) = Some spl" "dev_type spl = SPLITTER"
  shows "fst (snd (compute_splitter_usage s spl)) =
     length (filter (\<lambda>o'. out_interface_has_ont s (if_id o')) (splitter_out_ifaces s spl))"
proof -
  have "filter (\<lambda>o'. out_interface_has_ont s (if_id o')) (splitter_out_ifaces s spl) =
        filter (\<lambda>o'. served_onts s (if_id o') \<noteq> {}) (splitter_out_ifaces s spl)"
    by (intro filter_cong refl out_interface_has_ont_served [OF assms(1)] out_iface_no_ont [OF assms])
  then show ?thesis by (simp add: splitter_usage_served [OF assms])
qed

theorem splitter_port_check_agrees_witness:
  "out_interface_has_ont demo_db ''sp-out1'' \<and> \<not> out_interface_has_ont demo_db ''sp-out2'' \<and>
   fst (snd (compute_splitter_usage demo_db demo_splitter)) =
     length (filter (\<lambda>o'. out_interface_has_ont demo_db (if_id o')) (splitter_out_ifaces demo_db demo_splitter))"
proof -
  have "dev_type demo_splitter = SPLITTER" by (simp add: demo_defs)
  from splitter_port_check_agrees [OF demo_wf demo_get this] show ?thesis by code_simp
qed

text \<open>The OUT port reported for a target interface is the first OUT port, in table order, that is
  connected to the target by links; none is reported when no OUT port is.\<close>

theorem find_out_interface_correct:
  assumes "dev_type spl = SPLITTER"
  shows "find_out_interface_reaching s spl target =
     find (\<lambda>o'. target \<in> reach_from (if_peers s) {if_id o'}) (splitter_out_ifaces s spl)"
proof -
  have "reaches_loop (links_by_if s) target [if_id o'] {} \<longleftrightarrow> target \<in> reach_from (if_peers s) {if_id o'}"
    for o' :: iface using reach_walk.found_iff_reach [of "links_by_if s" target "[if_id o']"]
    by (simp add: set_iter_counterparts)
  with assms show ?thesis
    by (simp only: find_out_interface_reaching_def not_not simp_thms if_False)
qed

theorem find_out_interface_correct_witness:
  "find (\<lambda>o'. ''ont1-if0'' \<in> reach_from (if_peers demo_db) {if_id o'})
     (splitter_out_ifaces demo_db demo_splitter) = Some (Interface ''sp-out1'' ''sp'' ''out1'')"
proof -
  have "dev_type demo_splitter = SPLITTER" by (simp add: demo_defs)
  from find_out_interface_correct [OF this, of demo_db "''ont1-if0''", symmetric]
  show ?thesis by (rule trans) code_simp
qed

text \<open>Where every interface carries at most one link, a splitter port serves exactly the ONTs its own
  link ends at: the walk never crosses from one interface of a device to another, so an ONT behind a
  further passive device is not counted, although the module's description calls passive devices
  transparent.\<close>

theorem splitter_walk_is_one_link:
  assumes one: "\<And>l l'. l \<in> set (links s) \<Longrightarrow> l' \<in> set (links s) \<Longrightarrow>
      {ln_a_interface_id l, ln_b_interface_id l} \<inter> {ln_a_interface_id l', ln_b_interface_id l'} \<noteq> {} \<Longrightarrow> l = l'"
    and "ont_of s i = {}"
  shows "served_onts s i = (\<Union>j \<in> known_peers s i. ont_of s j)"
proof -
  have "k = i \<or> k \<in> known_peers s i" if "k \<in> reach_from (known_peers s) {i}" for k
    using that
  proof (induction rule: reach_from_induct)
    case (step j k)
    then show ?case using one by (auto simp: known_peers_def if_peers_def)
  qed simp
  moreover have "known_peers s i \<subseteq> reach_from (known_peers s) {i}"
    by (auto intro: reach_from_closed reach_from_incl [THEN subsetD])
  ultimately show ?thesis using assms(2) unfolding served_onts_def by blast
qed

lemma demo_one_link:
  "l \<in> set (links demo_db) \<Longrightarrow> l' \<in> set (links demo_db) \<Longrightarrow>
   {ln_a_interface_id l, ln_b_interface_id l} \<inter> {ln_a_interface_id l', ln_b_interface_id l'} \<noteq> {} \<Longrightarrow> l = l'"
proof -
  have "\<forall>l \<in> set (links demo_db). \<forall>l' \<in> set (links demo_db).
    {ln_a_interface_id l, ln_b_interface_id l} \<inter> {ln_a_interface_id l', ln_b_interface_id l'} \<noteq> {} \<longrightarrow> l = l'"
    by code_simp
  then show "l \<in> set (links demo_db) \<Longrightarrow> l' \<in> set (links demo_db) \<Longrightarrow>
     {ln_a_interface_id l, ln_b_interface_id l} \<inter> {ln_a_interface_id l', ln_b_interface_id l'} \<noteq> {} \<Longrightarrow> l = l'"
    by blast
qed

theorem splitter_walk_is_one_link_witness:
  "known_peers demo_db ''sp-out2'' = {''nvt-a''} \<and> ont_of demo_db ''nvt-a'' = {} \<and>
   served_onts demo_db ''sp-out2'' = {}"
proof -
  have p: "known_peers demo_db ''sp-out2'' = {''nvt-a''}"
    by (auto simp: known_peers_def if_peers_def get_interface_def demo_defs)
  have n: "ont_of demo_db ''nvt-a'' = {}" and o: "ont_of demo_db ''sp-out2'' = {}"
    by (auto simp: ont_of_def get_interface_def get_device_def demo_defs)
  from splitter_walk_is_one_link [OF demo_one_link o] p n show ?thesis by simp
qed

end
