(* ===== verification/Link_Policy.thy ===== *)
theory Link_Policy
  imports Link_State Splitter
begin

text \<open>
  The optical link policy (\<^verbatim>\<open>services/link_policy_optical.py\<close>): where an ONT may be connected, which
  OLT ports carry access links, and how many upstream links an ODF or ONT may have. Every rule
  returns the error it raises, or \<open>None\<close>. The adjacency sets of the code are lists without
  duplicates; the order in which Python walks a set does not matter, as the theorems show.
\<close>

section \<open>Adjacency\<close>

definition dtype :: "db \<Rightarrow> ident \<Rightarrow> DeviceType option" where
  "dtype s d = map_option dev_type (get_device s d)"

definition link_ends :: "db \<Rightarrow> link \<Rightarrow> (ident \<times> ident) option" where
  "link_ends s l =
     (case (get_interface s (ln_a_interface_id l), get_interface s (ln_b_interface_id l)) of
        (Some ia, Some ib) \<Rightarrow> Some (if_device_id ia, if_device_id ib)
      | _ \<Rightarrow> None)"

definition passive_edges :: "db \<Rightarrow> (ident \<times> ident) list" where
  "passive_edges s = concat (map (\<lambda>l.
     case link_ends s l of
       None \<Rightarrow> []
     | Some (da, d_b) \<Rightarrow>
         (case (dtype s da, dtype s d_b) of
            (Some ta, Some tb) \<Rightarrow>
              (if ta \<in> PASSIVE_INLINE \<and> tb \<in> PASSIVE_INLINE then [(da, d_b), (d_b, da)] else []) @
              (if ta \<in> PASSIVE_INLINE \<and> tb = ODF \<or> tb \<in> PASSIVE_INLINE \<and> ta = ODF
               then [(da, d_b), (d_b, da)] else [])
          | _ \<Rightarrow> [])) (links s))"

definition passive_adj :: "db \<Rightarrow> ident \<Rightarrow> ident list" where
  "passive_adj s x = remdups (map snd (filter (\<lambda>e. fst e = x) (passive_edges s)))"

definition odf_with_olt :: "db \<Rightarrow> ident list" where
  "odf_with_olt s = concat (map (\<lambda>l.
     case link_ends s l of
       None \<Rightarrow> []
     | Some (da, d_b) \<Rightarrow>
         (case (dtype s da, dtype s d_b) of
            (Some ta, Some tb) \<Rightarrow>
              if ta = ODF \<and> tb = OLT \<or> tb = ODF \<and> ta = OLT then [if ta = ODF then da else d_b] else []
          | _ \<Rightarrow> [])) (links s))"

definition dev_adj :: "db \<Rightarrow> ident \<Rightarrow> ident list" where
  "dev_adj s x = remdups (concat (map (\<lambda>l.
     case link_ends s l of
       None \<Rightarrow> []
     | Some (da, d_b) \<Rightarrow> (if da = x then [d_b] else []) @ (if d_b = x then [da] else [])) (links s)))"

definition direct_anchor :: "db \<Rightarrow> ident \<Rightarrow> bool" where
  "direct_anchor s p \<longleftrightarrow>
     list_ex (\<lambda>nb. dtype s nb = Some ODF \<and> list_ex (\<lambda>x. dtype s x = Some OLT) (dev_adj s nb)) (dev_adj s p)"

lemma passive_adj_in: "y \<in> set (passive_adj s x) \<Longrightarrow> y \<in> snd ` set (passive_edges s)"
  by (auto simp: passive_adj_def)

function anchor_bfs :: "db \<Rightarrow> ident list \<Rightarrow> ident set \<Rightarrow> bool" where
  "anchor_bfs s [] visited = False"
| "anchor_bfs s (cur # queue) visited =
     (if dtype s cur = Some ODF \<and> cur \<in> set (odf_with_olt s) then True
      else anchor_bfs s (queue @ filter (\<lambda>nb. nb \<notin> visited) (passive_adj s cur))
             (visited \<union> set (filter (\<lambda>nb. nb \<notin> visited) (passive_adj s cur))))"
  by pat_completeness auto
termination
proof (relation "measure (\<lambda>(s, q, V). card (snd ` set (passive_edges s) - V) + length q)", goal_cases)
  case (2 s cur queue visited)
  then show ?case
    using flood_decreases [of "snd ` set (passive_edges s)" "filter (\<lambda>nb. nb \<notin> visited) (passive_adj s cur)"
        visited queue cur]
    by (auto simp: passive_adj_def)
qed simp

section \<open>The rules\<close>

definition err :: "ErrorCode \<Rightarrow> string \<Rightarrow> http_exception option" where
  "err c sfx = Some (raise_error c (Some sfx) None)"

definition splitter_rules :: "db \<Rightarrow> device \<Rightarrow> device \<Rightarrow> device \<Rightarrow> ident \<Rightarrow> ident \<Rightarrow> http_exception option" where
  "splitter_rules s other a_dev b_dev a_if b_if =
     (let ont_if = (if dev_type a_dev \<in> ONT_CLASS then a_if else b_if);
          out_if = (case find_out_interface_reaching s other ont_if of
                      Some o' \<Rightarrow> Some o'
                    | None \<Rightarrow>
                        find (\<lambda>c. if_device_id c = dev_id other \<and> startswith (lower (if_name c)) ''out'')
                          (List.map_filter (get_interface s) [a_if, b_if]));
          (ports_total, used, onts) = compute_splitter_usage s other;
          capacity = (if ports_total > 0 \<and> onts \<ge> ports_total
                      then err LINK_INVALID_UPSTREAM (''Splitter capacity exhausted: '' @ show_nat onts @
                             ''/'' @ show_nat ports_total @ '' ONTs already connected'')
                      else None)
      in case out_if of
           Some o' \<Rightarrow>
             if out_interface_has_ont s (if_id o')
             then err LINK_INVALID_UPSTREAM (''Splitter OUT '' @ [CHR 0x27] @ if_name o' @ [CHR 0x27] @
                    '' already serves an ONT; over-subscription is not allowed'')
             else capacity
         | None \<Rightarrow> capacity)"

definition enforce_ont_placement_rules ::
    "db \<Rightarrow> device \<Rightarrow> device \<Rightarrow> ident \<Rightarrow> ident \<Rightarrow> http_exception option" where
  "enforce_ont_placement_rules s a_dev b_dev a_if b_if =
     (if dev_type a_dev \<notin> ONT_CLASS \<and> dev_type b_dev \<notin> ONT_CLASS then None
      else let other = (if dev_type a_dev \<in> ONT_CLASS then b_dev else a_dev)
           in if dev_type other = ODF then None
              else if dev_type other \<notin> PASSIVE_INLINE
              then err LINK_INVALID_UPSTREAM (''ONT must connect upstream to an ODF or passive, not '' @
                     DeviceType_name (dev_type other))
              else if \<not> (direct_anchor s (dev_id other) \<or> anchor_bfs s [dev_id other] {dev_id other})
              then err LINK_INVALID_UPSTREAM
                     (''ONT may connect to passive NVT/SPLITTER/HOP only within an ODF-'' @
                      ''headed path that already anchors to an OLT (not SPLITTER directly)'')
              else if dev_type other = SPLITTER then splitter_rules s other a_dev b_dev a_if b_if
              else None)"

definition enforce_pon_role_if_declared ::
    "db \<Rightarrow> device \<Rightarrow> device \<Rightarrow> iface \<Rightarrow> iface \<Rightarrow> http_exception option" where
  "enforce_pon_role_if_declared s a_dev b_dev a_if b_if =
     (let access = (\<lambda>t. t \<in> ONT_CLASS \<or> t \<in> PASSIVE_INLINE \<or> t = ODF)
      in if \<not> (dev_type a_dev = OLT \<and> access (dev_type b_dev) \<or>
               dev_type b_dev = OLT \<and> access (dev_type a_dev)) then None
         else let olt_iface = (if dev_type a_dev = OLT then a_if else b_if);
                  olt_dev = (if dev_type a_dev = OLT then a_dev else b_dev);
                  olt_has_any_pon = list_ex (\<lambda>i. if_port_role i = Some PORT_PON)
                    (filter (\<lambda>i. if_device_id i = dev_id olt_dev) (interfaces s))
              in if olt_has_any_pon \<and> if_port_role olt_iface \<noteq> Some PORT_PON
                 then err INVALID_LINK_TYPE ''PON_PORT_REQUIRED'' else None)"

definition is_upstream_link :: "db \<Rightarrow> device \<Rightarrow> link \<Rightarrow> bool" where
  "is_upstream_link s dev l =
     (case link_ends s l of
        None \<Rightarrow> False
      | Some (da, d_b) \<Rightarrow>
          (da = dev_id dev \<or> d_b = dev_id dev) \<and>
          (case dtype s (if da = dev_id dev then d_b else da) of
             None \<Rightarrow> False
           | Some t \<Rightarrow> dev_type dev = ODF \<and> t = OLT \<or> dev_type dev \<in> ONT_CLASS \<and> t \<in> PASSIVE_INLINE))"

definition count_upstream_links :: "db \<Rightarrow> device \<Rightarrow> nat" where
  "count_upstream_links s dev = length (filter (is_upstream_link s dev) (links s))"

definition multiple_upstreams :: "device \<Rightarrow> http_exception option" where
  "multiple_upstreams d = err LINK_MULTIPLE_UPSTREAMS
     (dev_id d @ '' already has an upstream link. Only one upstream is allowed.'')"

definition enforce_single_upstream_rules :: "db \<Rightarrow> device \<Rightarrow> device \<Rightarrow> http_exception option" where
  "enforce_single_upstream_rules s a_dev b_dev =
     (let odf = (if dev_type a_dev = ODF then a_dev else b_dev);
          ont = (if dev_type a_dev \<in> ONT_CLASS then a_dev else b_dev)
      in if (dev_type a_dev = ODF \<and> dev_type b_dev = OLT \<or> dev_type b_dev = ODF \<and> dev_type a_dev = OLT) \<and>
            count_upstream_links s odf \<ge> 1
         then multiple_upstreams odf
         else if (dev_type a_dev \<in> ONT_CLASS \<and> dev_type b_dev = ODF \<or>
                  dev_type b_dev \<in> ONT_CLASS \<and> dev_type a_dev = ODF) \<and>
                 count_upstream_links s ont \<ge> 1
         then multiple_upstreams ont
         else None)"

section \<open>What the search decides\<close>

text \<open>Two devices are neighbours when some link joins them, in either direction.\<close>

definition joined :: "db \<Rightarrow> ident \<Rightarrow> ident \<Rightarrow> bool" where
  "joined s x y \<longleftrightarrow> (\<exists>l \<in> set (links s). link_ends s l = Some (x, y) \<or> link_ends s l = Some (y, x))"

definition passive_nbrs :: "db \<Rightarrow> ident \<Rightarrow> ident set" where
  "passive_nbrs s x = {y. joined s x y \<and> (\<exists>t \<in> PASSIVE_INLINE. dtype s x = Some t) \<and>
     (\<exists>t \<in> PASSIVE_INLINE. dtype s y = Some t)}"

definition feeds :: "db \<Rightarrow> ident \<Rightarrow> bool" where
  "feeds s x \<longleftrightarrow> dtype s x = Some ODF \<and> (\<exists>y. joined s x y \<and> dtype s y = Some OLT)"

definition olt_anchored :: "db \<Rightarrow> ident \<Rightarrow> bool" where
  "olt_anchored s p \<longleftrightarrow> (\<exists>x \<in> reach_from (passive_nbrs s) {p}. feeds s x)"

lemma set_dev_adj: "set (dev_adj s x) = {y. joined s x y}"
  unfolding dev_adj_def joined_def set_eq_iff set_remdups loop_rows mem_Collect_eq by blast

lemma passive_edges_iff:
  "(x, y) \<in> set (passive_edges s) \<longleftrightarrow> joined s x y \<and>
     (\<exists>t \<in> PASSIVE_INLINE. dtype s x = Some t) \<and> (\<exists>t \<in> PASSIVE_INLINE. dtype s y = Some t)"
proof -
  have ODF: "ODF \<in> PASSIVE_INLINE" by (simp add: PASSIVE_INLINE_def)
  then show ?thesis unfolding passive_edges_def joined_def loop_rows prod.inject by blast
qed

lemma set_passive_adj: "set (passive_adj s x) = passive_nbrs s x"
  by (force simp: passive_adj_def passive_nbrs_def passive_edges_iff [symmetric])

lemma odf_with_olt_iff: "x \<in> set (odf_with_olt s) \<longleftrightarrow> feeds s x"
proof
  assume "x \<in> set (odf_with_olt s)"
  then show "feeds s x"
    unfolding odf_with_olt_def feeds_def joined_def loop_rows prod.inject
    by (elim bexE exE conjE disjE; hypsubst; simp; blast)
next
  assume "feeds s x"
  then obtain y l where l: "l \<in> set (links s)" "dtype s x = Some ODF" "dtype s y = Some OLT"
    "link_ends s l = Some (x, y) \<or> link_ends s l = Some (y, x)" unfolding feeds_def joined_def by blast
  then show "x \<in> set (odf_with_olt s)"
    unfolding odf_with_olt_def loop_rows prod.inject by (intro bexI [of _ l]) auto
qed

interpretation anchor_search: flood_search "\<lambda>x. set (passive_adj s x)"
  "\<lambda>x q V. q @ filter (\<lambda>nb. nb \<notin> V) (passive_adj s x)"
  "\<lambda>x. dtype s x = Some ODF \<and> x \<in> set (odf_with_olt s)" "anchor_bfs s" for s
proof
  show "P q V" if "\<And>V. P [] V"
    "\<And>x q V. P (q @ filter (\<lambda>nb. nb \<notin> V) (passive_adj s x)) (V \<union> set (passive_adj s x)) \<Longrightarrow> P (x # q) V"
    for P and q :: "ident list" and V
  proof (induction "card (snd ` set (passive_edges s) - V) + length q" arbitrary: q V rule: less_induct)
    case less
    show ?case
    proof (cases q)
      case (Cons x q')
      let ?ns = "filter (\<lambda>nb. nb \<notin> V) (passive_adj s x)"
      have "distinct ?ns" "set ?ns \<subseteq> snd ` set (passive_edges s) - V"
        by (auto simp: passive_adj_def)
      from flood_decreases [OF _ this, of q' x]
      have "P (q' @ ?ns) (V \<union> set ?ns)" using Cons by (intro less) simp
      moreover have "V \<union> set ?ns = V \<union> set (passive_adj s x)" by auto
      ultimately show ?thesis using Cons by (simp add: that(2))
    qed (simp add: that(1))
  qed
qed auto

lemma anchor_bfs_iff: "anchor_bfs s [p] {p} \<longleftrightarrow> olt_anchored s p"
  using anchor_search.found_iff_reach [of s "[p]"]
  by (auto simp: olt_anchored_def set_passive_adj odf_with_olt_iff feeds_def)

lemma direct_anchor_anchored:
  assumes "direct_anchor s p" "dtype s p = Some t" "t \<in> PASSIVE_INLINE"
  shows "olt_anchored s p"
proof -
  from assms(1) obtain x y where x: "joined s p x" "dtype s x = Some ODF" "joined s x y" "dtype s y = Some OLT"
    by (auto simp: direct_anchor_def list_ex_iff set_dev_adj)
  with assms(2,3) have "x \<in> passive_nbrs s p" by (auto simp: passive_nbrs_def PASSIVE_INLINE_def)
  then have "x \<in> reach_from (passive_nbrs s) {p}"
    using reach_from_incl [of "{p}"] by (blast intro: reach_from_closed)
  with x show ?thesis by (auto simp: olt_anchored_def feeds_def)
qed

section \<open>Counting upstream links\<close>

definition add_link :: "db \<Rightarrow> link \<Rightarrow> db" where
  "add_link s l = s\<lparr>links := links s @ [l]\<rparr>"

lemma add_link_lookups [simp]:
  "get_device (add_link s l) = get_device s" "get_interface (add_link s l) = get_interface s"
  "links (add_link s l) = links s @ [l]" "devices (add_link s l) = devices s"
  "interfaces (add_link s l) = interfaces s" "media (add_link s l) = media s"
  by (simp_all add: add_link_def get_defs fun_eq_iff)

lemma add_link_types [simp]: "dtype (add_link s l) = dtype s" "link_ends (add_link s l) = link_ends s"
  by (simp_all add: dtype_def link_ends_def fun_eq_iff)

lemma add_link_owner [simp]: "owner (add_link s l) = owner s"
  unfolding owner_def add_link_lookups ..

lemma add_link_upstream [simp]: "is_upstream_link (add_link s l) = is_upstream_link s"
  unfolding is_upstream_link_def add_link_types ..

lemma count_add_link:
  "count_upstream_links (add_link s l) d = count_upstream_links s d + (if is_upstream_link s d l then 1 else 0)"
  by (simp add: count_upstream_links_def)

text \<open>The links of an ONT to an ODF, among its upstream links.\<close>

definition odf_link :: "db \<Rightarrow> device \<Rightarrow> link \<Rightarrow> bool" where
  "odf_link s d l \<longleftrightarrow> is_upstream_link s d l \<and>
     (case link_ends s l of None \<Rightarrow> False
      | Some (da, d_b) \<Rightarrow> dtype s (if da = dev_id d then d_b else da) = Some ODF)"

definition single_upstream :: "db \<Rightarrow> bool" where
  "single_upstream s \<longleftrightarrow> (\<forall>d \<in> set (devices s).
     (dev_type d = ODF \<longrightarrow> count_upstream_links s d \<le> 1) \<and>
     (dev_type d \<in> ONT_CLASS \<longrightarrow> length (filter (odf_link s d) (links s)) \<le> 1))"

definition joins :: "db \<Rightarrow> link \<Rightarrow> device \<Rightarrow> device \<Rightarrow> bool" where
  "joins s l a b \<longleftrightarrow> link_ends s l = Some (dev_id a, dev_id b) \<or> link_ends s l = Some (dev_id b, dev_id a)"

lemma joins_other:
  assumes "get_device s (dev_id a) = Some a" "get_device s (dev_id b) = Some b" "joins s l a b"
    and "link_ends s l = Some (x, y)"
  shows "dtype s (if x = dev_id a then y else x) = Some (dev_type b)"
    and "dtype s (if x = dev_id b then y else x) = Some (dev_type a)"
proof -
  have "dtype s (dev_id a) = Some (dev_type a)" "dtype s (dev_id b) = Some (dev_type b)"
    unfolding dtype_def assms(1,2) by simp_all
  moreover have "x = dev_id a \<and> y = dev_id b \<or> x = dev_id b \<and> y = dev_id a"
    using assms(3,4) by (auto simp: joins_def)
  ultimately show "dtype s (if x = dev_id a then y else x) = Some (dev_type b)"
    "dtype s (if x = dev_id b then y else x) = Some (dev_type a)"
    by metis+
qed

lemma upstream_link_joins:
  assumes "wf_db s" "d \<in> set (devices s)" "get_device s (dev_id a) = Some a" "get_device s (dev_id b) = Some b"
    and "joins s l a b" "is_upstream_link s d l"
  shows "d = a \<and> (dev_type a = ODF \<and> dev_type b = OLT \<or> dev_type a \<in> ONT_CLASS \<and> dev_type b \<in> PASSIVE_INLINE) \<or>
     d = b \<and> (dev_type b = ODF \<and> dev_type a = OLT \<or> dev_type b \<in> ONT_CLASS \<and> dev_type a \<in> PASSIVE_INLINE)"
proof -
  from assms(6) obtain x y where e: "link_ends s l = Some (x, y)" and xy: "x = dev_id d \<or> y = dev_id d"
    by (auto simp: is_upstream_link_def split: option.splits)
  then have "dev_id d = dev_id a \<or> dev_id d = dev_id b" using assms(5) by (auto simp: joins_def)
  then consider "d = a" | "d = b" using wf_db_device_eq [OF assms(1,2)] assms(3,4) by blast
  then show ?thesis
    using assms(6) joins_other [OF assms(3-5) e] unfolding is_upstream_link_def e
    by cases (simp only: option.case prod.case; blast)+
qed

lemma odf_link_joins:
  assumes "wf_db s" "d \<in> set (devices s)" "get_device s (dev_id a) = Some a" "get_device s (dev_id b) = Some b"
    and "joins s l a b" "odf_link s d l" "dev_type d \<in> ONT_CLASS"
  shows "d = a \<and> dev_type b = ODF \<or> d = b \<and> dev_type a = ODF"
proof -
  from assms(6) have up: "is_upstream_link s d l" by (simp add: odf_link_def)
  obtain x y where e: "link_ends s l = Some (x, y)" using assms(5) by (auto simp: joins_def)
  have "dtype s (if x = dev_id d then y else x) = Some ODF"
    using assms(6) unfolding odf_link_def e by (simp only: option.case prod.case)
  with upstream_link_joins [OF assms(1-5) up] joins_other [OF assms(3-5) e] show ?thesis
    by (metis option.inject)
qed

lemma no_upstream_no_odf: "count_upstream_links s d = 0 \<Longrightarrow> filter (odf_link s d) (links s) = []"
  by (auto simp: count_upstream_links_def odf_link_def filter_empty_conv)

lemma type_classes [simp]:
  "ODF \<notin> ONT_CLASS" "OLT \<notin> ONT_CLASS" "ODF \<in> PASSIVE_INLINE" "OLT \<notin> PASSIVE_INLINE"
  by (simp_all add: ONT_CLASS_def PASSIVE_INLINE_def)

lemma single_upstream_ok:
  assumes "enforce_single_upstream_rules s a b = None"
  shows "dev_type a = ODF \<Longrightarrow> dev_type b = OLT \<Longrightarrow> count_upstream_links s a = 0"
    and "dev_type b = ODF \<Longrightarrow> dev_type a = OLT \<Longrightarrow> count_upstream_links s b = 0"
    and "dev_type a \<in> ONT_CLASS \<Longrightarrow> dev_type b = ODF \<Longrightarrow> count_upstream_links s a = 0"
    and "dev_type b \<in> ONT_CLASS \<Longrightarrow> dev_type a = ODF \<Longrightarrow> count_upstream_links s b = 0"
  using assms
  by (auto simp: enforce_single_upstream_rules_def multiple_upstreams_def err_def Let_def not_less_eq_eq split: if_splits)

lemma single_upstream_add:
  assumes wf: "wf_db s" and a: "get_device s (dev_id a) = Some a" and b: "get_device s (dev_id b) = Some b"
    and j: "joins s l a b" and ok: "enforce_single_upstream_rules s a b = None" and inv: "single_upstream s"
  shows "single_upstream (add_link s l)"
  unfolding single_upstream_def add_link_lookups
proof (intro ballI conjI impI)
  fix d assume d: "d \<in> set (devices s)"
  { assume t: "dev_type d = ODF"
    show "count_upstream_links (add_link s l) d \<le> 1"
    proof (cases "is_upstream_link s d l")
      case True
      with upstream_link_joins [OF wf d a b j True] t single_upstream_ok [OF ok]
      show ?thesis by (auto simp: count_add_link)
    next
      case False
      with inv d t show ?thesis by (simp add: count_add_link single_upstream_def)
    qed }
  { assume t: "dev_type d \<in> ONT_CLASS"
    have eq: "odf_link (add_link s l) = odf_link s"
      unfolding odf_link_def add_link_types add_link_upstream ..
    show "length (filter (odf_link (add_link s l) d) (links s @ [l])) \<le> 1"
    proof (cases "odf_link s d l")
      case True
      with odf_link_joins [OF wf d a b j True t] t single_upstream_ok(3,4) [OF ok]
      have "count_upstream_links s d = 0" by auto
      with True show ?thesis by (simp add: eq no_upstream_no_odf)
    next
      case False
      with inv d t show ?thesis by (simp add: eq single_upstream_def)
    qed }
qed

section \<open>Properties\<close>

text \<open>An OLT feeding an ODF, a splitter behind it, and an ONT not yet connected; and a hop with no
  anchor.\<close>

definition demo_pon :: db where
  "demo_pon = empty_db\<lparr>
     devices := [Device ''olt'' OLT, Device ''odf'' ODF, Device ''sp'' SPLITTER, Device ''ont'' ONT,
                 Device ''hop'' HOP, Device ''olt2'' OLT],
     interfaces := [Interface ''olt-p'' ''olt'' ''pon0'', Interface ''odf-a'' ''odf'' ''a'',
                    Interface ''odf-b'' ''odf'' ''b'', Interface ''sp-in'' ''sp'' ''in'',
                    Interface ''sp-out1'' ''sp'' ''out1'', Interface ''ont-if0'' ''ont'' ''if0'',
                    Interface ''hop-a'' ''hop'' ''a'', Interface ''olt2-p'' ''olt2'' ''pon0''],
     links := [Link ''k1'' ''odf-a'' ''olt-p'', Link ''k2'' ''odf-b'' ''sp-in'']\<rparr>"

lemmas demo_pon_defs = demo_pon_def row_defs

text \<open>C30: An ONT that is the first device of the link is admitted exactly where the rule says. On an ODF always; on another passive device
  exactly when links between passive devices lead from it to an ODF that has a link to an OLT, and,
  on a splitter, when the port and capacity checks pass; nowhere else. The shortcut over direct
  neighbours never changes the verdict of the search.\<close>

theorem ont_placement_decides:
  assumes "dev_type ont \<in> ONT_CLASS" "get_device s (dev_id p) = Some p"
  shows "enforce_ont_placement_rules s ont p i j = None \<longleftrightarrow>
     dev_type p = ODF \<or>
     dev_type p \<in> PASSIVE_INLINE \<and> olt_anchored s (dev_id p) \<and>
     (dev_type p = SPLITTER \<longrightarrow> splitter_rules s p ont p i j = None)"
proof -
  have "direct_anchor s (dev_id p) \<or> anchor_bfs s [dev_id p] {dev_id p} \<longleftrightarrow> olt_anchored s (dev_id p)"
    if "dev_type p \<in> PASSIVE_INLINE"
    using direct_anchor_anchored [of s "dev_id p"] anchor_bfs_iff [of s "dev_id p"] that assms(2)
    by (auto simp: dtype_def)
  with assms(1) show ?thesis
    by (auto simp: enforce_ont_placement_rules_def err_def Let_def)
qed

theorem ont_placement_decides_witness:
  "olt_anchored demo_pon ''sp'' \<and> \<not> olt_anchored demo_pon ''hop'' \<and>
   enforce_ont_placement_rules demo_pon (Device ''ont'' ONT) (Device ''sp'' SPLITTER) ''ont-if0'' ''sp-out1'' = None"
proof -
  have o: "dev_type (Device ''ont'' ONT) \<in> ONT_CLASS" by (simp add: ONT_CLASS_def row_defs)
  have s: "get_device demo_pon (dev_id (Device ''sp'' SPLITTER)) = Some (Device ''sp'' SPLITTER)"
    and h: "get_device demo_pon (dev_id (Device ''hop'' HOP)) = Some (Device ''hop'' HOP)"
    by (simp_all add: get_device_def demo_pon_defs)
  have t: "dev_type (Device ''sp'' SPLITTER) = SPLITTER" "dev_id (Device ''sp'' SPLITTER) = ''sp''"
    "dev_type (Device ''hop'' HOP) = HOP" "dev_id (Device ''hop'' HOP) = ''hop''"
    by (simp_all add: row_defs)
  have ok: "enforce_ont_placement_rules demo_pon (Device ''ont'' ONT) (Device ''sp'' SPLITTER) ''ont-if0'' ''sp-out1'' = None"
    by code_simp
  moreover have "enforce_ont_placement_rules demo_pon (Device ''ont'' ONT) (Device ''hop'' HOP) ''ont-if0'' ''hop-a'' \<noteq> None"
    by code_simp
  ultimately show ?thesis
    using ont_placement_decides [OF o s, of "''ont-if0''" "''sp-out1''"]
      ont_placement_decides [OF o h, of "''ont-if0''" "''hop-a''"]
    by (simp add: t PASSIVE_INLINE_def)
qed

text \<open>A splitter is never oversubscribed by an admitted ONT. If the splitter has OUT ports and the
  placement check passes, the ONTs already served by its OUT ports are fewer than the ports.\<close>

theorem splitter_capacity_respected:
  assumes "wf_db s" "get_device s (dev_id p) = Some p" "dev_type p = SPLITTER" "dev_type ont \<in> ONT_CLASS"
    and "enforce_ont_placement_rules s ont p i j = None" "splitter_out_ifaces s p \<noteq> []"
  shows "card (\<Union>o' \<in> set (splitter_out_ifaces s p). served_onts s (if_id o')) < length (splitter_out_ifaces s p)"
proof -
  have "splitter_rules s p ont p i j = None"
    using assms(3-5) by (auto simp: enforce_ont_placement_rules_def err_def Let_def PASSIVE_INLINE_def split: if_splits)
  then show ?thesis
    using assms(6) unfolding splitter_rules_def splitter_usage_served [OF assms(1-3)] Let_def
    by (auto simp: err_def split: option.splits if_splits)
qed

theorem splitter_capacity_respected_witness:
  "card (\<Union>o' \<in> set (splitter_out_ifaces demo_pon (Device ''sp'' SPLITTER)). served_onts demo_pon (if_id o')) <
     length (splitter_out_ifaces demo_pon (Device ''sp'' SPLITTER))"
proof (rule splitter_capacity_respected)
  show "wf_db demo_pon" by (simp add: wf_db_def demo_pon_defs)
  show "dev_type (Device ''ont'' ONT) \<in> ONT_CLASS" by (simp add: ONT_CLASS_def row_defs)
  show "enforce_ont_placement_rules demo_pon (Device ''ont'' ONT) (Device ''sp'' SPLITTER) ''ont-if0'' ''sp-out1'' = None"
    by code_simp
  show "splitter_out_ifaces demo_pon (Device ''sp'' SPLITTER) \<noteq> []" by code_simp
qed (simp_all add: get_device_def demo_pon_defs)

text \<open>The single-upstream invariant is inductive. If every ODF has at most one link to an OLT and
  every ONT at most one link to an ODF, then adding a link between two devices that passed the
  upstream check keeps it so.\<close>

theorem single_upstream_preserved:
  assumes "wf_db s" "single_upstream s" "get_device s (dev_id a) = Some a" "get_device s (dev_id b) = Some b"
    and "joins s l a b" "enforce_single_upstream_rules s a b = None"
  shows "single_upstream (s\<lparr>links := links s @ [l]\<rparr>)"
  using single_upstream_add [OF assms(1,3,4,5,6,2)] by (simp add: add_link_def)

theorem single_upstream_preserved_witness:
  "enforce_single_upstream_rules demo_pon (Device ''odf'' ODF) (Device ''olt2'' OLT) \<noteq> None \<and>
   single_upstream (demo_pon\<lparr>links := links demo_pon @ [Link ''k3'' ''ont-if0'' ''odf-b'']\<rparr>)"
proof -
  have "wf_db demo_pon" by (simp add: wf_db_def demo_pon_defs)
  moreover have "single_upstream demo_pon" by code_simp
  moreover have "get_device demo_pon (dev_id (Device ''ont'' ONT)) = Some (Device ''ont'' ONT)"
    "get_device demo_pon (dev_id (Device ''odf'' ODF)) = Some (Device ''odf'' ODF)"
    by (simp_all add: get_device_def demo_pon_defs)
  moreover have "joins demo_pon (Link ''k3'' ''ont-if0'' ''odf-b'') (Device ''ont'' ONT) (Device ''odf'' ODF)"
    by code_simp
  moreover have "enforce_single_upstream_rules demo_pon (Device ''ont'' ONT) (Device ''odf'' ODF) = None"
    by code_simp
  ultimately have "single_upstream (demo_pon\<lparr>links := links demo_pon @ [Link ''k3'' ''ont-if0'' ''odf-b'']\<rparr>)"
    by (rule single_upstream_preserved)
  moreover have "enforce_single_upstream_rules demo_pon (Device ''odf'' ODF) (Device ''olt2'' OLT) \<noteq> None"
    by code_simp
  ultimately show ?thesis by blast
qed

end
