(* ===== verification/Events.thy ===== *)
theory Events
  imports Prelude
begin

text \<open>
  Events: the append-only event store (\<^verbatim>\<open>services/event_store.py\<close>), the event bus
  (\<^verbatim>\<open>backend/events.py\<close>) and the bounded outbox of the websocket layer
  (\<^verbatim>\<open>BoundedCoalescingQueue\<close> in \<^verbatim>\<open>api/endpoints/ws.py\<close>). Timestamps are the parameter \<open>now\<close>. The
  asynchronous dispatcher that empties the outbox is the operation \<open>queue_get\<close>; sockets are not
  modelled. Errors of the database during an append are not modelled.
\<close>

section \<open>Payloads\<close>

datatype json = JNull | JBool bool | JInt int | JNum pyfloat | JStr string | JList "json list"

type_synonym payload = "(string \<times> json) list"

definition setdefault :: "string \<Rightarrow> json \<Rightarrow> payload \<Rightarrow> payload" where
  "setdefault k v d = (if map_of d k = None then d @ [(k, v)] else d)"

definition char_upper :: "char \<Rightarrow> char" where
  "char_upper c =
     (if (97::nat) \<le> of_char c \<and> of_char c \<le> (122::nat) then char_of (of_char c - (32::nat)) else c)"

definition upper :: "string \<Rightarrow> string" where
  "upper s = map char_upper s"

section \<open>Event store\<close>

record event_record =
  er_sequence :: int
  er_event_type :: string
  er_payload :: payload
  er_source :: string
  er_created_at :: string
  er_correlation_id :: "string option"

definition DOMAIN_EVENT_TYPES :: "string set" where
  "DOMAIN_EVENT_TYPES = {''DEVICE_CREATED'', ''DEVICE_CONNECTED'', ''DEVICE_DELETED'', ''DEVICE_LINKED'',
     ''DEVICE_UPDATED'', ''PORT_CONNECTED'', ''CPE_PROVISIONED'', ''ONT_ASSIGNED'', ''SERVICE_BOUND'',
     ''DEVICE_PROVISIONED'', ''LINK_CREATED'', ''LINK_DELETED'', ''LINK_UPDATED'',
     ''PROVISIONING_UPDATED'', ''RUNTIME_EVENT''}"

definition next_sequence :: "event_record list \<Rightarrow> int" where
  "next_sequence st = (if st = [] then -1 else Max (set (map er_sequence st))) + 1"

definition append_event ::
    "event_record list \<Rightarrow> string \<Rightarrow> payload \<Rightarrow> string \<Rightarrow> string option \<Rightarrow> string \<Rightarrow> event_record list" where
  "append_event st ty p src corr now =
     st @ [\<lparr>er_sequence = next_sequence st,
            er_event_type = (if ty \<in> DOMAIN_EVENT_TYPES then ty else ''RUNTIME_EVENT''),
            er_payload = p, er_source = src, er_created_at = now, er_correlation_id = corr\<rparr>]"

definition append_domain_event ::
    "event_record list \<Rightarrow> string \<Rightarrow> string \<Rightarrow> payload \<Rightarrow> string option \<Rightarrow> string
       \<Rightarrow> string + event_record list" where
  "append_domain_event st ty entity p corr now =
     (if ty \<notin> DOMAIN_EVENT_TYPES then Inl (''unknown domain event type: '' @ ty)
      else Inr (st @ [\<lparr>er_sequence = next_sequence st, er_event_type = ty,
             er_payload = setdefault ''timestamp'' (JStr now) (setdefault ''entity_id'' (JStr entity) p),
             er_source = ''WRITE_PATH'', er_created_at = now, er_correlation_id = corr\<rparr>]))"

record event =
  ev_type :: string
  ev_payload :: payload
  ev_topo_version :: "int option"
  ev_correlation_id :: "string option"

definition runtime_event_type :: "string \<Rightarrow> string" where
  "runtime_event_type t = map (\<lambda>c. if c = CHR ''.'' then CHR ''_'' else c) (upper t)"

definition append_runtime_event :: "event_record list \<Rightarrow> event \<Rightarrow> string \<Rightarrow> event_record list" where
  "append_runtime_event st e now =
     append_event st (runtime_event_type (ev_type e)) (ev_payload e) ''RUNTIME_EVENT_BUS''
       (ev_correlation_id e) now"

section \<open>Outbox\<close>

record envelope =
  en_type :: string
  en_kind :: string
  en_payload :: payload
  en_topo_version :: "int option"
  en_correlation_id :: "string option"
  en_ts :: string

text \<open>The identifier in a payload is a string; an empty or missing one is false.\<close>

definition payload_id :: "payload \<Rightarrow> string option" where
  "payload_id p = (case map_of p ''id'' of Some (JStr i) \<Rightarrow> (if i = [] then None else Some i) | _ \<Rightarrow> None)"

definition coalesce_key :: "envelope \<Rightarrow> string option" where
  "coalesce_key m =
     (if en_type m = ''device.status.changed'' \<and> payload_id (en_payload m) \<noteq> None
      then Some (''dev:'' @ the (payload_id (en_payload m)) @ '':status'')
      else if en_type m = ''device.optical.updated'' \<and> payload_id (en_payload m) \<noteq> None
      then Some (''dev:'' @ the (payload_id (en_payload m)) @ '':optical'')
      else if en_type m = ''deviceMetricsUpdated'' then Some ''metrics:device''
      else if en_type m = ''linkMetricsUpdated'' then Some ''metrics:link''
      else None)"

record queue =
  q_maxsize :: nat
  q_dq :: "envelope list"

definition new_queue :: "int \<Rightarrow> queue" where
  "new_queue maxsize = \<lparr>q_maxsize = nat (max 1 maxsize), q_dq = []\<rparr>"

definition find_index_for_key :: "queue \<Rightarrow> string \<Rightarrow> nat option" where
  "find_index_for_key q key =
     find (\<lambda>i. coalesce_key (q_dq q ! i) = Some key) (rev [0..<length (q_dq q)])"

definition key_index :: "queue \<Rightarrow> string option \<Rightarrow> nat option" where
  "key_index q key = (case key of None \<Rightarrow> None | Some k \<Rightarrow> find_index_for_key q k)"

definition queue_put :: "queue \<Rightarrow> envelope \<Rightarrow> queue" where
  "queue_put q msg =
     (let key = coalesce_key msg;
          metrics = (case key of None \<Rightarrow> False | Some k \<Rightarrow> startswith k ''metrics:'')
      in case (if metrics then key_index q key else None) of
           Some i \<Rightarrow> q\<lparr>q_dq := (q_dq q)[i := msg]\<rparr>
         | None \<Rightarrow>
             if length (q_dq q) < q_maxsize q then q\<lparr>q_dq := q_dq q @ [msg]\<rparr>
             else (case key_index q key of
                     Some i \<Rightarrow> q\<lparr>q_dq := (q_dq q)[i := msg]\<rparr>
                   | None \<Rightarrow> q\<lparr>q_dq := tl (q_dq q) @ [msg]\<rparr>))"

definition queue_get :: "queue \<Rightarrow> envelope option \<times> queue" where
  "queue_get q = (case q_dq q of [] \<Rightarrow> (None, q) | m # ms \<Rightarrow> (Some m, q\<lparr>q_dq := ms\<rparr>))"

definition map_event_kind :: "string \<Rightarrow> string" where
  "map_event_kind t =
     (if t = ''device.provisioned'' then ''deviceCreated''
      else if t = ''device.status.changed'' then ''deviceStatusUpdated''
      else if t = ''device.optical.updated'' then ''deviceSignalUpdated''
      else if t = ''device.provision.warning'' then ''deviceProvisionWarning''
      else if t = ''link.created'' then ''linkAdded''
      else if t = ''link.deleted'' then ''linkDeleted''
      else if t = ''link.override.changed'' then ''linkOverrideUpdated''
      else t)"

definition envelope_of :: "event \<Rightarrow> string \<Rightarrow> envelope" where
  "envelope_of e now = \<lparr>en_type = ev_type e, en_kind = map_event_kind (ev_type e),
     en_payload = ev_payload e, en_topo_version = ev_topo_version e,
     en_correlation_id = ev_correlation_id e, en_ts = now\<rparr>"

section \<open>Event bus\<close>

text \<open>
  The installed broadcaster is the websocket broadcaster (\<open>bus_is_ws\<close>) or another one, for which
  \<open>bus_delivered\<close> lists what it was handed. \<open>bus_ws_loaded\<close> says whether the websocket module can be
  imported, \<open>bus_hook\<close> whether it registered its publisher.
\<close>

record bus =
  bus_outbox :: queue
  bus_counter :: "string \<Rightarrow> nat"
  bus_history :: "event list"
  bus_store :: "event_record list"
  bus_is_ws :: bool
  bus_ws_loaded :: bool
  bus_hook :: bool
  bus_delivered :: "event list"

definition NON_PERSISTED :: "string set" where
  "NON_PERSISTED = {''deviceMetricsUpdated'', ''linkMetricsUpdated'', ''device.congestion.detected'',
     ''device.congestion.cleared'', ''link.congestion.detected'', ''link.congestion.cleared'',
     ''segment.congestion.detected'', ''segment.congestion.cleared''}"

definition broadcaster_publish :: "bus \<Rightarrow> event \<Rightarrow> string \<Rightarrow> bus" where
  "broadcaster_publish b e now =
     (let put = (\<lambda>b. b\<lparr>bus_outbox := queue_put (bus_outbox b) (envelope_of e now)\<rparr>);
          ws_enqueued = (bus_ws_loaded b \<or> bus_hook b);
          b = (if ws_enqueued then put b else b)
      in if bus_is_ws b \<and> ws_enqueued then b
         else if bus_is_ws b then put b
         else b\<lparr>bus_delivered := bus_delivered b @ [e]\<rparr>)"

definition record_event :: "bus \<Rightarrow> event \<Rightarrow> bus" where
  "record_event b e =
     b\<lparr>bus_counter := (bus_counter b)(ev_type e := bus_counter b (ev_type e) + 1),
       bus_history := bus_history b @ [e]\<rparr>"

definition publish :: "bus \<Rightarrow> event \<Rightarrow> string \<Rightarrow> bus" where
  "publish b e now =
     (let b = record_event (broadcaster_publish b e now) e
      in if ev_type e \<notin> NON_PERSISTED
         then b\<lparr>bus_store := append_runtime_event (bus_store b) e now\<rparr> else b)"

section \<open>The queue\<close>

lemma find_index_SomeD:
  "find_index_for_key q k = Some i \<Longrightarrow> i < length (q_dq q) \<and> coalesce_key (q_dq q ! i) = Some k"
  by (auto simp: find_index_for_key_def dest: find_SomeD)

lemma find_index_None: "find_index_for_key q k = None \<longleftrightarrow> (\<forall>m \<in> set (q_dq q). coalesce_key m \<noteq> Some k)"
  by (auto simp: find_index_for_key_def find_None_iff' all_set_conv_all_nth)

lemma key_index_SomeD:
  "key_index q key = Some i \<Longrightarrow> i < length (q_dq q) \<and> coalesce_key (q_dq q ! i) = key \<and> key \<noteq> None"
  by (auto simp: key_index_def split: option.splits dest: find_index_SomeD)

text \<open>The three things \<open>queue_put\<close> can do.\<close>

lemma queue_put_cases:
  obtains (replace) i where "i < length (q_dq q)" "coalesce_key (q_dq q ! i) = coalesce_key msg"
      "coalesce_key msg \<noteq> None" "queue_put q msg = q\<lparr>q_dq := (q_dq q)[i := msg]\<rparr>"
    | (append) "length (q_dq q) < q_maxsize q" "queue_put q msg = q\<lparr>q_dq := q_dq q @ [msg]\<rparr>"
      "\<And>k. coalesce_key msg = Some k \<Longrightarrow> startswith k ''metrics:'' \<Longrightarrow> \<forall>m \<in> set (q_dq q). coalesce_key m \<noteq> Some k"
    | (drop) "q_maxsize q \<le> length (q_dq q)" "queue_put q msg = q\<lparr>q_dq := tl (q_dq q) @ [msg]\<rparr>"
      "\<And>k. coalesce_key msg = Some k \<Longrightarrow> \<forall>m \<in> set (q_dq q). coalesce_key m \<noteq> Some k"
proof -
  let ?metrics = "case coalesce_key msg of None \<Rightarrow> False | Some k \<Rightarrow> startswith k ''metrics:''"
  let ?full = "\<not> length (q_dq q) < q_maxsize q"
  show thesis
  proof (cases "key_index q (coalesce_key msg)")
    case (Some i)
    show ?thesis
    proof (cases "?metrics \<or> ?full")
      case True
      with Some have "queue_put q msg = q\<lparr>q_dq := (q_dq q)[i := msg]\<rparr>"
        by (auto simp: queue_put_def Let_def)
      with key_index_SomeD [OF Some] replace show ?thesis by metis
    next
      case False
      then have "queue_put q msg = q\<lparr>q_dq := q_dq q @ [msg]\<rparr>" by (auto simp: queue_put_def Let_def)
      with False show ?thesis by (intro append) auto
    qed
  next
    case None
    then have none: "coalesce_key msg = Some k \<Longrightarrow> \<forall>m \<in> set (q_dq q). coalesce_key m \<noteq> Some k" for k
      by (simp add: key_index_def find_index_None)
    show ?thesis
    proof (cases ?full)
      case True
      with None have "queue_put q msg = q\<lparr>q_dq := tl (q_dq q) @ [msg]\<rparr>" by (simp add: queue_put_def Let_def)
      with True none drop show ?thesis by auto
    next
      case False
      with None have "queue_put q msg = q\<lparr>q_dq := q_dq q @ [msg]\<rparr>" by (simp add: queue_put_def Let_def)
      with False none append show ?thesis by auto
    qed
  qed
qed

definition metrics_of :: "envelope list \<Rightarrow> string \<Rightarrow> envelope list" where
  "metrics_of ms k = filter (\<lambda>m. coalesce_key m = Some k) ms"

definition queue_ok :: "queue \<Rightarrow> bool" where
  "queue_ok q \<longleftrightarrow> 0 < q_maxsize q \<and> length (q_dq q) \<le> q_maxsize q \<and>
     length (metrics_of (q_dq q) ''metrics:device'') \<le> 1 \<and> length (metrics_of (q_dq q) ''metrics:link'') \<le> 1"

lemma metrics_replace:
  assumes "i < length ms" "coalesce_key (ms ! i) = coalesce_key m"
  shows "length (metrics_of (ms[i := m]) k) = length (metrics_of ms k)"
proof -
  have "ms = take i ms @ ms ! i # drop (Suc i) ms" using assms(1) by (rule id_take_nth_drop)
  moreover have "ms[i := m] = take i ms @ m # drop (Suc i) ms" using assms(1) by (rule upd_conv_take_nth_drop)
  moreover have "length (metrics_of (xs @ x # ys) k) = length (metrics_of (xs @ y # ys) k)"
    if "coalesce_key x = coalesce_key y" for xs ys x y
    using that by (simp add: metrics_of_def)
  ultimately show ?thesis using assms(2) by metis
qed

lemma metrics_tl: "length (metrics_of (tl ms) k) \<le> length (metrics_of ms k)"
  by (cases ms) (auto simp: metrics_of_def)

lemma metrics_snoc:
  assumes "length (metrics_of ms k) \<le> Suc 0" "coalesce_key m = Some k \<Longrightarrow> \<forall>x \<in> set ms. coalesce_key x \<noteq> Some k"
  shows "length (metrics_of (ms @ [m]) k) \<le> Suc 0"
  using assms by (cases "coalesce_key m = Some k") (auto simp: metrics_of_def filter_empty_conv)

lemma metrics_prefix: "startswith ''metrics:device'' ''metrics:''" "startswith ''metrics:link'' ''metrics:''"
  by (simp_all add: startswith_def)

lemma queue_put_ok:
  assumes "queue_ok q"
  shows "queue_ok (queue_put q msg)"
proof (cases rule: queue_put_cases [of q msg])
  case (replace i)
  then show ?thesis using assms by (simp add: queue_ok_def metrics_replace)
next
  case append
  then show ?thesis using assms metrics_prefix by (auto simp: queue_ok_def intro!: metrics_snoc)
next
  case drop
  have "\<forall>m \<in> set (tl (q_dq q)). coalesce_key m \<noteq> Some k" if "coalesce_key msg = Some k" for k
    using drop(3) [OF that] by (cases "q_dq q") auto
  moreover have "length (tl (q_dq q)) + 1 = length (q_dq q)" using drop(1) assms
    by (cases "q_dq q") (auto simp: queue_ok_def)
  ultimately show ?thesis
    using assms drop(2) le_trans [OF metrics_tl]
    by (auto simp: queue_ok_def intro!: metrics_snoc)
qed

lemma queue_get_ok: "queue_ok q \<Longrightarrow> queue_ok (snd (queue_get q))"
  by (auto simp: queue_get_def queue_ok_def metrics_of_def split: list.splits if_splits)

lemma new_queue_ok: "queue_ok (new_queue n)"
  by (simp add: new_queue_def queue_ok_def metrics_of_def)

section \<open>The store\<close>

definition store_ok :: "event_record list \<Rightarrow> bool" where
  "store_ok st \<longleftrightarrow> map er_sequence st = map int [0..<length st]"

lemma next_sequence_ok: "store_ok st \<Longrightarrow> next_sequence st = int (length st)"
proof (cases st rule: rev_cases)
  case (snoc xs x)
  assume ok: "store_ok st"
  have "set (map er_sequence st) = int ` {0..<length st}"
    using ok by (simp only: store_ok_def set_map set_upt)
  moreover have "Max (int ` {0..<length st}) = int (length st - 1)"
    using snoc by (intro Max_eqI) auto
  ultimately show ?thesis using snoc by (simp only: next_sequence_def) auto
qed (simp add: next_sequence_def)

lemma append_event_ok: "store_ok st \<Longrightarrow> store_ok (append_event st ty p src c now)"
  by (simp add: append_event_def next_sequence_ok) (simp add: store_ok_def)

lemma append_domain_event_ok:
  "store_ok st \<Longrightarrow> append_domain_event st ty e p c now = Inr st' \<Longrightarrow> store_ok st'"
  by (auto simp: append_domain_event_def next_sequence_ok split: if_splits) (simp add: store_ok_def)

lemma publish_store:
  "bus_store (publish b e now) =
     (if ev_type e \<in> NON_PERSISTED then bus_store b else append_runtime_event (bus_store b) e now)"
  by (simp add: publish_def record_event_def broadcaster_publish_def Let_def)

lemma publish_store_ok: "store_ok (bus_store b) \<Longrightarrow> store_ok (bus_store (publish b e now))"
  by (simp add: publish_store append_runtime_event_def append_event_ok)

section \<open>Properties\<close>

text \<open>The writes of a store, in any order.\<close>

datatype store_op =
    OpAppend string payload string "string option" string
  | OpDomain string string payload "string option" string
  | OpRuntime event string

fun store_step :: "event_record list \<Rightarrow> store_op \<Rightarrow> event_record list" where
  "store_step st (OpAppend ty p src c now) = append_event st ty p src c now"
| "store_step st (OpDomain ty e p c now) =
     (case append_domain_event st ty e p c now of Inl _ \<Rightarrow> st | Inr st' \<Rightarrow> st')"
| "store_step st (OpRuntime e now) = append_runtime_event st e now"

lemma store_step_ok: "store_ok st \<Longrightarrow> store_ok (store_step st op)"
  by (cases op) (auto simp: append_runtime_event_def append_event_ok append_domain_event_ok split: sum.splits)

lemma store_step_grows:
  "\<exists>rs. store_step st op = st @ rs \<and> length rs \<le> 1 \<and> (\<forall>r \<in> set rs. er_event_type r \<in> DOMAIN_EVENT_TYPES)"
  by (cases op) (auto simp: append_runtime_event_def append_event_def append_domain_event_def
      DOMAIN_EVENT_TYPES_def split: sum.splits)

text \<open>C36: The event store is an append-only log with gapless numbers. Starting from an empty store,
  after any sequence of appends (domain events, runtime events, plain appends, rejected ones
  included) the records are numbered 0, 1, 2, \<dots> in order, every stored type is a known one, and a
  longer history only extends a shorter one.\<close>

theorem event_store_append_only:
  "map er_sequence (foldl store_step [] ops) = map int [0..<length (foldl store_step [] ops)] \<and>
   er_event_type ` set (foldl store_step [] ops) \<subseteq> DOMAIN_EVENT_TYPES \<and>
   (\<exists>rs. foldl store_step [] (ops @ later) = foldl store_step [] ops @ rs)"
proof -
  have "store_ok (foldl store_step [] ops)"
    by (induction ops rule: rev_induct) (simp add: store_ok_def, simp add: store_step_ok)
  moreover have "er_event_type ` set (foldl store_step [] ops) \<subseteq> DOMAIN_EVENT_TYPES"
  proof (induction ops rule: rev_induct)
    case (snoc op ops)
    obtain rs where "store_step (foldl store_step [] ops) op = foldl store_step [] ops @ rs"
      "er_event_type ` set rs \<subseteq> DOMAIN_EVENT_TYPES"
      using store_step_grows [of "foldl store_step [] ops" op] by blast
    with snoc show ?case by (simp add: image_Un)
  qed simp
  moreover have "\<exists>rs. foldl store_step st later = st @ rs" for st
  proof (induction later arbitrary: st)
    case (Cons op later)
    obtain rs where "store_step st op = st @ rs" using store_step_grows by blast
    with Cons.IH [of "st @ rs"] show ?case by auto
  qed simp
  ultimately show ?thesis by (auto simp: store_ok_def)
qed

text \<open>The outbox stays bounded and loses nothing silently. Every put keeps the queue within its
  maximum and keeps at most one metrics message of each kind; the new message is in the queue
  afterwards; and a message that is gone was either replaced by one with the same key or was the
  oldest one of a full queue in which no message had the key of the new one.\<close>

theorem outbox_put_safe:
  assumes "queue_ok q"
  shows "queue_ok (queue_put q msg) \<and> msg \<in> set (q_dq (queue_put q msg)) \<and>
     (\<forall>m \<in> set (q_dq q). m \<in> set (q_dq (queue_put q msg)) \<or>
        (coalesce_key m \<noteq> None \<and> coalesce_key m = coalesce_key msg) \<or>
        (m = hd (q_dq q) \<and> length (q_dq q) = q_maxsize q \<and>
         (\<forall>m' \<in> set (q_dq q). coalesce_key m' = coalesce_key msg \<longrightarrow> coalesce_key msg = None)))"
proof (cases rule: queue_put_cases [of q msg])
  case (replace i)
  have "m \<in> set ((q_dq q)[i := msg]) \<or> m = q_dq q ! i" if "m \<in> set (q_dq q)" for m
    using that by (metis in_set_conv_nth length_list_update nth_list_update_neq nth_mem)
  then have "m \<in> set ((q_dq q)[i := msg]) \<or> coalesce_key m \<noteq> None \<and> coalesce_key m = coalesce_key msg"
    if "m \<in> set (q_dq q)" for m using that replace(2,3) by metis
  with replace(1,4) queue_put_ok [OF assms, of msg] show ?thesis
    by (simp add: set_update_memI) blast
next
  case append
  with queue_put_ok [OF assms, of msg] show ?thesis by auto
next
  case drop
  have "m \<in> set (tl (q_dq q)) \<or> m = hd (q_dq q)" if "m \<in> set (q_dq q)" for m
    using that by (cases "q_dq q") auto
  moreover have "length (q_dq q) = q_maxsize q" using drop(1) assms by (simp add: queue_ok_def)
  moreover have "coalesce_key m' = coalesce_key msg \<longrightarrow> coalesce_key msg = None" if "m' \<in> set (q_dq q)" for m'
    using drop(3) that by (cases "coalesce_key msg") auto
  ultimately show ?thesis using drop(2) queue_put_ok [OF assms, of msg] by auto
qed

definition demo_env :: "string \<Rightarrow> string \<Rightarrow> envelope" where
  "demo_env t i = \<lparr>en_type = t, en_kind = t, en_payload = [(''id'', JStr i)], en_topo_version = None,
     en_correlation_id = None, en_ts = ''t''\<rparr>"

theorem outbox_put_safe_witness:
  "queue_ok (queue_put (queue_put (new_queue 1) (demo_env ''link.created'' ''k'')) (demo_env ''link.deleted'' ''k'')) \<and>
   q_dq (queue_put (queue_put (new_queue 1) (demo_env ''link.created'' ''k'')) (demo_env ''link.deleted'' ''k'')) =
     [demo_env ''link.deleted'' ''k'']"
proof -
  have "q_dq (queue_put (queue_put (new_queue 1) (demo_env ''link.created'' ''k'')) (demo_env ''link.deleted'' ''k'')) =
     [demo_env ''link.deleted'' ''k'']" by code_simp
  with outbox_put_safe [OF queue_put_ok [OF new_queue_ok], of 1 "demo_env ''link.created'' ''k''" "demo_env ''link.deleted'' ''k''"]
  show ?thesis by blast
qed

text \<open>An event reaches the websocket outbox exactly once. Whichever broadcaster is installed and
  whether or not the websocket module could be imported, as long as one way to it exists the
  outbox receives one put of the event's envelope; the event is recorded in the history and
  counted once, and is appended to the event store exactly when it is not a metrics or congestion
  event.\<close>

theorem publish_exactly_once:
  assumes "bus_is_ws b \<or> bus_ws_loaded b \<or> bus_hook b"
  shows "bus_outbox (publish b e now) = queue_put (bus_outbox b) (envelope_of e now) \<and>
     bus_history (publish b e now) = bus_history b @ [e] \<and>
     bus_counter (publish b e now) = (bus_counter b)(ev_type e := bus_counter b (ev_type e) + 1) \<and>
     bus_delivered (publish b e now) = bus_delivered b @ (if bus_is_ws b then [] else [e]) \<and>
     length (bus_store (publish b e now)) = length (bus_store b) + (if ev_type e \<in> NON_PERSISTED then 0 else 1)"
  using assms
  by (auto simp: publish_def record_event_def broadcaster_publish_def Let_def append_runtime_event_def
      append_event_def)

definition demo_bus :: bus where
  "demo_bus = \<lparr>bus_outbox = new_queue 8, bus_counter = (\<lambda>_. 0), bus_history = [], bus_store = [],
     bus_is_ws = True, bus_ws_loaded = False, bus_hook = False, bus_delivered = []\<rparr>"

definition demo_event :: event where
  "demo_event = \<lparr>ev_type = ''link.created'', ev_payload = [(''id'', JStr ''k'')], ev_topo_version = Some 1,
     ev_correlation_id = None\<rparr>"

theorem publish_exactly_once_witness:
  "q_dq (bus_outbox (publish demo_bus demo_event ''t'')) = [envelope_of demo_event ''t''] \<and>
   length (bus_store (publish demo_bus demo_event ''t'')) = 1"
proof -
  have "bus_is_ws demo_bus \<or> bus_ws_loaded demo_bus \<or> bus_hook demo_bus" by (simp add: demo_bus_def)
  from publish_exactly_once [OF this, of demo_event "''t''"]
  show ?thesis
    by (simp add: demo_bus_def demo_event_def NON_PERSISTED_def new_queue_def queue_put_def
        coalesce_key_def envelope_of_def Let_def)
qed

end
