(* ===== verification/Coalescer.thy ===== *)
theory Coalescer
  imports Models
begin

text \<open>
  The recompute coalescer (\<^verbatim>\<open>services/recompute_coalescer.py\<close>). Its state is shared between request
  threads and timer threads and guarded by \<^verbatim>\<open>_STATE.lock\<close>, a plain lock that the thread holding it
  cannot take again. Every locked section is one definition and one atomic step of the runs below, and the
  threads interleave between the sections of a call; a section that would take the lock its own thread
  already holds never returns, which is \<open>None\<close>. The debounce window, the timers' delays and the logging are
  not modelled: a timer may fire at any moment, and a thread may run its next section at any later one.
\<close>

section \<open>State\<close>

record coal =
  co_enabled :: bool
  co_timer :: bool
  co_lock :: bool
  co_scopes :: "string set"
  co_keys :: "string set"
  co_executing :: bool
  co_scheduled :: nat
  co_coalesced :: nat
  co_executed :: nat

definition initial_coal :: coal where
  "initial_coal = \<lparr>co_enabled = True, co_timer = False, co_lock = False, co_scopes = {}, co_keys = {},
     co_executing = False, co_scheduled = 0, co_coalesced = 0, co_executed = 0\<rparr>"

text \<open>\<^verbatim>\<open>with _STATE.lock:\<close> entered and left.\<close>

definition acquire :: "coal \<Rightarrow> coal option" where
  "acquire c = (if co_lock c then None else Some (c\<lparr>co_lock := True\<rparr>))"

definition release :: "coal \<Rightarrow> coal" where
  "release c = c\<lparr>co_lock := False\<rparr>"

definition coal_start :: "string option \<Rightarrow> coal \<Rightarrow> coal" where
  "coal_start env_enabled c =
     c\<lparr>co_enabled := ((case env_enabled of None \<Rightarrow> ''1'' | Some v \<Rightarrow> v) \<notin> {''0'', ''false'', ''False''})\<rparr>"

definition coal_stop :: "coal \<Rightarrow> coal option" where
  "coal_stop c = map_option (\<lambda>c. release (c\<lparr>co_timer := False, co_scopes := {}, co_keys := {}\<rparr>)) (acquire c)"

text \<open>The first locked section of \<^verbatim>\<open>_execute_now\<close>: it forgets the timer and takes the pending work.\<close>

definition take_work :: "coal \<Rightarrow> (coal \<times> string set \<times> string set) option" where
  "take_work c =
     map_option (\<lambda>c. (release (c\<lparr>co_timer := False, co_scopes := {}, co_keys := {}\<rparr>), co_scopes c, co_keys c)) (acquire c)"

text \<open>The second one, before the recomputation.\<close>

definition begin_execution :: "coal \<Rightarrow> coal option" where
  "begin_execution c = map_option (\<lambda>c. release (c\<lparr>co_executing := True\<rparr>)) (acquire c)"

text \<open>The end of an execution: the counter is increased when the recomputation raised nothing.\<close>

definition finish_execution :: "bool \<Rightarrow> coal \<Rightarrow> coal option" where
  "finish_execution ok c =
     (let c = (if ok then c\<lparr>co_executed := co_executed c + 1\<rparr> else c)
      in map_option (\<lambda>c. release (c\<lparr>co_executing := False\<rparr>)) (acquire c))"

text \<open>The sections of a call that no other thread interrupts; \<open>Some batch\<close> is the work it recomputes, \<open>None\<close> in
  the second component that recomputation is switched off.\<close>

definition execute_now :: "bool \<Rightarrow> coal \<Rightarrow> (coal \<times> (string set \<times> string set) option) option" where
  "execute_now ok c =
     (case take_work c of
        None \<Rightarrow> None
      | Some (c1, batch) \<Rightarrow>
          if \<not> co_enabled c1 then Some (c1, None)
          else case begin_execution c1 of
                 None \<Rightarrow> None
               | Some c2 \<Rightarrow> map_option (\<lambda>c3. (c3, Some batch)) (finish_execution ok c2))"

definition schedule :: "bool \<Rightarrow> string \<Rightarrow> string option \<Rightarrow> coal \<Rightarrow> coal option" where
  "schedule timer_starts scope key c =
     (case acquire (c\<lparr>co_scheduled := co_scheduled c + 1\<rparr>) of
        None \<Rightarrow> None
      | Some c1 \<Rightarrow>
          (let c2 = (if scope \<noteq> [] then c1\<lparr>co_scopes := insert scope (co_scopes c1)\<rparr> else c1);
               c3 = (case key of Some k \<Rightarrow> if k \<noteq> [] then c2\<lparr>co_keys := insert k (co_keys c2)\<rparr> else c2 | None \<Rightarrow> c2)
           in if \<not> co_timer c3
              then (if timer_starts then Some (release (c3\<lparr>co_timer := True\<rparr>))
                    else map_option (\<lambda>(c4, b). release c4) (execute_now True (c3\<lparr>co_timer := False\<rparr>)))
              else Some (release (c3\<lparr>co_coalesced := co_coalesced c3 + 1\<rparr>))))"

text \<open>The locked section of \<^verbatim>\<open>flush_now\<close> cancels the timer; \<^const>\<open>True\<close> when \<^verbatim>\<open>_execute_now\<close> is called afterwards.\<close>

definition flush_begin :: "coal \<Rightarrow> (coal \<times> bool) option" where
  "flush_begin c =
     map_option (\<lambda>c. if \<not> co_timer c then (release c, False) else (release (c\<lparr>co_timer := False\<rparr>), True)) (acquire c)"

definition flush_now :: "bool \<Rightarrow> coal \<Rightarrow> (coal \<times> (string set \<times> string set) option) option" where
  "flush_now ok c =
     (case flush_begin c of
        None \<Rightarrow> None
      | Some (c1, go) \<Rightarrow> if \<not> go then Some (c1, None) else execute_now ok c1)"

definition is_idle :: "coal \<Rightarrow> bool" where
  "is_idle c \<longleftrightarrow> \<not> co_timer c \<and> co_scopes c = {} \<and> co_keys c = {} \<and> \<not> co_executing c"

section \<open>What an execution recomputes\<close>

datatype recompute = Incremental "ident list" "ident list" | Full

definition run_consolidated_recompute :: "db \<Rightarrow> bool \<Rightarrow> string set \<Rightarrow> recompute" where
  "run_consolidated_recompute s incremental_ok keys =
     (let ks = sorted_list_of_set keys;
          dirty_devices = filter (\<lambda>k. get_device s k \<noteq> None) ks;
          dirty_links = filter (\<lambda>k. get_device s k = None \<and> get_link s k \<noteq> None) ks
      in if (dirty_devices \<noteq> [] \<or> dirty_links \<noteq> []) \<and> incremental_ok
         then Incremental dirty_devices dirty_links else Full)"

section \<open>Runs\<close>

text \<open>
  The threads in any interleaving of their locked sections. \<open>armed\<close>: the timer of \<^verbatim>\<open>_STATE.timer\<close> is started,
  and has neither fired nor been cancelled; \<open>stray\<close>: the number of such timers that \<^verbatim>\<open>_STATE.timer\<close> no longer
  names, because a thread that entered \<^verbatim>\<open>_execute_now\<close> earlier has reset it; \<open>entering\<close>: the threads that call
  \<^verbatim>\<open>_execute_now\<close> and have not reached its first section; \<open>taken\<close>: the batches of the threads between its first
  and its second section; \<open>running\<close>: the threads in a recomputation. \<open>asked\<close> holds every key ever scheduled,
  \<open>handed\<close> every key of a batch whose recomputation has begun.
\<close>

record threads =
  coal_of :: coal
  armed :: bool
  stray :: nat
  entering :: nat
  taken :: "(string set \<times> string set) list"
  running :: nat
  asked :: "string set"
  handed :: "string set"

definition initial_threads :: threads where
  "initial_threads = \<lparr>coal_of = initial_coal, armed = False, stray = 0, entering = 0, taken = [], running = 0,
     asked = {}, handed = {}\<rparr>"

text \<open>A request or a test calls \<^verbatim>\<open>schedule\<close>, whose timer starts, or \<^verbatim>\<open>flush_now\<close>. A timer that has already fired
  cannot be cancelled.\<close>

inductive call_step :: "threads \<Rightarrow> threads \<Rightarrow> bool" where
  schedule: "schedule True scope key (coal_of w) = Some c \<Longrightarrow>
    call_step w (w\<lparr>coal_of := c, armed := armed w \<or> \<not> co_timer (coal_of w),
      asked := asked w \<union> {k. key = Some k \<and> k \<noteq> []}\<rparr>)"
| flush: "flush_begin (coal_of w) = Some (c, True) \<Longrightarrow>
    call_step w (w\<lparr>coal_of := c, armed := False, entering := entering w + 1\<rparr>)"
| flush_none: "flush_begin (coal_of w) = Some (c, False) \<Longrightarrow> call_step w (w\<lparr>coal_of := c\<rparr>)"

text \<open>A timer fires, or a thread goes on to its next section.\<close>

inductive thread_step :: "threads \<Rightarrow> threads \<Rightarrow> bool" where
  fire: "armed w \<Longrightarrow> thread_step w (w\<lparr>armed := False, entering := entering w + 1\<rparr>)"
| fire_stray: "stray w = Suc n \<Longrightarrow> thread_step w (w\<lparr>stray := n, entering := entering w + 1\<rparr>)"
| take: "entering w = Suc n \<Longrightarrow> take_work (coal_of w) = Some (c, batch) \<Longrightarrow>
    thread_step w (w\<lparr>coal_of := c, armed := False, stray := (if armed w then stray w + 1 else stray w), entering := n,
      taken := (if co_enabled c then taken w @ [batch] else taken w)\<rparr>)"
| execute: "taken w = xs @ (scopes, keys) # ys \<Longrightarrow> begin_execution (coal_of w) = Some c \<Longrightarrow>
    thread_step w (w\<lparr>coal_of := c, taken := xs @ ys, running := running w + 1, handed := handed w \<union> keys\<rparr>)"
| finish: "running w = Suc n \<Longrightarrow> finish_execution ok (coal_of w) = Some c \<Longrightarrow>
    thread_step w (w\<lparr>coal_of := c, running := n\<rparr>)"

inductive run :: "threads \<Rightarrow> bool" where
  init: "run initial_threads"
| call: "run w \<Longrightarrow> call_step w w' \<Longrightarrow> run w'"
| thread: "run w \<Longrightarrow> thread_step w w' \<Longrightarrow> run w'"

lemmas coal_defs = acquire_def release_def take_work_def begin_execution_def finish_execution_def execute_now_def
  schedule_def flush_begin_def flush_now_def

abbreviation taken_keys :: "threads \<Rightarrow> string set" where
  "taken_keys w \<equiv> \<Union> (snd ` set (taken w))"

text \<open>Pending work is announced by the timer or by a thread on its way to take it, and a timer that is
  named but not armed has fired, so that its thread is on its way.\<close>

definition coal_ok :: "threads \<Rightarrow> bool" where
  "coal_ok w \<longleftrightarrow> co_enabled (coal_of w) \<and> \<not> co_lock (coal_of w) \<and>
     asked w = handed w \<union> taken_keys w \<union> co_keys (coal_of w) \<and>
     (armed w \<longrightarrow> co_timer (coal_of w)) \<and> (co_timer (coal_of w) \<longrightarrow> armed w \<or> 0 < entering w) \<and>
     (co_keys (coal_of w) \<noteq> {} \<or> co_scopes (coal_of w) \<noteq> {} \<longrightarrow> co_timer (coal_of w) \<or> 0 < entering w) \<and>
     (co_executing (coal_of w) \<longrightarrow> 0 < running w)"

lemma call_step_ok: "call_step w w' \<Longrightarrow> coal_ok w \<Longrightarrow> coal_ok w'"
  by (induction rule: call_step.induct)
     (auto simp: coal_ok_def coal_defs Let_def split: if_splits option.splits)

lemma thread_step_ok: "thread_step w w' \<Longrightarrow> coal_ok w \<Longrightarrow> coal_ok w'"
  by (induction rule: thread_step.induct)
     (auto simp: coal_ok_def coal_defs Let_def split: if_splits)

lemma run_ok: "run w \<Longrightarrow> coal_ok w"
proof (induction rule: run.induct)
  case init
  then show ?case by (simp add: coal_ok_def initial_threads_def initial_coal_def)
qed (auto intro: call_step_ok thread_step_ok)

text \<open>Without further calls the threads come to rest: every step brings a timer or a thread closer to its
  end.\<close>

definition work_left :: "threads \<Rightarrow> nat" where
  "work_left w = 5 * (if armed w then 1 else 0) + 5 * stray w + 4 * entering w + 2 * length (taken w) + running w"

lemma thread_step_decreases: "thread_step w w' \<Longrightarrow> work_left w' < work_left w"
  by (induction rule: thread_step.induct) (auto simp: work_left_def)

lemma thread_step_keeps: "thread_step w w' \<Longrightarrow> asked w' = asked w \<and> handed w \<subseteq> handed w'"
  by (induction rule: thread_step.induct) auto

lemma thread_steps_ok: "thread_step\<^sup>*\<^sup>* w w' \<Longrightarrow> coal_ok w \<Longrightarrow> coal_ok w' \<and> asked w' = asked w"
proof (induction rule: rtranclp_induct)
  case (step v w')
  then show ?case using thread_step_ok [OF step(2)] thread_step_keeps [OF step(2)] by simp
qed simp

lemma thread_step_enabled:
  assumes "coal_ok w" "0 < work_left w"
  shows "\<exists>w'. thread_step w w'"
proof -
  from assms(1) have l: "\<not> co_lock (coal_of w)" by (simp add: coal_ok_def)
  consider "armed w" | n where "stray w = Suc n" | n where "entering w = Suc n" | b bs where "taken w = b # bs" | n where "running w = Suc n"
    using assms(2) by (cases "stray w"; cases "entering w"; cases "taken w"; cases "running w") (auto simp: work_left_def split: if_splits)
  then show ?thesis
  proof cases
    case 1
    then show ?thesis by (blast intro: fire)
  next
    case 2
    then show ?thesis by (blast intro: fire_stray)
  next
    case 3
    obtain c b where "take_work (coal_of w) = Some (c, b)" using l by (auto simp: coal_defs)
    with 3 show ?thesis by (blast intro: take)
  next
    case 4
    obtain c where "begin_execution (coal_of w) = Some c" using l by (auto simp: coal_defs)
    with 4 show ?thesis using execute [of w "[]"] by (metis append_Nil surj_pair)
  next
    case 5
    obtain c where "finish_execution True (coal_of w) = Some c" using l by (auto simp: coal_defs Let_def)
    with 5 show ?thesis by (blast intro: thread_step.finish)
  qed
qed

lemma pending_announced:
  assumes "coal_ok w" "k \<in> asked w"
  shows "k \<in> handed w \<or> k \<in> taken_keys w \<or> k \<in> co_keys (coal_of w) \<and> (armed w \<or> 0 < entering w)"
proof (cases "k \<in> co_keys (coal_of w)")
  case True
  then have "co_keys (coal_of w) \<noteq> {}" by blast
  with assms(1) True show ?thesis unfolding coal_ok_def by metis
next
  case False
  from assms have "k \<in> handed w \<union> taken_keys w \<union> co_keys (coal_of w)" unfolding coal_ok_def by metis
  with False show ?thesis by simp
qed

lemma rest_is_idle:
  assumes "coal_ok w" "work_left w = 0"
  shows "is_idle (coal_of w) \<and> handed w = asked w"
proof -
  have z: "\<not> armed w" "entering w = 0" "taken w = []" "running w = 0"
    using assms(2) by (auto simp: work_left_def split: if_splits)
  with assms(1) have t: "\<not> co_timer (coal_of w)" by (auto simp: coal_ok_def)
  with z assms(1) have "co_keys (coal_of w) = {}" "co_scopes (coal_of w) = {}" by (auto simp: coal_ok_def)
  with z t assms(1) show ?thesis by (auto simp: coal_ok_def is_idle_def)
qed

lemma comes_to_rest:
  assumes "coal_ok w"
  shows "\<exists>w'. thread_step\<^sup>*\<^sup>* w w' \<and> (\<nexists>v. thread_step w' v)"
  using assms
proof (induction "work_left w" arbitrary: w rule: less_induct)
  case less
  show ?case
  proof (cases "\<exists>v. thread_step w v")
    case True
    then obtain v where v: "thread_step w v" by blast
    from less(1) [OF thread_step_decreases [OF v] thread_step_ok [OF v less(2)]]
    obtain w' where "thread_step\<^sup>*\<^sup>* v w'" "\<nexists>u. thread_step w' u" by blast
    with v show ?thesis by (meson converse_rtranclp_into_rtranclp)
  qed blast
qed

section \<open>Properties\<close>

text \<open>C33: No scheduled recomputation is lost, in any interleaving of the locked sections of requests, timers and
  flushes, while recomputation is enabled, timers start and \<^verbatim>\<open>stop\<close> is not called. In every reachable state
  the lock is free; a scheduled key is part of a begun recomputation, or in a batch that a thread has taken
  and will recompute, or pending, and then a timer is armed or a thread is about to take it. Without
  further calls the timers and threads come to rest, after at most \<open>work_left\<close> steps, and wherever they
  rest the coalescer is idle and every key ever scheduled was part of a recomputation.\<close>

theorem coalescer_no_lost_keys:
  assumes "run w"
  shows "\<not> co_lock (coal_of w) \<and>
     (\<forall>k \<in> asked w. k \<in> handed w \<or> k \<in> taken_keys w \<or> k \<in> co_keys (coal_of w) \<and> (armed w \<or> 0 < entering w)) \<and>
     (\<forall>w'. thread_step w w' \<longrightarrow> work_left w' < work_left w) \<and>
     (\<exists>w'. thread_step\<^sup>*\<^sup>* w w' \<and> (\<nexists>v. thread_step w' v)) \<and>
     (\<forall>w'. thread_step\<^sup>*\<^sup>* w w' \<and> (\<nexists>v. thread_step w' v) \<longrightarrow> is_idle (coal_of w') \<and> handed w' = asked w)"
proof (intro conjI allI impI ballI)
  note ok = run_ok [OF assms]
  show "\<not> co_lock (coal_of w)" using ok by (simp add: coal_ok_def)
  show "k \<in> handed w \<or> k \<in> taken_keys w \<or> k \<in> co_keys (coal_of w) \<and> (armed w \<or> 0 < entering w)" if "k \<in> asked w" for k
    using pending_announced [OF ok that] .
  show "work_left w' < work_left w" if "thread_step w w'" for w' using that by (rule thread_step_decreases)
  show "\<exists>w'. thread_step\<^sup>*\<^sup>* w w' \<and> (\<nexists>v. thread_step w' v)" by (rule comes_to_rest [OF ok])
  fix w' assume w': "thread_step\<^sup>*\<^sup>* w w' \<and> (\<nexists>v. thread_step w' v)"
  have "coal_ok w' \<and> asked w' = asked w" using thread_steps_ok [OF w' [THEN conjunct1] ok] .
  moreover from this w' have "work_left w' = 0" using thread_step_enabled by blast
  ultimately show "is_idle (coal_of w')" and "handed w' = asked w" using rest_is_idle [of w'] by auto
qed

text \<open>A flush cancels the timer of the first key; before its thread takes the key, a second key is
  scheduled, which arms a second timer that \<^verbatim>\<open>_STATE.timer\<close> will no longer name. A second flush at that
  moment leaves the first one's thread on its way.\<close>

definition demo_c1 :: coal where
  "demo_c1 = initial_coal\<lparr>co_timer := True, co_scopes := {''links''}, co_keys := {''k1''}, co_scheduled := 1\<rparr>"

definition demo_flushing :: threads where
  "demo_flushing = initial_threads\<lparr>coal_of := demo_c1\<lparr>co_timer := False\<rparr>, entering := 1, asked := {''k1''}\<rparr>"

definition demo_race :: threads where
  "demo_race = demo_flushing\<lparr>armed := True, asked := {''k2'', ''k1''},
     coal_of := demo_c1\<lparr>co_timer := True, co_keys := {''k2'', ''k1''}, co_scheduled := 2\<rparr>\<rparr>"

lemmas demo_coal_defs = demo_c1_def demo_flushing_def demo_race_def initial_threads_def initial_coal_def

lemma run_schedule:
  assumes "run w" "schedule True scope (Some k) (coal_of w) = Some c" "k \<noteq> []"
  shows "run (w\<lparr>coal_of := c, armed := armed w \<or> \<not> co_timer (coal_of w), asked := insert k (asked w)\<rparr>)"
proof -
  have "asked w \<union> {k'. Some k = Some k' \<and> k' \<noteq> []} = insert k (asked w)" using assms(3) by auto
  with run.call [OF assms(1) call_step.schedule [OF assms(2)]] show ?thesis by simp
qed

lemma demo_flushing_run: "run demo_flushing"
proof -
  have "schedule True ''links'' (Some ''k1'') (coal_of initial_threads) = Some demo_c1"
    by (simp add: coal_defs demo_coal_defs Let_def)
  from run_schedule [OF run.init this]
  have r: "run (initial_threads\<lparr>coal_of := demo_c1, armed := True, asked := {''k1''}\<rparr>)" by (simp add: demo_coal_defs)
  have "flush_begin demo_c1 = Some (demo_c1\<lparr>co_timer := False\<rparr>, True)" by (simp add: coal_defs demo_coal_defs)
  with run.call [OF r call_step.flush, of "demo_c1\<lparr>co_timer := False\<rparr>"] show ?thesis by (simp add: demo_coal_defs)
qed

lemma demo_race_run: "run demo_race"
proof -
  have "schedule True ''links'' (Some ''k2'') (coal_of demo_flushing) = Some (coal_of demo_race)"
    by (simp add: coal_defs demo_coal_defs Let_def)
  from run_schedule [OF demo_flushing_run this] show ?thesis by (simp add: demo_coal_defs)
qed

theorem coalescer_no_lost_keys_witness:
  "co_keys (coal_of demo_race) = {''k2'', ''k1''} \<and> \<not> co_lock (coal_of demo_race) \<and>
   (\<exists>w'. thread_step\<^sup>*\<^sup>* demo_race w' \<and> (\<nexists>v. thread_step w' v) \<and> is_idle (coal_of w') \<and> handed w' = {''k2'', ''k1''})"
proof -
  note all = coalescer_no_lost_keys [OF demo_race_run]
  from all [THEN conjunct2, THEN conjunct2, THEN conjunct2, THEN conjunct1]
  obtain w' where w': "thread_step\<^sup>*\<^sup>* demo_race w'" "\<nexists>v. thread_step w' v" by blast
  with all [THEN conjunct2, THEN conjunct2, THEN conjunct2, THEN conjunct2]
  have "is_idle (coal_of w') \<and> handed w' = asked demo_race" by simp
  moreover have "co_keys (coal_of demo_race) = {''k2'', ''k1''}" "asked demo_race = {''k2'', ''k1''}"
    by (simp_all add: demo_race_def)
  ultimately show ?thesis using w' all [THEN conjunct1] by metis
qed

text \<open>Between the sections of a flush, pending keys have no timer: a second flush then returns at once and
  leaves them to the first one's thread.\<close>

theorem second_flush_returns:
  "run demo_flushing \<and> flush_begin (coal_of demo_flushing) = Some (coal_of demo_flushing, False) \<and>
   co_keys (coal_of demo_flushing) = {''k1''}"
  using demo_flushing_run by (simp add: coal_defs demo_coal_defs)

text \<open>The fallback for a timer that cannot be started blocks forever: \<^verbatim>\<open>schedule\<close> calls \<^verbatim>\<open>_execute_now\<close>
  while it holds the lock that \<^verbatim>\<open>_execute_now\<close> takes. Whenever no timer is pending and starting one
  fails, the call does not return.\<close>

theorem schedule_fallback_blocks:
  assumes "\<not> co_timer c"
  shows "schedule False scope key c = None"
  using assms by (auto simp: coal_defs Let_def split: option.splits)

theorem schedule_fallback_blocks_witness:
  "schedule False ''links'' (Some ''k'') initial_coal = None"
  by (rule schedule_fallback_blocks) (simp add: initial_coal_def)

text \<open>An incremental recomputation covers all pending keys that mean anything: every key that is
  the id of a device or of a link is in one of the two seed lists, which are sorted and contain
  nothing else; without any such key, or when the incremental run fails, everything is recomputed.\<close>

theorem recompute_covers_keys:
  assumes "finite keys"
  shows "(case run_consolidated_recompute s ok keys of
       Incremental ds ls \<Rightarrow> ok \<and> sorted ds \<and> sorted ls \<and>
         set ds = {k \<in> keys. get_device s k \<noteq> None} \<and>
         set ls = {k \<in> keys. get_device s k = None \<and> get_link s k \<noteq> None}
     | Full \<Rightarrow> \<not> ok \<or> (\<forall>k \<in> keys. get_device s k = None \<and> get_link s k = None))"
  using assms
  by (auto simp: run_consolidated_recompute_def Let_def filter_empty_conv sorted_wrt_filter)

theorem recompute_covers_keys_witness:
  "run_consolidated_recompute (empty_db\<lparr>devices := [Device ''d'' OLT], links := [Link ''l'' ''a'' ''b'']\<rparr>) True {''l'', ''x'', ''d''} =
     Incremental [''d''] [''l''] \<and> set [''d''] = {k \<in> {''l'', ''x'', ''d''}. k = ''d''}"
proof -
  let ?s = "empty_db\<lparr>devices := [Device ''d'' OLT], links := [Link ''l'' ''a'' ''b'']\<rparr>"
  have r: "run_consolidated_recompute ?s True {''l'', ''x'', ''d''} = Incremental [''d''] [''l'']" by code_simp
  have "finite {''l'', ''x'', ''d''}" by simp
  from recompute_covers_keys [OF this, where s = ?s and ok = True, unfolded r]
  have "set [''d''] = {k \<in> {''l'', ''x'', ''d''}. get_device ?s k \<noteq> None}" by (simp only: recompute.case)
  also have "\<dots> = {k \<in> {''l'', ''x'', ''d''}. k = ''d''}" by (auto simp: get_device_def row_defs)
  finally show ?thesis using r by blast
qed

end
