(* ===== verification/Links.thy ===== *)
theory Links
  imports Link_Policy Events Coalescer
begin

text \<open>
  Creating and deleting links: \<^verbatim>\<open>api/endpoints/links_helpers_create.py\<close>,
  \<^verbatim>\<open>api/endpoints/links_helpers_delete.py\<close> and \<^verbatim>\<open>services/links_service.py\<close>. A request runs in one
  session: an error before the commit rolls back, so it leaves the world as it was. The environment
  record \<open>cenv\<close> holds what the code gets from outside: the clock, MD5, the MAC addresses handed out,
  whether timers start, the Go services and what they write to the database, and which of the rows
  added in the session SQLAlchemy still lists as pending (\<^verbatim>\<open>s.new\<close>) when the events are appended.
  Identifiers of new media rows are one more than the largest, as SQLite assigns them. Of the
  database's own constraints the one on the endpoints of links is modelled; a clash of the name
  \<^verbatim>\<open>if0\<close> of an interface created on demand is not.
\<close>

section \<open>Link service\<close>

definition link_ids :: "ident \<Rightarrow> ident \<Rightarrow> ident \<times> ident \<times> ident \<times> ident" where
  "link_ids a b =
     (let (a_id, b_id) = (if a > b then (b, a) else (a, b));
          da = derive_dev a; d_b = derive_dev b;
          canonical_id = (if da \<le> d_b then da @ ''__'' @ d_b else d_b @ ''__'' @ da);
          user_order_id = da @ ''__'' @ d_b
      in (a_id, b_id, canonical_id, user_order_id))"

definition desired_media :: "(string \<times> string \<times> string \<times> pyfloat option) list" where
  "desired_media =
    [(''SMF_G652D'', ''Single-mode G.652.D'', ''optical'', None),
     (''SMF_G657A1'', ''Single-mode G.657.A1'', ''optical'', None),
     (''SMF_G657A2'', ''Single-mode G.657.A2'', ''optical'', None),
     (''MMF_OM3'', ''Multi-mode OM3'', ''optical'', None),
     (''MMF_OM4'', ''Multi-mode OM4'', ''optical'', None),
     (''CAT6A_UTP'', ''Category 6A UTP'', ''copper'', Some (1 / 10))]"

definition next_medium_id :: "db \<Rightarrow> int" where
  "next_medium_id s = (if media s = [] then 1 else Max (set (map pm_id (media s))) + 1)"

definition add_medium :: "db \<Rightarrow> string \<times> string \<times> string \<times> pyfloat option \<Rightarrow> db" where
  "add_medium s m = (case m of (code, name, kind, km) \<Rightarrow>
     s\<lparr>media := media s @ [\<lparr>pm_id = next_medium_id s, pm_code = code, pm_name = name, pm_kind = kind,
        pm_max_range_km = km\<rparr>]\<rparr>)"

definition ensure_physical_media :: "db \<Rightarrow> db" where
  "ensure_physical_media s =
     foldl (\<lambda>t m. if fst m \<in> pm_code ` set (media s) then t else add_medium t m) s desired_media"

definition medium_by_code :: "db \<Rightarrow> string \<Rightarrow> int option" where
  "medium_by_code s c = map_option pm_id (find (\<lambda>m. pm_code m = c) (media s))"

definition pick_default_physical_medium_id ::
    "(string \<Rightarrow> nat) \<Rightarrow> db \<Rightarrow> ident \<Rightarrow> device \<Rightarrow> device \<Rightarrow> int option \<times> db" where
  "pick_default_physical_medium_id md5 s link_id a_dev b_dev =
     (let codes = sorted_list_of_set (allowed_media_codes_for_class (link_class (classify_link a_dev b_dev)));
          (sel, s1) = (if codes \<noteq> []
                       then (let s1 = ensure_physical_media s
                             in (medium_by_code s1 (codes ! (md5 link_id mod length codes)), s1))
                       else (None, s))
      in if sel = None
         then (let s2 = ensure_physical_media s1 in (medium_by_code s2 ''SMF_G652D'', s2))
         else (sel, s1))"

text \<open>\<^verbatim>\<open>round(x, n)\<close>: to \<open>n\<close> decimals, ties to the even digit.\<close>

definition round_dec :: "nat \<Rightarrow> pyfloat \<Rightarrow> pyfloat" where
  "round_dec n x =
     (let y = x * 10 ^ n; f = \<lfloor>y\<rfloor>; d = y - of_int f;
          r = (if d < 1 / 2 then f else if d > 1 / 2 then f + 1 else if even f then f else f + 1)
      in of_int r / 10 ^ n)"

definition derive_default_length_km ::
    "(string \<Rightarrow> nat) \<Rightarrow> db \<Rightarrow> ident \<Rightarrow> int option \<Rightarrow> pyfloat option" where
  "derive_default_length_km md5 s link_id mid =
     (case mid of
        None \<Rightarrow> None
      | Some k \<Rightarrow>
          (case get_medium s k of
             None \<Rightarrow> None
           | Some pm \<Rightarrow>
               if pm_kind pm \<noteq> ''optical'' \<and> pm_max_range_km pm \<noteq> None
               then Some (round_dec 3 (the (pm_max_range_km pm) * (8 / 10)))
               else Some (round_dec 2 (11 / 100 + of_nat (md5 (link_id @ '':len'') mod 190) / 100))))"

section \<open>Validation\<close>

record link_create =
  lc_id :: ident
  lc_a_interface_id :: ident
  lc_b_interface_id :: ident
  lc_status :: Status
  lc_admin_override_status :: "Status option"
  lc_protection_mode :: "string option"
  lc_length_km :: "pyfloat option"
  lc_physical_medium_id :: "int option"

definition rsplit_dash :: "string \<Rightarrow> string option" where
  "rsplit_dash i =
     (if CHR ''-'' \<in> set i then Some (rev (tl (dropWhile (\<lambda>c. c \<noteq> CHR ''-'') (rev i)))) else None)"

definition dev_from_iface_id :: "db \<Rightarrow> ident \<Rightarrow> ident option" where
  "dev_from_iface_id s i =
     (case get_interface s i of
        Some r \<Rightarrow> Some (if_device_id r)
      | None \<Rightarrow>
          if endswith i ''-if0'' then Some (drop_tail 4 i)
          else (case rsplit_dash i of
                  None \<Rightarrow> None
                | Some d \<Rightarrow> if get_device s d \<noteq> None then Some d else None))"

definition dev_of_iface :: "db \<Rightarrow> ident \<Rightarrow> device option" where
  "dev_of_iface s i =
     (case dev_from_iface_id s i of None \<Rightarrow> None | Some d \<Rightarrow> if d = [] then None else get_device s d)"

definition ARROW :: string where
  "ARROW = [CHR 0xE2, CHR 0x86, CHR 0x94]"

text \<open>The checks on the two devices, in the order of the code.\<close>

definition pairing_error :: "db \<Rightarrow> device \<Rightarrow> device \<Rightarrow> ident \<Rightarrow> ident \<Rightarrow> http_exception option" where
  "pairing_error s a_dev b_dev a_if b_if =
     (let cls = classify a_dev b_dev;
          other = (if dev_type a_dev = OLT then b_dev else a_dev)
      in if dev_type a_dev = POP \<or> dev_type b_dev = POP
         then err POP_LINK_DISALLOWED ''POP container endpoint''
         else if \<not> allowed cls then err INVALID_LINK_TYPE (rule_id cls)
         else if dev_type a_dev = ODF \<and> dev_type b_dev = ODF
         then err LINK_INVALID_PAIRING (''Direct ODF'' @ ARROW @ ''ODF links (cascades) are not supported.'')
         else if dev_type a_dev = OLT \<and> dev_type b_dev \<in> ONT_CLASS \<or> dev_type b_dev = OLT \<and> dev_type a_dev \<in> ONT_CLASS
         then err LINK_INVALID_PAIRING (''Direct OLT'' @ ARROW @ ''ONT links are not allowed. Connect via an ODF.'')
         else if (dev_type a_dev = OLT \<or> dev_type b_dev = OLT) \<and>
                 (dev_type other \<in> PASSIVE_INLINE \<or> dev_type other \<in> ONT_CLASS) \<and> dev_type other \<noteq> ODF
         then err LINK_INVALID_UPSTREAM (''ODF must connect upstream to an OLT PON-port, not '' @
                DeviceType_name (dev_type other))
         else enforce_ont_placement_rules s a_dev b_dev a_if b_if)"

definition medium_error :: "db \<Rightarrow> link_rule_result \<Rightarrow> int option \<Rightarrow> http_exception option" where
  "medium_error s cls mid =
     (case mid of
        None \<Rightarrow> None
      | Some k \<Rightarrow>
          (case get_medium s k of
             None \<Rightarrow> Some (http 400 ''Invalid physical_medium_id'')
           | Some pm \<Rightarrow>
               (let codes = allowed_media_codes_for_class (link_class cls)
                in if codes \<noteq> {} \<and> pm_code pm \<notin> codes
                   then Some (http 400 (''Physical medium '' @ [CHR 0x27] @ pm_code pm @ [CHR 0x27] @
                          '' not allowed for link class '' @ [CHR 0x27] @ link_class cls @ [CHR 0x27] @
                          '' (rule '' @ rule_id cls @ '')''))
                   else None)))"

section \<open>Environment and world\<close>

datatype go_call = RecomputePaths "ident list" | PropagateStatus "ident list" "ident list"

datatype go_client = GoAbsent | GoAnswers | GoFails

record cenv =
  ce_now :: string
  ce_md5 :: "string \<Rightarrow> nat"
  ce_mac_a :: string
  ce_mac_b :: string
  ce_pending :: "iface list \<Rightarrow> iface list"
  ce_timer_ok :: bool
  ce_optical :: go_client
  ce_status :: go_client
  ce_go :: "go_call \<Rightarrow> db \<Rightarrow> db"

record world =
  w_db :: db
  w_bus :: bus
  w_version :: int
  w_coal :: coal
  w_calls :: "go_call list"

definition bump_version :: "world \<Rightarrow> int \<times> world" where
  "bump_version w = (w_version w + 1, w\<lparr>w_version := w_version w + 1\<rparr>)"

definition emit :: "cenv \<Rightarrow> world \<Rightarrow> string \<Rightarrow> payload \<Rightarrow> int \<Rightarrow> world" where
  "emit env w ty p tv =
     w\<lparr>w_bus := publish (w_bus w) \<lparr>ev_type = ty, ev_payload = p, ev_topo_version = Some tv,
        ev_correlation_id = None\<rparr> (ce_now env)\<rparr>"

text \<open>A call of a Go service: nothing without a client, \<open>None\<close> when it raises.\<close>

definition go_call :: "cenv \<Rightarrow> go_client \<Rightarrow> go_call \<Rightarrow> world \<Rightarrow> world option" where
  "go_call env cl c w =
     (case cl of
        GoAbsent \<Rightarrow> Some w
      | GoAnswers \<Rightarrow> Some (w\<lparr>w_calls := w_calls w @ [c], w_db := ce_go env c (w_db w)\<rparr>)
      | GoFails \<Rightarrow> None)"

section \<open>Preparing the row\<close>

record prepared =
  pr_db :: db
  pr_link :: link
  pr_a_if :: iface
  pr_b_if :: iface
  pr_cls :: link_rule_result
  pr_new :: "iface list"

definition nonzero :: "int option \<Rightarrow> int option" where
  "nonzero x = (if x = Some 0 then None else x)"

definition prepare_link :: "cenv \<Rightarrow> db \<Rightarrow> link_create \<Rightarrow> device \<Rightarrow> device \<Rightarrow> http_exception + prepared" where
  "prepare_link env s p a_dev b_dev =
     (let cls = classify a_dev b_dev;
          (a_if, s1) = ensure_default_interface s (lc_a_interface_id p) (ce_mac_a env);
          (b_if, s2) = ensure_default_interface s1 (lc_b_interface_id p) (ce_mac_b env);
          (a_id, b_id, canonical_id, user_order_id) = link_ids (lc_a_interface_id p) (lc_b_interface_id p)
      in case (a_if, b_if) of
           (Some ia, Some ib) \<Rightarrow>
             if if_name ia = ''mgmt0'' \<or> if_name ib = ''mgmt0''
             then Inl (raise_error INVALID_LINK_TYPE (Some ''management interface'') None)
             else if lc_id p \<notin> {canonical_id, user_order_id}
             then Inl (http 400 (''Link id not canonical; expected '' @ [CHR 0x27] @ canonical_id @ [CHR 0x27]))
             else if (case lc_length_km p of None \<Rightarrow> False | Some x \<Rightarrow> x < 0)
             then Inl (http 400 ''length_km must be >= 0'')
             else if (case lc_physical_medium_id p of None \<Rightarrow> False | Some k \<Rightarrow> get_medium s2 k = None)
             then Inl (http 400 ''Invalid physical_medium_id'')
             else (case enforce_pon_role_if_declared s2 a_dev b_dev ia ib of
               Some e \<Rightarrow> Inl e
             | None \<Rightarrow> (case enforce_single_upstream_rules s2 a_dev b_dev of
               Some e \<Rightarrow> Inl e
             | None \<Rightarrow>
                 (let (selected, s3) = (if lc_physical_medium_id p = None
                        then pick_default_physical_medium_id (ce_md5 env) s2 (lc_id p) a_dev b_dev
                        else (None, s2));
                      pm = (if lc_physical_medium_id p \<noteq> None then lc_physical_medium_id p else selected)
                  in case medium_error s3 cls pm of
                       Some e \<Rightarrow> Inl e
                     | None \<Rightarrow>
                         (let mid = (if nonzero selected \<noteq> None then selected else lc_physical_medium_id p);
                              len = (if lc_length_km p = None \<and>
                                        (nonzero selected \<noteq> None \<or> nonzero (lc_physical_medium_id p) \<noteq> None)
                                     then derive_default_length_km (ce_md5 env) s3 (lc_id p) mid
                                     else lc_length_km p);
                              row = \<lparr>ln_id = lc_id p, ln_a_interface_id = a_id, ln_b_interface_id = b_id,
                                ln_status = lc_status p,
                                ln_kind = (if link_class cls = ''routed_p2p'' then P2P else FIBER),
                                ln_admin_override_status = lc_admin_override_status p,
                                ln_protection_mode = None, ln_length_km = len, ln_physical_medium_id = pm\<rparr>
                          in if \<exists>l \<in> set (links s3). ln_a_interface_id l = a_id \<and> ln_b_interface_id l = b_id
                             then Inl (http 409 ''Link already exists'')
                             else Inr \<lparr>pr_db = add_link s3 row, pr_link = row, pr_a_if = ia, pr_b_if = ib,
                                        pr_cls = cls,
                                        pr_new = filter (\<lambda>r. get_interface s (if_id r) = None) [ia, ib]\<rparr>))))
         | _ \<Rightarrow> Inl (http 400 ''Interface not found (and auto-create failed)''))"

definition validate_link :: "cenv \<Rightarrow> db \<Rightarrow> link_create \<Rightarrow> http_exception + prepared" where
  "validate_link env s p =
     (if lc_a_interface_id p = lc_b_interface_id p then Inl (http 400 ''Endpoints must differ'')
      else if get_link s (lc_id p) \<noteq> None then Inl (http 409 ''Link already exists'')
      else case (dev_of_iface s (lc_a_interface_id p), dev_of_iface s (lc_b_interface_id p)) of
             (Some a_dev, Some b_dev) \<Rightarrow>
               (case pairing_error s a_dev b_dev (lc_a_interface_id p) (lc_b_interface_id p) of
                  Some e \<Rightarrow> Inl e
                | None \<Rightarrow> prepare_link env s p a_dev b_dev)
           | _ \<Rightarrow> Inl (http 400 ''Interface not found (and auto-create failed)''))"

section \<open>Create and delete\<close>

record link_out =
  lo_link :: link
  lo_a_device_id :: ident
  lo_b_device_id :: ident
  lo_effective_status :: Status
  lo_rule_id :: "string option"

fun LinkType_str :: "LinkType \<Rightarrow> string" where
  "LinkType_str FIBER = ''LinkType.FIBER''"
| "LinkType_str P2P = ''LinkType.P2P''"
| "LinkType_str MGMT = ''LinkType.MGMT''"

definition jopt :: "('a \<Rightarrow> json) \<Rightarrow> 'a option \<Rightarrow> json" where
  "jopt f x = (case x of None \<Rightarrow> JNull | Some v \<Rightarrow> f v)"

fun append_ports :: "cenv \<Rightarrow> event_record list \<Rightarrow> iface list \<Rightarrow> string + event_record list" where
  "append_ports env st [] = Inr st"
| "append_ports env st (r # rs) =
     (case append_domain_event st ''PORT_CONNECTED'' (if_id r)
             [(''device_id'', JStr (if_device_id r)), (''name'', JStr (if_name r))] None (ce_now env) of
        Inl e \<Rightarrow> Inl e
      | Inr st' \<Rightarrow> append_ports env st' rs)"

definition append_link_events :: "cenv \<Rightarrow> event_record list \<Rightarrow> prepared \<Rightarrow> string + event_record list" where
  "append_link_events env st pr =
     (case append_ports env st (ce_pending env (pr_new pr)) of
        Inl e \<Rightarrow> Inl e
      | Inr st' \<Rightarrow>
          append_domain_event st' ''LINK_CREATED'' (ln_id (pr_link pr))
            [(''a_interface_id'', JStr (ln_a_interface_id (pr_link pr))),
             (''b_interface_id'', JStr (ln_b_interface_id (pr_link pr))),
             (''kind'', JStr (LinkType_str (ln_kind (pr_link pr)))),
             (''rule_id'', JStr (rule_id (pr_cls pr)))] None (ce_now env))"

text \<open>What follows the commit: the event, the scheduled recomputation, the Go services and one event
  per end device. An exception of a Go service skips the rest of its block.\<close>

definition created_payload :: "prepared \<Rightarrow> payload" where
  "created_payload pr =
     [(''id'', JStr (ln_id (pr_link pr))),
      (''a_interface_id'', JStr (ln_a_interface_id (pr_link pr))),
      (''b_interface_id'', JStr (ln_b_interface_id (pr_link pr))),
      (''kind'', JStr (LinkType_str (ln_kind (pr_link pr)))),
      (''rule_id'', JStr (rule_id (pr_cls pr))),
      (''length_km'', jopt JNum (ln_length_km (pr_link pr))),
      (''physical_medium_id'', jopt JInt (ln_physical_medium_id (pr_link pr)))]"

definition optical_updated :: "cenv \<Rightarrow> int \<Rightarrow> world \<Rightarrow> ident \<Rightarrow> world" where
  "optical_updated env tv w d =
     emit env w ''device.optical.updated'' [(''id'', JStr d), (''reason'', JStr ''link_created'')] tv"

definition notify_go :: "cenv \<Rightarrow> world \<Rightarrow> ident \<Rightarrow> ident list \<Rightarrow> world" where
  "notify_go env w lid devs =
     (let (tv, w) = bump_version w
      in case go_call env (ce_optical env) (RecomputePaths [lid]) w of
           None \<Rightarrow> w
         | Some w1 \<Rightarrow>
             (case (if devs = [] then Some w1 else go_call env (ce_status env) (PropagateStatus devs [lid]) w1) of
                None \<Rightarrow> w1
              | Some w2 \<Rightarrow> foldl (optical_updated env tv) w2 devs))"

definition create_link_impl :: "cenv \<Rightarrow> world \<Rightarrow> link_create \<Rightarrow> (world \<times> (http_exception + link_out)) option" where
  "create_link_impl env w p =
     (case validate_link env (w_db w) p of
        Inl e \<Rightarrow> Some (w, Inl e)
      | Inr pr \<Rightarrow>
          (case append_link_events env (bus_store (w_bus w)) pr of
             Inl m \<Rightarrow> Some (w, Inl (http 500 (''Unexpected link create error: EventStoreAppendError: '' @ m)))
           | Inr st \<Rightarrow>
               (let w1 = w\<lparr>w_db := pr_db pr, w_bus := (w_bus w)\<lparr>bus_store := st\<rparr>\<rparr>;
                    (tv, w2) = bump_version w1;
                    w3 = emit env w2 ''link.created'' (created_payload pr) tv
                in case schedule (ce_timer_ok env) ''links'' (Some (ln_id (pr_link pr))) (w_coal w3) of
                     None \<Rightarrow> None
                   | Some c \<Rightarrow>
                       (let devs = filter (\<lambda>d. d \<noteq> []) [if_device_id (pr_a_if pr), if_device_id (pr_b_if pr)];
                            w4 = notify_go env (w3\<lparr>w_coal := c\<rparr>) (ln_id (pr_link pr)) devs
                        in Some (w4, Inr \<lparr>lo_link = pr_link pr, lo_a_device_id = if_device_id (pr_a_if pr),
                             lo_b_device_id = if_device_id (pr_b_if pr),
                             lo_effective_status = evaluate_link_status (w_db w4) (pr_link pr),
                             lo_rule_id = Some (rule_id (pr_cls pr))\<rparr>)))))"

definition delete_row :: "db \<Rightarrow> ident \<Rightarrow> db" where
  "delete_row s k = s\<lparr>links := filter (\<lambda>l. ln_id l \<noteq> k) (links s)\<rparr>"

definition iface_device :: "db \<Rightarrow> ident \<Rightarrow> ident list" where
  "iface_device s i =
     (case get_interface s i of
        None \<Rightarrow> []
      | Some r \<Rightarrow> (case get_device s (if_device_id r) of None \<Rightarrow> [] | Some d \<Rightarrow> [dev_id d]))"

definition delete_link_impl :: "cenv \<Rightarrow> world \<Rightarrow> ident \<Rightarrow> (world \<times> http_exception option) option" where
  "delete_link_impl env w k =
     (case get_link (w_db w) k of
        None \<Rightarrow> Some (w, Some (http 404 ''Not found''))
      | Some l \<Rightarrow>
          (let ifid = (\<lambda>i. jopt (JStr \<circ> if_id) (get_interface (w_db w) i));
               devs = iface_device (w_db w) (ln_a_interface_id l) @ iface_device (w_db w) (ln_b_interface_id l)
           in case append_domain_event (bus_store (w_bus w)) ''LINK_DELETED'' k
                     [(''a_interface_id'', ifid (ln_a_interface_id l)), (''b_interface_id'', ifid (ln_b_interface_id l))]
                     None (ce_now env) of
                Inl m \<Rightarrow> Some (w, Some (http 500 m))
              | Inr st \<Rightarrow>
                  (let w1 = w\<lparr>w_db := delete_row (w_db w) k, w_bus := (w_bus w)\<lparr>bus_store := st\<rparr>\<rparr>;
                       (tv, w2) = bump_version w1;
                       w3 = emit env w2 ''link.deleted'' [(''id'', JStr k)] tv
                   in case schedule (ce_timer_ok env) ''links'' (Some k) (w_coal w3) of
                        None \<Rightarrow> None
                      | Some c \<Rightarrow>
                          (let w4 = w3\<lparr>w_coal := c\<rparr>
                           in case go_call env (ce_optical env) (RecomputePaths [k]) w4 of
                                None \<Rightarrow> Some (w4, None)
                              | Some w5 \<Rightarrow>
                                  (let w6 = emit env w5 ''device.optical.updated''
                                        [(''affected_link_ids'', JList [JStr k]), (''reason'', JStr ''link_deleted'')] tv
                                   in case (if devs = [] then Some w6
                                            else go_call env (ce_status env) (PropagateStatus devs [k]) w6) of
                                        None \<Rightarrow> Some (w6, None)
                                      | Some w7 \<Rightarrow> Some (w7, None))))))"

section \<open>What a prepared row satisfies\<close>

lemma ensure_default_interface_SomeD:
  assumes "ensure_default_interface s i mac = (Some r, t)"
  shows "get_interface t i = Some r \<and> devices t = devices s \<and> links t = links s \<and> media t = media s \<and>
    (\<forall>j. get_interface s j \<noteq> None \<or> j \<noteq> i \<longrightarrow> get_interface t j = get_interface s j) \<and>
    (wf_db s \<longrightarrow> wf_db t)"
proof (cases "get_interface s i")
  case None
  with assms obtain d where d: "get_device s (drop_tail 4 i) = Some d"
    "r = (Interface i (dev_id d) ''if0'')\<lparr>if_mac_address := Some mac\<rparr>"
    "t = s\<lparr>interfaces := interfaces s @ [r]\<rparr>"
    by (auto simp: ensure_default_interface_def Let_def split: if_splits option.splits)
  then have id: "if_id r = i" by (simp add: Interface_def)
  have get: "get_interface t j = (case get_interface s j of Some x \<Rightarrow> Some x | None \<Rightarrow> if j = i then Some r else None)" for j
    using d(3) id by (auto simp: get_interface_def find_append split: option.splits)
  moreover have "i \<notin> if_id ` set (interfaces s)" using None by (simp add: ifc.get_None_iff)
  ultimately show ?thesis using None d(3) id
    by (auto simp: wf_db_def split: option.splits)
qed (use assms in \<open>auto simp: ensure_default_interface_def\<close>)

lemma ensure_default_interface_owner:
  assumes "ensure_default_interface s i mac = (Some r, t)" "dev_of_iface s i = Some d"
  shows "if_device_id r = dev_id d"
proof (cases "get_interface s i")
  case None
  with assms show ?thesis
    by (auto simp: ensure_default_interface_def dev_of_iface_def dev_from_iface_id_def Let_def Interface_def
        split: if_splits option.splits)
next
  case (Some x)
  with assms show ?thesis
    by (auto simp: ensure_default_interface_def dev_of_iface_def dev_from_iface_id_def
        split: if_splits option.splits dest: dev.get_key)
qed

lemma media_frame:
  "devices (add_medium s m) = devices s" "interfaces (add_medium s m) = interfaces s" "links (add_medium s m) = links s"
  by (simp_all add: add_medium_def split: prod.splits)

lemma ensure_physical_media_frame:
  "devices (ensure_physical_media s) = devices s" "interfaces (ensure_physical_media s) = interfaces s"
  "links (ensure_physical_media s) = links s"
  by (simp_all add: ensure_physical_media_def desired_media_def media_frame)

lemma pick_default_frame:
  assumes "pick_default_physical_medium_id md5 s k a b = (x, t)"
  shows "devices t = devices s" "interfaces t = interfaces s" "links t = links s"
  using assms
  by (auto simp: pick_default_physical_medium_id_def Let_def ensure_physical_media_frame split: if_splits prod.splits)

section \<open>The topology invariant\<close>

definition pair_ok :: "device \<Rightarrow> device \<Rightarrow> bool" where
  "pair_ok a b \<longleftrightarrow> dev_type a \<noteq> POP \<and> dev_type b \<noteq> POP \<and> allowed (classify a b) \<and>
     \<not> (dev_type a = ODF \<and> dev_type b = ODF) \<and>
     (dev_type a = OLT \<longrightarrow> dev_type b \<notin> ONT_CLASS \<and> (dev_type b \<in> PASSIVE_INLINE \<longrightarrow> dev_type b = ODF)) \<and>
     (dev_type b = OLT \<longrightarrow> dev_type a \<notin> ONT_CLASS \<and> (dev_type a \<in> PASSIVE_INLINE \<longrightarrow> dev_type a = ODF))"

definition link_ok :: "db \<Rightarrow> link \<Rightarrow> bool" where
  "link_ok s l \<longleftrightarrow> ln_a_interface_id l < ln_b_interface_id l \<and>
     (\<exists>a b. owner s (ln_a_interface_id l) = Some a \<and> owner s (ln_b_interface_id l) = Some b \<and> pair_ok a b)"

definition topology_inv :: "db \<Rightarrow> bool" where
  "topology_inv s \<longleftrightarrow> wf_db s \<and> (\<forall>l \<in> set (links s). link_ok s l) \<and>
     distinct (map (\<lambda>l. (ln_a_interface_id l, ln_b_interface_id l)) (links s)) \<and> single_upstream s"

text \<open>A database that only gained interfaces and media.\<close>

definition grows :: "db \<Rightarrow> db \<Rightarrow> bool" where
  "grows s t \<longleftrightarrow> devices t = devices s \<and> links t = links s \<and>
     (\<forall>j. get_interface s j \<noteq> None \<longrightarrow> get_interface t j = get_interface s j) \<and> (wf_db s \<longrightarrow> wf_db t)"

lemma grows_trans: "grows s t \<Longrightarrow> grows t u \<Longrightarrow> grows s u"
  by (auto simp: grows_def)

lemma grows_get_device: "grows s t \<Longrightarrow> get_device t = get_device s"
  by (simp add: grows_def get_device_def fun_eq_iff)

lemma grows_link:
  assumes "grows s t" "link_ok s l"
  shows "link_ok t l" "link_ends t l = link_ends s l"
proof -
  have i: "get_interface t (ln_a_interface_id l) = get_interface s (ln_a_interface_id l)"
    "get_interface t (ln_b_interface_id l) = get_interface s (ln_b_interface_id l)"
    using assms by (auto simp: grows_def link_ok_def owner_def split: option.splits)
  show "link_ends t l = link_ends s l" unfolding link_ends_def i ..
  show "link_ok t l" using assms(2) unfolding link_ok_def owner_def i grows_get_device [OF assms(1)] .
qed

lemma grows_upstream:
  assumes "grows s t" "link_ok s l"
  shows "is_upstream_link t d l = is_upstream_link s d l" "odf_link t d l = odf_link s d l"
proof -
  have d: "dtype t = dtype s" by (simp add: dtype_def fun_eq_iff grows_get_device [OF assms(1)])
  show u: "is_upstream_link t d l = is_upstream_link s d l"
    unfolding is_upstream_link_def d grows_link(2) [OF assms] ..
  show "odf_link t d l = odf_link s d l" unfolding odf_link_def u d grows_link(2) [OF assms] ..
qed

lemma grows_inv:
  assumes "grows s t" "topology_inv s"
  shows "topology_inv t"
proof -
  have ok: "link_ok s l" if "l \<in> set (links s)" for l using assms(2) that by (simp add: topology_inv_def)
  have eq: "devices t = devices s" "links t = links s" "wf_db t"
    using assms by (auto simp: grows_def topology_inv_def)
  have "filter (is_upstream_link t d) (links s) = filter (is_upstream_link s d) (links s)"
    "filter (odf_link t d) (links s) = filter (odf_link s d) (links s)" for d
    using grows_upstream [OF assms(1) ok] by (auto intro!: filter_cong)
  then have "single_upstream t"
    using assms(2) eq(1,2) by (simp add: topology_inv_def single_upstream_def count_upstream_links_def)
  with assms(2) eq grows_link(1) [OF assms(1) ok] show ?thesis by (simp add: topology_inv_def)
qed

lemma frame_grows:
  "devices t = devices s \<Longrightarrow> interfaces t = interfaces s \<Longrightarrow> links t = links s \<Longrightarrow> grows s t"
  by (simp add: grows_def wf_db_def get_interface_def)

lemma frame_single_upstream:
  assumes "devices t = devices s" "interfaces t = interfaces s" "links t = links s"
  shows "enforce_single_upstream_rules t a b = enforce_single_upstream_rules s a b"
proof -
  have "get_device t = get_device s" "get_interface t = get_interface s"
    using assms by (simp_all add: get_defs fun_eq_iff)
  then have "link_ends t = link_ends s" "dtype t = dtype s" by (simp_all add: link_ends_def dtype_def fun_eq_iff)
  then have "is_upstream_link t = is_upstream_link s" by (intro ext) (simp only: is_upstream_link_def)
  then have "count_upstream_links t = count_upstream_links s"
    by (intro ext) (simp only: count_upstream_links_def assms(3))
  then show ?thesis by (simp only: enforce_single_upstream_rules_def)
qed

lemma pairing_ok: "pairing_error s a b i j = None \<Longrightarrow> pair_ok a b \<and> enforce_ont_placement_rules s a b i j = None"
  by (auto simp: pairing_error_def pair_ok_def err_def Let_def split: if_splits)

lemma pair_ok_sym: "pair_ok a b \<longleftrightarrow> pair_ok b a"
proof -
  have "classify a b = classify b a" unfolding classify_def by (intro first_rule_symmetric match_symmetric) auto
  then show ?thesis by (auto simp: pair_ok_def)
qed

lemma link_ids_sorted:
  assumes "link_ids a b = (x, y, c, u)" "a \<noteq> b"
  shows "x < y \<and> (x = a \<and> y = b \<or> x = b \<and> y = a)"
  using assms by (auto simp: link_ids_def Let_def split: if_splits)

lemma dev_of_iface_row: "dev_of_iface s i = Some d \<Longrightarrow> get_device s (dev_id d) = Some d"
  by (auto simp: dev_of_iface_def split: option.splits if_splits dest: dev.get_key)

lemma prepare_link_InrD:
  assumes "prepare_link env s p a b = Inr pr" "lc_a_interface_id p \<noteq> lc_b_interface_id p"
    and "dev_of_iface s (lc_a_interface_id p) = Some a" "dev_of_iface s (lc_b_interface_id p) = Some b"
  shows "\<exists>t. grows s t \<and> pr_db pr = add_link t (pr_link pr) \<and>
     ln_a_interface_id (pr_link pr) < ln_b_interface_id (pr_link pr) \<and>
     {ln_a_interface_id (pr_link pr), ln_b_interface_id (pr_link pr)} = {lc_a_interface_id p, lc_b_interface_id p} \<and>
     get_interface t (lc_a_interface_id p) = Some (pr_a_if pr) \<and> if_device_id (pr_a_if pr) = dev_id a \<and>
     get_interface t (lc_b_interface_id p) = Some (pr_b_if pr) \<and> if_device_id (pr_b_if pr) = dev_id b \<and>
     enforce_single_upstream_rules t a b = None \<and> ln_id (pr_link pr) = lc_id p \<and>
     (\<forall>l \<in> set (links s). \<not> (ln_a_interface_id l = ln_a_interface_id (pr_link pr) \<and> ln_b_interface_id l = ln_b_interface_id (pr_link pr)))"
proof -
  obtain a_if s1 where e1: "ensure_default_interface s (lc_a_interface_id p) (ce_mac_a env) = (a_if, s1)" by fastforce
  obtain b_if s2 where e2: "ensure_default_interface s1 (lc_b_interface_id p) (ce_mac_b env) = (b_if, s2)" by fastforce
  obtain x y c u where ids: "link_ids (lc_a_interface_id p) (lc_b_interface_id p) = (x, y, c, u)" by (metis prod_cases4)
  obtain sel s3 where pick: "(if lc_physical_medium_id p = None
      then pick_default_physical_medium_id (ce_md5 env) s2 (lc_id p) a b else (None, s2)) = (sel, s3)" by fastforce
  from assms(1) obtain ia ib where ifs: "a_if = Some ia" "b_if = Some ib" "pr_a_if pr = ia" "pr_b_if pr = ib"
    and up: "enforce_single_upstream_rules s2 a b = None"
    and db: "pr_db pr = add_link s3 (pr_link pr)" "ln_id (pr_link pr) = lc_id p"
      "ln_a_interface_id (pr_link pr) = x" "ln_b_interface_id (pr_link pr) = y"
      "\<forall>l \<in> set (links s3). \<not> (ln_a_interface_id l = x \<and> ln_b_interface_id l = y)"
    unfolding prepare_link_def e1 e2 ids pick Let_def prod.case
    by (auto split: option.splits if_splits)
  have f: "devices s3 = devices s2" "interfaces s3 = interfaces s2" "links s3 = links s2"
    using pick pick_default_frame by (auto split: if_splits)
  note e1' = e1 [unfolded ifs(1)] and e2' = e2 [unfolded ifs(2)]
  note d1 = ensure_default_interface_SomeD [OF e1'] and d2 = ensure_default_interface_SomeD [OF e2']
  have "grows s s1" using d1 by (simp add: grows_def)
  moreover have g2: "grows s1 s2" using d2 by (simp add: grows_def)
  ultimately have g: "grows s s3" using frame_grows [OF f] grows_trans by blast
  have "get_device s1 = get_device s" using d1 by (simp add: get_device_def fun_eq_iff)
  moreover have "get_interface s1 (lc_b_interface_id p) = get_interface s (lc_b_interface_id p)"
    using d1 assms(2) by auto
  ultimately have "dev_of_iface s1 (lc_b_interface_id p) = Some b"
    using assms(4) by (simp only: dev_of_iface_def dev_from_iface_id_def)
  from ensure_default_interface_owner [OF e2' this] ensure_default_interface_owner [OF e1' assms(3)]
  have own: "if_device_id ia = dev_id a" "if_device_id ib = dev_id b" by simp_all
  have "get_interface s3 = get_interface s2" using f by (simp add: get_interface_def fun_eq_iff)
  then have get: "get_interface s3 (lc_a_interface_id p) = Some ia" "get_interface s3 (lc_b_interface_id p) = Some ib"
    using d1 d2 assms(2) by auto
  have "x < y" "{x, y} = {lc_a_interface_id p, lc_b_interface_id p}"
    using link_ids_sorted [OF ids assms(2)] by auto
  with g db ifs own get up frame_single_upstream [OF f, of a b] show ?thesis
    by (intro exI [of _ s3]) (auto simp: grows_def)
qed

lemma validate_link_InrD:
  assumes "validate_link env s p = Inr pr"
  obtains a b where "lc_a_interface_id p \<noteq> lc_b_interface_id p" "get_link s (lc_id p) = None"
    "dev_of_iface s (lc_a_interface_id p) = Some a" "dev_of_iface s (lc_b_interface_id p) = Some b"
    "pairing_error s a b (lc_a_interface_id p) (lc_b_interface_id p) = None" "prepare_link env s p a b = Inr pr"
  using assms by (auto simp: validate_link_def split: if_splits option.splits)

lemma validate_link_inv:
  assumes v: "validate_link env s p = Inr pr" and inv: "topology_inv s"
  shows "topology_inv (pr_db pr)"
proof -
  obtain a b where ab: "lc_a_interface_id p \<noteq> lc_b_interface_id p" "get_link s (lc_id p) = None"
    "dev_of_iface s (lc_a_interface_id p) = Some a" "dev_of_iface s (lc_b_interface_id p) = Some b"
    "pairing_error s a b (lc_a_interface_id p) (lc_b_interface_id p) = None" "prepare_link env s p a b = Inr pr"
    using v by (rule validate_link_InrD)
  define l where "l = pr_link pr"
  from prepare_link_InrD [OF ab(6,1,3,4)] obtain t where t: "grows s t" "pr_db pr = add_link t l"
    "ln_a_interface_id l < ln_b_interface_id l"
    "{ln_a_interface_id l, ln_b_interface_id l} = {lc_a_interface_id p, lc_b_interface_id p}"
    "get_interface t (lc_a_interface_id p) = Some (pr_a_if pr)" "if_device_id (pr_a_if pr) = dev_id a"
    "get_interface t (lc_b_interface_id p) = Some (pr_b_if pr)" "if_device_id (pr_b_if pr) = dev_id b"
    "enforce_single_upstream_rules t a b = None" "ln_id l = lc_id p"
    "\<forall>k \<in> set (links s). \<not> (ln_a_interface_id k = ln_a_interface_id l \<and> ln_b_interface_id k = ln_b_interface_id l)"
    unfolding l_def by blast
  have rows: "get_device t (dev_id a) = Some a" "get_device t (dev_id b) = Some b"
    using dev_of_iface_row ab(3,4) grows_get_device [OF t(1)] by simp_all
  have own: "owner t (lc_a_interface_id p) = Some a" "owner t (lc_b_interface_id p) = Some b"
    unfolding owner_def t(5,7) by (simp_all add: t(6,8) rows)
  have ends: "ln_a_interface_id l = lc_a_interface_id p \<and> ln_b_interface_id l = lc_b_interface_id p \<or>
      ln_a_interface_id l = lc_b_interface_id p \<and> ln_b_interface_id l = lc_a_interface_id p"
    using t(4) by (auto simp: doubleton_eq_iff)
  have ok: "link_ok t l"
    using ends own t(3) pairing_ok [OF ab(5)] pair_ok_sym [of a b] by (auto simp: link_ok_def)
  have "joins t l a b"
    unfolding joins_def link_ends_def using ends by (auto simp: t(5-8))
  moreover have inv_t: "topology_inv t" by (rule grows_inv) fact+
  ultimately have "single_upstream (add_link t l)"
    using single_upstream_add [OF _ rows _ t(9)] by (simp add: topology_inv_def)
  moreover have "ln_id l \<notin> ln_id ` set (links t)"
    using ab(2) t(1,10) by (simp add: lnk.get_None_iff grows_def)
  ultimately show ?thesis
    using inv_t ok t(1,2,11) unfolding topology_inv_def link_ok_def wf_db_def
    by (auto simp: grows_def)
qed

section \<open>Writes of the Go services\<close>

text \<open>The Go services write columns of device rows (status, signal) and nothing else: identifiers and
  types stay, and so do the other tables.\<close>

definition go_frame :: "(go_call \<Rightarrow> db \<Rightarrow> db) \<Rightarrow> bool" where
  "go_frame g \<longleftrightarrow> (\<forall>c d. \<exists>u. (\<forall>x. dev_id (u x) = dev_id x \<and> dev_type (u x) = dev_type x) \<and>
     g c d = d\<lparr>devices := map u (devices d)\<rparr>)"

lemma device_columns_inv:
  assumes u: "\<And>x. dev_id (u x) = dev_id x" "\<And>x. dev_type (u x) = dev_type x" and inv: "topology_inv s"
  shows "topology_inv (s\<lparr>devices := map u (devices s)\<rparr>)"
proof -
  let ?t = "s\<lparr>devices := map u (devices s)\<rparr>"
  have get: "get_device ?t k = map_option u (get_device s k)" for k
    unfolding get_device_def by (simp add: find_map comp_def u)
  have ifs: "get_interface ?t = get_interface s" by (simp add: get_interface_def fun_eq_iff)
  have own: "owner ?t k = map_option u (owner s k)" for k
    unfolding owner_def ifs get by (simp split: option.splits)
  have dt: "dtype ?t = dtype s" unfolding dtype_def get by (simp add: fun_eq_iff option.map_comp comp_def u)
  have le: "link_ends ?t = link_ends s" unfolding link_ends_def ifs ..
  have up: "is_upstream_link ?t (u d) = is_upstream_link s d" for d
    by (intro ext) (simp only: is_upstream_link_def le dt u)
  have ol: "odf_link ?t (u d) = odf_link s d" for d by (intro ext) (simp only: odf_link_def up le dt u)
  have "classify (u a) (u b) = classify a b" for a b
    unfolding classify_def by (intro first_rule_cong matcher_types u) auto
  then have "link_ok ?t l" if "link_ok s l" for l
    using that unfolding link_ok_def own pair_ok_def by (auto simp: u)
  moreover have "single_upstream ?t"
    using inv by (simp add: topology_inv_def single_upstream_def count_upstream_links_def up ol u)
  moreover have "dev_id \<circ> u = dev_id" by (simp add: fun_eq_iff u)
  ultimately show ?thesis using inv by (simp add: topology_inv_def wf_db_def)
qed

lemma go_frame_inv: "go_frame g \<Longrightarrow> topology_inv s \<Longrightarrow> topology_inv (g c s)"
  unfolding go_frame_def using device_columns_inv by metis

lemma go_call_inv:
  "go_frame (ce_go env) \<Longrightarrow> go_call env cl c w = Some w' \<Longrightarrow> topology_inv (w_db w) \<longrightarrow> topology_inv (w_db w')"
  by (auto simp: go_call_def go_frame_inv split: go_client.splits)

lemma emit_frame [simp]:
  "w_db (emit env w ty p tv) = w_db w" "w_coal (emit env w ty p tv) = w_coal w"
  "w_version (emit env w ty p tv) = w_version w" "w_calls (emit env w ty p tv) = w_calls w"
  by (simp_all add: emit_def)

lemma fold_optical_frame [simp]:
  "w_db (foldl (optical_updated env tv) w ds) = w_db w" "w_coal (foldl (optical_updated env tv) w ds) = w_coal w"
  "w_version (foldl (optical_updated env tv) w ds) = w_version w"
  by (induction ds arbitrary: w) (simp_all add: optical_updated_def)

lemma bump_frame [simp]: "w_db (snd (bump_version w)) = w_db w" "w_bus (snd (bump_version w)) = w_bus w"
  by (simp_all add: bump_version_def)

lemma notify_go_inv:
  assumes "go_frame (ce_go env)" "topology_inv (w_db w)"
  shows "topology_inv (w_db (notify_go env w k ds))"
  using assms(2)
  by (auto simp: notify_go_def bump_version_def Let_def split: option.splits if_splits
      dest!: go_call_inv [OF assms(1)])

lemma create_link_inv:
  assumes "go_frame (ce_go env)" "topology_inv (w_db w)" "create_link_impl env w p = Some (w', r)"
  shows "topology_inv (w_db w')"
proof (cases "validate_link env (w_db w) p")
  case (Inl e)
  with assms show ?thesis by (simp add: create_link_impl_def)
next
  case (Inr pr)
  have "topology_inv (pr_db pr)" using validate_link_inv [OF Inr assms(2)] .
  with assms Inr show ?thesis
    by (auto simp: create_link_impl_def bump_version_def Let_def intro!: notify_go_inv split: sum.splits option.splits)
qed

lemma delete_row_inv:
  assumes "topology_inv s"
  shows "topology_inv (delete_row s k)"
proof -
  let ?t = "delete_row s k"
  have get: "get_device ?t = get_device s" "get_interface ?t = get_interface s"
    by (simp_all add: delete_row_def get_defs fun_eq_iff)
  have own: "owner ?t = owner s" and dt: "dtype ?t = dtype s" and le: "link_ends ?t = link_ends s"
    by (intro ext, simp only: owner_def dtype_def link_ends_def get)+
  have up: "is_upstream_link ?t = is_upstream_link s" by (intro ext) (simp only: is_upstream_link_def dt le)
  have ol: "odf_link ?t = odf_link s" by (intro ext) (simp only: odf_link_def up dt le)
  have sub: "length (filter P (filter Q xs)) \<le> length (filter P xs)" for P Q and xs :: "link list"
    by (induction xs) auto
  have eq: "devices ?t = devices s" "interfaces ?t = interfaces s" "links ?t = filter (\<lambda>l. ln_id l \<noteq> k) (links s)"
    by (simp_all add: delete_row_def)
  have "link_ok ?t = link_ok s" by (intro ext) (simp only: link_ok_def own)
  moreover have "single_upstream ?t"
    unfolding single_upstream_def count_upstream_links_def eq up ol
  proof (intro ballI conjI impI)
    fix d assume d: "d \<in> set (devices s)"
    show "length (filter (is_upstream_link s d) (filter (\<lambda>l. ln_id l \<noteq> k) (links s))) \<le> 1" if "dev_type d = ODF"
      using assms d that by (intro order_trans [OF sub]) (simp add: topology_inv_def single_upstream_def count_upstream_links_def)
    show "length (filter (odf_link s d) (filter (\<lambda>l. ln_id l \<noteq> k) (links s))) \<le> 1" if "dev_type d \<in> ONT_CLASS"
      using assms d that by (intro order_trans [OF sub]) (simp add: topology_inv_def single_upstream_def)
  qed
  ultimately show ?thesis
    using assms unfolding topology_inv_def wf_db_def eq by (simp add: distinct_map_filter)
qed

lemma delete_link_inv:
  assumes "go_frame (ce_go env)" "topology_inv (w_db w)" "delete_link_impl env w k = Some (w', r)"
  shows "topology_inv (w_db w')"
  using assms(3) delete_row_inv [OF assms(2), of k] assms(2)
  by (auto simp: delete_link_impl_def bump_version_def Let_def split: sum.splits option.splits if_splits
      dest!: go_call_inv [OF assms(1)])

section \<open>Default medium and length\<close>

definition ranges_ok :: "medium list \<Rightarrow> bool" where
  "ranges_ok ms \<longleftrightarrow> (\<forall>m \<in> set ms. pm_kind m \<noteq> ''optical'' \<longrightarrow>
     (case pm_max_range_km m of None \<Rightarrow> True | Some r \<Rightarrow> 1 / 400 \<le> r))"

definition media_ok :: "db \<Rightarrow> bool" where
  "media_ok s \<longleftrightarrow> distinct (map pm_id (media s)) \<and> ranges_ok (media s)"

lemma next_medium_fresh: "next_medium_id s \<notin> pm_id ` set (media s)"
proof
  assume "next_medium_id s \<in> pm_id ` set (media s)"
  then have ne: "media s \<noteq> []" and "next_medium_id s \<le> Max (pm_id ` set (media s))" by auto
  then show False by (simp add: next_medium_id_def)
qed

lemma add_medium_ok:
  "media_ok s \<Longrightarrow> ranges_ok [\<lparr>pm_id = 0, pm_code = c, pm_name = n, pm_kind = k, pm_max_range_km = r\<rparr>] \<Longrightarrow>
   media_ok (add_medium s (c, n, k, r))"
  using next_medium_fresh [of s] by (auto simp: media_ok_def add_medium_def ranges_ok_def)

lemma ensure_physical_media_ok: "media_ok s \<Longrightarrow> media_ok (ensure_physical_media s)"
proof -
  have "media_ok t \<Longrightarrow> set ms \<subseteq> set desired_media \<Longrightarrow>
    media_ok (foldl (\<lambda>t m. if fst m \<in> C then t else add_medium t m) t ms)" for t ms C
  proof (induction ms arbitrary: t)
    case (Cons m ms)
    have "media_ok (add_medium t m)"
      using Cons.prems by (auto simp: desired_media_def ranges_ok_def intro!: add_medium_ok)
    with Cons show ?case by auto
  qed simp
  then show "media_ok s \<Longrightarrow> media_ok (ensure_physical_media s)" by (simp add: ensure_physical_media_def)
qed

lemma ensure_physical_media_codes: "fst ` set desired_media \<subseteq> pm_code ` set (media (ensure_physical_media s))"
proof -
  have code: "pm_code ` set (media (add_medium t m)) = insert (fst m) (pm_code ` set (media t))" for t m
    by (cases m) (simp add: add_medium_def)
  have "pm_code ` set (media (foldl (\<lambda>t m. if fst m \<in> C then t else add_medium t m) t ms)) =
      pm_code ` set (media t) \<union> (fst ` set ms - C)" for t ms C
    by (induction ms arbitrary: t) (auto simp: code)
  then show ?thesis by (auto simp: ensure_physical_media_def)
qed

lemma allowed_codes_desired:
  "allowed_media_codes_for_class c \<subseteq> fst ` set desired_media" "finite (allowed_media_codes_for_class c)"
  by (auto simp: allowed_media_codes_for_class_def desired_media_def)

lemma medium_by_code_get:
  assumes "media_ok s" "c \<in> pm_code ` set (media s)"
  shows "\<exists>m. medium_by_code s c = Some (pm_id m) \<and> get_medium s (pm_id m) = Some m \<and> pm_code m = c \<and> m \<in> set (media s)"
proof -
  from assms(2) obtain m where m: "find (\<lambda>m. pm_code m = c) (media s) = Some m"
    by (metis (mono_tags, lifting) find_None_iff' imageE not_None_eq)
  with find_SomeD [OF m] assms(1) show ?thesis
    by (auto simp: medium_by_code_def media_ok_def intro!: med.get_exact)
qed

lemma pick_default_allowed:
  assumes "allowed (classify_link a b)" "media_ok s" "pick_default_physical_medium_id md5 s k a b = (sel, t)"
  shows "media_ok t \<and> (\<exists>m. sel = Some (pm_id m) \<and> get_medium t (pm_id m) = Some m \<and> m \<in> set (media t) \<and>
     pm_code m \<in> allowed_media_codes_for_class (link_class (classify_link a b)))"
proof -
  let ?A = "allowed_media_codes_for_class (link_class (classify_link a b))"
  let ?codes = "sorted_list_of_set ?A" and ?s1 = "ensure_physical_media s"
  let ?c = "?codes ! (md5 k mod length ?codes)"
  have ne: "?codes \<noteq> []" using assms(1) link_has_media [of a b] allowed_codes_desired(2) by simp
  then have "?c \<in> set ?codes" by (intro nth_mem mod_less_divisor) (simp del: sorted_list_of_set_eq_Nil_iff length_sorted_list_of_set)
  then have c: "?c \<in> ?A" using allowed_codes_desired(2) by simp
  then have "?c \<in> pm_code ` set (media ?s1)"
    using allowed_codes_desired(1) ensure_physical_media_codes by blast
  from medium_by_code_get [OF ensure_physical_media_ok [OF assms(2)] this] obtain m where
    m: "medium_by_code ?s1 ?c = Some (pm_id m)" "get_medium ?s1 (pm_id m) = Some m" "pm_code m = ?c" "m \<in> set (media ?s1)"
    by blast
  with ne assms(3) have "sel = Some (pm_id m)" "t = ?s1"
    by (auto simp: pick_default_physical_medium_id_def Let_def)
  with m c ensure_physical_media_ok [OF assms(2)] show ?thesis by auto
qed

lemma round_dec_3_le: "round_dec 3 x \<le> x + 1 / 2000"
proof -
  define f where "f = \<lfloor>x * 1000\<rfloor>"
  have f: "of_int f \<le> x * 1000" "x * 1000 < of_int f + 1"
    unfolding f_def using floor_correct [of "x * 1000"] by simp_all
  define r where "r = (let d = x * 1000 - of_int f in
    if d < 1 / 2 then f else if d > 1 / 2 then f + 1 else if even f then f else f + 1)"
  have "of_int r \<le> x * 1000 + 1 / 2" using f by (auto simp: r_def Let_def)
  moreover have "round_dec 3 x = of_int r / 1000"
    by (simp add: round_dec_def r_def f_def Let_def)
  ultimately show ?thesis by simp
qed

lemma derived_length_in_range:
  assumes "get_medium s k = Some m" "m \<in> set (media s)" "media_ok s" "pm_kind m \<noteq> ''optical''" "pm_max_range_km m = Some r"
  shows "\<exists>len. derive_default_length_km md5 s lid (Some k) = Some len \<and> len \<le> r"
proof -
  have "1 / 400 \<le> r" using assms(2-5) by (auto simp: media_ok_def ranges_ok_def)
  then have "round_dec 3 (r * (8 / 10)) \<le> r" using round_dec_3_le [of "r * (8 / 10)"] by simp
  with assms show ?thesis by (simp add: derive_default_length_km_def)
qed

lemma prepared_default:
  assumes "prepare_link env s p a b = Inr pr" "lc_physical_medium_id p = None" "lc_length_km p = None" "media_ok s"
    and "allowed (classify_link a b)"
  shows "\<exists>m t. pr_db pr = add_link t (pr_link pr) \<and> ln_physical_medium_id (pr_link pr) = Some (pm_id m) \<and>
     get_medium t (pm_id m) = Some m \<and> pm_code m \<in> allowed_media_codes_for_class (link_class (classify_link a b)) \<and>
     (pm_kind m \<noteq> ''optical'' \<longrightarrow> pm_max_range_km m = None \<or> ln_length_km (pr_link pr) = None \<or>
        the (ln_length_km (pr_link pr)) \<le> the (pm_max_range_km m))"
proof -
  obtain a_if s1 where e1: "ensure_default_interface s (lc_a_interface_id p) (ce_mac_a env) = (a_if, s1)" by fastforce
  obtain b_if s2 where e2: "ensure_default_interface s1 (lc_b_interface_id p) (ce_mac_b env) = (b_if, s2)" by fastforce
  obtain x y c u where ids: "link_ids (lc_a_interface_id p) (lc_b_interface_id p) = (x, y, c, u)" by (metis prod_cases4)
  obtain sel s3 where pick: "pick_default_physical_medium_id (ce_md5 env) s2 (lc_id p) a b = (sel, s3)" by fastforce
  have "pr_db pr = add_link s3 (pr_link pr) \<and> ln_physical_medium_id (pr_link pr) = sel \<and>
      ln_length_km (pr_link pr) = (if nonzero sel \<noteq> None then derive_default_length_km (ce_md5 env) s3 (lc_id p) sel else None) \<and>
      a_if \<noteq> None \<and> b_if \<noteq> None"
    using assms(1) unfolding prepare_link_def e1 e2 ids assms(2,3) pick Let_def prod.case
    by (auto simp: nonzero_def pick split: option.splits if_splits)
  then obtain ia ib where pr: "pr_db pr = add_link s3 (pr_link pr)" "ln_physical_medium_id (pr_link pr) = sel"
    "ln_length_km (pr_link pr) = (if nonzero sel \<noteq> None then derive_default_length_km (ce_md5 env) s3 (lc_id p) sel else None)"
    "a_if = Some ia" "b_if = Some ib" by auto
  have "media s2 = media s"
    using ensure_default_interface_SomeD [OF e1 [unfolded pr(4)]] ensure_default_interface_SomeD [OF e2 [unfolded pr(5)]] by simp
  then have "media_ok s2" using assms(4) by (simp add: media_ok_def)
  from pick_default_allowed [OF assms(5) this pick] obtain m where m: "media_ok s3" "sel = Some (pm_id m)"
    "get_medium s3 (pm_id m) = Some m" "m \<in> set (media s3)"
    "pm_code m \<in> allowed_media_codes_for_class (link_class (classify_link a b))" by blast
  have "pm_max_range_km m = None \<or> ln_length_km (pr_link pr) = None \<or>
      the (ln_length_km (pr_link pr)) \<le> the (pm_max_range_km m)" if "pm_kind m \<noteq> ''optical''"
  proof (cases "pm_max_range_km m")
    case (Some r)
    from derived_length_in_range [OF m(3,4,1) that Some, of "ce_md5 env" "lc_id p"] pr(3) m(2) Some
    show ?thesis by auto
  qed simp
  with pr(1,2) m show ?thesis by blast
qed

section \<open>What an accepted request does\<close>

lemma append_ports_Inr:
  "\<exists>rs. append_ports env st is = Inr (st @ rs) \<and> map er_event_type rs = replicate (length is) ''PORT_CONNECTED''"
proof (induction "is" arbitrary: st)
  case (Cons i "is")
  obtain r where "append_domain_event st ''PORT_CONNECTED'' (if_id i)
      [(''device_id'', JStr (if_device_id i)), (''name'', JStr (if_name i))] None (ce_now env) = Inr (st @ [r])"
      "er_event_type r = ''PORT_CONNECTED''"
    by (simp add: append_domain_event_def DOMAIN_EVENT_TYPES_def)
  with Cons.IH [of "st @ [r]"] show ?case by auto
qed simp

lemma append_link_events_Inr:
  "\<exists>rs. append_link_events env st pr = Inr (st @ rs) \<and>
     map er_event_type rs = replicate (length (ce_pending env (pr_new pr))) ''PORT_CONNECTED'' @ [''LINK_CREATED'']"
proof -
  obtain rs where rs: "append_ports env st (ce_pending env (pr_new pr)) = Inr (st @ rs)"
    "map er_event_type rs = replicate (length (ce_pending env (pr_new pr))) ''PORT_CONNECTED''"
    using append_ports_Inr by blast
  have "''LINK_CREATED'' \<in> DOMAIN_EVENT_TYPES" by (simp add: DOMAIN_EVENT_TYPES_def)
  with rs show ?thesis by (simp add: append_link_events_def append_domain_event_def)
qed

lemma link_ids_nonempty: "link_ids a b = (x, y, c, u) \<Longrightarrow> c \<noteq> [] \<and> u \<noteq> []"
  by (auto simp: link_ids_def Let_def split: if_splits)

lemma prepare_link_id: "prepare_link env s p a b = Inr pr \<Longrightarrow> lc_id p \<noteq> [] \<and> ln_id (pr_link pr) = lc_id p"
proof -
  assume *: "prepare_link env s p a b = Inr pr"
  obtain x y c u where ids: "link_ids (lc_a_interface_id p) (lc_b_interface_id p) = (x, y, c, u)" by (metis prod_cases4)
  with * link_ids_nonempty [OF ids] show ?thesis
    by (auto simp: prepare_link_def Let_def split: option.splits if_splits prod.splits)
qed

lemma go_links: "go_frame g \<Longrightarrow> links (g c s) = links s"
  unfolding go_frame_def by (metis (no_types, lifting) db.select_convs(3) db.surjective db.update_convs(1))

lemma go_call_links:
  "go_call env cl c w = Some w' \<Longrightarrow> (go_frame (ce_go env) \<longrightarrow> links (w_db w') = links (w_db w)) \<and>
     w_version w' = w_version w \<and> w_coal w' = w_coal w \<and> w_bus w' = w_bus w"
  by (auto simp: go_call_def go_links split: go_client.splits)

lemma notify_go_effects:
  "(go_frame (ce_go env) \<longrightarrow> links (w_db (notify_go env w k ds)) = links (w_db w)) \<and>
   w_version (notify_go env w k ds) = w_version w + 1 \<and> w_coal (notify_go env w k ds) = w_coal w"
  by (auto simp: notify_go_def bump_version_def Let_def split: option.splits if_splits dest!: go_call_links)

lemma schedule_ok:
  assumes "\<not> co_lock c" "k \<noteq> []"
  shows "\<exists>c'. schedule True sc (Some k) c = Some c' \<and> k \<in> co_keys c' \<and> co_timer c' \<and> \<not> co_lock c'"
  using assms by (auto simp: coal_defs Let_def)

lemma create_link_accepted:
  assumes v: "validate_link env (w_db w) p = Inr pr" and c: "\<not> co_lock (w_coal w)" "ce_timer_ok env"
  shows "\<exists>w' out. create_link_impl env w p = Some (w', Inr out) \<and>
     (go_frame (ce_go env) \<longrightarrow> links (w_db w') = links (w_db w) @ [pr_link pr]) \<and> lo_link out = pr_link pr \<and>
     w_version w' = w_version w + 2 \<and> lc_id p \<in> co_keys (w_coal w') \<and> co_timer (w_coal w')"
proof -
  from v obtain a b where ab: "lc_a_interface_id p \<noteq> lc_b_interface_id p"
    "dev_of_iface (w_db w) (lc_a_interface_id p) = Some a" "dev_of_iface (w_db w) (lc_b_interface_id p) = Some b"
    "prepare_link env (w_db w) p a b = Inr pr" by (rule validate_link_InrD)
  note id = prepare_link_id [OF ab(4)]
  obtain rs where ev: "append_link_events env (bus_store (w_bus w)) pr = Inr (bus_store (w_bus w) @ rs)"
    using append_link_events_Inr by blast
  obtain c' where c': "schedule (ce_timer_ok env) ''links'' (Some (lc_id p)) (w_coal w) = Some c'"
    "lc_id p \<in> co_keys c'" "co_timer c'" using schedule_ok [OF c(1)] id c(2) by auto
  have "links (pr_db pr) = links (w_db w) @ [pr_link pr]"
    using prepare_link_InrD [OF ab(4,1,2,3)] by (auto simp: grows_def)
  with v ev c' id show ?thesis
    by (simp add: create_link_impl_def bump_version_def Let_def notify_go_effects)
qed

section \<open>Properties\<close>

text \<open>Requests, in any order, from a database without links.\<close>

inductive link_run :: "cenv list \<Rightarrow> world \<Rightarrow> world \<Rightarrow> bool" where
  start: "link_run [] w w"
| create: "link_run envs w w1 \<Longrightarrow> create_link_impl env w1 p = Some (w2, r) \<Longrightarrow> link_run (envs @ [env]) w w2"
| delete: "link_run envs w w1 \<Longrightarrow> delete_link_impl env w1 k = Some (w2, e) \<Longrightarrow> link_run (envs @ [env]) w w2"

text \<open>Requests keep the topology well-formed. Starting from a well-formed topology, after any sequence
  of create and delete requests, accepted or rejected, with any behaviour of the Go services that
  only writes device columns, keys are unique, every link joins two different interfaces in
  ascending order whose devices exist and may be linked (no POP, no ODF to ODF, no OLT directly to an
  ONT, of the passive devices only an ODF on an OLT), no two links have the same endpoints, every ODF
  has at most one OLT and every ONT at most one ODF.\<close>

theorem topology_always_wellformed:
  assumes "link_run envs w w'" "topology_inv (w_db w)" "\<forall>env \<in> set envs. go_frame (ce_go env)"
  shows "topology_inv (w_db w')"
  using assms by (induction rule: link_run.induct) (auto intro: create_link_inv delete_link_inv)

text \<open>An OLT with its ODF and router, no links yet.\<close>

definition demo_env0 :: cenv where
  "demo_env0 = \<lparr>ce_now = ''t'', ce_md5 = length, ce_mac_a = ''m1'', ce_mac_b = ''m2'', ce_pending = (\<lambda>rs. rs),
     ce_timer_ok = True, ce_optical = GoAnswers, ce_status = GoAnswers, ce_go = (\<lambda>c d. d)\<rparr>"

definition demo_world :: world where
  "demo_world = \<lparr>w_db = empty_db\<lparr>devices := [Device ''olt'' OLT, Device ''odf'' ODF, Device ''er'' EDGE_ROUTER]\<rparr>,
     w_bus = demo_bus, w_version = 0, w_coal = initial_coal, w_calls = []\<rparr>"

definition demo_create :: "string \<Rightarrow> string \<Rightarrow> link_create" where
  "demo_create a b = \<lparr>lc_id = a @ ''__'' @ b, lc_a_interface_id = a @ ''-if0'', lc_b_interface_id = b @ ''-if0'',
     lc_status = UP, lc_admin_override_status = None, lc_protection_mode = None, lc_length_km = Some 1,
     lc_physical_medium_id = None\<rparr>"

lemma demo_go_frame: "go_frame (ce_go demo_env0)"
  unfolding go_frame_def by (auto simp: demo_env0_def intro!: exI [of _ "\<lambda>x. x"])

lemma demo_world_inv: "topology_inv (w_db demo_world)"
  by (simp add: topology_inv_def wf_db_def single_upstream_def count_upstream_links_def demo_world_def row_defs)

lemma demo_validates: "\<exists>pr. validate_link demo_env0 (w_db demo_world) (demo_create ''odf'' ''olt'') = Inr pr"
proof -
  have "case validate_link demo_env0 (w_db demo_world) (demo_create ''odf'' ''olt'') of Inl e \<Rightarrow> False | Inr pr \<Rightarrow> True"
    by code_simp
  then show ?thesis by (auto split: sum.splits)
qed

lemma demo_creates:
  "\<exists>w' out. create_link_impl demo_env0 demo_world (demo_create ''odf'' ''olt'') = Some (w', Inr out) \<and>
     length (links (w_db w')) = 1"
proof -
  obtain pr where pr: "validate_link demo_env0 (w_db demo_world) (demo_create ''odf'' ''olt'') = Inr pr"
    using demo_validates by blast
  have "\<not> co_lock (w_coal demo_world)" "ce_timer_ok demo_env0"
    by (simp_all add: demo_world_def demo_env0_def initial_coal_def)
  from create_link_accepted [OF pr this] obtain w' out where
    "create_link_impl demo_env0 demo_world (demo_create ''odf'' ''olt'') = Some (w', Inr out)"
    "go_frame (ce_go demo_env0) \<longrightarrow> links (w_db w') = links (w_db demo_world) @ [pr_link pr]" by blast
  with demo_go_frame show ?thesis by (auto simp: demo_world_def row_defs)
qed

theorem topology_always_wellformed_witness:
  "\<exists>w'. link_run [demo_env0] demo_world w' \<and> length (links (w_db w')) = 1 \<and> topology_inv (w_db w')"
proof -
  from demo_creates obtain w' out where
    w': "create_link_impl demo_env0 demo_world (demo_create ''odf'' ''olt'') = Some (w', Inr out)"
      "length (links (w_db w')) = 1" by blast
  from link_run.create [OF link_run.start w'(1)] have run: "link_run [demo_env0] demo_world w'" by simp
  with topology_always_wellformed [OF run demo_world_inv] demo_go_frame w'(2) show ?thesis by auto
qed

text \<open>A link created without a medium and a length is physically viable. The default medium chosen
  from the link id is one the link's class admits, and the default length of a copper medium stays
  within its range, so the validator accepts the stored row. Media identifiers are taken to be
  unique and copper ranges to be at least 2.5 m.\<close>

theorem default_link_is_viable:
  assumes "validate_link env s p = Inr pr" "lc_physical_medium_id p = None" "lc_length_km p = None" "media_ok s"
  shows "is_link_physically_viable env_range (pr_db pr) (pr_link pr)"
proof -
  obtain a b where ab: "lc_a_interface_id p \<noteq> lc_b_interface_id p" "get_link s (lc_id p) = None"
    "dev_of_iface s (lc_a_interface_id p) = Some a" "dev_of_iface s (lc_b_interface_id p) = Some b"
    "pairing_error s a b (lc_a_interface_id p) (lc_b_interface_id p) = None" "prepare_link env s p a b = Inr pr"
    using assms(1) by (rule validate_link_InrD)
  have al: "allowed (classify_link a b)" using pairing_ok [OF ab(5)] classify_agrees(1) by (simp add: pair_ok_def)
  from prepared_default [OF ab(6) assms(2,3,4) al] obtain m t where
    m: "pr_db pr = add_link t (pr_link pr)" "ln_physical_medium_id (pr_link pr) = Some (pm_id m)"
      "get_medium t (pm_id m) = Some m" "pm_code m \<in> allowed_media_codes_for_class (link_class (classify_link a b))"
      "pm_kind m \<noteq> ''optical'' \<longrightarrow> pm_max_range_km m = None \<or> ln_length_km (pr_link pr) = None \<or>
         the (ln_length_km (pr_link pr)) \<le> the (pm_max_range_km m)" by blast
  from prepare_link_InrD [OF ab(6,1,3,4)] obtain t' where t': "grows s t'" "pr_db pr = add_link t' (pr_link pr)"
    "{ln_a_interface_id (pr_link pr), ln_b_interface_id (pr_link pr)} = {lc_a_interface_id p, lc_b_interface_id p}"
    "get_interface t' (lc_a_interface_id p) = Some (pr_a_if pr)" "if_device_id (pr_a_if pr) = dev_id a"
    "get_interface t' (lc_b_interface_id p) = Some (pr_b_if pr)" "if_device_id (pr_b_if pr) = dev_id b" by blast
  have dev: "get_device t' (dev_id a) = Some a" "get_device t' (dev_id b) = Some b"
    using dev_of_iface_row ab(3,4) grows_get_device [OF t'(1)] by simp_all
  define l where "l = pr_link pr"
  have med: "get_medium (pr_db pr) (pm_id m) = Some m" using m(1,3) by (simp add: get_medium_def)
  have sym: "classify_link b a = classify_link a b"
    unfolding classify_link_def by (intro first_rule_symmetric match_symmetric) auto
  have "\<exists>ia ib da d_b. get_interface (pr_db pr) (ln_a_interface_id l) = Some ia \<and>
      get_interface (pr_db pr) (ln_b_interface_id l) = Some ib \<and>
      get_device (pr_db pr) (if_device_id ia) = Some da \<and> get_device (pr_db pr) (if_device_id ib) = Some d_b \<and>
      classify_link da d_b = classify_link a b"
    using t'(3) dev sym unfolding t'(2) l_def [symmetric] add_link_lookups
    by (auto simp: doubleton_eq_iff t'(4-7))
  with m(2,4,5) med show ?thesis
    unfolding l_def is_link_physically_viable_def by (auto split: option.splits)
qed

definition demo_default :: link_create where
  "demo_default = (demo_create ''odf'' ''olt'')\<lparr>lc_length_km := None\<rparr>"

theorem default_link_is_viable_witness:
  "\<exists>pr. validate_link demo_env0 (w_db demo_world) demo_default = Inr pr \<and>
     is_link_physically_viable None (pr_db pr) (pr_link pr)"
proof -
  have "case validate_link demo_env0 (w_db demo_world) demo_default of Inl e \<Rightarrow> False | Inr pr \<Rightarrow> True"
    by code_simp
  then obtain pr where pr: "validate_link demo_env0 (w_db demo_world) demo_default = Inr pr"
    by (auto split: sum.splits)
  have p: "lc_physical_medium_id demo_default = None" "lc_length_km demo_default = None"
    by (simp_all add: demo_default_def demo_create_def)
  have "media_ok (w_db demo_world)" by (simp add: media_ok_def ranges_ok_def demo_world_def row_defs)
  from default_link_is_viable [OF pr p this] pr show ?thesis by blast
qed

text \<open>C20: An accepted create request does all of its work. With a working timer it returns; the link table
  gains exactly the prepared row (the Go services write device columns only), the answer carries that
  row, the topology version advances by two, and the recomputation of the link is scheduled with an
  armed timer. The protection mode of the request is not stored.\<close>

theorem create_link_effects:
  assumes "validate_link env (w_db w) p = Inr pr" "\<not> co_lock (w_coal w)" "ce_timer_ok env" "go_frame (ce_go env)"
  shows "\<exists>w' out. create_link_impl env w p = Some (w', Inr out) \<and>
     links (w_db w') = links (w_db w) @ [pr_link pr] \<and> lo_link out = pr_link pr \<and>
     w_version w' = w_version w + 2 \<and> lc_id p \<in> co_keys (w_coal w') \<and> co_timer (w_coal w') \<and>
     ln_id (pr_link pr) = lc_id p \<and> ln_protection_mode (pr_link pr) = None"
proof -
  from assms(1) obtain a b where ab: "prepare_link env (w_db w) p a b = Inr pr" by (rule validate_link_InrD)
  then have "ln_protection_mode (pr_link pr) = None"
    by (auto simp: prepare_link_def Let_def split: option.splits if_splits prod.splits)
  with create_link_accepted [OF assms(1-3)] assms(4) prepare_link_id [OF ab] show ?thesis by blast
qed

theorem create_link_effects_witness:
  "\<exists>w' out. create_link_impl demo_env0 demo_world (demo_create ''odf'' ''olt'') = Some (w', Inr out) \<and>
     w_version w' = 2 \<and> ''odf__olt'' \<in> co_keys (w_coal w')"
proof -
  obtain pr where pr: "validate_link demo_env0 (w_db demo_world) (demo_create ''odf'' ''olt'') = Inr pr"
    using demo_validates by blast
  have "\<not> co_lock (w_coal demo_world)" "ce_timer_ok demo_env0"
    by (simp_all add: demo_world_def demo_env0_def initial_coal_def)
  from create_link_effects [OF pr this demo_go_frame] show ?thesis
    by (auto simp: demo_create_def demo_world_def)
qed

text \<open>The medium of an uplink is not checked. For a link between an OLT and a router, the class that the
  create path computes has no media list, so the check accepts every existing medium; if it is none of
  the three single-mode codes, the stored link is not physically viable.\<close>

theorem uplink_medium_unchecked:
  assumes "match_olt_router a b" "get_medium s k = Some pm" "pm_code pm \<notin> {''SMF_G652D'', ''SMF_G657A1'', ''SMF_G657A2''}"
    and "owner s (ln_a_interface_id l) = Some a" "owner s (ln_b_interface_id l) = Some b" "ln_physical_medium_id l = Some k"
  shows "medium_error s (classify a b) (Some k) = None \<and> \<not> is_link_physically_viable env_range s l"
proof -
  have c: "link_class (classify_link a b) = ''access_uplink_olt''"
    using assms(1)
    by (auto simp: classify_link_def RULES_def RuleDef_def match_defs class_defs)
  then have "link_class (classify a b) = ''access_uplink''" by (simp add: classify_agrees(2))
  then have "medium_error s (classify a b) (Some k) = None"
    using assms(2) by (simp add: medium_error_def allowed_media_codes_for_class_def Let_def)
  moreover have "\<not> is_link_physically_viable env_range s l"
    using assms(2-6) c unfolding is_link_physically_viable_def owner_def
    by (auto simp: allowed_media_codes_for_class_def split: option.splits)
  ultimately show ?thesis ..
qed

definition demo_copper :: db where
  "demo_copper = (w_db demo_world)\<lparr>
     media := [\<lparr>pm_id = 6, pm_code = ''CAT6A_UTP'', pm_name = ''c'', pm_kind = ''copper'', pm_max_range_km = Some 1\<rparr>],
     interfaces := [Interface ''olt-if0'' ''olt'' ''if0'', Interface ''er-if0'' ''er'' ''if0'']\<rparr>"

theorem uplink_medium_unchecked_witness:
  "medium_error demo_copper (classify (Device ''olt'' OLT) (Device ''er'' EDGE_ROUTER)) (Some 6) = None \<and>
   \<not> is_link_physically_viable None demo_copper ((Link ''k'' ''olt-if0'' ''er-if0'')\<lparr>ln_physical_medium_id := Some 6\<rparr>)"
proof (rule uplink_medium_unchecked)
  show "match_olt_router (Device ''olt'' OLT) (Device ''er'' EDGE_ROUTER)"
    by (simp add: match_olt_router_def ROUTER_CLASS_def row_defs)
  show "get_medium demo_copper 6 = Some (media demo_copper ! 0)" by (simp add: get_medium_def demo_copper_def)
  show "pm_code (media demo_copper ! 0) \<notin> {''SMF_G652D'', ''SMF_G657A1'', ''SMF_G657A2''}" by (simp add: demo_copper_def)
qed (simp_all add: owner_def get_interface_def get_device_def demo_copper_def demo_world_def row_defs)

end
