(* ===== verification/Mac_Allocator.thy ===== *)
theory Mac_Allocator
  imports Prelude
begin

text \<open>
  The MAC address allocator (\<^verbatim>\<open>services/mac_allocator.py\<close>). The module state is the record
  \<open>mac_state\<close>; \<open>ms_row\<close> is the row of the table \<^verbatim>\<open>mac_allocator_state\<close>, which outlives the process.
  Whether a session can be opened and whether reading and writing the row succeed is decided by the
  environment, the record \<open>mac_env\<close>. The search for an unused address never ends when all addresses
  are taken, so it is a \<^theory_text>\<open>partial_function (option)\<close> and \<open>None\<close> means that it does not return.
\<close>

record mac_state =
  ms_last :: int
  ms_used :: "string set"
  ms_row :: "int option"

record mac_env =
  me_session :: bool
  me_load_ok :: bool
  me_store_ok :: bool

definition hex_digit :: "int \<Rightarrow> char" where
  "hex_digit d = ''0123456789abcdef'' ! nat d"

definition hex_byte :: "int \<Rightarrow> string" where
  "hex_byte b = [hex_digit (b div 16), hex_digit (b mod 16)]"

fun join :: "string \<Rightarrow> string list \<Rightarrow> string" where
  "join sep [] = []"
| "join sep [x] = x"
| "join sep (x # y # xs) = x @ sep @ join sep (y # xs)"

definition format_mac :: "int \<Rightarrow> string" where
  "format_mac n =
     (let n = take_bit 24 n
      in join '':'' (map hex_byte [0x02, 0x55, 0x4E,
           take_bit 8 (drop_bit 16 n), take_bit 8 (drop_bit 8 n), take_bit 8 n]))"

text \<open>\<^verbatim>\<open>while mac in _USED\<close>: the first counter from \<open>n\<close> on whose address is unused.\<close>

partial_function (option) scan :: "string set \<Rightarrow> int \<Rightarrow> int option" where
  "scan used n = (if format_mac n \<in> used then scan used (n + 1) else Some n)"

declare scan.simps [code]

definition ensure_table :: "int option \<Rightarrow> int" where
  "ensure_table row = (case row of None \<Rightarrow> -1 | Some v \<Rightarrow> v)"

definition take_next :: "mac_state \<Rightarrow> int \<Rightarrow> (string \<times> mac_state) option" where
  "take_next st n =
     (case scan (ms_used st) n of
        None \<Rightarrow> None
      | Some k \<Rightarrow> Some (format_mac k, st\<lparr>ms_last := k, ms_used := insert (format_mac k) (ms_used st)\<rparr>))"

definition fallback_mac :: "mac_state \<Rightarrow> (string \<times> mac_state) option" where
  "fallback_mac st = take_next st (if ms_last st < 0 then 0 else ms_last st + 1)"

definition next_mac :: "mac_env \<Rightarrow> mac_state \<Rightarrow> (string \<times> mac_state) option" where
  "next_mac env st =
     (if \<not> me_session env then fallback_mac st
      else if ms_last st < 0 \<and> \<not> me_load_ok env then fallback_mac st
      else let start = (if ms_last st < 0 then ensure_table (ms_row st) else ms_last st)
           in case take_next st (start + 1) of
                None \<Rightarrow> None
              | Some (mac, st') \<Rightarrow>
                  if me_store_ok env then Some (mac, st'\<lparr>ms_row := Some (ms_last st')\<rparr>)
                  else fallback_mac st')"

fun next_macs :: "mac_env list \<Rightarrow> mac_state \<Rightarrow> (string list \<times> mac_state) option" where
  "next_macs [] st = Some ([], st)"
| "next_macs (e # es) st =
     (case next_mac e st of
        None \<Rightarrow> None
      | Some (mac, st') \<Rightarrow>
          (case next_macs es st' of None \<Rightarrow> None | Some (ms, st'') \<Rightarrow> Some (mac # ms, st'')))"

text \<open>A new process starts with an empty module state and the row of the table.\<close>

definition restart :: "mac_state \<Rightarrow> mac_state" where
  "restart st = \<lparr>ms_last = -1, ms_used = {}, ms_row = ms_row st\<rparr>"

section \<open>Addresses and counters\<close>

lemma hex_digit_inj: "0 \<le> d \<Longrightarrow> d < 16 \<Longrightarrow> 0 \<le> e \<Longrightarrow> e < 16 \<Longrightarrow> hex_digit d = hex_digit e \<longleftrightarrow> d = e"
proof -
  assume *: "0 \<le> d" "d < 16" "0 \<le> e" "e < 16"
  have "distinct ''0123456789abcdef''" by simp
  from nth_eq_iff_index_eq [OF this, of "nat d" "nat e"] * show ?thesis
    by (auto simp: hex_digit_def)
qed

lemma hex_byte_inj:
  assumes "0 \<le> b" "b < 256" "0 \<le> c" "c < 256"
  shows "hex_byte b = hex_byte c \<longleftrightarrow> b = c"
proof -
  have "b div 16 < 16" "c div 16 < 16" using assms by auto
  with assms have "hex_byte b = hex_byte c \<longleftrightarrow> b div 16 = c div 16 \<and> b mod 16 = c mod 16"
    by (simp add: hex_byte_def hex_digit_inj)
  also have "\<dots> \<longleftrightarrow> b = c" by (metis mult_div_mod_eq)
  finally show ?thesis .
qed

lemma length_hex_byte [simp]: "length (hex_byte b) = 2"
  by (simp add: hex_byte_def)

lemma bytes_determine:
  fixes n m :: int
  assumes "take_bit 8 (drop_bit 16 n) = take_bit 8 (drop_bit 16 m)"
    "take_bit 8 (drop_bit 8 n) = take_bit 8 (drop_bit 8 m)" "take_bit 8 n = take_bit 8 m"
  shows "take_bit 24 n = take_bit 24 m"
proof (rule bit_eqI)
  fix k :: nat
  consider "k < 8" | "8 \<le> k \<and> k < 16" | "16 \<le> k \<and> k < 24" | "24 \<le> k" by linarith
  then show "bit (take_bit 24 n) k = bit (take_bit 24 m) k"
  proof cases
    case 1
    with arg_cong [OF assms(3), of "\<lambda>x. bit x k"] show ?thesis by (simp add: bit_take_bit_iff)
  next
    case 2
    then have "k - 8 < 8" by linarith
    with 2 arg_cong [OF assms(2), of "\<lambda>x. bit x (k - 8)"] show ?thesis
      by (simp add: bit_take_bit_iff bit_drop_bit_eq)
  next
    case 3
    then have "k - 16 < 8" by linarith
    with 3 arg_cong [OF assms(1), of "\<lambda>x. bit x (k - 16)"] show ?thesis
      by (simp add: bit_take_bit_iff bit_drop_bit_eq)
  qed (simp add: bit_take_bit_iff)
qed

lemma take_bit_8_bounds: "0 \<le> take_bit 8 (x::int)" "take_bit 8 (x::int) < 256"
  using take_bit_int_less_exp [of 8 x] by simp_all

lemma format_mac_eq_iff: "format_mac n = format_mac m \<longleftrightarrow> n mod 16777216 = m mod 16777216"
proof
  assume "format_mac n = format_mac m"
  then have "take_bit 24 (take_bit 24 n) = take_bit 24 (take_bit 24 m)"
    by (intro bytes_determine) (simp_all add: format_mac_def Let_def hex_byte_inj take_bit_8_bounds)
  then show "n mod 16777216 = m mod 16777216" by (simp add: take_bit_eq_mod)
qed (simp add: format_mac_def take_bit_eq_mod)

section \<open>The search\<close>

lemma scan_returns:
  assumes "n \<le> k" "format_mac k \<notin> used"
  shows "\<exists>j. scan used n = Some j \<and> n \<le> j \<and> j \<le> k \<and> format_mac j \<notin> used"
  using assms
proof (induction "nat (k - n)" arbitrary: n rule: less_induct)
  case less
  show ?case
  proof (cases "format_mac n \<in> used")
    case True
    then have "n \<noteq> k" using less.prems by auto
    then obtain j where "scan used (n + 1) = Some j" "n + 1 \<le> j" "j \<le> k" "format_mac j \<notin> used"
      using less.hyps [of "n + 1"] less.prems by auto
    with True show ?thesis by (subst scan.simps) auto
  qed (use less.prems in \<open>subst scan.simps; auto\<close>)
qed

lemma scan_fresh: "scan used n = Some k \<Longrightarrow> n \<le> k \<and> format_mac k \<notin> used"
proof (rule scan.raw_induct [of "\<lambda>used n k. n \<le> k \<and> format_mac k \<notin> used"])
  fix scan' used n k
  assume IH: "\<And>u m j. scan' u m = Some j \<Longrightarrow> m \<le> j \<and> format_mac j \<notin> u"
    and k: "(if format_mac n \<in> used then scan' used (n + 1) else Some n) = Some k"
  show "n \<le> k \<and> format_mac k \<notin> used"
  proof (cases "format_mac n \<in> used")
    case True
    with k have "scan' used (n + 1) = Some k" by simp
    from IH [OF this] show ?thesis by simp
  qed (use k in simp)
qed

definition mac_pool :: "string set" where
  "mac_pool = range format_mac"

lemma format_mac_inj: "inj_on format_mac {n..<n + 16777216}"
proof (rule inj_onI)
  fix x y assume xy: "x \<in> {n..<n + 16777216}" "y \<in> {n..<n + 16777216}" "format_mac x = format_mac y"
  then have "16777216 dvd x - y" by (simp add: format_mac_eq_iff mod_eq_dvd_iff)
  moreover have "\<bar>x - y\<bar> < 16777216" using xy by auto
  ultimately show "x = y" by (metis dvd_imp_le_int abs_numeral eq_iff_diff_eq_0 not_less)
qed

lemma mac_pool_window: "format_mac ` {n..<n + 16777216} = mac_pool"
proof -
  have "format_mac k \<in> format_mac ` {n..<n + 16777216}" for k
  proof (rule image_eqI)
    show "format_mac k = format_mac (n + (k - n) mod 16777216)"
      by (simp add: format_mac_eq_iff mod_add_right_eq)
  qed simp
  then show ?thesis by (auto simp: mac_pool_def)
qed

lemma finite_mac_pool: "finite mac_pool" and card_mac_pool: "card mac_pool = 16777216"
  unfolding mac_pool_window [of 0, symmetric]
  by (simp, subst card_image [OF format_mac_inj [of 0]]) simp

lemma free_address:
  assumes "card (used \<inter> mac_pool) < 16777216"
  shows "\<exists>k \<ge> n. format_mac k \<notin> used"
proof (rule ccontr)
  assume "\<not> ?thesis"
  then have "mac_pool \<subseteq> used" unfolding mac_pool_window [of n, symmetric] by auto
  then have "card (used \<inter> mac_pool) = 16777216" by (simp add: inf.absorb2 card_mac_pool)
  with assms show False by simp
qed

section \<open>One call\<close>

lemma take_next_SomeD:
  "take_next st n = Some (mac, st') \<Longrightarrow> mac \<notin> ms_used st \<and> ms_used st' = insert mac (ms_used st) \<and>
     n \<le> ms_last st' \<and> mac = format_mac (ms_last st') \<and> ms_row st' = ms_row st"
  by (auto simp: take_next_def split: option.splits dest: scan_fresh)

lemma take_next_returns:
  "card (ms_used st \<inter> mac_pool) < 16777216 \<Longrightarrow> \<exists>mac st'. take_next st n = Some (mac, st')"
  using free_address [of "ms_used st" n] scan_returns by (fastforce simp: take_next_def)

lemma next_mac_SomeD:
  "next_mac env st = Some (mac, st') \<Longrightarrow>
     mac \<notin> ms_used st \<and> mac \<in> mac_pool \<and> insert mac (ms_used st) \<subseteq> ms_used st'"
  by (auto simp: next_mac_def fallback_mac_def Let_def mac_pool_def split: if_splits option.splits prod.splits
      dest!: take_next_SomeD)

lemma card_insert_pool: "card (insert m used \<inter> mac_pool) \<le> Suc (card (used \<inter> mac_pool))"
proof -
  have "insert m used \<inter> mac_pool \<subseteq> insert m (used \<inter> mac_pool)" by auto
  then have "card (insert m used \<inter> mac_pool) \<le> card (insert m (used \<inter> mac_pool))"
    using finite_mac_pool by (intro card_mono) auto
  also have "\<dots> \<le> Suc (card (used \<inter> mac_pool))" using finite_mac_pool by (simp add: card_insert_if)
  finally show ?thesis .
qed

lemma next_mac_returns:
  assumes "card (ms_used st \<inter> mac_pool) + 2 \<le> 16777216"
  shows "\<exists>mac st'. next_mac env st = Some (mac, st') \<and>
     card (ms_used st' \<inter> mac_pool) \<le> card (ms_used st \<inter> mac_pool) + 2"
proof -
  have one: "\<exists>mac st'. take_next st0 n = Some (mac, st') \<and>
      card (ms_used st' \<inter> mac_pool) \<le> Suc (card (ms_used st0 \<inter> mac_pool))"
    if "card (ms_used st0 \<inter> mac_pool) < 16777216" for st0 n
    using take_next_returns [OF that, of n] take_next_SomeD card_insert_pool by metis
  have fb: "\<exists>mac st'. fallback_mac st0 = Some (mac, st') \<and>
      card (ms_used st' \<inter> mac_pool) \<le> Suc (card (ms_used st0 \<inter> mac_pool))"
    if "card (ms_used st0 \<inter> mac_pool) < 16777216" for st0
    unfolding fallback_mac_def using one [OF that] by blast
  show ?thesis
  proof (cases "\<not> me_session env \<or> ms_last st < 0 \<and> \<not> me_load_ok env")
    case True
    with fb [of st] assms show ?thesis by (fastforce simp: next_mac_def)
  next
    case False
    define start where "start = (if ms_last st < 0 then ensure_table (ms_row st) else ms_last st)"
    obtain mac st' where m: "take_next st (start + 1) = Some (mac, st')"
      "card (ms_used st' \<inter> mac_pool) \<le> Suc (card (ms_used st \<inter> mac_pool))"
      using one [of st "start + 1"] assms by auto
    then obtain mac2 st2 where "fallback_mac st' = Some (mac2, st2)"
      "card (ms_used st2 \<inter> mac_pool) \<le> Suc (card (ms_used st' \<inter> mac_pool))"
      using fb [of st'] assms by auto
    with m False show ?thesis by (auto simp: next_mac_def start_def [symmetric] Let_def)
  qed
qed

section \<open>Sequences of calls\<close>

lemma next_macs_distinct:
  "next_macs es st = Some (ms, st') \<Longrightarrow>
     distinct ms \<and> set ms \<inter> ms_used st = {} \<and> set ms \<subseteq> mac_pool \<and> ms_used st \<union> set ms \<subseteq> ms_used st'"
proof (induction es arbitrary: st ms)
  case (Cons e es)
  then obtain mac st1 ms1 where "next_mac e st = Some (mac, st1)" "next_macs es st1 = Some (ms1, st')"
    "ms = mac # ms1" by (auto split: option.splits prod.splits)
  with Cons.IH [of st1 ms1] next_mac_SomeD [of e st mac st1] show ?case by auto
qed simp

lemma next_macs_returns:
  "card (ms_used st \<inter> mac_pool) + 2 * length es \<le> 16777216 \<Longrightarrow>
   \<exists>ms st'. next_macs es st = Some (ms, st') \<and> length ms = length es"
proof (induction es arbitrary: st)
  case (Cons e es)
  from next_mac_returns [of st e] Cons.prems obtain mac st1 where "next_mac e st = Some (mac, st1)"
    "card (ms_used st1 \<inter> mac_pool) \<le> card (ms_used st \<inter> mac_pool) + 2" by auto
  with Cons.IH [of st1] Cons.prems show ?case by fastforce
qed simp

text \<open>With a working database a process that starts at row \<open>v\<close> hands out the addresses of the counters
  from \<open>v + 1\<close> on, and the row follows.\<close>

definition all_ok :: mac_env where
  "all_ok = \<lparr>me_session = True, me_load_ok = True, me_store_ok = True\<rparr>"

definition counting :: "mac_state \<Rightarrow> int \<Rightarrow> int \<Rightarrow> bool" where
  "counting st v n \<longleftrightarrow> v \<le> n \<and> -1 \<le> v \<and> ms_used st = format_mac ` {v + 1..n} \<and>
     (if ms_last st < 0 then ensure_table (ms_row st) else ms_last st) = n \<and> ensure_table (ms_row st) = n"

lemma next_mac_counting:
  assumes "counting st v n" "n - v < 16777216"
  shows "\<exists>st'. next_mac all_ok st = Some (format_mac (n + 1), st') \<and> counting st' v (n + 1)"
proof -
  have "format_mac (n + 1) \<notin> format_mac ` {v + 1..n}"
  proof
    assume "format_mac (n + 1) \<in> format_mac ` {v + 1..n}"
    then obtain k where "format_mac k = format_mac (n + 1)" "v + 1 \<le> k" "k \<le> n" by auto
    with inj_onD [OF format_mac_inj [of "v + 1"], of k "n + 1"] assms(2) show False by auto
  qed
  then have "scan (ms_used st) (n + 1) = Some (n + 1)"
    using assms(1) by (subst scan.simps) (simp add: counting_def)
  moreover have "{v + 1..n + 1} = insert (n + 1) {v + 1..n}" using assms(1) by (auto simp: counting_def)
  ultimately show ?thesis
    using assms(1) by (auto simp: next_mac_def all_ok_def take_next_def counting_def ensure_table_def)
qed

lemma next_macs_counting:
  assumes "counting st v n" "n - v + int k \<le> 16777216"
  shows "\<exists>st'. next_macs (replicate k all_ok) st = Some (map (\<lambda>i. format_mac (n + 1 + int i)) [0..<k], st') \<and>
     counting st' v (n + int k)"
  using assms
proof (induction k arbitrary: st n)
  case (Suc k)
  from next_mac_counting [OF Suc.prems(1)] Suc.prems(2) obtain st1
    where st1: "next_mac all_ok st = Some (format_mac (n + 1), st1)" "counting st1 v (n + 1)" by auto
  from Suc.IH [OF this(2)] Suc.prems(2) obtain st2 where
    "next_macs (replicate k all_ok) st1 = Some (map (\<lambda>i. format_mac (n + 2 + int i)) [0..<k], st2)"
    "counting st2 v (n + 1 + int k)" by (auto simp: add.commute add.left_commute)
  with st1 show ?case
    by (auto simp: upt_conv_Cons map_Suc_upt [symmetric] add.commute add.left_commute
        simp del: upt_Suc map_Suc_upt)
qed simp

lemma counting_restart: "counting st v n \<Longrightarrow> counting (restart st) n n"
  by (auto simp: counting_def restart_def)

section \<open>Properties\<close>

text \<open>C34: No address is handed out twice by one process. Whatever the database does in each call (no
  session, failing reads, failing writes), the addresses of a sequence of calls are pairwise
  different, differ from all addresses used before, and lie in the block of the program's OUI.\<close>

theorem mac_never_repeated:
  assumes "next_macs es st = Some (ms, st')"
  shows "distinct ms \<and> set ms \<inter> ms_used st = {} \<and> set ms \<subseteq> mac_pool"
  using next_macs_distinct [OF assms] by blast

definition demo_mac :: mac_state where
  "demo_mac = \<lparr>ms_last = -1, ms_used = {}, ms_row = Some 7\<rparr>"

theorem mac_never_repeated_witness:
  "next_macs [all_ok, all_ok\<lparr>me_store_ok := False\<rparr>, all_ok\<lparr>me_session := False\<rparr>] demo_mac =
     Some ([''02:55:4e:00:00:08'', ''02:55:4e:00:00:0a'', ''02:55:4e:00:00:0b''],
       \<lparr>ms_last = 11, ms_used = {''02:55:4e:00:00:0b'', ''02:55:4e:00:00:0a'', ''02:55:4e:00:00:09'', ''02:55:4e:00:00:08''},
        ms_row = Some 8\<rparr>) \<and>
   distinct [''02:55:4e:00:00:08'', ''02:55:4e:00:00:0a'', ''02:55:4e:00:00:0b'']"
proof -
  have *: "next_macs [all_ok, all_ok\<lparr>me_store_ok := False\<rparr>, all_ok\<lparr>me_session := False\<rparr>] demo_mac =
     Some ([''02:55:4e:00:00:08'', ''02:55:4e:00:00:0a'', ''02:55:4e:00:00:0b''],
       \<lparr>ms_last = 11, ms_used = {''02:55:4e:00:00:0b'', ''02:55:4e:00:00:0a'', ''02:55:4e:00:00:09'', ''02:55:4e:00:00:08''},
        ms_row = Some 8\<rparr>)" by code_simp
  with mac_never_repeated [OF *] show ?thesis by blast
qed

text \<open>C35: The allocator returns as long as addresses are left. Every call takes at most two addresses
  of the block of 2^24, so a sequence of calls returns whenever twice its length still fits beside
  the addresses already used.\<close>

theorem mac_allocation_returns:
  assumes "card (ms_used st \<inter> mac_pool) + 2 * length es \<le> 16777216"
  shows "\<exists>ms st'. next_macs es st = Some (ms, st') \<and> length ms = length es"
  using assms by (rule next_macs_returns)

theorem mac_allocation_returns_witness:
  "\<exists>ms st'. next_macs (replicate 1000 all_ok) demo_mac = Some (ms, st') \<and> length ms = 1000"
  using mac_allocation_returns [of demo_mac "replicate 1000 all_ok"] by (simp add: demo_mac_def)

text \<open>The counter survives a restart. With a working database, a process that starts at row \<open>v\<close> and
  makes \<open>j\<close> calls, followed by a new process that makes \<open>k\<close> calls, together hand out \<open>j + k\<close> different
  addresses, as long as these are no more than the block has.\<close>

theorem mac_restart_distinct:
  assumes "ms_last st = -1" "ms_used st = {}" "-1 \<le> ensure_table (ms_row st)" "j + k \<le> 16777216"
  shows "\<exists>ms st1 ms' st2. next_macs (replicate j all_ok) st = Some (ms, st1) \<and>
     next_macs (replicate k all_ok) (restart st1) = Some (ms', st2) \<and>
     length (ms @ ms') = j + k \<and> distinct (ms @ ms')"
proof -
  define v where "v = ensure_table (ms_row st)"
  have "counting st v v" using assms(1-3) by (simp add: counting_def v_def)
  from next_macs_counting [OF this, of j] assms(4) obtain st1
    where st1: "next_macs (replicate j all_ok) st = Some (map (\<lambda>i. format_mac (v + 1 + int i)) [0..<j], st1)"
      "counting st1 v (v + int j)" by auto
  from next_macs_counting [OF counting_restart [OF st1(2)], of k] assms(4) obtain st2
    where st2: "next_macs (replicate k all_ok) (restart st1) =
      Some (map (\<lambda>i. format_mac (v + int j + 1 + int i)) [0..<k], st2)" by auto
  let ?f = "\<lambda>i. format_mac (v + 1 + int i)"
  have "map ?f [0..<j] @ map (\<lambda>i. format_mac (v + int j + 1 + int i)) [0..<k] = map ?f [0..<j + k]"
    by (rule nth_equalityI) (auto simp: nth_append intro!: arg_cong [of _ _ format_mac])
  moreover have "distinct (map ?f [0..<j + k])"
    using assms(4) inj_onD [OF format_mac_inj [of "v + 1"]]
    by (fastforce simp: distinct_map intro!: inj_onI)
  ultimately have "distinct (map ?f [0..<j] @ map (\<lambda>i. format_mac (v + int j + 1 + int i)) [0..<k])"
    by (simp only:)
  moreover have "length (map ?f [0..<j] @ map (\<lambda>i. format_mac (v + int j + 1 + int i)) [0..<k]) = j + k"
    by simp
  ultimately show ?thesis using st1(1) st2 by blast
qed

theorem mac_restart_distinct_witness:
  "\<exists>ms st1 ms' st2. next_macs (replicate 2 all_ok) demo_mac = Some (ms, st1) \<and>
     next_macs (replicate 3 all_ok) (restart st1) = Some (ms', st2) \<and>
     length (ms @ ms') = 2 + 3 \<and> distinct (ms @ ms')"
  by (rule mac_restart_distinct) (simp_all add: demo_mac_def ensure_table_def)

end
