(* ===== verification/Graphs.thy ===== *)
theory Graphs
  imports Worklist
begin

text \<open>
  The graph class of \<^verbatim>\<open>networkx\<close>, which the sources only call. It is the parameter \<open>nx\<close> of the
  builders and of the path queries: a record of the operations they use. What its documentation
  says of them is stated by \<open>nx_laws\<close>, \<open>nx_dijkstra_laws\<close> and \<open>nx_path_laws\<close>; the adjacency list
  \<open>list_nx\<close> meets all three.
\<close>

section \<open>Dictionaries\<close>

fun dict_set :: "'k \<Rightarrow> 'v \<Rightarrow> ('k \<times> 'v) list \<Rightarrow> ('k \<times> 'v) list" where
  "dict_set k v [] = [(k, v)]"
| "dict_set k v ((k', v') # d) = (if k = k' then (k, v) # d else (k', v') # dict_set k v d)"

lemma dict_set_keys [dict_simps]: "fst ` set (dict_set k v d) = insert k (fst ` set d)"
  by (induction d rule: dict_set.induct) auto

lemma dict_set_entry: "(a, b) \<in> set (dict_set k v d) \<Longrightarrow> (a, b) = (k, v) \<or> (a, b) \<in> set d"
  by (induction d) (auto split: if_splits)

section \<open>The graph class\<close>

text \<open>The keyword attributes of an edge: \<^verbatim>\<open>None\<close> stands for an absent key.\<close>

record edge_attrs =
  ea_id :: "ident option"
  ea_class :: "string option"
  ea_link_loss_db :: "pyfloat option"
  ea_synthetic :: "bool option"

definition or_else :: "'a option \<Rightarrow> 'a option \<Rightarrow> 'a option" where
  "or_else x y = (case x of None \<Rightarrow> y | Some _ \<Rightarrow> x)"

text \<open>\<^verbatim>\<open>dict.update\<close> on the attributes.\<close>

definition update_attrs :: "edge_attrs \<Rightarrow> edge_attrs \<Rightarrow> edge_attrs" where
  "update_attrs old new =
     \<lparr>ea_id = or_else (ea_id new) (ea_id old), ea_class = or_else (ea_class new) (ea_class old),
      ea_link_loss_db = or_else (ea_link_loss_db new) (ea_link_loss_db old),
      ea_synthetic = or_else (ea_synthetic new) (ea_synthetic old)\<rparr>"

text \<open>The operations of \<^verbatim>\<open>networkx.Graph\<close> the builders call, and what its documentation says of
  them: nodes keep their insertion order, \<^verbatim>\<open>add_node\<close> on a node that exists updates its attributes,
  \<^verbatim>\<open>add_edge\<close> is symmetric and updates the attributes of an edge that exists.\<close>

record 'g nx =
  nx_Graph :: 'g
  nx_add_node :: "'g \<Rightarrow> ident \<Rightarrow> string \<Rightarrow> 'g"
  nx_add_edge :: "'g \<Rightarrow> ident \<Rightarrow> ident \<Rightarrow> edge_attrs \<Rightarrow> 'g"
  nx_nodes_data :: "'g \<Rightarrow> (ident \<times> string) list"
  nx_get_edge_data :: "'g \<Rightarrow> ident \<Rightarrow> ident \<Rightarrow> edge_attrs option"
  nx_has_path :: "'g \<Rightarrow> ident \<Rightarrow> ident \<Rightarrow> bool"
  nx_shortest_path :: "'g \<Rightarrow> ident \<Rightarrow> ident \<Rightarrow> ident list option"
  nx_single_source_dijkstra :: "'g \<Rightarrow> ident \<Rightarrow> (ident \<Rightarrow> ident \<Rightarrow> pyfloat) \<Rightarrow> (ident \<times> pyfloat \<times> ident list) list"

definition nx_nodes :: "'g nx \<Rightarrow> 'g \<Rightarrow> ident set" where
  "nx_nodes nx g = fst ` set (nx_nodes_data nx g)"

definition nx_has_edge :: "'g nx \<Rightarrow> 'g \<Rightarrow> ident \<Rightarrow> ident \<Rightarrow> bool" where
  "nx_has_edge nx g u v \<longleftrightarrow> nx_get_edge_data nx g u v \<noteq> None"

definition nx_node_type :: "'g nx \<Rightarrow> 'g \<Rightarrow> ident \<Rightarrow> string" where
  "nx_node_type nx g n = the (map_of (nx_nodes_data nx g) n)"

definition same_pair :: "ident \<Rightarrow> ident \<Rightarrow> ident \<Rightarrow> ident \<Rightarrow> bool" where
  "same_pair a b u v \<longleftrightarrow> a = u \<and> b = v \<or> a = v \<and> b = u"

definition nx_laws :: "'g nx \<Rightarrow> bool" where
  "nx_laws nx \<longleftrightarrow>
     nx_nodes_data nx (nx_Graph nx) = [] \<and>
     (\<forall>u v. nx_get_edge_data nx (nx_Graph nx) u v = None) \<and>
     (\<forall>g u v. nx_get_edge_data nx g u v = nx_get_edge_data nx g v u) \<and>
     (\<forall>g n t. nx_nodes_data nx (nx_add_node nx g n t) = dict_set n t (nx_nodes_data nx g)) \<and>
     (\<forall>g n t u v. nx_get_edge_data nx (nx_add_node nx g n t) u v = nx_get_edge_data nx g u v) \<and>
     (\<forall>g u v a. u \<in> nx_nodes nx g \<longrightarrow> v \<in> nx_nodes nx g \<longrightarrow>
        nx_nodes_data nx (nx_add_edge nx g u v a) = nx_nodes_data nx g) \<and>
     (\<forall>g u v a x y. nx_get_edge_data nx (nx_add_edge nx g u v a) x y =
        (if same_pair u v x y
         then Some (case nx_get_edge_data nx g u v of None \<Rightarrow> a | Some old \<Rightarrow> update_attrs old a)
         else nx_get_edge_data nx g x y))"

text \<open>The path queries. \<^verbatim>\<open>shortest_path\<close> raises when there is none, here \<^const>\<open>None\<close>; the items of the
  dictionaries of \<^verbatim>\<open>single_source_dijkstra\<close> are rows of node, distance and path. Its guarantee is for
  weights that are not negative.\<close>

definition nx_walk :: "'g nx \<Rightarrow> 'g \<Rightarrow> ident \<Rightarrow> ident list \<Rightarrow> bool" where
  "nx_walk nx g src p \<longleftrightarrow> p \<noteq> [] \<and> hd p = src \<and> successively (nx_has_edge nx g) p"

definition walk_weight :: "(ident \<Rightarrow> ident \<Rightarrow> pyfloat) \<Rightarrow> ident list \<Rightarrow> pyfloat" where
  "walk_weight w p = sum_list (map (\<lambda>(u, v). w u v) (zip p (tl p)))"

definition nx_path_laws :: "'g nx \<Rightarrow> bool" where
  "nx_path_laws nx \<longleftrightarrow> (\<forall>g u v. u \<in> nx_nodes nx g \<longrightarrow> v \<in> nx_nodes nx g \<longrightarrow>
     (nx_has_path nx g u v \<longleftrightarrow> (\<exists>p. nx_walk nx g u p \<and> last p = v)) \<and>
     (case nx_shortest_path nx g u v of
        None \<Rightarrow> \<not> (\<exists>p. nx_walk nx g u p \<and> last p = v)
      | Some p \<Rightarrow> nx_walk nx g u p \<and> last p = v \<and> (\<forall>q. nx_walk nx g u q \<longrightarrow> last q = v \<longrightarrow> length p \<le> length q)))"

definition least_walk :: "'g nx \<Rightarrow> 'g \<Rightarrow> (ident \<Rightarrow> ident \<Rightarrow> pyfloat) \<Rightarrow> ident \<Rightarrow> ident \<times> pyfloat \<times> ident list \<Rightarrow> bool" where
  "least_walk nx g w src row = (case row of (n, d, p) \<Rightarrow>
     nx_walk nx g src p \<and> last p = n \<and> d = walk_weight w p \<and>
     (\<forall>q. nx_walk nx g src q \<longrightarrow> last q = n \<longrightarrow> d \<le> walk_weight w q))"

definition nx_dijkstra_laws :: "'g nx \<Rightarrow> bool" where
  "nx_dijkstra_laws nx \<longleftrightarrow> (\<forall>g src w. src \<in> nx_nodes nx g \<longrightarrow> (\<forall>u v. 0 \<le> w u v) \<longrightarrow>
     distinct (map fst (nx_single_source_dijkstra nx g src w)) \<and>
     (\<forall>q. nx_walk nx g src q \<longrightarrow> last q \<in> fst ` set (nx_single_source_dijkstra nx g src w)) \<and>
     (\<forall>row \<in> set (nx_single_source_dijkstra nx g src w). least_walk nx g w src row))"

definition no_attrs :: edge_attrs where
  "no_attrs = \<lparr>ea_id = None, ea_class = None, ea_link_loss_db = None, ea_synthetic = None\<rparr>"

lemma nx_lawsD:
  assumes "nx_laws nx"
  shows "nx_nodes_data nx (nx_Graph nx) = []" "nx_get_edge_data nx (nx_Graph nx) u v = None"
    "nx_nodes_data nx (nx_add_node nx g n t) = dict_set n t (nx_nodes_data nx g)"
    "nx_get_edge_data nx (nx_add_node nx g n t) u v = nx_get_edge_data nx g u v"
    "u \<in> nx_nodes nx g \<Longrightarrow> v \<in> nx_nodes nx g \<Longrightarrow> nx_nodes_data nx (nx_add_edge nx g u v a) = nx_nodes_data nx g"
    "nx_has_edge nx (nx_add_edge nx g u v a) x y \<longleftrightarrow> same_pair u v x y \<or> nx_has_edge nx g x y"
    "nx_has_edge nx g u v \<Longrightarrow> nx_has_edge nx g v u"
proof -
  note laws = assms [unfolded nx_laws_def, THEN conjunct2]
  note sym = laws [THEN conjunct2, THEN conjunct1, rule_format]
  note nodes = laws [THEN conjunct2, THEN conjunct2, THEN conjunct1, rule_format]
  note edges = laws [THEN conjunct2, THEN conjunct2, THEN conjunct2]
  show "nx_nodes_data nx (nx_Graph nx) = []" "nx_get_edge_data nx (nx_Graph nx) u v = None"
    "nx_nodes_data nx (nx_add_node nx g n t) = dict_set n t (nx_nodes_data nx g)"
    "nx_get_edge_data nx (nx_add_node nx g n t) u v = nx_get_edge_data nx g u v"
    "u \<in> nx_nodes nx g \<Longrightarrow> v \<in> nx_nodes nx g \<Longrightarrow> nx_nodes_data nx (nx_add_edge nx g u v a) = nx_nodes_data nx g"
    using assms [unfolded nx_laws_def, THEN conjunct1] laws [THEN conjunct1] nodes edges by simp_all
  show "nx_has_edge nx g u v \<Longrightarrow> nx_has_edge nx g v u" unfolding nx_has_edge_def using sym [of g u v] by simp
  have "nx_get_edge_data nx (nx_add_edge nx g u v a) x y = (if same_pair u v x y
      then Some (case nx_get_edge_data nx g u v of None \<Rightarrow> a | Some old \<Rightarrow> update_attrs old a)
      else nx_get_edge_data nx g x y)" using edges by blast
  then show "nx_has_edge nx (nx_add_edge nx g u v a) x y \<longleftrightarrow> same_pair u v x y \<or> nx_has_edge nx g x y"
    unfolding nx_has_edge_def by simp
qed

section \<open>An instance\<close>

text \<open>An adjacency list with the documented behaviour of the graph class.\<close>

type_synonym list_graph = "(ident \<times> string) list \<times> ((ident \<times> ident) \<times> edge_attrs) list"

definition list_get_edge :: "list_graph \<Rightarrow> ident \<Rightarrow> ident \<Rightarrow> edge_attrs option" where
  "list_get_edge g u v = map_option snd (find (\<lambda>e. same_pair (fst (fst e)) (snd (fst e)) u v) (snd g))"

definition list_nbrs :: "list_graph \<Rightarrow> ident \<Rightarrow> ident list" where
  "list_nbrs g u = concat (map (\<lambda>e. if fst (fst e) = u then [snd (fst e)] else if snd (fst e) = u then [fst (fst e)] else []) (snd g))"

fun list_walks :: "(ident \<Rightarrow> ident list) \<Rightarrow> nat \<Rightarrow> ident list \<Rightarrow> ident list list" where
  "list_walks succ 0 p = [p]"
| "list_walks succ (Suc n) p =
     p # concat (map (\<lambda>y. if y \<in> set p then [] else list_walks succ n (p @ [y])) (succ (last p)))"

definition list_paths :: "list_graph \<Rightarrow> ident \<Rightarrow> ident list list" where
  "list_paths g u = list_walks (list_nbrs g) (2 * length (snd g)) [u]"

definition cheapest :: "(ident list \<Rightarrow> 'a :: linorder) \<Rightarrow> list_graph \<Rightarrow> ident \<Rightarrow> ident \<Rightarrow> ident list" where
  "cheapest f g u v = hd (sort_key f (filter (\<lambda>p. last p = v) (list_paths g u)))"

definition list_nx :: "list_graph nx" where
  "list_nx = \<lparr>nx_Graph = ([], []),
     nx_add_node = (\<lambda>g n t. (dict_set n t (fst g), snd g)),
     nx_add_edge = (\<lambda>g u v a. (if u \<in> fst ` set (fst g) \<and> v \<in> fst ` set (fst g) then fst g
         else dict_set v [] (dict_set u [] (fst g)),
       ((u, v), case list_get_edge g u v of None \<Rightarrow> a | Some old \<Rightarrow> update_attrs old a) # snd g)),
     nx_nodes_data = fst, nx_get_edge_data = list_get_edge,
     nx_has_path = (\<lambda>g u v. \<exists>p \<in> set (list_paths g u). last p = v),
     nx_shortest_path = (\<lambda>g u v. if \<exists>p \<in> set (list_paths g u). last p = v then Some (cheapest length g u v) else None),
     nx_single_source_dijkstra = (\<lambda>g u w. map (\<lambda>v. (v, walk_weight w (cheapest (walk_weight w) g u v), cheapest (walk_weight w) g u v))
       (remdups (map last (list_paths g u))))\<rparr>"

lemma same_pair_sym: "same_pair a b u v = same_pair a b v u"
  by (auto simp: same_pair_def)

lemma list_nx_laws: "nx_laws list_nx"
  unfolding nx_laws_def
  by (auto simp: list_nx_def list_get_edge_def nx_nodes_def fun_eq_iff same_pair_sym)

lemma list_nbrs_edge: "v \<in> set (list_nbrs g u) \<longleftrightarrow> nx_has_edge list_nx g u v"
proof -
  have "v \<in> set (if a = u then [b] else if b = u then [a] else []) \<longleftrightarrow> same_pair a b u v" for a b
    by (auto simp: same_pair_def)
  then have "v \<in> set (list_nbrs g u) \<longleftrightarrow> (\<exists>e \<in> set (snd g). same_pair (fst (fst e)) (snd (fst e)) u v)"
    unfolding list_nbrs_def in_set_concat_map by blast
  then show ?thesis by (simp add: nx_has_edge_def list_nx_def list_get_edge_def find_None_iff')
qed

lemma list_walks_iff:
  "p \<noteq> [] \<Longrightarrow> q \<in> set (list_walks succ n p) \<longleftrightarrow>
     (\<exists>r. q = p @ r \<and> length r \<le> n \<and> distinct r \<and> set r \<inter> set p = {} \<and>
        successively (\<lambda>x y. y \<in> set (succ x)) (last p # r))"
proof (induction n arbitrary: p)
  case (Suc n)
  have "q \<in> set (list_walks succ (Suc n) p) \<longleftrightarrow> q = p \<or> (\<exists>y \<in> set (succ (last p)). y \<notin> set p \<and>
      (\<exists>r. q = (p @ [y]) @ r \<and> length r \<le> n \<and> distinct r \<and> set r \<inter> set (p @ [y]) = {} \<and>
        successively (\<lambda>x y. y \<in> set (succ x)) (last (p @ [y]) # r)))"
    using Suc.IH [of "p @ [_]"] by auto
  also have "\<dots> \<longleftrightarrow> (\<exists>r. q = p @ r \<and> length r \<le> Suc n \<and> distinct r \<and> set r \<inter> set p = {} \<and>
        successively (\<lambda>x y. y \<in> set (succ x)) (last p # r))" (is "?L \<longleftrightarrow> (\<exists>r. ?R r)")
  proof
    assume ?L
    then show "\<exists>r. ?R r"
    proof (elim disjE bexE conjE exE)
      fix y r assume "y \<in> set (succ (last p))" "y \<notin> set p" "q = (p @ [y]) @ r" "length r \<le> n" "distinct r"
        "set r \<inter> set (p @ [y]) = {}" "successively (\<lambda>x y. y \<in> set (succ x)) (last (p @ [y]) # r)"
      then have "?R (y # r)" by auto
      then show ?thesis by blast
    qed (auto intro: exI [of _ "[]"])
  next
    assume "\<exists>r. ?R r"
    then obtain r where r: "?R r" by blast
    show ?L by (cases r) (use r in auto)
  qed
  finally show ?case .
qed simp

lemma cheapest_props:
  assumes "p \<in> set (list_paths g u)" "last p = v"
  shows "cheapest f g u v \<in> set (list_paths g u)" "last (cheapest f g u v) = v"
    "q \<in> set (list_paths g u) \<Longrightarrow> last q = v \<Longrightarrow> f (cheapest f g u v) \<le> f q"
proof -
  have "filter (\<lambda>p. last p = v) (list_paths g u) \<noteq> []" using assms by (auto simp: filter_empty_conv)
  from hd_sort_key_in [OF this, of f] show "cheapest f g u v \<in> set (list_paths g u)" "last (cheapest f g u v) = v"
    by (simp_all add: cheapest_def)
  show "q \<in> set (list_paths g u) \<Longrightarrow> last q = v \<Longrightarrow> f (cheapest f g u v) \<le> f q"
    unfolding cheapest_def by (rule hd_sort_key_le) simp
qed

lemma list_paths_iff: "q \<in> set (list_paths g u) \<longleftrightarrow> nx_walk list_nx g u q \<and> distinct q"
proof
  assume "q \<in> set (list_paths g u)"
  then show "nx_walk list_nx g u q \<and> distinct q"
    unfolding list_paths_def by (subst (asm) list_walks_iff) (auto simp: nx_walk_def list_nbrs_edge)
next
  assume q: "nx_walk list_nx g u q \<and> distinct q"
  then obtain r where r: "q = u # r" by (cases q) (auto simp: nx_walk_def)
  have sub: "set r \<subseteq> set (map (fst \<circ> fst) (snd g) @ map (snd \<circ> fst) (snd g))"
  proof
    fix y assume "y \<in> set r"
    then obtain i where i: "i < length r" "y = r ! i" by (auto simp: in_set_conv_nth)
    have "nx_has_edge list_nx g (q ! i) (q ! Suc i)" using q i r by (auto simp: nx_walk_def successively_conv_nth)
    then have "y \<in> set (list_nbrs g (q ! i))" using i r by (simp add: list_nbrs_edge)
    then show "y \<in> set (map (fst \<circ> fst) (snd g) @ map (snd \<circ> fst) (snd g))"
      by (force simp: list_nbrs_def split: if_splits)
  qed
  have "length r = card (set r)" using q r by (simp add: distinct_card)
  also have "\<dots> \<le> card (set (map (fst \<circ> fst) (snd g) @ map (snd \<circ> fst) (snd g)))" using sub by (intro card_mono) auto
  also have "\<dots> \<le> 2 * length (snd g)" by (rule order_trans [OF card_length]) simp
  finally have "length r \<le> 2 * length (snd g)" .
  with q r show "q \<in> set (list_paths g u)"
    unfolding list_paths_def by (subst list_walks_iff) (auto simp: nx_walk_def list_nbrs_edge)
qed

text \<open>Cutting the cycles out of a walk leaves a path that does not weigh more.\<close>

lemma walk_weight_append:
  "walk_weight w (a @ x # b) = walk_weight w (a @ [x]) + walk_weight w (x # b)"
proof (induction a)
  case (Cons y a)
  have "walk_weight w (y # q) = w y (hd q) + walk_weight w q" if "q \<noteq> []" for q
    using that by (cases q) (simp_all add: walk_weight_def)
  with Cons show ?case by (simp add: hd_append)
qed (simp add: walk_weight_def)

lemma walk_weight_nonneg: "(\<And>u v. 0 \<le> w u v) \<Longrightarrow> 0 \<le> walk_weight w p"
  unfolding walk_weight_def by (rule sum_list_nonneg) auto

lemma successively_split:
  "successively P (a @ x # b) \<longleftrightarrow> successively P (a @ [x]) \<and> successively P (x # b)"
  by (induction a) (auto simp: successively_Cons hd_append)

lemma walk_shorten:
  assumes "nx_walk nx g u p" "\<And>u v. 0 \<le> w u v"
  shows "\<exists>q. nx_walk nx g u q \<and> distinct q \<and> last q = last p \<and> walk_weight w q \<le> walk_weight w p \<and> length q \<le> length p"
  using assms(1)
proof (induction p rule: length_induct)
  case (1 p)
  show ?case
  proof (cases "distinct p")
    case False
    then obtain a x b c where p: "p = a @ x # b @ x # c" using not_distinct_decomp by force
    let ?q = "a @ x # c"
    have "nx_walk nx g u ?q"
      using 1(2) successively_split [of "nx_has_edge nx g" a x "b @ x # c"]
        successively_split [of "nx_has_edge nx g" "x # b" x c] successively_split [of "nx_has_edge nx g" a x c]
      unfolding p nx_walk_def by (cases a) auto
    moreover have "last ?q = last p" unfolding p by simp
    moreover have "walk_weight w ?q \<le> walk_weight w p"
      using walk_weight_append [of w a x "b @ x # c"] walk_weight_append [of w "x # b" x c] walk_weight_append [of w a x c]
        walk_weight_nonneg [of w "x # b @ [x]"] assms(2) unfolding p by simp
    moreover have "length ?q < length p" unfolding p by simp
    ultimately show ?thesis using 1(1) [rule_format, of ?q] by fastforce
  qed (use 1(2) in auto)
qed

lemma list_path_of_walk:
  assumes "nx_walk list_nx g u p" "\<And>u v. 0 \<le> w u v"
  shows "\<exists>q \<in> set (list_paths g u). last q = last p \<and> walk_weight w q \<le> walk_weight w p \<and> length q \<le> length p"
proof -
  obtain q where "nx_walk list_nx g u q" "distinct q" "last q = last p" "walk_weight w q \<le> walk_weight w p"
    "length q \<le> length p" using walk_shorten [of list_nx g u p w] assms by blast
  then show ?thesis by (intro bexI [of _ q]) (simp_all add: list_paths_iff)
qed

lemma list_nx_path_laws: "nx_path_laws list_nx"
  unfolding nx_path_laws_def
proof (intro allI impI conjI)
  fix g u v
  have ex: "(\<exists>p \<in> set (list_paths g u). last p = v) \<longleftrightarrow> (\<exists>p. nx_walk list_nx g u p \<and> last p = v)"
  proof
    assume "\<exists>p. nx_walk list_nx g u p \<and> last p = v"
    then show "\<exists>p \<in> set (list_paths g u). last p = v" using list_path_of_walk [of g u _ "\<lambda>_ _. 0"] by fastforce
  qed (auto simp: list_paths_iff)
  then show "nx_has_path list_nx g u v \<longleftrightarrow> (\<exists>p. nx_walk list_nx g u p \<and> last p = v)"
    by (simp add: list_nx_def)
  show "case nx_shortest_path list_nx g u v of None \<Rightarrow> \<not> (\<exists>p. nx_walk list_nx g u p \<and> last p = v)
      | Some p \<Rightarrow> nx_walk list_nx g u p \<and> last p = v \<and> (\<forall>q. nx_walk list_nx g u q \<longrightarrow> last q = v \<longrightarrow> length p \<le> length q)"
  proof (cases "\<exists>p \<in> set (list_paths g u). last p = v")
    case True
    then obtain p where p: "p \<in> set (list_paths g u)" "last p = v" by blast
    note c = cheapest_props [OF p, where f = length]
    have "length (cheapest length g u v) \<le> length q" if "nx_walk list_nx g u q" "last q = v" for q
      using list_path_of_walk [OF that(1), of "\<lambda>_ _. 0"] that(2) c(3) order_trans by fastforce
    with True c(1,2) show ?thesis by (simp add: list_nx_def [THEN arg_cong [of _ _ nx_shortest_path]] list_paths_iff)
  next
    case False
    with ex show ?thesis by (simp add: list_nx_def [THEN arg_cong [of _ _ nx_shortest_path]])
  qed
qed

lemma list_nx_dijkstra_laws: "nx_dijkstra_laws list_nx"
  unfolding nx_dijkstra_laws_def
proof (intro allI impI conjI ballI)
  fix g src and w :: "ident \<Rightarrow> ident \<Rightarrow> pyfloat" assume w: "\<forall>u v. 0 \<le> w u v"
  have d: "nx_single_source_dijkstra list_nx g src w =
      map (\<lambda>v. (v, walk_weight w (cheapest (walk_weight w) g src v), cheapest (walk_weight w) g src v))
       (remdups (map last (list_paths g src)))" by (simp add: list_nx_def)
  show "distinct (map fst (nx_single_source_dijkstra list_nx g src w))"
    unfolding d by (simp add: comp_def)
  show "last q \<in> fst ` set (nx_single_source_dijkstra list_nx g src w)" if "nx_walk list_nx g src q" for q
  proof -
    note q = that
    obtain p where "p \<in> set (list_paths g src)" "last q = last p"
      using list_path_of_walk [OF q, of w] w by metis
    then show ?thesis unfolding d by (simp add: image_image)
  qed
  fix row assume "row \<in> set (nx_single_source_dijkstra list_nx g src w)"
  then obtain p where p: "p \<in> set (list_paths g src)"
    and row: "row = (last p, walk_weight w (cheapest (walk_weight w) g src (last p)), cheapest (walk_weight w) g src (last p))"
    unfolding d by auto
  note c = cheapest_props [OF p refl, where f = "walk_weight w"]
  have "walk_weight w (cheapest (walk_weight w) g src (last p)) \<le> walk_weight w q"
    if "nx_walk list_nx g src q" "last q = last p" for q
    using list_path_of_walk [OF that(1), of w] w that(2) c(3) order_trans by fastforce
  with c(1,2) show "least_walk list_nx g w src row"
    unfolding row least_walk_def by (auto simp: list_paths_iff)
qed

end
