(* ===== verification/Pathfinding.thy ===== *)
theory Pathfinding
  imports Graphs
begin

text \<open>
  The graph layer (\<^verbatim>\<open>services/pathfinding.py\<close>): the shortest optical path of an ONT to an OLT by
  Dijkstra's algorithm on (hops, path) pairs, the builders of the optical and of the logical graph,
  and the versioned store that caches them. The graph class of \<^verbatim>\<open>networkx\<close> is the parameter \<open>nx\<close>, a
  record of the operations the builders call; its documented behaviour is \<open>nx_laws\<close>. The heap is a
  list from which the least element is taken.
\<close>

section \<open>Records\<close>

record device_record =
  dr_id :: ident
  dr_type :: string

record link_record =
  lr_id :: ident
  lr_a_device_id :: ident
  lr_b_device_id :: ident
  lr_kind :: string
  lr_link_loss_db :: "pyfloat option"

definition OPTICAL_ACTIVE :: "string set" where
  "OPTICAL_ACTIVE = {''OLT''}"

definition OPTICAL_TERMINATORS :: "string set" where
  "OPTICAL_TERMINATORS = {''ONT'', ''BUSINESS_ONT''}"

definition PASSIVE_INLINE_NAMES :: "string set" where
  "PASSIVE_INLINE_NAMES = {''ODF'', ''NVT'', ''SPLITTER'', ''HOP''}"

definition LOGICAL_ANCHORS :: "string set" where
  "LOGICAL_ANCHORS = {''BACKBONE_GATEWAY'', ''CORE_ROUTER''}"

definition LOGICAL_ACTIVE :: "string set" where
  "LOGICAL_ACTIVE = LOGICAL_ANCHORS \<union>
     {''EDGE_ROUTER'', ''OLT'', ''AON_SWITCH'', ''AON_CPE'', ''ONT'', ''BUSINESS_ONT''}"

definition OPTICAL_EDGE_CLASSES :: "string set" where
  "OPTICAL_EDGE_CLASSES = {''optical_segment'', ''optical_termination''}"

definition LOGICAL_EDGE_CLASSES :: "string set" where
  "LOGICAL_EDGE_CLASSES = {''routed_p2p'', ''access_edge'', ''access_optical_term''}"

definition optical_type :: "string \<Rightarrow> bool" where
  "optical_type t \<longleftrightarrow> t \<in> OPTICAL_ACTIVE \<union> OPTICAL_TERMINATORS \<union> PASSIVE_INLINE_NAMES"

section \<open>Shortest optical path\<close>

text \<open>The dictionary \<^verbatim>\<open>optical_nodes\<close>: a later record with the same id overwrites the type.\<close>

definition optical_nodes :: "device_record list \<Rightarrow> (ident \<times> string) list" where
  "optical_nodes ds = foldl (\<lambda>m d. dict_set (dr_id d) (dr_type d) m) [] (filter (\<lambda>d. optical_type (dr_type d)) ds)"

definition opt_edges :: "device_record list \<Rightarrow> link_record list \<Rightarrow> (ident \<times> ident) list" where
  "opt_edges ds ls =
     (let nodes = fst ` set (optical_nodes ds)
      in concat (map (\<lambda>l. if lr_a_device_id l \<notin> nodes \<or> lr_b_device_id l \<notin> nodes then []
           else [(lr_a_device_id l, lr_b_device_id l), (lr_b_device_id l, lr_a_device_id l)]) ls))"

definition nbrs :: "(ident \<times> ident) list \<Rightarrow> ident \<Rightarrow> ident list" where
  "nbrs es n = sort (remdups (map snd (filter (\<lambda>e. fst e = n) es)))"

type_synonym rank = "nat \<times> ident list"
type_synonym entry = "nat \<times> ident list \<times> ident"

definition heap_min :: "entry list \<Rightarrow> entry" where
  "heap_min h = Min (set h)"

definition heap_rest :: "entry list \<Rightarrow> entry list" where
  "heap_rest h = remove1 (heap_min h) h"

text \<open>\<^verbatim>\<open>heappop\<close> gives \<open>heap_min\<close> and leaves \<open>heap_rest\<close>.\<close>

fun relax :: "nat \<Rightarrow> ident list \<Rightarrow> ident set \<Rightarrow> ident list \<Rightarrow> (ident \<rightharpoonup> rank) \<Rightarrow> entry list
    \<Rightarrow> (ident \<rightharpoonup> rank) \<times> entry list" where
  "relax hops pth visited [] best heap = (best, heap)"
| "relax hops pth visited (nb # ns) best heap =
     (let cand = (hops + 1, pth @ [nb])
      in if nb \<in> visited then relax hops pth visited ns best heap
         else if best nb = None \<or> cand < the (best nb)
         then relax hops pth visited ns (best(nb \<mapsto> cand)) ((hops + 1, pth @ [nb], nb) # heap)
         else relax hops pth visited ns best heap)"

definition entry_nodes :: "entry list \<Rightarrow> ident set" where
  "entry_nodes h = (snd \<circ> snd) ` set h"

lemma heap_pop:
  assumes "h \<noteq> []"
  shows "heap_min h \<in> set h" "\<And>e. e \<in> set h \<Longrightarrow> heap_min h \<le> e" "set (heap_rest h) \<subseteq> set h"
    "length (heap_rest h) < length h" "\<And>e. e \<in> set h \<Longrightarrow> e \<noteq> heap_min h \<Longrightarrow> e \<in> set (heap_rest h)"
proof -
  show m: "heap_min h \<in> set h" using assms by (simp add: heap_min_def)
  then show "length (heap_rest h) < length h" using assms by (simp add: heap_rest_def length_remove1)
  show "set (heap_rest h) \<subseteq> set h" unfolding heap_rest_def by (rule set_remove1_subset)
  show "heap_min h \<le> e" if "e \<in> set h" for e using that by (simp add: heap_min_def)
  show "e \<in> set (heap_rest h)" if "e \<in> set h" "e \<noteq> heap_min h" for e
    using that by (simp add: heap_rest_def in_set_remove1)
qed

lemma entry_nodes_Cons [simp]: "entry_nodes (e # h) = insert (snd (snd e)) (entry_nodes h)"
  by (simp add: entry_nodes_def)

lemma relax_nodes: "entry_nodes (snd (relax d p V ns best h)) \<subseteq> entry_nodes h \<union> set ns"
proof (induction ns arbitrary: best h)
  case (Cons nb ns)
  show ?case
    using Cons.IH [of best h] Cons.IH [of "best(nb \<mapsto> (d + 1, p @ [nb]))" "(d + 1, p @ [nb], nb) # h"]
    by (auto simp: Let_def simp del: fun_upd_apply)
qed simp

lemma nbrs_set: "set (nbrs es n) = {m. (n, m) \<in> set es}"
  by (force simp: nbrs_def)

function spath_loop :: "(ident \<times> ident) list \<Rightarrow> ident \<Rightarrow> ident set \<Rightarrow> entry list \<Rightarrow> ident set
    \<Rightarrow> (ident \<rightharpoonup> rank) \<Rightarrow> rank list \<Rightarrow> rank list" where
  "spath_loop es src goals heap visited best targets =
     (if heap = [] then targets
      else let hops = fst (heap_min heap); pth = fst (snd (heap_min heap)); node = snd (snd (heap_min heap))
           in if node \<in> visited then spath_loop es src goals (heap_rest heap) visited best targets
              else let r = relax hops pth (insert node visited) (nbrs es node) best (heap_rest heap)
                   in spath_loop es src goals (snd r) (insert node visited) (fst r)
                        (if node \<noteq> src \<and> node \<in> goals then targets @ [(hops, pth)] else targets))"
  by pat_completeness auto
termination
proof (relation "measures [\<lambda>(es, src, goals, h, V, b, t). card ((snd ` set es \<union> entry_nodes h) - V),
    \<lambda>(es, src, goals, h, V, b, t). length h]", goal_cases)
  case (2 es src goals heap visited best targets)
  note pop = heap_pop [OF 2(1)]
  have "entry_nodes (heap_rest heap) \<subseteq> entry_nodes heap" using pop(3) by (auto simp: entry_nodes_def)
  then have "card (snd ` set es \<union> entry_nodes (heap_rest heap) - visited) \<le> card (snd ` set es \<union> entry_nodes heap - visited)"
    by (intro card_mono) (auto simp: entry_nodes_def)
  then show ?case using pop(4) by auto
next
  case (3 es src goals heap visited best targets hops pth node r)
  note pop = heap_pop [OF 3(1)]
  have sub: "snd ` set es \<union> entry_nodes (snd r) - insert node visited \<subset> snd ` set es \<union> entry_nodes heap - visited"
  proof
    have "entry_nodes (snd r) \<subseteq> entry_nodes (heap_rest heap) \<union> snd ` set es"
      using relax_nodes [of hops pth "insert node visited" "nbrs es node" best "heap_rest heap"] 3(6)
      by (force simp: nbrs_set)
    moreover have "entry_nodes (heap_rest heap) \<subseteq> entry_nodes heap" using pop(3) by (auto simp: entry_nodes_def)
    ultimately show "snd ` set es \<union> entry_nodes (snd r) - insert node visited \<subseteq> snd ` set es \<union> entry_nodes heap - visited"
      by auto
    have "node \<in> entry_nodes heap" using pop(1) 3(4) by (force simp: entry_nodes_def)
    then show "snd ` set es \<union> entry_nodes (snd r) - insert node visited \<noteq> snd ` set es \<union> entry_nodes heap - visited"
      using 3(5) by blast
  qed
  have "card (snd ` set es \<union> entry_nodes (snd r) - insert node visited) < card (snd ` set es \<union> entry_nodes heap - visited)"
    using sub by (intro psubset_card_mono) (auto simp: entry_nodes_def)
  then show ?case by simp
qed simp

declare spath_loop.simps [simp del]

definition shortest_optical_path ::
    "device_record list \<Rightarrow> link_record list \<Rightarrow> ident \<Rightarrow> ident set \<Rightarrow> ident list option" where
  "shortest_optical_path ds ls src goals =
     (if src \<notin> fst ` set (optical_nodes ds) then None
      else let targets = spath_loop (opt_edges ds ls) src goals [(0, [src], src)] {} [src \<mapsto> (0, [src])] []
           in if targets = [] then None else Some (snd (hd (sort targets))))"

section \<open>Paths and their ranks\<close>

definition opath :: "(ident \<times> ident) list \<Rightarrow> ident \<Rightarrow> ident list \<Rightarrow> bool" where
  "opath es src p \<longleftrightarrow> p \<noteq> [] \<and> hd p = src \<and> successively (\<lambda>x y. (x, y) \<in> set es) p"

definition rank_of :: "ident list \<Rightarrow> rank" where
  "rank_of p = (length p - 1, p)"

definition least_path :: "(ident \<times> ident) list \<Rightarrow> ident \<Rightarrow> ident \<Rightarrow> rank \<Rightarrow> bool" where
  "least_path es src n r \<longleftrightarrow> opath es src (snd r) \<and> last (snd r) = n \<and> r = rank_of (snd r) \<and>
     (\<forall>q. opath es src q \<longrightarrow> last q = n \<longrightarrow> r \<le> rank_of q)"

lemma same_length_append_le:
  "length p = length q \<Longrightarrow> (p :: ident list) \<le> q \<Longrightarrow> p @ r \<le> q @ r"
proof (induction p q rule: list_induct2)
  case (Cons x p y q)
  then show ?case by (auto simp: Cons_le_Cons)
qed simp

lemma rank_extend:
  assumes "p \<noteq> []" "q \<noteq> []" "rank_of p \<le> rank_of q"
  shows "rank_of (p @ [y]) \<le> rank_of (q @ [y])"
proof -
  from assms have "length p < length q \<or> length p = length q \<and> p \<le> q"
    by (cases p; cases q) (auto simp: rank_of_def)
  then show ?thesis by (auto simp: rank_of_def intro: same_length_append_le)
qed

lemma rank_prefix: "0 < k \<Longrightarrow> k \<le> length q \<Longrightarrow> rank_of (take k q) \<le> rank_of q"
  by (cases "k = length q") (auto simp: rank_of_def)

lemma opath_take: "opath es src q \<Longrightarrow> 0 < k \<Longrightarrow> opath es src (take k q)"
  unfolding opath_def
  by (metis append_take_drop_id bot_nat_0.not_eq_extremum hd_take successively_append_iff take_eq_Nil)

lemma opath_snoc: "opath es src p \<Longrightarrow> (last p, y) \<in> set es \<Longrightarrow> opath es src (p @ [y])"
  by (auto simp: opath_def successively_append_iff)

lemma opath_single: "opath es src [src]"
  by (simp add: opath_def)

lemma opath_rank_src: "opath es src q \<Longrightarrow> rank_of [src] \<le> rank_of q"
  using rank_prefix [of 1 q] by (cases q) (auto simp: opath_def)

lemma opath_edge: "opath es src q \<Longrightarrow> Suc i < length q \<Longrightarrow> (q ! i, q ! Suc i) \<in> set es"
  by (simp add: opath_def successively_conv_nth)

section \<open>Relaxing the neighbours\<close>

definition improves :: "(ident \<rightharpoonup> rank) \<Rightarrow> nat \<Rightarrow> ident list \<Rightarrow> ident \<Rightarrow> bool" where
  "improves best hops p m \<longleftrightarrow> best m = None \<or> (hops + 1, p @ [m]) < the (best m)"

lemma relax_spec:
  assumes "distinct ns"
  shows "fst (relax hops p V ns best h) =
      (\<lambda>m. if m \<in> set ns \<and> m \<notin> V \<and> improves best hops p m then Some (hops + 1, p @ [m]) else best m) \<and>
    set (snd (relax hops p V ns best h)) =
      set h \<union> (\<lambda>m. (hops + 1, p @ [m], m)) ` {m \<in> set ns. m \<notin> V \<and> improves best hops p m}"
  using assms
proof (induction ns arbitrary: best h)
  case (Cons nb ns)
  show ?case
  proof (cases "nb \<notin> V \<and> improves best hops p nb")
    case True
    define b where "b = best(nb \<mapsto> (hops + 1, p @ [nb]))"
    define h1 where "h1 = (hops + 1, p @ [nb], nb) # h"
    have b: "b nb = Some (hops + 1, p @ [nb])" "\<And>m. m \<noteq> nb \<Longrightarrow> b m = best m" by (simp_all add: b_def)
    have imp: "m \<in> set ns \<Longrightarrow> improves b hops p m = improves best hops p m" for m
      using Cons.prems b(2) unfolding improves_def by (metis distinct.simps(2))
    have step: "relax hops p V (nb # ns) best h = relax hops p V ns b h1"
      using True by (simp add: Let_def improves_def b_def h1_def)
    have IH: "fst (relax hops p V ns b h1) m = (if m \<in> set ns \<and> m \<notin> V \<and> improves b hops p m then Some (hops + 1, p @ [m]) else b m)"
      "set (snd (relax hops p V ns b h1)) = set h1 \<union> (\<lambda>m. (hops + 1, p @ [m], m)) ` {m \<in> set ns. m \<notin> V \<and> improves b hops p m}" for m
      using Cons.IH [of b h1] Cons.prems by simp_all
    have "fst (relax hops p V ns b h1) m = (if m \<in> set (nb # ns) \<and> m \<notin> V \<and> improves best hops p m
        then Some (hops + 1, p @ [m]) else best m)" for m
      using Cons.prems True imp [of m] b by (cases "m = nb") (auto simp: IH(1))
    moreover have "{m \<in> set (nb # ns). m \<notin> V \<and> improves best hops p m} =
        insert nb {m \<in> set ns. m \<notin> V \<and> improves b hops p m}" using True imp by auto
    ultimately show ?thesis unfolding step IH(2) by (auto simp: h1_def)
  next
    case False
    then have step: "relax hops p V (nb # ns) best h = relax hops p V ns best h"
      by (auto simp: Let_def improves_def)
    have "{m \<in> set (nb # ns). m \<notin> V \<and> improves best hops p m} = {m \<in> set ns. m \<notin> V \<and> improves best hops p m}"
      using False by auto
    moreover have "(m \<in> set (nb # ns) \<and> m \<notin> V \<and> improves best hops p m) = (m \<in> set ns \<and> m \<notin> V \<and> improves best hops p m)" for m
      using False by auto
    ultimately show ?thesis unfolding step using Cons.IH [of best h] Cons.prems by simp
  qed
qed simp

section \<open>Dijkstra's invariant\<close>

definition dinv :: "(ident \<times> ident) list \<Rightarrow> ident \<Rightarrow> ident set \<Rightarrow> entry list \<Rightarrow> ident set \<Rightarrow> (ident \<rightharpoonup> rank) \<Rightarrow> rank list \<Rightarrow> bool" where
  "dinv es src goals h V best targets \<longleftrightarrow>
     (\<forall>d p n. (d, p, n) \<in> set h \<longrightarrow> opath es src p \<and> last p = n \<and> d = length p - 1 \<and>
        (n \<in> V \<or> (\<exists>r. best n = Some r \<and> r \<le> (d, p)))) \<and>
     (\<forall>v \<in> V. \<exists>r. best v = Some r \<and> least_path es src v r \<and>
        (\<forall>m. (v, m) \<in> set es \<longrightarrow> m \<notin> V \<longrightarrow> (\<exists>k. best m = Some k \<and> k \<le> (fst r + 1, snd r @ [m])))) \<and>
     (\<forall>n d p. n \<notin> V \<longrightarrow> best n = Some (d, p) \<longrightarrow> (d, p, n) \<in> set h) \<and>
     (src \<in> V \<or> best src = Some (0, [src])) \<and>
     set targets = {r. \<exists>v \<in> V. v \<noteq> src \<and> v \<in> goals \<and> best v = Some r}"

lemma dinvD:
  assumes "dinv es src goals h V best targets"
  shows "(d, p, n) \<in> set h \<Longrightarrow> opath es src p \<and> last p = n \<and> d = length p - 1 \<and>
       (n \<in> V \<or> (\<exists>r. best n = Some r \<and> r \<le> (d, p)))"
    and "v \<in> V \<Longrightarrow> \<exists>r. best v = Some r \<and> least_path es src v r \<and>
       (\<forall>m. (v, m) \<in> set es \<longrightarrow> m \<notin> V \<longrightarrow> (\<exists>k. best m = Some k \<and> k \<le> (fst r + 1, snd r @ [m])))"
    and "n \<notin> V \<Longrightarrow> best n = Some (d, p) \<Longrightarrow> (d, p, n) \<in> set h"
    and "src \<in> V \<or> best src = Some (0, [src])"
    and "set targets = {r. \<exists>v \<in> V. v \<noteq> src \<and> v \<in> goals \<and> best v = Some r}"
  using assms unfolding dinv_def by blast+

lemma dinv_init: "dinv es src goals [(0, [src], src)] {} [src \<mapsto> (0, [src])] []"
  by (auto simp: dinv_def opath_single split: if_splits)

text \<open>The least entry of the heap, if its node is new, carries the least path to that node.\<close>

lemma heap_min_least:
  assumes inv: "dinv es src goals h V best targets" and h: "h \<noteq> []" and m: "heap_min h = (d, p, n)" and n: "n \<notin> V"
  shows "least_path es src n (d, p) \<and> best n = Some (d, p)"
proof -
  have "(d, p, n) \<in> set h" using heap_pop(1) [OF h] m by simp
  from dinvD(1) [OF inv this] n have e: "opath es src p" "last p = n" "d = length p - 1"
    and b: "\<exists>r. best n = Some r \<and> r \<le> (d, p)" by blast+
  have min: "(d, p) \<le> (d', p')" if "n' \<notin> V" "best n' = Some (d', p')" for n' d' p'
  proof -
    have "(d', p', n') \<in> set h" using that by (rule dinvD(3) [OF inv])
    from heap_pop(2) [OF h this] m show ?thesis by auto
  qed
  have "(d, p) \<le> rank_of q" if q: "opath es src q" "last q = n" for q
  proof -
    have "\<exists>i < length q. q ! i \<notin> V" using q n by (metis last_conv_nth opath_def diff_less length_greater_0_conv zero_less_one)
    define i where "i = (LEAST i. i < length q \<and> q ! i \<notin> V)"
    have i: "i < length q" "q ! i \<notin> V" using LeastI_ex [OF \<open>\<exists>i < length q. q ! i \<notin> V\<close>] by (simp_all add: i_def)
    have before: "q ! j \<in> V" if "j < i" for j
      using not_less_Least [of j "\<lambda>i. i < length q \<and> q ! i \<notin> V"] that i(1) unfolding i_def by auto
    show ?thesis
    proof (cases i)
      case 0
      then have "src \<notin> V" using i q(1) by (simp add: opath_def hd_conv_nth)
      then have "best src = Some (0, [src])" using dinvD(4) [OF inv] by blast
      from min [OF \<open>src \<notin> V\<close> this] have "(d, p) \<le> rank_of [src]" by (simp add: rank_of_def)
      also note opath_rank_src [OF q(1)]
      finally show ?thesis .
    next
      case (Suc j)
      let ?x = "q ! j" and ?y = "q ! i"
      from before Suc have "?x \<in> V" by simp
      then obtain r where r: "least_path es src ?x r"
        "\<And>m. (?x, m) \<in> set es \<Longrightarrow> m \<notin> V \<Longrightarrow> \<exists>k. best m = Some k \<and> k \<le> (fst r + 1, snd r @ [m])"
        using dinvD(2) [OF inv] by blast
      have "(?x, ?y) \<in> set es" using opath_edge [OF q(1)] i(1) Suc by simp
      from r(2) [OF this i(2)] obtain k where k: "best ?y = Some k" "k \<le> (fst r + 1, snd r @ [?y])" by blast
      have "(d, p) \<le> k" using min [OF i(2)] k(1) by (cases k) simp
      also note k(2)
      also have "(fst r + 1, snd r @ [?y]) = rank_of (snd r @ [?y])"
        using r(1) by (cases "snd r") (auto simp: least_path_def rank_of_def opath_def)
      also have "\<dots> \<le> rank_of (take i q @ [?y])"
      proof (rule rank_extend)
        have "opath es src (take i q)" using opath_take [OF q(1)] Suc by simp
        moreover have "take i q \<noteq> []" "length (take i q) = i" using i(1) Suc by auto
        then have "last (take i q) = ?x" using Suc by (simp add: last_conv_nth)
        ultimately show "rank_of (snd r) \<le> rank_of (take i q)" using r(1) unfolding least_path_def by metis
        show "snd r \<noteq> []" using r(1) by (auto simp: least_path_def opath_def)
        show "take i q \<noteq> []" using i(1) Suc by auto
      qed
      also have "take i q @ [?y] = take (Suc i) q" using i(1) by (simp add: take_Suc_conv_app_nth)
      also have "rank_of (take (Suc i) q) \<le> rank_of q" using i(1) by (intro rank_prefix) auto
      finally show ?thesis .
    qed
  qed
  moreover have "(d, p) = rank_of p" using e by (simp add: rank_of_def)
  ultimately have "least_path es src n (d, p)" unfolding least_path_def snd_conv using e(1,2) by blast
  moreover from b obtain r where "best n = Some r" "r \<le> (d, p)" by blast
  with min [OF n, of "fst r" "snd r"] have "best n = Some (d, p)" by simp
  ultimately show ?thesis by blast
qed

lemma least_unique: "least_path es src n r \<Longrightarrow> least_path es src n r' \<Longrightarrow> r = r'"
  unfolding least_path_def by (metis order_antisym)

lemma dinv_skip:
  assumes "dinv es src goals h V best targets" "h \<noteq> []" "snd (snd (heap_min h)) \<in> V"
  shows "dinv es src goals (heap_rest h) V best targets"
proof -
  note pop = heap_pop [OF assms(2)]
  have keep: "(d, p, n) \<in> set (heap_rest h)" if "(d, p, n) \<in> set h" "n \<notin> V" for d p n
    by (rule pop(5) [OF that(1)]) (use that(2) assms(3) in \<open>metis snd_conv\<close>)
  have sub: "(d, p, n) \<in> set h" if "(d, p, n) \<in> set (heap_rest h)" for d p n using that pop(3) by blast
  show ?thesis
    unfolding dinv_def
  proof (intro conjI allI ballI impI)
    fix d p n assume e: "(d, p, n) \<in> set (heap_rest h)"
    from dinvD(1) [OF assms(1) sub [OF e]]
    show "opath es src p" "last p = n" "d = length p - 1" "n \<in> V \<or> (\<exists>r. best n = Some r \<and> r \<le> (d, p))" by blast+
  next
    fix n d p assume "n \<notin> V" "best n = Some (d, p)"
    then show "(d, p, n) \<in> set (heap_rest h)" using keep dinvD(3) [OF assms(1)] by blast
  qed (use dinvD(2,4,5) [OF assms(1)] in blast)+
qed

lemma dinv_step:
  assumes inv: "dinv es src goals h V best targets" and h: "h \<noteq> []" and m: "heap_min h = (d, p, n)" and n: "n \<notin> V"
    and r: "r = relax d p (insert n V) (nbrs es n) best (heap_rest h)"
  shows "dinv es src goals (snd r) (insert n V) (fst r)
     (if n \<noteq> src \<and> n \<in> goals then targets @ [(d, p)] else targets)"
proof -
  note pop = heap_pop [OF h] and lst = heap_min_least [OF inv h m n]
  define V' where "V' = insert n V"
  have "distinct (nbrs es n)" by (simp add: nbrs_def)
  from relax_spec [OF this, of d p V' best "heap_rest h"]
  have best': "fst r = (\<lambda>k. if (n, k) \<in> set es \<and> k \<notin> V' \<and> improves best d p k then Some (d + 1, p @ [k]) else best k)"
    and heap': "set (snd r) = set (heap_rest h) \<union> (\<lambda>k. (d + 1, p @ [k], k)) ` {k. (n, k) \<in> set es \<and> k \<notin> V' \<and> improves best d p k}"
    by (simp_all add: r V'_def nbrs_set)
  have old: "fst r k = best k" if "k \<in> V'" for k using that by (simp add: best')
  have le: "\<exists>x. fst r k = Some x \<and> x \<le> y" if "best k = Some y" for k y
    using that by (cases y) (auto simp: best' improves_def less_imp_le)
  have new: "\<exists>x. fst r k = Some x \<and> x \<le> (d + 1, p @ [k])" if "(n, k) \<in> set es" "k \<notin> V'" for k
    using that by (auto simp: best' improves_def)
  have path: "opath es src p" "last p = n" "d = length p - 1" "p \<noteq> []"
    using lst by (auto simp: least_path_def rank_of_def opath_def)
  have pnew: "opath es src (p @ [k]) \<and> last (p @ [k]) = k \<and> d + 1 = length (p @ [k]) - 1" if "(n, k) \<in> set es" for k
    using opath_snoc [OF path(1)] that path by (cases p) auto
  have A: "opath es src p' \<and> last p' = n' \<and> d' = length p' - 1 \<and> (n' \<in> V' \<or> (\<exists>x. fst r n' = Some x \<and> x \<le> (d', p')))"
    if e: "(d', p', n') \<in> set (snd r)" for d' p' n'
  proof (cases "(d', p', n') \<in> set (heap_rest h)")
    case True
    then have "(d', p', n') \<in> set h" using pop(3) by auto
    from dinvD(1) [OF inv this] have p': "opath es src p'" "last p' = n'" "d' = length p' - 1"
      and "n' \<in> V \<or> (\<exists>x. best n' = Some x \<and> x \<le> (d', p'))" by blast+
    then have "n' \<in> V' \<or> (\<exists>x. fst r n' = Some x \<and> x \<le> (d', p'))"
      using le order_trans unfolding V'_def by blast
    with p' show ?thesis by blast
  next
    case False
    with e have "(n, n') \<in> set es" "n' \<notin> V'" "d' = d + 1" "p' = p @ [n']" by (auto simp: heap')
    with pnew new show ?thesis by auto
  qed
  have B: "\<exists>x. fst r v = Some x \<and> least_path es src v x \<and>
      (\<forall>k. (v, k) \<in> set es \<longrightarrow> k \<notin> V' \<longrightarrow> (\<exists>y. fst r k = Some y \<and> y \<le> (fst x + 1, snd x @ [k])))" if v: "v \<in> V'" for v
  proof (cases "v = n")
    case True
    with lst new old [OF v] show ?thesis by auto
  next
    case False
    then have "v \<in> V" using v by (simp add: V'_def)
    from dinvD(2) [OF inv this] obtain x where x: "best v = Some x" "least_path es src v x"
      "\<And>k. (v, k) \<in> set es \<Longrightarrow> k \<notin> V \<Longrightarrow> \<exists>y. best k = Some y \<and> y \<le> (fst x + 1, snd x @ [k])" by blast
    have "\<exists>y. fst r k = Some y \<and> y \<le> (fst x + 1, snd x @ [k])" if k: "(v, k) \<in> set es" "k \<notin> V'" for k
    proof -
      from x(3) [OF k(1)] k(2) obtain y where y: "best k = Some y" "y \<le> (fst x + 1, snd x @ [k])" by (auto simp: V'_def)
      from le [OF y(1)] y(2) show ?thesis using order_trans by blast
    qed
    with x(1,2) old [OF v] show ?thesis by auto
  qed
  have C: "(d', p', n') \<in> set (snd r)" if "n' \<notin> V'" "fst r n' = Some (d', p')" for n' d' p'
  proof (cases "(n, n') \<in> set es \<and> improves best d p n'")
    case True
    with that show ?thesis by (auto simp: best' heap')
  next
    case False
    with that have "best n' = Some (d', p')" "n' \<notin> V" by (auto simp: best' V'_def split: if_splits)
    then have "(d', p', n') \<in> set h" by (intro dinvD(3) [OF inv])
    moreover have "(d', p', n') \<noteq> heap_min h" using that(1) m by (simp add: V'_def)
    ultimately show ?thesis using pop(5) by (auto simp: heap')
  qed
  have D: "src \<in> V' \<or> fst r src = Some (0, [src])"
  proof (cases "src \<in> V'")
    case False
    then have "best src = Some (0, [src])" using dinvD(4) [OF inv] unfolding V'_def by blast
    moreover have "\<not> (d + 1, p @ [src]) < (0, [src])" by simp
    ultimately show ?thesis by (simp add: best' improves_def)
  qed simp
  have E: "set (if n \<noteq> src \<and> n \<in> goals then targets @ [(d, p)] else targets) =
      {x. \<exists>v \<in> V'. v \<noteq> src \<and> v \<in> goals \<and> fst r v = Some x}"
  proof -
    have eq: "fst r v = best v" if "v \<in> insert n V" for v using old that by (simp add: V'_def)
    show ?thesis using lst eq unfolding V'_def by (auto simp: dinvD(5) [OF inv])
  qed
  show ?thesis
    unfolding dinv_def V'_def [symmetric]
  proof (intro conjI allI ballI impI)
    fix d' p' n' assume "(d', p', n') \<in> set (snd r)"
    from A [OF this] show "opath es src p'" "last p' = n'" "d' = length p' - 1"
      "n' \<in> V' \<or> (\<exists>x. fst r n' = Some x \<and> x \<le> (d', p'))" by blast+
  qed (fact B C D E)+
qed

text \<open>When the heap is empty, every reachable node has its least path, and the targets are the least
  paths to the goals.\<close>

lemma dinv_reach:
  assumes inv: "dinv es src goals [] V best targets" and q: "opath es src q"
  shows "last q \<in> V"
proof -
  have none: "best n = None" if "n \<notin> V" for n using dinvD(3) [OF inv that] by (cases "best n") auto
  have src: "src \<in> V" using dinvD(4) [OF inv] none by fastforce
  have closed: "m \<in> V" if "v \<in> V" "(v, m) \<in> set es" for v m
    using dinvD(2) [OF inv that(1)] that(2) none by force
  show ?thesis
    using q
  proof (induction q rule: rev_induct)
    case (snoc y q)
    show ?case
    proof (cases "q = []")
      case False
      with snoc have "opath es src q" "(last q, y) \<in> set es" by (auto simp: opath_def successively_append_iff)
      with snoc.IH closed show ?thesis by auto
    qed (use snoc src in \<open>auto simp: opath_def\<close>)
  qed (simp add: opath_def)
qed

lemma dinv_done:
  assumes inv: "dinv es src goals [] V best targets"
  shows "set targets = {r. \<exists>v \<in> goals - {src}. least_path es src v r}"
proof -
  have "best v = Some r \<longleftrightarrow> least_path es src v r" if "v \<in> V" for v r
  proof -
    from dinvD(2) [OF inv that] obtain r0 where r0: "best v = Some r0" "least_path es src v r0" by blast
    show ?thesis using r0(1) least_unique [OF r0(2), of r] r0(2) by auto
  qed
  moreover have "v \<in> V" if "least_path es src v r" for v r
    using that dinv_reach [OF inv] by (auto simp: least_path_def)
  ultimately show ?thesis unfolding dinvD(5) [OF inv] by blast
qed

lemma spath_loop_ends:
  "dinv es src goals h V best targets \<Longrightarrow>
   \<exists>V' best'. dinv es src goals [] V' best' (spath_loop es src goals h V best targets)"
proof (induction es src goals h V best targets rule: spath_loop.induct)
  case (1 es src goals h V best targets)
  show ?case
  proof (cases "h = []")
    case True
    with 1(3) show ?thesis by (auto simp: spath_loop.simps)
  next
    case False
    obtain d p n where m: "heap_min h = (d, p, n)" by (cases "heap_min h") auto
    show ?thesis
    proof (cases "n \<in> V")
      case True
      with False m have "spath_loop es src goals h V best targets = spath_loop es src goals (heap_rest h) V best targets"
        by (simp add: spath_loop.simps [of es src goals h])
      with 1(1) [OF False refl refl refl] dinv_skip [OF 1(3) False] True m show ?thesis by simp
    next
      case nv: False
      with False m have "spath_loop es src goals h V best targets =
          spath_loop es src goals (snd (relax d p (insert n V) (nbrs es n) best (heap_rest h))) (insert n V)
            (fst (relax d p (insert n V) (nbrs es n) best (heap_rest h)))
            (if n \<noteq> src \<and> n \<in> goals then targets @ [(d, p)] else targets)"
        by (simp add: spath_loop.simps [of es src goals h] Let_def)
      with 1(2) [OF False refl refl refl, unfolded m fst_conv snd_conv, OF nv refl]
        dinv_step [OF 1(3) False m nv refl] show ?thesis by (simp only:)
    qed
  qed
qed

section \<open>The result of the search\<close>

text \<open>What the search promises: the least path, by hops and then lexicographically, among all paths
  from the source to a goal other than it.\<close>

definition best_goal_path :: "(ident \<times> ident) list \<Rightarrow> ident \<Rightarrow> ident set \<Rightarrow> ident list \<Rightarrow> bool" where
  "best_goal_path es src goals p \<longleftrightarrow> opath es src p \<and> last p \<in> goals - {src} \<and>
     (\<forall>q. opath es src q \<longrightarrow> last q \<in> goals - {src} \<longrightarrow> rank_of p \<le> rank_of q)"

lemma spath_loop_result:
  fixes es src goals
  defines "ts \<equiv> spath_loop es src goals [(0, [src], src)] {} [src \<mapsto> (0, [src])] []"
  shows "ts = [] \<Longrightarrow> opath es src q \<Longrightarrow> last q \<notin> goals - {src}"
    and "ts \<noteq> [] \<Longrightarrow> best_goal_path es src goals (snd (hd (sort ts)))"
proof -
  obtain V best where inv: "dinv es src goals [] V best ts"
    using spath_loop_ends [OF dinv_init [of es src goals]] unfolding ts_def by blast
  note ts = dinv_done [OF inv]
  have ex: "\<exists>r \<in> set ts. r \<le> rank_of q" if q: "opath es src q" "last q \<in> goals - {src}" for q
  proof -
    from dinvD(2) [OF inv dinv_reach [OF inv q(1)]] obtain r where r: "least_path es src (last q) r" by blast
    moreover from r q(1) have "r \<le> rank_of q" by (auto simp: least_path_def)
    ultimately show ?thesis using q(2) unfolding ts by blast
  qed
  then show "ts = [] \<Longrightarrow> opath es src q \<Longrightarrow> last q \<notin> goals - {src}" by fastforce
  assume ne: "ts \<noteq> []"
  let ?r = "hd (sort ts)"
  have "?r \<in> set ts" using hd_sort_key_in [OF ne] .
  then obtain v where v: "v \<in> goals - {src}" "least_path es src v ?r" unfolding ts by blast
  have "?r \<le> r" if "r \<in> set ts" for r using hd_sort_key_le [OF that, of "\<lambda>x. x"] by simp
  with ex have "?r \<le> rank_of q" if "opath es src q" "last q \<in> goals - {src}" for q
    using that order_trans by blast
  moreover have "?r = rank_of (snd ?r)" using v(2) unfolding least_path_def by blast
  ultimately show "best_goal_path es src goals (snd ?r)"
    using v unfolding best_goal_path_def least_path_def by metis
qed

lemma shortest_optical_path_cases:
  shows "shortest_optical_path ds ls src goals = Some p \<Longrightarrow>
      src \<in> fst ` set (optical_nodes ds) \<and> best_goal_path (opt_edges ds ls) src goals p"
    and "shortest_optical_path ds ls src goals = None \<Longrightarrow>
      src \<notin> fst ` set (optical_nodes ds) \<or> (\<forall>q. opath (opt_edges ds ls) src q \<longrightarrow> last q \<notin> goals - {src})"
  using spath_loop_result [of "opt_edges ds ls" src goals]
  by (auto simp: shortest_optical_path_def Let_def split: if_splits)

section \<open>The graph builders\<close>

definition add_optical_link :: "'g nx \<Rightarrow> 'g \<Rightarrow> link_record \<Rightarrow> 'g" where
  "add_optical_link nx g l =
     (let a = lr_a_device_id l; b = lr_b_device_id l
      in if a \<notin> nx_nodes nx g \<or> b \<notin> nx_nodes nx g then g
         else if lr_kind l \<in> OPTICAL_EDGE_CLASSES
         then nx_add_edge nx g a b
                (no_attrs\<lparr>ea_id := Some (lr_id l), ea_class := Some (lr_kind l),
                          ea_link_loss_db := lr_link_loss_db l\<rparr>)
         else if lr_kind l = ''FIBER''
         then let pair = {nx_node_type nx g a, nx_node_type nx g b}
              in if ''OLT'' \<in> pair \<and> (''ONT'' \<in> pair \<or> ''BUSINESS_ONT'' \<in> pair) \<or>
                    pair \<subseteq> OPTICAL_ACTIVE \<union> OPTICAL_TERMINATORS \<union> PASSIVE_INLINE_NAMES
                 then nx_add_edge nx g a b
                        (no_attrs\<lparr>ea_id := Some (lr_id l), ea_class := Some ''optical_segment''\<rparr>)
                 else g
         else g)"

definition add_device_nodes :: "'g nx \<Rightarrow> (string \<Rightarrow> bool) \<Rightarrow> device_record list \<Rightarrow> 'g" where
  "add_device_nodes nx keep ds =
     foldl (\<lambda>g d. if keep (dr_type d) then nx_add_node nx g (dr_id d) (dr_type d) else g) (nx_Graph nx) ds"

definition build_optical_graph :: "'g nx \<Rightarrow> device_record list \<Rightarrow> link_record list \<Rightarrow> 'g" where
  "build_optical_graph nx ds ls =
     foldl (add_optical_link nx) (add_device_nodes nx optical_type ds) ls"

definition add_logical_link :: "'g nx \<Rightarrow> 'g \<Rightarrow> link_record \<Rightarrow> 'g" where
  "add_logical_link nx g l =
     (let a = lr_a_device_id l; b = lr_b_device_id l;
          routed = no_attrs\<lparr>ea_id := Some (lr_id l), ea_class := Some ''routed_p2p'', ea_synthetic := Some False\<rparr>
      in if a \<notin> nx_nodes nx g \<or> b \<notin> nx_nodes nx g then g
         else if lr_kind l \<in> LOGICAL_EDGE_CLASSES
         then nx_add_edge nx g a b
                (no_attrs\<lparr>ea_id := Some (lr_id l), ea_class := Some (lr_kind l), ea_synthetic := Some False\<rparr>)
         else if lr_kind l \<in> {''FIBER'', ''P2P''}
         then let pair = {nx_node_type nx g a, nx_node_type nx g b}
              in if lr_kind l = ''FIBER'' \<and> pair \<subseteq> LOGICAL_ACTIVE \<union> LOGICAL_ANCHORS
                 then nx_add_edge nx g a b routed
                 else if lr_kind l = ''P2P'' then nx_add_edge nx g a b routed
                 else g
         else g)"

definition olt_ids :: "device_record list \<Rightarrow> ident set" where
  "olt_ids ds = fst ` set (filter (\<lambda>n. snd n = ''OLT'') (optical_nodes ds))"

definition collapse_step ::
    "'g nx \<Rightarrow> device_record list \<Rightarrow> link_record list \<Rightarrow> 'g \<Rightarrow> ident \<times> string \<Rightarrow> 'g" where
  "collapse_step nx ds ls g node =
     (if snd node \<in> {''ONT'', ''BUSINESS_ONT''}
      then case shortest_optical_path ds ls (fst node) (olt_ids ds) of
             None \<Rightarrow> g
           | Some pth \<Rightarrow>
               if length pth < 2 then g
               else let olt_endpoint = last pth
                    in if fst node \<in> nx_nodes nx g \<and> olt_endpoint \<in> nx_nodes nx g \<and>
                          \<not> nx_has_edge nx g (fst node) olt_endpoint
                       then nx_add_edge nx g (fst node) olt_endpoint
                              (no_attrs\<lparr>ea_id := Some (''collapsed_optical:'' @ fst node @ ''->'' @ olt_endpoint),
                                 ea_class := Some ''access_optical_term'', ea_synthetic := Some True\<rparr>)
                       else g
      else g)"

definition relaxed_step :: "'g nx \<Rightarrow> ident \<Rightarrow> 'g \<Rightarrow> ident \<times> string \<Rightarrow> 'g" where
  "relaxed_step nx core_anchor g node =
     (if snd node \<in> {''OLT'', ''AON_SWITCH''} \<and> \<not> nx_has_edge nx g (fst node) core_anchor
      then nx_add_edge nx g (fst node) core_anchor
             (no_attrs\<lparr>ea_id := Some (''synthetic:'' @ fst node @ ''->'' @ core_anchor),
                ea_class := Some ''synthetic_relaxed'', ea_synthetic := Some True\<rparr>)
      else g)"

definition core_ids :: "(ident \<times> string) list \<Rightarrow> ident list" where
  "core_ids nodes = sort (map fst (filter (\<lambda>n. snd n = ''CORE_ROUTER'') nodes))"

definition build_logical_graph :: "'g nx \<Rightarrow> device_record list \<Rightarrow> link_record list \<Rightarrow> bool \<Rightarrow> 'g" where
  "build_logical_graph nx ds ls relaxed =
     (let g1 = foldl (add_logical_link nx) (add_device_nodes nx (\<lambda>t. t \<in> LOGICAL_ACTIVE) ds) ls;
          g2 = (if olt_ids ds \<noteq> {} then foldl (collapse_step nx ds ls) g1 (optical_nodes ds) else g1)
      in if relaxed
         then case core_ids (nx_nodes_data nx g2) of
                [] \<Rightarrow> g2
              | core_anchor # _ \<Rightarrow> foldl (relaxed_step nx core_anchor) g2 (nx_nodes_data nx g2)
         else g2)"

section \<open>The versioned store\<close>

text \<open>The results of \<^verbatim>\<open>resolve_optical_path\<close>; its \<^verbatim>\<open>lru_cache\<close> is a field of the store, since
  \<^verbatim>\<open>bump_version\<close> clears it, with the entry used last at the end.\<close>

record path_segment =
  ps_src :: ident
  ps_dst :: ident
  ps_link_id :: "ident option"
  ps_attenuation_db :: pyfloat

record optical_path_result =
  opr_olt_id :: ident
  opr_total_attenuation_db :: pyfloat
  opr_segments :: "path_segment list"

record 'g pathfinding_store =
  topo_version :: int
  optical_graph :: "'g option"
  logical_graph :: "'g option"
  relaxed_flag_for_logical :: "bool option"
  resolver_cache :: "(ident \<times> optical_path_result option) list"

definition PathfindingStore :: "'g pathfinding_store" where
  "PathfindingStore = \<lparr>topo_version = 0, optical_graph = None, logical_graph = None,
     relaxed_flag_for_logical = None, resolver_cache = []\<rparr>"

definition bump_version :: "'g pathfinding_store \<Rightarrow> 'g pathfinding_store \<times> int" where
  "bump_version s =
     (let s' = \<lparr>topo_version = topo_version s + 1, optical_graph = None, logical_graph = None,
                relaxed_flag_for_logical = None, resolver_cache = []\<rparr>
      in (s', topo_version s'))"

definition get_optical_graph ::
    "'g nx \<Rightarrow> device_record list \<Rightarrow> link_record list \<Rightarrow> 'g pathfinding_store \<Rightarrow> 'g pathfinding_store \<times> int \<times> 'g" where
  "get_optical_graph nx ds ls s =
     (case optical_graph s of
        Some g \<Rightarrow> (s, topo_version s, g)
      | None \<Rightarrow> let g = build_optical_graph nx ds ls
                in (s\<lparr>optical_graph := Some g\<rparr>, topo_version s, g))"

definition get_logical_graph ::
    "'g nx \<Rightarrow> device_record list \<Rightarrow> link_record list \<Rightarrow> bool \<Rightarrow> 'g pathfinding_store
      \<Rightarrow> 'g pathfinding_store \<times> int \<times> 'g" where
  "get_logical_graph nx ds ls relaxed s =
     (if logical_graph s = None \<or> relaxed_flag_for_logical s \<noteq> Some relaxed
      then let g = build_logical_graph nx ds ls relaxed
           in (s\<lparr>logical_graph := Some g, relaxed_flag_for_logical := Some relaxed\<rparr>, topo_version s, g)
      else (s, topo_version s, the (logical_graph s)))"

section \<open>The edges of the logical graph\<close>

definition logical_nodes :: "device_record list \<Rightarrow> (ident \<times> string) list" where
  "logical_nodes ds = foldl (\<lambda>m d. dict_set (dr_id d) (dr_type d) m) []
     (filter (\<lambda>d. dr_type d \<in> LOGICAL_ACTIVE) ds)"

lemma foldl_if_filter:
  "foldl (\<lambda>g d. if P d then f g d else g) a ds = foldl f a (filter P ds)"
  by (induction ds arbitrary: a) auto

lemma foldl_dict_entries:
  "(a, b) \<in> set (foldl (\<lambda>m d. dict_set (dr_id d) (dr_type d) m) m0 ds) \<Longrightarrow>
   (a, b) \<in> set m0 \<or> (\<exists>d \<in> set ds. a = dr_id d \<and> b = dr_type d)"
proof (induction ds arbitrary: m0)
  case (Cons d ds)
  from Cons.IH [of "dict_set (dr_id d) (dr_type d) m0"] Cons.prems show ?case
    using dict_set_entry [of a b "dr_id d" "dr_type d" m0] by auto
qed simp

lemma foldl_dict_keys:
  "fst ` set (foldl (\<lambda>m d. dict_set (dr_id d) (dr_type d) m) m0 ds) = fst ` set m0 \<union> dr_id ` set ds"
  by (induction ds arbitrary: m0) (auto simp: dict_simps)

lemma add_device_nodes_graph:
  assumes nx: "nx_laws nx"
  shows "nx_nodes_data nx (add_device_nodes nx keep ds) =
           foldl (\<lambda>m d. dict_set (dr_id d) (dr_type d) m) [] (filter (\<lambda>d. keep (dr_type d)) ds)"
    and "\<not> nx_has_edge nx (add_device_nodes nx keep ds) u v"
proof -
  let ?f = "\<lambda>g d. nx_add_node nx g (dr_id d) (dr_type d)"
  have "nx_nodes_data nx (foldl ?f g es) = foldl (\<lambda>m d. dict_set (dr_id d) (dr_type d) m) (nx_nodes_data nx g) es \<and>
    nx_get_edge_data nx (foldl ?f g es) u v = nx_get_edge_data nx g u v" for g and es :: "device_record list"
    by (induction es arbitrary: g) (simp_all add: nx_lawsD(1-4) [OF nx])
  then show "nx_nodes_data nx (add_device_nodes nx keep ds) =
      foldl (\<lambda>m d. dict_set (dr_id d) (dr_type d) m) [] (filter (\<lambda>d. keep (dr_type d)) ds)"
    and "\<not> nx_has_edge nx (add_device_nodes nx keep ds) u v"
    unfolding add_device_nodes_def foldl_if_filter nx_has_edge_def by (simp_all add: nx_lawsD(1-4) [OF nx])
qed

text \<open>A pass over a list that keeps the nodes and adds, per element, at most one edge.\<close>

lemma foldl_add_edges:
  assumes "\<And>g x. x \<in> set xs \<Longrightarrow> nx_nodes_data nx g = N \<Longrightarrow> nx_nodes_data nx (f g x) = N \<and>
      (\<forall>u v. nx_has_edge nx (f g x) u v \<longleftrightarrow> nx_has_edge nx g u v \<or> c x u v)"
    and "nx_nodes_data nx g = N"
  shows "nx_nodes_data nx (foldl f g xs) = N \<and>
    (\<forall>u v. nx_has_edge nx (foldl f g xs) u v \<longleftrightarrow> nx_has_edge nx g u v \<or> (\<exists>x \<in> set xs. c x u v))"
  using assms
proof (induction xs arbitrary: g)
  case (Cons x xs)
  note step = Cons.prems(1) [of x g, simplified, OF Cons.prems(2)]
  have "nx_nodes_data nx (foldl f (f g x) xs) = N \<and>
    (\<forall>u v. nx_has_edge nx (foldl f (f g x) xs) u v \<longleftrightarrow> nx_has_edge nx (f g x) u v \<or> (\<exists>x \<in> set xs. c x u v))"
    using step Cons.prems(1) by (intro Cons.IH) auto
  with step show ?case by auto
qed simp

lemma link_edge_graph:
  assumes nx: "nx_laws nx" and N: "nx_nodes_data nx g = logical_nodes ds"
  shows "nx_nodes_data nx (add_logical_link nx g l) = logical_nodes ds \<and>
    (\<forall>u v. nx_has_edge nx (add_logical_link nx g l) u v \<longleftrightarrow> nx_has_edge nx g u v \<or>
       lr_a_device_id l \<in> fst ` set (logical_nodes ds) \<and> lr_b_device_id l \<in> fst ` set (logical_nodes ds) \<and>
       lr_kind l \<in> LOGICAL_EDGE_CLASSES \<union> {''FIBER'', ''P2P''} \<and>
       same_pair (lr_a_device_id l) (lr_b_device_id l) u v)"
proof (cases "lr_a_device_id l \<in> fst ` set (logical_nodes ds) \<and> lr_b_device_id l \<in> fst ` set (logical_nodes ds)")
  case True
  have "nx_node_type nx g n \<in> LOGICAL_ACTIVE" if "n \<in> fst ` set (logical_nodes ds)" for n
  proof -
    from that obtain t where "map_of (logical_nodes ds) n = Some t"
      by (metis domD dom_map_of_conv_image_fst)
    moreover from map_of_SomeD [OF this] have "t \<in> LOGICAL_ACTIVE"
      unfolding logical_nodes_def by (auto dest: foldl_dict_entries)
    ultimately show ?thesis by (simp add: nx_node_type_def N)
  qed
  with True show ?thesis
    using N unfolding add_logical_link_def Let_def
    by (auto simp: nx_nodes_def nx_lawsD(1-6) [OF nx])
next
  case False
  then show ?thesis using N by (auto simp: add_logical_link_def nx_nodes_def Let_def)
qed

lemma optical_nodes_entry: "(n, t) \<in> set (optical_nodes ds) \<Longrightarrow> \<exists>d \<in> set ds. n = dr_id d \<and> t = dr_type d"
  using foldl_dict_entries [of n t "[]" "filter (\<lambda>d. optical_type (dr_type d)) ds"]
  by (auto simp: optical_nodes_def)

lemma optical_logical_node:
  assumes "(n, t) \<in> set (optical_nodes ds)" "t \<in> LOGICAL_ACTIVE"
  shows "n \<in> fst ` set (logical_nodes ds)"
  using optical_nodes_entry [OF assms(1)] assms(2) unfolding logical_nodes_def foldl_dict_keys by auto

lemma olt_ids_logical: "n \<in> olt_ids ds \<Longrightarrow> n \<in> fst ` set (logical_nodes ds)"
  by (auto simp: olt_ids_def LOGICAL_ACTIVE_def intro: optical_logical_node)

lemma best_goal_length: "best_goal_path es src goals p \<Longrightarrow> \<not> length p < 2"
  by (cases p rule: list.exhaust; cases "tl p") (auto simp: best_goal_path_def opath_def)

lemma rank_of_inj: "rank_of p = rank_of q \<Longrightarrow> p = q"
  by (simp add: rank_of_def)

lemma best_goal_unique: "best_goal_path es src goals p \<Longrightarrow> best_goal_path es src goals q \<Longrightarrow> p = q"
  by (rule rank_of_inj) (auto simp: best_goal_path_def intro: order_antisym)

lemma shortest_optical_path_iff:
  assumes "src \<in> fst ` set (optical_nodes ds)"
  shows "shortest_optical_path ds ls src goals = Some p \<longleftrightarrow> best_goal_path (opt_edges ds ls) src goals p"
proof
  assume p: "best_goal_path (opt_edges ds ls) src goals p"
  then have "shortest_optical_path ds ls src goals \<noteq> None"
    using shortest_optical_path_cases(2) [of ds ls src goals] assms by (auto simp: best_goal_path_def)
  then obtain q where q: "shortest_optical_path ds ls src goals = Some q" by blast
  with best_goal_unique [OF p, of q] shortest_optical_path_cases(1) [OF q]
  show "shortest_optical_path ds ls src goals = Some p" by simp
qed (use shortest_optical_path_cases(1) in blast)

definition collapsed_edge :: "device_record list \<Rightarrow> link_record list \<Rightarrow> ident \<times> string \<Rightarrow> ident \<Rightarrow> ident \<Rightarrow> bool" where
  "collapsed_edge ds ls node u v \<longleftrightarrow> snd node \<in> {''ONT'', ''BUSINESS_ONT''} \<and>
     (\<exists>p. best_goal_path (opt_edges ds ls) (fst node) (olt_ids ds) p \<and> same_pair (fst node) (last p) u v)"


lemma collapse_edge_graph:
  assumes nx: "nx_laws nx" and node: "node \<in> set (optical_nodes ds)" and N: "nx_nodes_data nx g = logical_nodes ds"
  shows "nx_nodes_data nx (collapse_step nx ds ls g node) = logical_nodes ds \<and>
    (\<forall>u v. nx_has_edge nx (collapse_step nx ds ls g node) u v \<longleftrightarrow> nx_has_edge nx g u v \<or> collapsed_edge ds ls node u v)"
proof (cases "snd node \<in> {''ONT'', ''BUSINESS_ONT''}")
  case True
  have "(fst node, snd node) \<in> set (optical_nodes ds)" using node by simp
  then have own: "fst node \<in> nx_nodes nx g" "fst node \<in> fst ` set (optical_nodes ds)"
    using optical_logical_node [of "fst node" "snd node" ds] True
    by (auto simp: nx_nodes_def N LOGICAL_ACTIVE_def)
  note iff = shortest_optical_path_iff [OF own(2), of ls "olt_ids ds"]
  show ?thesis
  proof (cases "shortest_optical_path ds ls (fst node) (olt_ids ds)")
    case None
    with iff True N show ?thesis by (auto simp: collapse_step_def collapsed_edge_def)
  next
    case (Some p)
    with iff have p: "best_goal_path (opt_edges ds ls) (fst node) (olt_ids ds) p" by blast
    then have "last p \<in> nx_nodes nx g" using olt_ids_logical by (auto simp: best_goal_path_def nx_nodes_def N)
    moreover have "collapsed_edge ds ls node u v \<longleftrightarrow> same_pair (fst node) (last p) u v" for u v
      using p True best_goal_unique unfolding collapsed_edge_def by blast
    ultimately show ?thesis
      using Some True best_goal_length [OF p] own(1) N nx_lawsD(7) [OF nx]
      by (auto simp: collapse_step_def Let_def nx_lawsD(5,6) [OF nx] same_pair_def)
  qed
qed (use N in \<open>auto simp: collapse_step_def collapsed_edge_def\<close>)

lemma relaxed_edge_graph:
  assumes nx: "nx_laws nx" and node: "node \<in> set N" and core: "core_anchor \<in> fst ` set N" and N: "nx_nodes_data nx g = N"
  shows "nx_nodes_data nx (relaxed_step nx core_anchor g node) = N \<and>
    (\<forall>u v. nx_has_edge nx (relaxed_step nx core_anchor g node) u v \<longleftrightarrow> nx_has_edge nx g u v \<or>
       snd node \<in> {''OLT'', ''AON_SWITCH''} \<and> same_pair (fst node) core_anchor u v)"
  using node core N nx_lawsD(7) [OF nx]
  by (auto simp: relaxed_step_def nx_lawsD(5,6) [OF nx] same_pair_def nx_nodes_def)

text \<open>The edges the code means to have: the links between logical devices, one collapsed edge from
  every ONT to the OLT that ends its least optical path and, when relaxed, an edge from every OLT and
  AON switch to the least core router.\<close>

definition logical_edge :: "device_record list \<Rightarrow> link_record list \<Rightarrow> bool \<Rightarrow> ident \<Rightarrow> ident \<Rightarrow> bool" where
  "logical_edge ds ls relaxed u v \<longleftrightarrow>
     (\<exists>l \<in> set ls. lr_a_device_id l \<in> fst ` set (logical_nodes ds) \<and> lr_b_device_id l \<in> fst ` set (logical_nodes ds) \<and>
        lr_kind l \<in> LOGICAL_EDGE_CLASSES \<union> {''FIBER'', ''P2P''} \<and>
        same_pair (lr_a_device_id l) (lr_b_device_id l) u v) \<or>
     (\<exists>node \<in> set (optical_nodes ds). collapsed_edge ds ls node u v) \<or>
     relaxed \<and> (\<exists>core rest. core_ids (logical_nodes ds) = core # rest \<and>
        (\<exists>node \<in> set (logical_nodes ds). snd node \<in> {''OLT'', ''AON_SWITCH''} \<and> same_pair (fst node) core u v))"

lemma core_ids_sound: "core_ids N = core # rest \<Longrightarrow> core \<in> fst ` set N"
proof -
  assume "core_ids N = core # rest"
  then have "core \<in> set (core_ids N)" by simp
  then show ?thesis by (auto simp: core_ids_def)
qed

lemma collapsed_graph:
  fixes ds ls
  assumes nx: "nx_laws nx"
  defines "g1 \<equiv> foldl (add_logical_link nx) (add_device_nodes nx (\<lambda>t. t \<in> LOGICAL_ACTIVE) ds) ls"
  defines "g2 \<equiv> (if olt_ids ds \<noteq> {} then foldl (collapse_step nx ds ls) g1 (optical_nodes ds) else g1)"
  shows "nx_nodes_data nx g2 = logical_nodes ds \<and>
    (\<forall>u v. nx_has_edge nx g2 u v \<longleftrightarrow> logical_edge ds ls False u v)"
proof -
  note dev = add_device_nodes_graph [OF nx, of "\<lambda>t. t \<in> LOGICAL_ACTIVE" ds]
  note g1 = foldl_add_edges [where nx = nx and N = "logical_nodes ds" and f = "add_logical_link nx" and xs = ls,
    OF link_edge_graph [OF nx] dev(1) [folded logical_nodes_def], folded g1_def]
  show ?thesis
  proof (cases "olt_ids ds = {}")
    case True
    then have "\<not> collapsed_edge ds ls node u v" for node u v by (simp add: collapsed_edge_def best_goal_path_def)
    with True g1 dev(2) show ?thesis by (simp add: g2_def logical_edge_def)
  next
    case False
    note g2 = foldl_add_edges [where nx = nx and N = "logical_nodes ds" and f = "collapse_step nx ds ls" and
      xs = "optical_nodes ds", OF collapse_edge_graph [OF nx] conjunct1 [OF g1]]
    from False g1 g2 dev(2) show ?thesis by (simp add: g2_def logical_edge_def)
  qed
qed

lemma logical_graph_spec:
  assumes nx: "nx_laws nx"
  shows "nx_nodes_data nx (build_logical_graph nx ds ls relaxed) = logical_nodes ds \<and>
    (\<forall>u v. nx_has_edge nx (build_logical_graph nx ds ls relaxed) u v \<longleftrightarrow> logical_edge ds ls relaxed u v)"
proof (cases "relaxed \<and> core_ids (logical_nodes ds) \<noteq> []")
  case True
  then obtain core rest where core: "core_ids (logical_nodes ds) = core # rest" by (cases "core_ids (logical_nodes ds)") auto
  note g2 = collapsed_graph [OF nx, of ds ls]
  note g3 = foldl_add_edges [where nx = nx and N = "logical_nodes ds" and f = "relaxed_step nx core" and
      xs = "logical_nodes ds", OF relaxed_edge_graph [OF nx _ core_ids_sound [OF core]] conjunct1 [OF g2]]
  have "logical_edge ds ls True u v \<longleftrightarrow> logical_edge ds ls False u v \<or>
      (\<exists>node \<in> set (logical_nodes ds). snd node \<in> {''OLT'', ''AON_SWITCH''} \<and> same_pair (fst node) core u v)" for u v
    using core by (auto simp: logical_edge_def)
  with True core g2 g3 show ?thesis unfolding build_logical_graph_def Let_def by simp
next
  case False
  then have "logical_edge ds ls relaxed u v \<longleftrightarrow> logical_edge ds ls False u v" for u v
    by (auto simp: logical_edge_def)
  with False collapsed_graph [OF nx, of ds ls] show ?thesis
    unfolding build_logical_graph_def Let_def by (auto split: list.split)
qed

section \<open>Properties\<close>

text \<open>C13: The hand-written Dijkstra search \<^verbatim>\<open>_shortest_optical_path\<close> returns a path exactly when it is the
  least one, by number of hops and then lexicographically in the device ids, among all paths over
  optical links from the source to a goal other than the source; it returns \<^verbatim>\<open>None\<close> exactly when no
  such path exists.\<close>

theorem shortest_optical_path_correct:
  assumes "src \<in> fst ` set (optical_nodes ds)"
  shows "(shortest_optical_path ds ls src goals = Some p \<longleftrightarrow> best_goal_path (opt_edges ds ls) src goals p) \<and>
    (shortest_optical_path ds ls src goals = None \<longleftrightarrow>
       \<not> (\<exists>q. opath (opt_edges ds ls) src q \<and> last q \<in> goals - {src}))"
proof (intro conjI iffI notI)
  assume "shortest_optical_path ds ls src goals = None" "\<exists>q. opath (opt_edges ds ls) src q \<and> last q \<in> goals - {src}"
  with shortest_optical_path_cases(2) assms show False by blast
next
  assume none: "\<not> (\<exists>q. opath (opt_edges ds ls) src q \<and> last q \<in> goals - {src})"
  show "shortest_optical_path ds ls src goals = None"
  proof (cases "shortest_optical_path ds ls src goals")
    case (Some q)
    from shortest_optical_path_cases(1) [OF this] none show ?thesis by (auto simp: best_goal_path_def)
  qed
qed (simp_all add: shortest_optical_path_iff [OF assms])

definition sample_devices :: "device_record list" where
  "sample_devices = [\<lparr>dr_id = ''o1'', dr_type = ''OLT''\<rparr>, \<lparr>dr_id = ''s'', dr_type = ''SPLITTER''\<rparr>,
     \<lparr>dr_id = ''n1'', dr_type = ''ONT''\<rparr>, \<lparr>dr_id = ''c'', dr_type = ''CORE_ROUTER''\<rparr>]"

definition sample_links :: "link_record list" where
  "sample_links =
     [\<lparr>lr_id = ''l1'', lr_a_device_id = ''o1'', lr_b_device_id = ''s'', lr_kind = ''FIBER'', lr_link_loss_db = None\<rparr>,
      \<lparr>lr_id = ''l2'', lr_a_device_id = ''n1'', lr_b_device_id = ''s'', lr_kind = ''FIBER'', lr_link_loss_db = None\<rparr>]"

theorem shortest_optical_path_correct_witness:
  "shortest_optical_path sample_devices sample_links ''n1'' {''o1''} = Some [''n1'', ''s'', ''o1''] \<longleftrightarrow>
   best_goal_path (opt_edges sample_devices sample_links) ''n1'' {''o1''} [''n1'', ''s'', ''o1'']"
proof -
  have "''n1'' \<in> fst ` set (optical_nodes sample_devices)" by code_simp
  from shortest_optical_path_correct [OF this] show ?thesis by blast
qed

text \<open>The logical graph has exactly the edges the module's comments promise: the links between
  logical devices of an accepted kind, one collapsed edge per ONT to the OLT its least optical path
  ends at and, in relaxed mode, an edge from every OLT and AON switch to the least core router.\<close>

theorem logical_graph_edges:
  assumes "nx_laws nx"
  shows "nx_has_edge nx (build_logical_graph nx ds ls relaxed) u v \<longleftrightarrow> logical_edge ds ls relaxed u v"
  using logical_graph_spec [OF assms] by blast

theorem logical_graph_edges_witness:
  "nx_has_edge list_nx (build_logical_graph list_nx sample_devices sample_links True) ''n1'' ''o1'' \<longleftrightarrow>
   logical_edge sample_devices sample_links True ''n1'' ''o1''"
  by (rule logical_graph_edges [OF list_nx_laws])

section \<open>Requests to the store\<close>

text \<open>Every topology change is followed by \<^verbatim>\<open>bump_version\<close>, as the handlers of devices and links do. A request
  brings the records its caller makes of the database, and the callers make different ones: the
  dependency resolver leaves out what is down, the tools endpoints pass everything.\<close>

datatype graph_op = Topology_Changed | Get_Optical "device_record list" "link_record list"
  | Get_Logical "device_record list" "link_record list" bool

fun graph_step :: "'g nx \<Rightarrow> 'g pathfinding_store \<Rightarrow> graph_op \<Rightarrow> 'g pathfinding_store" where
  "graph_step nx s Topology_Changed = fst (bump_version s)"
| "graph_step nx s (Get_Optical ds ls) = fst (get_optical_graph nx ds ls s)"
| "graph_step nx s (Get_Logical ds ls relaxed) = fst (get_logical_graph nx ds ls relaxed s)"

definition graph_run :: "'g nx \<Rightarrow> graph_op list \<Rightarrow> 'g pathfinding_store" where
  "graph_run nx ops = foldl (graph_step nx) PathfindingStore ops"

text \<open>The requests since the last change, the latest first.\<close>

definition since_change :: "graph_op list \<Rightarrow> graph_op list" where
  "since_change ops = takeWhile (\<lambda>op. op \<noteq> Topology_Changed) (rev ops)"

definition optical_requests :: "graph_op list \<Rightarrow> (device_record list \<times> link_record list) list" where
  "optical_requests ops = concat (map (\<lambda>op. case op of Get_Optical ds ls \<Rightarrow> [(ds, ls)] | _ \<Rightarrow> []) (since_change ops))"

definition logical_requests :: "graph_op list \<Rightarrow> (device_record list \<times> link_record list \<times> bool) list" where
  "logical_requests ops = concat (map (\<lambda>op. case op of Get_Logical ds ls r \<Rightarrow> [(ds, ls, r)] | _ \<Rightarrow> []) (since_change ops))"

text \<open>Whose records an answer is built from: those of the first optical request since the last change, those of
  the first of the latest logical requests that agree with this one on the flag.\<close>

definition optical_source :: "graph_op list \<Rightarrow> device_record list \<times> link_record list \<Rightarrow> device_record list \<times> link_record list" where
  "optical_source ops own = last (own # optical_requests ops)"

definition logical_source :: "graph_op list \<Rightarrow> bool \<Rightarrow> device_record list \<times> link_record list \<Rightarrow> device_record list \<times> link_record list" where
  "logical_source ops r own = last (own # map (\<lambda>(ds, ls, _). (ds, ls)) (takeWhile (\<lambda>(_, _, r'). r' = r) (logical_requests ops)))"

lemmas store_defs = bump_version_def get_optical_graph_def get_logical_graph_def Let_def

lemma since_change_snoc:
  "since_change (ops @ [op]) = (if op = Topology_Changed then [] else op # since_change ops)"
  by (simp add: since_change_def)

lemma optical_requests_snoc:
  "optical_requests (ops @ [op]) = (case op of Topology_Changed \<Rightarrow> [] | Get_Optical ds ls \<Rightarrow> (ds, ls) # optical_requests ops
     | Get_Logical _ _ _ \<Rightarrow> optical_requests ops)"
  by (cases op) (simp_all add: optical_requests_def since_change_snoc)

lemma logical_requests_snoc:
  "logical_requests (ops @ [op]) = (case op of Topology_Changed \<Rightarrow> [] | Get_Optical _ _ \<Rightarrow> logical_requests ops
     | Get_Logical ds ls r \<Rightarrow> (ds, ls, r) # logical_requests ops)"
  by (cases op) (simp_all add: logical_requests_def since_change_snoc)

lemma optical_source_snoc:
  "optical_requests ops \<noteq> [] \<Longrightarrow> optical_source ops x = last (optical_requests ops)"
  "optical_requests ops = [] \<Longrightarrow> optical_source ops x = x"
  by (simp_all add: optical_source_def)

lemma graph_run_snoc [simp]: "graph_run nx (ops @ [op]) = graph_step nx (graph_run nx ops) op"
  by (simp add: graph_run_def)

text \<open>What the store holds after a run.\<close>

lemma graph_run_optical:
  "optical_graph (graph_run nx ops) =
     (if optical_requests ops = [] then None
      else Some (case last (optical_requests ops) of (ds, ls) \<Rightarrow> build_optical_graph nx ds ls))"
proof (induction ops rule: rev_induct)
  case Nil
  then show ?case by (simp add: graph_run_def PathfindingStore_def optical_requests_def since_change_def)
next
  case (snoc op ops)
  show ?case
  proof (cases op)
    case (Get_Optical ds ls)
    then show ?thesis using snoc
      by (cases "optical_requests ops = []") (simp_all add: optical_requests_snoc store_defs)
  qed (use snoc in \<open>simp_all add: optical_requests_snoc store_defs\<close>)
qed

lemma graph_run_logical:
  "(case logical_requests ops of
      [] \<Rightarrow> logical_graph (graph_run nx ops) = None
    | (ds, ls, r) # _ \<Rightarrow> relaxed_flag_for_logical (graph_run nx ops) = Some r \<and>
        (\<forall>own. logical_graph (graph_run nx ops) =
           Some (case logical_source ops r own of (ds, ls) \<Rightarrow> build_logical_graph nx ds ls r)))"
proof (induction ops rule: rev_induct)
  case Nil
  then show ?case by (simp add: graph_run_def PathfindingStore_def logical_requests_def since_change_def)
next
  case (snoc op ops)
  show ?case
  proof (cases op)
    case Topology_Changed
    then show ?thesis by (simp add: logical_requests_snoc store_defs)
  next
    case (Get_Optical ds ls)
    then have same: "logical_requests (ops @ [op]) = logical_requests ops" "logical_source (ops @ [op]) = logical_source ops"
      "logical_graph (graph_run nx (ops @ [op])) = logical_graph (graph_run nx ops)"
      "relaxed_flag_for_logical (graph_run nx (ops @ [op])) = relaxed_flag_for_logical (graph_run nx ops)"
      by (simp_all add: logical_requests_snoc logical_source_def fun_eq_iff store_defs split: option.split)
    show ?thesis unfolding same by (rule snoc)
  next
    case (Get_Logical ds ls rel)
    show ?thesis
    proof (cases "logical_requests ops")
      case Nil
      with snoc Get_Logical show ?thesis
        by (simp add: logical_requests_snoc logical_source_def store_defs)
    next
      case (Cons q qs)
      obtain ds' ls' r' where q: "q = (ds', ls', r')" by (cases q) auto
      show ?thesis
      proof (cases "r' = rel")
        case True
        have src: "logical_source (ops @ [op]) rel own = logical_source ops rel own" for own
          by (simp add: logical_source_def logical_requests_snoc Get_Logical Cons q True)
        from snoc Cons q True have g: "relaxed_flag_for_logical (graph_run nx ops) = Some rel"
          "logical_graph (graph_run nx ops) = Some (case logical_source ops rel own of (ds, ls) \<Rightarrow> build_logical_graph nx ds ls rel)" for own
          by (simp, cases own, auto)
        have "logical_graph (graph_run nx ops) \<noteq> None" using g(2) [of "([], [])"] by simp
        with g(1) have step: "graph_step nx (graph_run nx ops) op = graph_run nx ops"
          by (auto simp: Get_Logical get_logical_graph_def)
        have "logical_requests (ops @ [op]) = (ds, ls, rel) # logical_requests ops"
          by (simp add: logical_requests_snoc Get_Logical)
        then show ?thesis unfolding graph_run_snoc step using g src by (simp only: list.case prod.case) blast
      next
        case False
        with snoc Cons q Get_Logical show ?thesis
          by (simp add: logical_requests_snoc logical_source_def store_defs)
      qed
    qed
  qed
qed

lemma graph_run_version: "topo_version (graph_run nx ops) = int (count_list ops Topology_Changed)"
proof (induction ops rule: rev_induct)
  case (snoc op ops)
  then show ?case by (cases op) (simp_all add: store_defs split: option.split)
qed (simp add: graph_run_def PathfindingStore_def)

text \<open>C31: Whatever the sequence of topology changes and of requests for graphs, strict or relaxed, each with the
  records of its own caller, a request is answered with the number of changes so far as the version and
  with a graph built since the last change: the optical graph from the records of the first optical request
  since then; the logical graph from the records of the first of the uninterrupted series of logical
  requests with this flag that lasts until now, hence with this flag; from its own records when there is
  no such request. The answer is therefore that of the caller's own records when all callers pass the same,
  and otherwise that of whoever asked first.\<close>

theorem store_serves_current_graph:
  "snd (get_optical_graph nx ds ls (graph_run nx ops)) =
     (int (count_list ops Topology_Changed), case optical_source ops (ds, ls) of (ds', ls') \<Rightarrow> build_optical_graph nx ds' ls') \<and>
   snd (get_logical_graph nx ds ls relaxed (graph_run nx ops)) =
     (int (count_list ops Topology_Changed),
      case logical_source ops relaxed (ds, ls) of (ds', ls') \<Rightarrow> build_logical_graph nx ds' ls' relaxed)"
proof
  show "snd (get_optical_graph nx ds ls (graph_run nx ops)) =
     (int (count_list ops Topology_Changed), case optical_source ops (ds, ls) of (ds', ls') \<Rightarrow> build_optical_graph nx ds' ls')"
    using graph_run_optical [of nx ops] graph_run_version [of nx ops]
    by (cases "optical_requests ops = []") (simp_all add: get_optical_graph_def optical_source_snoc Let_def)
  show "snd (get_logical_graph nx ds ls relaxed (graph_run nx ops)) =
     (int (count_list ops Topology_Changed),
      case logical_source ops relaxed (ds, ls) of (ds', ls') \<Rightarrow> build_logical_graph nx ds' ls' relaxed)"
  proof (cases "logical_requests ops")
    case Nil
    then show ?thesis using graph_run_logical [of nx ops] graph_run_version [of nx ops]
      by (simp add: get_logical_graph_def logical_source_def Let_def)
  next
    case (Cons q qs)
    obtain ds' ls' r' where q: "q = (ds', ls', r')" by (cases q) auto
    from graph_run_logical [of nx ops] Cons q have flag: "relaxed_flag_for_logical (graph_run nx ops) = Some r'"
      "\<And>own. logical_graph (graph_run nx ops) = Some (case logical_source ops r' own of (ds, ls) \<Rightarrow> build_logical_graph nx ds ls r')"
      by auto
    show ?thesis
    proof (cases "r' = relaxed")
      case True
      with flag(1) flag(2) [of "(ds, ls)"] graph_run_version [of nx ops] show ?thesis
        by (simp add: get_logical_graph_def)
    next
      case False
      with flag(1) Cons q graph_run_version [of nx ops] show ?thesis
        by (simp add: get_logical_graph_def logical_source_def Let_def)
    qed
  qed
qed

end
