(* ===== verification/Optical_Path.thy ===== *)
theory Optical_Path
  imports Pathfinding Link_State
begin

text \<open>
  The optical path resolver (\<^verbatim>\<open>services/optical_path_resolver.py\<close>), the effective catalog parameters
  (\<^verbatim>\<open>services/catalog_effective.py\<close>) and the path query of the optical client
  (\<^verbatim>\<open>clients/go_services/optical_client.py\<close>) with its Python fallback. The Go service is a parameter: the
  answer of its \<^verbatim>\<open>GetPath\<close> call, \<^const>\<open>None\<close> when the call fails. Counters are not modelled.
\<close>

section \<open>Effective parameters\<close>

fun DEFAULT_DEVICE_CAPACITY_MBPS :: "DeviceType \<Rightarrow> int option" where
  "DEFAULT_DEVICE_CAPACITY_MBPS BACKBONE_GATEWAY = Some 100000"
| "DEFAULT_DEVICE_CAPACITY_MBPS POP = Some 10000"
| "DEFAULT_DEVICE_CAPACITY_MBPS CORE_SITE = None"
| "DEFAULT_DEVICE_CAPACITY_MBPS CORE_ROUTER = Some 40000"
| "DEFAULT_DEVICE_CAPACITY_MBPS EDGE_ROUTER = Some 10000"
| "DEFAULT_DEVICE_CAPACITY_MBPS AON_SWITCH = Some 10000"
| "DEFAULT_DEVICE_CAPACITY_MBPS OLT = Some 10000"
| "DEFAULT_DEVICE_CAPACITY_MBPS ONT = Some 1000"
| "DEFAULT_DEVICE_CAPACITY_MBPS BUSINESS_ONT = Some 1000"
| "DEFAULT_DEVICE_CAPACITY_MBPS AON_CPE = Some 1000"
| "DEFAULT_DEVICE_CAPACITY_MBPS SPLITTER = Some 1000000"
| "DEFAULT_DEVICE_CAPACITY_MBPS HOP = Some 1000000"
| "DEFAULT_DEVICE_CAPACITY_MBPS NVT = Some 1000000"
| "DEFAULT_DEVICE_CAPACITY_MBPS ODF = Some 1000000"

definition get_model :: "db \<Rightarrow> device \<Rightarrow> hardware_model option" where
  "get_model s d = (case dev_hardware_model_id d of None \<Rightarrow> None | Some k \<Rightarrow> get_hardware_model s k)"

definition get_effective_tx_power_dbm :: "db \<Rightarrow> device \<Rightarrow> pyfloat" where
  "get_effective_tx_power_dbm s olt =
     (case dev_tx_power_dbm olt of
        Some p \<Rightarrow> p
      | None \<Rightarrow> (case get_model s olt of
          Some m \<Rightarrow> (case hm_tx_power_dbm m of Some p \<Rightarrow> p | None \<Rightarrow> 0)
        | None \<Rightarrow> 0))"

definition get_effective_sensitivity_dbm :: "db \<Rightarrow> device \<Rightarrow> pyfloat" where
  "get_effective_sensitivity_dbm s ont =
     (case dev_sensitivity_min_dbm ont of
        Some p \<Rightarrow> p
      | None \<Rightarrow> (case get_model s ont of
          Some m \<Rightarrow> (case hm_sensitivity_min_dbm m of Some p \<Rightarrow> p | None \<Rightarrow> - 30)
        | None \<Rightarrow> - 30))"

text \<open>\<^verbatim>\<open>int(x)\<close> of a float truncates towards zero.\<close>

definition int_of_float :: "pyfloat \<Rightarrow> int" where
  "int_of_float x = (if 0 \<le> x then \<lfloor>x\<rfloor> else \<lceil>x\<rceil>)"

definition get_effective_device_capacity_mbps :: "db \<Rightarrow> device \<Rightarrow> int option" where
  "get_effective_device_capacity_mbps s d =
     (case dev_capacity d of
        Some c \<Rightarrow> Some c
      | None \<Rightarrow> (case get_model s d of
          Some m \<Rightarrow> (case hm_capacity_gbps m of
              Some c \<Rightarrow> Some (int_of_float (c * 1000))
            | None \<Rightarrow> DEFAULT_DEVICE_CAPACITY_MBPS (dev_type d))
        | None \<Rightarrow> DEFAULT_DEVICE_CAPACITY_MBPS (dev_type d)))"

definition is_digit :: "char \<Rightarrow> bool" where
  "is_digit c \<longleftrightarrow> (48 :: nat) \<le> of_char c \<and> of_char c \<le> (57 :: nat)"

definition base_from_name :: "string \<Rightarrow> string" where
  "base_from_name name =
     (let base = rev (dropWhile is_digit (rev name)) in if base = [] then name else base)"

definition find_profile :: "db \<Rightarrow> iface \<Rightarrow> string \<Rightarrow> port_profile option" where
  "find_profile s i name =
     (case get_device s (if_device_id i) of
        None \<Rightarrow> None
      | Some d \<Rightarrow> find (\<lambda>p. dev_hardware_model_id d = Some (pp_hardware_model_id p) \<and> pp_name p = name) (port_profiles s))"

definition get_effective_interface_capacity_mbps :: "db \<Rightarrow> iface \<Rightarrow> int option" where
  "get_effective_interface_capacity_mbps s i =
     (case if_capacity i of
        Some c \<Rightarrow> Some c
      | None \<Rightarrow>
          let direct = (if truthy (if_profile_name i) then find_profile s i (the (if_profile_name i)) else None);
              profile = (case direct of Some p \<Rightarrow> Some p | None \<Rightarrow> find_profile s i (base_from_name (if_name i)));
              speed = (case profile of None \<Rightarrow> None | Some p \<Rightarrow> pp_speed_gbps p)
          in case speed of
               Some g \<Rightarrow> Some (int_of_float (g * 1000))
             | None \<Rightarrow> (case if_role i of
                   Some ROLE_ACCESS \<Rightarrow> Some 1000
                 | Some ROLE_P2P_UPLINK \<Rightarrow> Some 10000
                 | Some ROLE_MANAGEMENT \<Rightarrow> Some 1000
                 | None \<Rightarrow> None))"

section \<open>Records of the database\<close>

fun LinkType_value :: "LinkType \<Rightarrow> string" where
  "LinkType_value FIBER = ''FIBER''"
| "LinkType_value P2P = ''P2P''"
| "LinkType_value MGMT = ''MGMT''"

text \<open>The dictionary from interface id to device id; a later row with the same id wins.\<close>

definition if_to_dev :: "db \<Rightarrow> ident \<Rightarrow> ident option" where
  "if_to_dev s i = map_option if_device_id (find (\<lambda>r. if_id r = i) (rev (interfaces s)))"

text \<open>The device of a link's end: the owner of the interface, or the legacy \<^verbatim>\<open>-if0\<close> suffix stripped;
  \<^const>\<open>None\<close> when neither gives a non-empty id.\<close>

definition endpoint_dev :: "db \<Rightarrow> ident \<Rightarrow> ident option" where
  "endpoint_dev s i =
     (if truthy (if_to_dev s i) then if_to_dev s i
      else if endswith i ''-if0'' \<and> drop_tail 4 i \<noteq> [] then Some (drop_tail 4 i)
      else None)"

definition device_records :: "device list \<Rightarrow> device_record list" where
  "device_records ds = map (\<lambda>d. \<lparr>dr_id = dev_id d, dr_type = DeviceType_name (dev_type d)\<rparr>) ds"

definition link_record_of :: "db \<Rightarrow> link \<Rightarrow> link_record list" where
  "link_record_of s l =
     (case (endpoint_dev s (ln_a_interface_id l), endpoint_dev s (ln_b_interface_id l)) of
        (Some a, Some b) \<Rightarrow> [\<lparr>lr_id = ln_id l, lr_a_device_id = a, lr_b_device_id = b,
                             lr_kind = LinkType_value (ln_kind l), lr_link_loss_db = None\<rparr>]
      | _ \<Rightarrow> [])"

definition build_records :: "db \<Rightarrow> device_record list \<times> link_record list" where
  "build_records s = (device_records (devices s), concat (map (link_record_of s) (links s)))"

section \<open>Losses and lengths\<close>

record FiberSpec =
  fs_key :: string
  fs_mode :: string
  fs_standard :: string
  fs_attenuation_db_per_km :: pyfloat

definition FIBERS :: "FiberSpec list" where
  "FIBERS =
     [\<lparr>fs_key = ''SMF_G652D'', fs_mode = ''SMF'', fs_standard = ''G.652D'', fs_attenuation_db_per_km = 35 / 100\<rparr>,
      \<lparr>fs_key = ''SMF_G657A1'', fs_mode = ''SMF'', fs_standard = ''G.657A1'', fs_attenuation_db_per_km = 35 / 100\<rparr>,
      \<lparr>fs_key = ''SMF_G657A2'', fs_mode = ''SMF'', fs_standard = ''G.657A2'', fs_attenuation_db_per_km = 35 / 100\<rparr>,
      \<lparr>fs_key = ''MMF_OM3'', fs_mode = ''MMF'', fs_standard = ''OM3'', fs_attenuation_db_per_km = 35 / 10\<rparr>,
      \<lparr>fs_key = ''MMF_OM4'', fs_mode = ''MMF'', fs_standard = ''OM4'', fs_attenuation_db_per_km = 3\<rparr>]"

definition FIBER_TYPES :: "string \<Rightarrow> FiberSpec option" where
  "FIBER_TYPES code = find (\<lambda>f. fs_key f = code) FIBERS"

definition PASSIVE_NODE_TYPES :: "string set" where
  "PASSIVE_NODE_TYPES = {''SPLITTER'', ''HOP'', ''NVT'', ''ODF''}"

definition edge_link_id :: "'g nx \<Rightarrow> 'g \<Rightarrow> ident \<Rightarrow> ident \<Rightarrow> ident option" where
  "edge_link_id nx g u v = (case nx_get_edge_data nx g u v of None \<Rightarrow> None | Some a \<Rightarrow> ea_id a)"

definition edge_link :: "'g nx \<Rightarrow> db \<Rightarrow> 'g \<Rightarrow> ident \<Rightarrow> ident \<Rightarrow> link option" where
  "edge_link nx s g u v =
     (if truthy (edge_link_id nx g u v) then get_link s (the (edge_link_id nx g u v)) else None)"

definition fiber_loss :: "db \<Rightarrow> link \<Rightarrow> pyfloat" where
  "fiber_loss s l =
     (case (ln_length_km l, ln_physical_medium_id l) of
        (Some km, Some k) \<Rightarrow> (case get_medium s k of
            Some pm \<Rightarrow> (case FIBER_TYPES (pm_code pm) of
                Some spec \<Rightarrow> km * fs_attenuation_db_per_km spec
              | None \<Rightarrow> 0)
          | None \<Rightarrow> 0)
      | _ \<Rightarrow> 0)"

definition edge_loss_db :: "'g nx \<Rightarrow> db \<Rightarrow> 'g \<Rightarrow> ident \<Rightarrow> ident \<Rightarrow> pyfloat" where
  "edge_loss_db nx s g u v = (case edge_link nx s g u v of None \<Rightarrow> 0 | Some l \<Rightarrow> fiber_loss s l)"

definition insertion_loss :: "db \<Rightarrow> ident \<Rightarrow> pyfloat" where
  "insertion_loss s n =
     (case get_device s n of None \<Rightarrow> 0 | Some d \<Rightarrow> (case dev_insertion_loss_db d of None \<Rightarrow> 0 | Some x \<Rightarrow> x))"

definition path_total_loss :: "'g nx \<Rightarrow> db \<Rightarrow> 'g \<Rightarrow> ident list \<Rightarrow> pyfloat" where
  "path_total_loss nx s g p =
     sum_list (map (\<lambda>(u, v). edge_loss_db nx s g u v) (zip p (tl p))) +
     (if 3 \<le> length p then sum_list (map (insertion_loss s) (butlast (tl p))) else 0)"

definition path_total_length_km :: "'g nx \<Rightarrow> db \<Rightarrow> 'g \<Rightarrow> ident list \<Rightarrow> pyfloat" where
  "path_total_length_km nx s g p =
     sum_list (map (\<lambda>(u, v). case edge_link nx s g u v of
          None \<Rightarrow> 0 | Some l \<Rightarrow> (case ln_length_km l of None \<Rightarrow> 0 | Some km \<Rightarrow> km)) (zip p (tl p)))"

definition segments :: "'g nx \<Rightarrow> db \<Rightarrow> 'g \<Rightarrow> ident list \<Rightarrow> path_segment list" where
  "segments nx s g p =
     map (\<lambda>(u, v). \<lparr>ps_src = u, ps_dst = v, ps_link_id = edge_link_id nx g u v,
                    ps_attenuation_db = edge_loss_db nx s g u v\<rparr>) (zip p (tl p))"

definition is_olt :: "'g nx \<Rightarrow> 'g \<Rightarrow> ident \<Rightarrow> bool" where
  "is_olt nx g n \<longleftrightarrow> map_of (nx_nodes_data nx g) n = Some ''OLT''"

section \<open>The resolver\<close>

definition weight_fn :: "'g nx \<Rightarrow> db \<Rightarrow> 'g \<Rightarrow> ident \<Rightarrow> ident \<Rightarrow> pyfloat" where
  "weight_fn nx s g u v =
     edge_loss_db nx s g u v +
     (if (\<exists>t \<in> PASSIVE_NODE_TYPES. map_of (nx_nodes_data nx g) v = Some t) then insertion_loss s v else 0)"

fun join_comma :: "string list \<Rightarrow> string" where
  "join_comma [] = []"
| "join_comma [x] = x"
| "join_comma (x # xs) = x @ '','' @ join_comma xs"

definition candidate_key :: "'g nx \<Rightarrow> db \<Rightarrow> 'g \<Rightarrow> ident \<times> pyfloat \<times> ident list
    \<Rightarrow> pyfloat \<times> pyfloat \<times> nat \<times> ident \<times> string" where
  "candidate_key nx s g row = (case row of (node, d, p) \<Rightarrow>
     (d, path_total_length_km nx s g p, length p - 1, node, join_comma p))"

definition olt_candidates :: "'g nx \<Rightarrow> db \<Rightarrow> 'g \<Rightarrow> ident \<Rightarrow> (ident \<times> pyfloat \<times> ident list) list" where
  "olt_candidates nx s g ont_id =
     filter (\<lambda>(node, d, p). is_olt nx g node \<and> p \<noteq> []) (nx_single_source_dijkstra nx g ont_id (weight_fn nx s g))"

definition resolve_in_graph :: "'g nx \<Rightarrow> db \<Rightarrow> 'g \<Rightarrow> ident \<Rightarrow> optical_path_result option" where
  "resolve_in_graph nx s g ont_id =
     (if ont_id \<notin> nx_nodes nx g then None
      else let candidates = olt_candidates nx s g ont_id
           in if candidates = [] then None
              else let best = hd (sort_key (candidate_key nx s g) candidates)
                   in Some \<lparr>opr_olt_id = fst best, opr_total_attenuation_db = fst (snd best),
                            opr_segments = segments nx s g (snd (snd best))\<rparr>)"

text \<open>\<^verbatim>\<open>lru_cache(maxsize=10000)\<close>: a hit moves the entry to the end, a miss appends it and drops the
  first entry of a full cache.\<close>

definition resolve_optical_path :: "'g nx \<Rightarrow> db \<Rightarrow> 'g pathfinding_store \<Rightarrow> ident
    \<Rightarrow> 'g pathfinding_store \<times> optical_path_result option" where
  "resolve_optical_path nx s st ont_id =
     (case map_of (resolver_cache st) ont_id of
        Some r \<Rightarrow> (st\<lparr>resolver_cache := filter (\<lambda>e. fst e \<noteq> ont_id) (resolver_cache st) @ [(ont_id, r)]\<rparr>, r)
      | None \<Rightarrow>
          let (ds, ls) = build_records s;
              (st1, _, g) = get_optical_graph nx ds ls st;
              r = resolve_in_graph nx s g ont_id;
              full = (10000 \<le> length (resolver_cache st1))
          in (st1\<lparr>resolver_cache := (if full then tl (resolver_cache st1) else resolver_cache st1) @ [(ont_id, r)]\<rparr>, r))"

section \<open>The path query of the optical client\<close>

text \<open>The dictionary \<^verbatim>\<open>get_path\<close> returns. The answer of the Go service carries the key
  \<^verbatim>\<open>total_attenuation_db\<close>, the Python fallback the key \<^verbatim>\<open>total_loss_db\<close>.\<close>

record path_answer =
  pa_olt_id :: "ident option"
  pa_path_exists :: bool
  pa_total_attenuation_db :: "pyfloat option"
  pa_total_loss_db :: "pyfloat option"
  pa_backend :: string

record go_path_response =
  gp_olt_id :: string
  gp_segments :: "path_segment list"
  gp_total_attenuation_db :: pyfloat

definition no_path_answer :: "string \<Rightarrow> path_answer" where
  "no_path_answer b = \<lparr>pa_olt_id = None, pa_path_exists = False, pa_total_attenuation_db = None,
     pa_total_loss_db = Some 0, pa_backend = b\<rparr>"

definition python_get_path :: "'g nx \<Rightarrow> db \<Rightarrow> 'g pathfinding_store \<Rightarrow> ident \<Rightarrow> 'g pathfinding_store \<times> path_answer" where
  "python_get_path nx s st ont_id =
     (case resolve_optical_path nx s st ont_id of
        (st', None) \<Rightarrow> (st', no_path_answer ''python'')
      | (st', Some r) \<Rightarrow> (st', \<lparr>pa_olt_id = Some (opr_olt_id r), pa_path_exists = True,
          pa_total_attenuation_db = None, pa_total_loss_db = Some (opr_total_attenuation_db r), pa_backend = ''python''\<rparr>))"

text \<open>\<open>oc_health\<close> is the outcome of the health check of the first connection attempt.\<close>

record optical_client =
  oc_connection_attempted :: bool
  oc_health :: bool
  oc_go_available :: bool
  oc_use_fallback :: bool
  oc_stub :: "ident \<Rightarrow> go_path_response option"

definition go_answer :: "go_path_response \<Rightarrow> path_answer" where
  "go_answer r =
     \<lparr>pa_olt_id = (if gp_olt_id r = [] then None else Some (gp_olt_id r)), pa_path_exists = (gp_segments r \<noteq> []),
      pa_total_attenuation_db = Some (gp_total_attenuation_db r), pa_total_loss_db = None, pa_backend = ''go''\<rparr>"

definition ensure_connected :: "optical_client \<Rightarrow> optical_client" where
  "ensure_connected cl =
     (if oc_connection_attempted cl then cl
      else cl\<lparr>oc_connection_attempted := True, oc_go_available := oc_health cl\<rparr>)"

text \<open>A failed call clears \<^verbatim>\<open>_go_available\<close>, so that later queries go to the fallback at once.\<close>

definition get_path :: "'g nx \<Rightarrow> db \<Rightarrow> optical_client \<times> 'g pathfinding_store \<Rightarrow> ident
    \<Rightarrow> (optical_client \<times> 'g pathfinding_store) \<times> path_answer" where
  "get_path nx s c ont_id =
     (case c of (cl0, st) \<Rightarrow>
        let cl = ensure_connected cl0
        in case (if oc_go_available cl then oc_stub cl ont_id else None) of
          Some r \<Rightarrow> ((cl, st), go_answer r)
        | None \<Rightarrow>
            let cl' = cl\<lparr>oc_go_available := False\<rparr>
            in if oc_use_fallback cl
               then let (st', a) = python_get_path nx s st ont_id in ((cl', st'), a)
               else ((cl', st), no_path_answer ''none''))"

section \<open>What the resolver computes\<close>

text \<open>The attenuation of a path as the module's documentation defines it: the fibre loss of its links
  plus the insertion loss of every passive device entered.\<close>

definition passive_node :: "'g nx \<Rightarrow> 'g \<Rightarrow> ident \<Rightarrow> bool" where
  "passive_node nx g n \<longleftrightarrow> (\<exists>t \<in> PASSIVE_NODE_TYPES. map_of (nx_nodes_data nx g) n = Some t)"

definition optical_loss :: "'g nx \<Rightarrow> db \<Rightarrow> 'g \<Rightarrow> ident list \<Rightarrow> pyfloat" where
  "optical_loss nx s g p =
     sum_list (map (\<lambda>(u, v). edge_loss_db nx s g u v) (zip p (tl p))) +
     sum_list (map (insertion_loss s) (filter (passive_node nx g) (tl p)))"

definition losses_nonneg :: "db \<Rightarrow> bool" where
  "losses_nonneg s \<longleftrightarrow>
     (\<forall>l \<in> set (links s). \<forall>km. ln_length_km l = Some km \<longrightarrow> 0 \<le> km) \<and>
     (\<forall>d \<in> set (devices s). \<forall>x. dev_insertion_loss_db d = Some x \<longrightarrow> 0 \<le> x)"

lemma FIBER_TYPES_nonneg: "FIBER_TYPES c = Some f \<Longrightarrow> 0 \<le> fs_attenuation_db_per_km f"
proof -
  assume "FIBER_TYPES c = Some f"
  then have "f \<in> set FIBERS" unfolding FIBER_TYPES_def by (auto dest: find_SomeD)
  moreover have "\<forall>f \<in> set FIBERS. 0 \<le> fs_attenuation_db_per_km f" by (simp add: FIBERS_def)
  ultimately show ?thesis by blast
qed

lemma weight_fn_nonneg:
  assumes "losses_nonneg s" shows "0 \<le> weight_fn nx s g u v"
proof -
  have "0 \<le> insertion_loss s n" for n
    using assms dev.get_SomeD [of s n] unfolding insertion_loss_def losses_nonneg_def by (auto split: option.split)
  moreover have "0 \<le> fiber_loss s l" if "l \<in> set (links s)" for l
    using assms that FIBER_TYPES_nonneg unfolding fiber_loss_def losses_nonneg_def by (auto split: option.split)
  then have "0 \<le> edge_loss_db nx s g u v"
    unfolding edge_loss_db_def edge_link_def by (auto split: option.split dest: lnk.get_SomeD)
  ultimately show ?thesis by (simp add: weight_fn_def)
qed

lemma walk_weight_loss: "walk_weight (weight_fn nx s g) p = optical_loss nx s g p"
proof (induction p rule: induct_list012)
  case (3 x y zs)
  have "walk_weight (weight_fn nx s g) (x # y # zs) = weight_fn nx s g x y + walk_weight (weight_fn nx s g) (y # zs)"
    by (simp add: walk_weight_def)
  also have "\<dots> = weight_fn nx s g x y + optical_loss nx s g (y # zs)" using 3 by simp
  also have "weight_fn nx s g x y = edge_loss_db nx s g x y + (if passive_node nx g y then insertion_loss s y else 0)"
    by (simp add: weight_fn_def passive_node_def)
  finally show ?case by (simp add: optical_loss_def)
qed (simp_all add: walk_weight_def optical_loss_def)

lemma dijkstra_rows:
  assumes "nx_dijkstra_laws nx" "losses_nonneg s" "n \<in> nx_nodes nx g"
  shows "nx_walk nx g n q \<Longrightarrow> \<exists>d p. (last q, d, p) \<in> set (nx_single_source_dijkstra nx g n (weight_fn nx s g))"
    and "(v, d, p) \<in> set (nx_single_source_dijkstra nx g n (weight_fn nx s g)) \<Longrightarrow>
      nx_walk nx g n p \<and> last p = v \<and> d = optical_loss nx s g p \<and>
      (\<forall>q. nx_walk nx g n q \<longrightarrow> last q = v \<longrightarrow> d \<le> optical_loss nx s g q)"
proof -
  have "\<forall>u v. 0 \<le> weight_fn nx s g u v" by (intro allI weight_fn_nonneg assms)
  then have law: "\<forall>q. nx_walk nx g n q \<longrightarrow> last q \<in> fst ` set (nx_single_source_dijkstra nx g n (weight_fn nx s g))"
    "\<forall>row \<in> set (nx_single_source_dijkstra nx g n (weight_fn nx s g)). least_walk nx g (weight_fn nx s g) n row"
    using assms(1,3) unfolding nx_dijkstra_laws_def by blast+
  show "\<exists>d p. (last q, d, p) \<in> set (nx_single_source_dijkstra nx g n (weight_fn nx s g))" if "nx_walk nx g n q"
    using law(1) that by force
  show "nx_walk nx g n p \<and> last p = v \<and> d = optical_loss nx s g p \<and>
      (\<forall>q. nx_walk nx g n q \<longrightarrow> last q = v \<longrightarrow> d \<le> optical_loss nx s g q)"
    if "(v, d, p) \<in> set (nx_single_source_dijkstra nx g n (weight_fn nx s g))"
    using law(2) that unfolding least_walk_def walk_weight_loss by blast
qed

definition best_optical_path :: "'g nx \<Rightarrow> db \<Rightarrow> 'g \<Rightarrow> ident \<Rightarrow> ident list \<Rightarrow> bool" where
  "best_optical_path nx s g ont_id p \<longleftrightarrow> nx_walk nx g ont_id p \<and> is_olt nx g (last p) \<and>
     (\<forall>q. nx_walk nx g ont_id q \<longrightarrow> is_olt nx g (last q) \<longrightarrow> optical_loss nx s g p \<le> optical_loss nx s g q)"

lemma resolve_in_graph_least:
  assumes nx: "nx_dijkstra_laws nx" and s: "losses_nonneg s" and n: "n \<in> nx_nodes nx g"
  shows "case resolve_in_graph nx s g n of
      None \<Rightarrow> \<not> (\<exists>p. nx_walk nx g n p \<and> is_olt nx g (last p))
    | Some r \<Rightarrow> \<exists>p. best_optical_path nx s g n p \<and> opr_olt_id r = last p \<and>
        opr_total_attenuation_db r = optical_loss nx s g p \<and> opr_segments r = segments nx s g p"
proof -
  note rows = dijkstra_rows [OF nx s n]
  let ?c = "olt_candidates nx s g n"
  have cand: "\<exists>d p'. (last p, d, p') \<in> set ?c" if p: "nx_walk nx g n p" "is_olt nx g (last p)" for p
  proof -
    obtain d p' where r: "(last p, d, p') \<in> set (nx_single_source_dijkstra nx g n (weight_fn nx s g))"
      using rows(1) [OF p(1)] by blast
    moreover from rows(2) [OF r] have "p' \<noteq> []" by (auto simp: nx_walk_def)
    ultimately show ?thesis using p(2) by (auto simp: olt_candidates_def)
  qed
  show ?thesis
  proof (cases "?c = []")
    case True
    with cand n show ?thesis by (auto simp: resolve_in_graph_def)
  next
    case False
    let ?b = "hd (sort_key (candidate_key nx s g) ?c)"
    obtain v d p where b: "?b = (v, d, p)" by (cases ?b) auto
    have "?b \<in> set ?c" by (rule hd_sort_key_in [OF False])
    then have v: "is_olt nx g v" and mem: "(v, d, p) \<in> set (nx_single_source_dijkstra nx g n (weight_fn nx s g))"
      unfolding b by (auto simp: olt_candidates_def)
    note path = rows(2) [OF mem]
    have "d \<le> optical_loss nx s g q" if q: "nx_walk nx g n q" "is_olt nx g (last q)" for q
    proof -
      obtain d' p' where c: "(last q, d', p') \<in> set ?c" using cand [OF q] by blast
      have "candidate_key nx s g ?b \<le> candidate_key nx s g (last q, d', p')" by (rule hd_sort_key_le [OF c])
      then have "d \<le> d'" unfolding b by (auto simp: candidate_key_def)
      also have "d' \<le> optical_loss nx s g q"
        using c rows(2) [of "last q" d' p'] q(1) by (auto simp: olt_candidates_def)
      finally show ?thesis .
    qed
    with path v have "best_optical_path nx s g n p" by (auto simp: best_optical_path_def)
    with False n path b show ?thesis by (auto simp: resolve_in_graph_def Let_def)
  qed
qed

section \<open>Properties\<close>

definition current_graph :: "'g nx \<Rightarrow> db \<Rightarrow> 'g" where
  "current_graph nx s = build_optical_graph nx (fst (build_records s)) (snd (build_records s))"

lemma resolve_miss:
  assumes "optical_graph st = None \<or> optical_graph st = Some (current_graph nx s)" "map_of (resolver_cache st) n = None"
  shows "snd (resolve_optical_path nx s st n) = resolve_in_graph nx s (current_graph nx s) n"
  using assms unfolding resolve_optical_path_def get_optical_graph_def current_graph_def
  by (auto simp: Let_def split: prod.split option.split)

text \<open>C14: On a cache miss with an up-to-date graph and losses that are not negative, \<^verbatim>\<open>resolve_optical_path\<close> returns \<^verbatim>\<open>None\<close> exactly when no OLT
  can be reached from the ONT over optical links; otherwise it returns the OLT, the attenuation and
  the segments of a path whose attenuation (fibre loss plus the insertion loss of the passive devices
  entered) is least among all paths to any OLT.\<close>

theorem resolve_least_attenuation:
  assumes "nx_dijkstra_laws nx" "losses_nonneg s"
    and "optical_graph st = None \<or> optical_graph st = Some (current_graph nx s)"
    and "map_of (resolver_cache st) n = None"
  shows "case snd (resolve_optical_path nx s st n) of
      None \<Rightarrow> n \<notin> nx_nodes nx (current_graph nx s) \<or>
        \<not> (\<exists>p. nx_walk nx (current_graph nx s) n p \<and> is_olt nx (current_graph nx s) (last p))
    | Some r \<Rightarrow> \<exists>p. best_optical_path nx s (current_graph nx s) n p \<and> opr_olt_id r = last p \<and>
        opr_total_attenuation_db r = optical_loss nx s (current_graph nx s) p \<and>
        opr_segments r = segments nx s (current_graph nx s) p"
proof (cases "n \<in> nx_nodes nx (current_graph nx s)")
  case True
  from resolve_in_graph_least [OF assms(1,2) True] resolve_miss [OF assms(3,4)] show ?thesis
    by (auto split: option.splits)
next
  case False
  with resolve_miss [OF assms(3,4)] show ?thesis by (simp add: resolve_in_graph_def)
qed

definition demo_optical :: db where
  "demo_optical = empty_db\<lparr>
     devices := [Device ''olt'' OLT, (Device ''sp'' SPLITTER)\<lparr>dev_insertion_loss_db := Some 3\<rparr>, Device ''ont'' ONT],
     interfaces := [Interface ''olt-if0'' ''olt'' ''if0'', Interface ''sp-a'' ''sp'' ''a'', Interface ''sp-b'' ''sp'' ''b'',
                    Interface ''ont-if0'' ''ont'' ''if0''],
     links := [(Link ''l1'' ''olt-if0'' ''sp-a'')\<lparr>ln_length_km := Some 10, ln_physical_medium_id := Some 1\<rparr>,
               Link ''l2'' ''sp-b'' ''ont-if0''],
     media := [\<lparr>pm_id = 1, pm_code = ''SMF_G652D'', pm_name = ''G.652D'', pm_kind = ''FIBER'', pm_max_range_km = None\<rparr>]\<rparr>"

theorem resolve_least_attenuation_witness:
  "case snd (resolve_optical_path list_nx demo_optical PathfindingStore ''ont'') of
      None \<Rightarrow> ''ont'' \<notin> nx_nodes list_nx (current_graph list_nx demo_optical) \<or>
        \<not> (\<exists>p. nx_walk list_nx (current_graph list_nx demo_optical) ''ont'' p \<and>
              is_olt list_nx (current_graph list_nx demo_optical) (last p))
    | Some r \<Rightarrow> \<exists>p. best_optical_path list_nx demo_optical (current_graph list_nx demo_optical) ''ont'' p \<and>
        opr_olt_id r = last p \<and>
        opr_total_attenuation_db r = optical_loss list_nx demo_optical (current_graph list_nx demo_optical) p \<and>
        opr_segments r = segments list_nx demo_optical (current_graph list_nx demo_optical) p"
proof -
  have "losses_nonneg demo_optical" by (simp add: losses_nonneg_def demo_optical_def row_defs)
  from resolve_least_attenuation [OF list_nx_dijkstra_laws this, of PathfindingStore "''ont''"]
  show ?thesis by (simp add: PathfindingStore_def)
qed

end
