(* ===== verification/Tools.thy ===== *)
theory Tools
  imports Optical_Path
begin

text \<open>
  The tools endpoints (\<^verbatim>\<open>api/endpoints/tools.py\<close>): ping and traceroute between two devices over the logical graph of
  the store. They pass every device and every link to the store, whatever its status, and take the interface
  id itself for the device when it has not the legacy suffix \<^verbatim>\<open>-if0\<close>; the store keeps the graph for whoever asks
  next.
\<close>

section \<open>Records\<close>

definition tools_end :: "ident \<Rightarrow> ident" where
  "tools_end i = (if endswith i ''-if0'' then drop_tail 4 i else i)"

definition tools_link_record :: "link \<Rightarrow> link_record" where
  "tools_link_record l =
     \<lparr>lr_id = ln_id l, lr_a_device_id = tools_end (ln_a_interface_id l), lr_b_device_id = tools_end (ln_b_interface_id l),
      lr_kind = LinkType_value (ln_kind l), lr_link_loss_db = None\<rparr>"

definition shortest_logical_path :: "'g nx \<Rightarrow> db \<Rightarrow> 'g pathfinding_store \<Rightarrow> ident \<Rightarrow> ident
    \<Rightarrow> 'g pathfinding_store \<times> ident list option" where
  "shortest_logical_path nx s st src dst =
     (let (st', _, lg) = get_logical_graph nx (device_records (devices s)) (map tools_link_record (links s)) False st
      in (st', if src \<notin> nx_nodes nx lg \<or> dst \<notin> nx_nodes nx lg then None else nx_shortest_path nx lg src dst))"

section \<open>Requests\<close>

record ping_request =
  pq_source_device_id :: ident
  pq_target_device_id :: "ident option"
  pq_target_ip :: "string option"

record ping_response =
  pr_outcome :: string
  pr_hops :: "ident list"

text \<open>The checks the two handlers share.\<close>

definition tools_error :: "db \<Rightarrow> ping_request \<Rightarrow> http_exception option" where
  "tools_error s p =
     (if pq_source_device_id p = [] \<or> \<not> truthy (pq_target_device_id p) \<and> \<not> truthy (pq_target_ip p)
      then Some (http 422 ''INVALID_REQUEST'')
      else if get_device s (pq_source_device_id p) = None then Some (http 404 ''source device not found'')
      else if truthy (pq_target_device_id p) \<and> get_device s (the (pq_target_device_id p)) = None
      then Some (http 404 ''target device not found'')
      else None)"

text \<open>A path is asked for only when a target device is named.\<close>

definition tools_path :: "'g nx \<Rightarrow> db \<Rightarrow> 'g pathfinding_store \<Rightarrow> ping_request \<Rightarrow> 'g pathfinding_store \<times> ident list option" where
  "tools_path nx s st p =
     (if truthy (pq_target_device_id p)
      then shortest_logical_path nx s st (pq_source_device_id p) (the (pq_target_device_id p)) else (st, None))"

definition post_ping :: "'g nx \<Rightarrow> db \<Rightarrow> 'g pathfinding_store \<Rightarrow> ping_request
    \<Rightarrow> 'g pathfinding_store \<times> (http_exception + ping_response)" where
  "post_ping nx s st p =
     (case tools_error s p of
        Some e \<Rightarrow> (st, Inl e)
      | None \<Rightarrow>
          let (st', path) = tools_path nx s st p
          in (st', Inr (case path of
                Some (x # xs) \<Rightarrow> \<lparr>pr_outcome = ''success'', pr_hops = x # xs\<rparr>
              | _ \<Rightarrow> \<lparr>pr_outcome = ''unreachable'', pr_hops = []\<rparr>)))"

record traceroute_request = ping_request +
  tq_max_hops :: int

record traceroute_response =
  tp_outcome :: string
  tp_hops :: "(int \<times> ident) list"
  tp_final_device_id :: "ident option"

definition post_traceroute :: "'g nx \<Rightarrow> db \<Rightarrow> 'g pathfinding_store \<Rightarrow> traceroute_request
    \<Rightarrow> 'g pathfinding_store \<times> (http_exception + traceroute_response)" where
  "post_traceroute nx s st p =
     (case tools_error s (ping_request.truncate p) of
        Some e \<Rightarrow> (st, Inl e)
      | None \<Rightarrow>
          let (st', path) = tools_path nx s st (ping_request.truncate p)
          in (st', Inr (case path of
                Some (x # xs) \<Rightarrow>
                  (let limited = take (nat (max 1 (tq_max_hops p))) (x # xs); final = last limited
                   in \<lparr>tp_outcome = (if Some final = pq_target_device_id p then ''reached'' else ''ttl_exceeded''),
                       tp_hops = map (\<lambda>(i, d). (int i + 1, d)) (List.enumerate 0 limited),
                       tp_final_device_id = Some final\<rparr>)
              | _ \<Rightarrow> \<lparr>tp_outcome = ''unreachable'', tp_hops = [], tp_final_device_id = None\<rparr>)))"

end
