(* ===== verification/Dependency.thy ===== *)
theory Dependency
  imports Tools L3_Trace
begin

text \<open>
  The unified upstream evaluation (\<^verbatim>\<open>services/dependency_resolver_core.py\<close>): a router is traced at L3,
  any other device needs a router it can reach in the logical graph and whose trace reaches a
  gateway. Four memo tables sit between the call and the answer: the logical graph of the store, the
  snapshot of devices and links of the session, the versioned snapshot of the graph, the traces of
  the session and the results by device. The pure function \<open>upstream_result\<close> says what the answer is on the
  resolver's own graph, and the code with its tables refines it as long as the resolver is the first to ask
  the store for the graph of a topology. The tools endpoints ask the same store with other records; when
  they come first, the resolver answers from their graph until the next change.
\<close>

section \<open>Results and memo tables\<close>

record upstream_l3_result =
  ul_ok :: bool
  ul_anchor :: "ident option"
  ul_chain :: "ident list"
  ul_reasons :: "string list"

type_synonym dep_input = "device_record list \<times> link_record list \<times> (ident \<Rightarrow> ident option)"

text \<open>\<open>ds_dep_cache\<close> and \<open>ds_router_cache\<close> are entries of \<^verbatim>\<open>session.info\<close>, the other two are module
  variables; the version \<open>-1\<close> marks an empty table.\<close>

record 'g dep_state =
  ds_store :: "'g pathfinding_store"
  ds_dep_cache :: "(int \<times> dep_input) option"
  ds_graph_cache :: "int \<times> (dep_input \<times> 'g) option"
  ds_router_cache :: "(int \<times> (ident \<times> dep_check) list) option"
  ds_upstream_cache :: "int \<times> (ident \<times> upstream_l3_result) list"

definition dep_state0 :: "'g pathfinding_store \<Rightarrow> 'g dep_state" where
  "dep_state0 st = \<lparr>ds_store = st, ds_dep_cache = None, ds_graph_cache = (-1, None), ds_router_cache = None,
     ds_upstream_cache = (-1, [])\<rparr>"

definition dep_version :: "'g dep_state \<Rightarrow> int" where
  "dep_version st = topo_version (ds_store st)"

section \<open>Inputs\<close>

definition link_up :: "link \<Rightarrow> bool" where
  "link_up l \<longleftrightarrow> (case ln_admin_override_status l of Some ov \<Rightarrow> ov = UP | None \<Rightarrow> ln_status l = UP)"

definition dep_devices :: "db \<Rightarrow> device list" where
  "dep_devices s = filter (\<lambda>d. dev_admin_override_status d \<noteq> Some DOWN) (devices s)"

definition dep_link_record :: "db \<Rightarrow> link \<Rightarrow> link_record list" where
  "dep_link_record s l =
     (if link_up l
      then filter (\<lambda>r. lr_a_device_id r \<in> dev_id ` set (dep_devices s) \<and> lr_b_device_id r \<in> dev_id ` set (dep_devices s))
             (link_record_of s l)
      else [])"

definition dep_inputs :: "db \<Rightarrow> dep_input" where
  "dep_inputs s = (device_records (dep_devices s), concat (map (dep_link_record s) (links s)), if_to_dev s)"

text \<open>\<open>uc\<close> is the setting \<^verbatim>\<open>UNOC_DEP_CACHE\<close>.\<close>

definition collect_devices_links :: "bool \<Rightarrow> db \<Rightarrow> 'g dep_state \<Rightarrow> 'g dep_state \<times> dep_input" where
  "collect_devices_links uc s st =
     (let hit = (case ds_dep_cache st of
                   Some (v, i) \<Rightarrow> if uc \<and> v = dep_version st then Some i else None
                 | None \<Rightarrow> None)
      in case hit of
           Some i \<Rightarrow> (st, i)
         | None \<Rightarrow> (if uc then st\<lparr>ds_dep_cache := Some (dep_version st, dep_inputs s)\<rparr> else st, dep_inputs s))"

text \<open>The loop tries again while the version moves under it.\<close>

partial_function (option) get_versioned_logical_graph_snapshot ::
    "'g nx \<Rightarrow> bool \<Rightarrow> db \<Rightarrow> 'g dep_state \<Rightarrow> ('g dep_state \<times> dep_input \<times> 'g) option" where
  "get_versioned_logical_graph_snapshot nx uc s st =
     (let topo_v = dep_version st
      in case (if fst (ds_graph_cache st) = topo_v then snd (ds_graph_cache st) else None) of
           Some cached \<Rightarrow> Some (st, cached)
         | None \<Rightarrow>
             let (st1, i) = collect_devices_links uc s st;
                 (store', graph_v, g) = get_logical_graph nx (fst i) (fst (snd i)) False (ds_store st1);
                 st2 = st1\<lparr>ds_store := store'\<rparr>
             in if graph_v = topo_v \<and> topo_v = dep_version st2
                then Some (st2\<lparr>ds_graph_cache := (topo_v, Some (i, g))\<rparr>, i, g)
                else get_versioned_logical_graph_snapshot nx uc s (st2\<lparr>ds_graph_cache := (-1, None)\<rparr>))"

section \<open>Traces\<close>

definition router_l3_chain :: "db \<Rightarrow> 'g dep_state \<Rightarrow> device \<Rightarrow> 'g dep_state \<times> dep_check" where
  "router_l3_chain s st router =
     (let tab = (case ds_router_cache st of
                   Some (v, m) \<Rightarrow> if v = dep_version st then m else []
                 | None \<Rightarrow> []);
          st1 = st\<lparr>ds_router_cache := Some (dep_version st, tab)\<rparr>
      in case map_of tab (dev_id router) of
           Some r \<Rightarrow> (st1, r)
         | None \<Rightarrow> let r = trace_l3_path_to_anchor s router
                   in (st\<lparr>ds_router_cache := Some (dep_version st, (dev_id router, r) # tab)\<rparr>, r))"

definition router_class :: "DeviceType set" where
  "router_class = {CORE_ROUTER, EDGE_ROUTER, BACKBONE_GATEWAY}"

definition ROUTER_NAMES :: "string set" where
  "ROUTER_NAMES = {''CORE_ROUTER'', ''EDGE_ROUTER'', ''BACKBONE_GATEWAY''}"

definition upstream_fail :: "device \<Rightarrow> string \<Rightarrow> upstream_l3_result" where
  "upstream_fail d r = \<lparr>ul_ok = False, ul_anchor = None, ul_chain = [dev_id d], ul_reasons = [r]\<rparr>"

definition router_result :: "device \<Rightarrow> dep_check \<Rightarrow> upstream_l3_result" where
  "router_result d res =
     \<lparr>ul_ok = dc_ok res,
      ul_anchor = (if dc_ok res \<and> dc_chain res \<noteq> [] then Some (last (dc_chain res)) else None),
      ul_chain = (if dc_chain res \<noteq> [] then dc_chain res else [dev_id d]),
      ul_reasons = (if dc_ok res then []
                    else [if truthy (dc_reason res) then the (dc_reason res) else ''unknown''])\<rparr>"

definition router_nodes :: "'g nx \<Rightarrow> 'g \<Rightarrow> ident \<Rightarrow> ident list" where
  "router_nodes nx g d =
     sort (map fst (filter (\<lambda>n. snd n \<in> ROUTER_NAMES \<and> nx_has_path nx g d (fst n)) (nx_nodes_data nx g)))"

fun upstream_loop :: "'g nx \<Rightarrow> db \<Rightarrow> 'g \<Rightarrow> ident \<Rightarrow> 'g dep_state \<Rightarrow> ident list \<Rightarrow> (nat \<times> ident list) list
    \<Rightarrow> 'g dep_state \<times> (nat \<times> ident list) list" where
  "upstream_loop nx s g d st [] acc = (st, acc)"
| "upstream_loop nx s g d st (r # rs) acc =
     (case get_device s r of
        None \<Rightarrow> upstream_loop nx s g d st rs acc
      | Some rd \<Rightarrow>
          let (st', rr) = router_l3_chain s st rd
          in if \<not> dc_ok rr then upstream_loop nx s g d st' rs acc
             else case nx_shortest_path nx g d r of
                    None \<Rightarrow> upstream_loop nx s g d st' rs acc
                  | Some p \<Rightarrow> let full = p @ tl (dc_chain rr)
                              in upstream_loop nx s g d st' rs (acc @ [(length full, full)]))"

definition choose_upstream :: "device \<Rightarrow> (nat \<times> ident list) list \<Rightarrow> upstream_l3_result" where
  "choose_upstream dev candidates =
     (if candidates = [] then upstream_fail dev ''routers_no_l3''
      else let best = snd (hd (sort candidates))
           in \<lparr>ul_ok = True, ul_anchor = Some (if best = [] then [] else last best), ul_chain = best, ul_reasons = []\<rparr>)"

definition compute_upstream :: "'g nx \<Rightarrow> bool \<Rightarrow> db \<Rightarrow> 'g dep_state \<Rightarrow> device
    \<Rightarrow> ('g dep_state \<times> upstream_l3_result) option" where
  "compute_upstream nx uc s st dev =
     (if dev_type dev \<in> router_class
      then let (st', res) = router_l3_chain s st dev in Some (st', router_result dev res)
      else case get_versioned_logical_graph_snapshot nx uc s st of
             None \<Rightarrow> None
           | Some (st1, _, g) \<Rightarrow>
               if dev_id dev \<notin> nx_nodes nx g then Some (st1, upstream_fail dev ''device_not_in_graph'')
               else let rs = router_nodes nx g (dev_id dev)
                    in if rs = [] then Some (st1, upstream_fail dev ''no_router_path'')
                       else let (st2, candidates) = upstream_loop nx s g (dev_id dev) st1 rs []
                            in Some (st2, choose_upstream dev candidates))"

text \<open>The lookup first discards the results of an older version.\<close>

definition has_upstream_l3_or_anchor :: "'g nx \<Rightarrow> bool \<Rightarrow> db \<Rightarrow> 'g dep_state \<Rightarrow> device
    \<Rightarrow> ('g dep_state \<times> upstream_l3_result) option" where
  "has_upstream_l3_or_anchor nx uc s st0 dev =
     (if dev_type dev \<in> router_class then compute_upstream nx uc s st0 dev
      else let st = (if fst (ds_upstream_cache st0) \<noteq> dep_version st0
                     then st0\<lparr>ds_upstream_cache := (dep_version st0, [])\<rparr> else st0)
           in case map_of (snd (ds_upstream_cache st)) (dev_id dev) of
                Some r \<Rightarrow> Some (st, r)
              | None \<Rightarrow> (case compute_upstream nx uc s st dev of
                    None \<Rightarrow> None
                  | Some (st', r) \<Rightarrow>
                      Some (st'\<lparr>ds_upstream_cache := (fst (ds_upstream_cache st'), (dev_id dev, r) # snd (ds_upstream_cache st'))\<rparr>, r)))"

definition evaluate_upstream_dependencies :: "'g nx \<Rightarrow> bool \<Rightarrow> db \<Rightarrow> 'g dep_state \<Rightarrow> device
    \<Rightarrow> ('g dep_state \<times> dep_check) option" where
  "evaluate_upstream_dependencies nx uc s st dev =
     (if dev_type dev \<in> router_class then Some (st, trace_l3_path_to_anchor s dev)
      else map_option (\<lambda>(st', diag). (st', \<lparr>dc_ok = ul_ok diag,
             dc_reason = (if ul_reasons diag = [] then None else Some (hd (ul_reasons diag))), dc_chain = ul_chain diag\<rparr>))
           (has_upstream_l3_or_anchor nx uc s st dev))"

section \<open>The result without memo tables\<close>

definition dep_graph :: "'g nx \<Rightarrow> db \<Rightarrow> bool \<Rightarrow> 'g" where
  "dep_graph nx s relaxed = build_logical_graph nx (fst (dep_inputs s)) (fst (snd (dep_inputs s))) relaxed"

definition router_candidate :: "'g nx \<Rightarrow> db \<Rightarrow> 'g \<Rightarrow> ident \<Rightarrow> ident \<Rightarrow> (nat \<times> ident list) list" where
  "router_candidate nx s g d r =
     (case get_device s r of
        None \<Rightarrow> []
      | Some rd \<Rightarrow>
          if \<not> dc_ok (trace_l3_path_to_anchor s rd) then []
          else case nx_shortest_path nx g d r of
                 None \<Rightarrow> []
               | Some p \<Rightarrow> let full = p @ tl (dc_chain (trace_l3_path_to_anchor s rd)) in [(length full, full)])"

definition upstream_result :: "'g nx \<Rightarrow> db \<Rightarrow> device \<Rightarrow> upstream_l3_result" where
  "upstream_result nx s dev =
     (if dev_type dev \<in> router_class then router_result dev (trace_l3_path_to_anchor s dev)
      else let g = dep_graph nx s False; rs = router_nodes nx g (dev_id dev)
           in if dev_id dev \<notin> nx_nodes nx g then upstream_fail dev ''device_not_in_graph''
              else if rs = [] then upstream_fail dev ''no_router_path''
              else choose_upstream dev (concat (map (router_candidate nx s g (dev_id dev)) rs)))"

text \<open>The same evaluation on the graph \<open>g\<close>, whatever it was built from.\<close>

definition upstream_on :: "'g nx \<Rightarrow> db \<Rightarrow> 'g \<Rightarrow> device \<Rightarrow> upstream_l3_result" where
  "upstream_on nx s g dev =
     (if dev_type dev \<in> router_class then router_result dev (trace_l3_path_to_anchor s dev)
      else if dev_id dev \<notin> nx_nodes nx g then upstream_fail dev ''device_not_in_graph''
      else if router_nodes nx g (dev_id dev) = [] then upstream_fail dev ''no_router_path''
      else choose_upstream dev (concat (map (router_candidate nx s g (dev_id dev)) (router_nodes nx g (dev_id dev)))))"

lemma upstream_result_on: "upstream_result nx s d = upstream_on nx s (dep_graph nx s False) d"
  by (simp add: upstream_result_def upstream_on_def Let_def)

definition tools_graph :: "'g nx \<Rightarrow> db \<Rightarrow> 'g" where
  "tools_graph nx s = build_logical_graph nx (device_records (devices s)) (map tools_link_record (links s)) False"

section \<open>Coherence of the tables\<close>

definition router_tab_ok :: "db \<Rightarrow> (ident \<times> dep_check) list \<Rightarrow> bool" where
  "router_tab_ok s m \<longleftrightarrow>
     (\<forall>k r d. map_of m k = Some r \<longrightarrow> get_device s k = Some d \<longrightarrow> r = trace_l3_path_to_anchor s d)"

definition upstream_tab_ok :: "'g nx \<Rightarrow> db \<Rightarrow> 'g option \<Rightarrow> (ident \<times> upstream_l3_result) list \<Rightarrow> bool" where
  "upstream_tab_ok nx s og m \<longleftrightarrow>
     (\<forall>k r d. map_of m k = Some r \<longrightarrow> get_device s k = Some d \<longrightarrow> (\<exists>g. og = Some g \<and> r = upstream_on nx s g d))"

text \<open>Every table is of the current version and coherent with the database, or older. \<open>og\<close> is the graph that was
  built for the current version, if one was.\<close>

definition dep_inv :: "'g nx \<Rightarrow> db \<Rightarrow> 'g option \<Rightarrow> 'g dep_state \<Rightarrow> bool" where
  "dep_inv nx s og st \<longleftrightarrow>
     0 \<le> dep_version st \<and>
     logical_graph (ds_store st) = og \<and> (og \<noteq> None \<longrightarrow> relaxed_flag_for_logical (ds_store st) = Some False) \<and>
     (\<forall>v i. ds_dep_cache st = Some (v, i) \<longrightarrow> v \<le> dep_version st \<and> (v = dep_version st \<longrightarrow> i = dep_inputs s)) \<and>
     fst (ds_graph_cache st) \<le> dep_version st \<and>
     (\<forall>x. snd (ds_graph_cache st) = Some x \<longrightarrow> fst (ds_graph_cache st) = dep_version st \<longrightarrow>
        fst x = dep_inputs s \<and> og = Some (snd x)) \<and>
     (\<forall>v m. ds_router_cache st = Some (v, m) \<longrightarrow> v \<le> dep_version st \<and> (v = dep_version st \<longrightarrow> router_tab_ok s m)) \<and>
     fst (ds_upstream_cache st) \<le> dep_version st \<and>
     (fst (ds_upstream_cache st) = dep_version st \<longrightarrow> upstream_tab_ok nx s og (snd (ds_upstream_cache st)))"

text \<open>The graph the resolver works on.\<close>

definition served :: "'g nx \<Rightarrow> db \<Rightarrow> 'g option \<Rightarrow> 'g" where
  "served nx s og = (case og of None \<Rightarrow> dep_graph nx s False | Some g \<Rightarrow> g)"

lemma dep_inv_init: "dep_inv nx s None (dep_state0 PathfindingStore)"
  by (simp add: dep_inv_def dep_state0_def dep_version_def PathfindingStore_def)

lemma dep_inv_bump: "dep_inv nx s og st \<Longrightarrow> dep_inv nx s' None (st\<lparr>ds_store := fst (bump_version (ds_store st))\<rparr>)"
  by (auto simp: dep_inv_def dep_version_def bump_version_def Let_def)

lemma dep_inv_session: "dep_inv nx s og st \<Longrightarrow> dep_inv nx s og (st\<lparr>ds_dep_cache := None, ds_router_cache := None\<rparr>)"
  by (simp add: dep_inv_def dep_version_def)

lemma collect_inv:
  assumes "dep_inv nx s og st"
  shows "snd (collect_devices_links uc s st) = dep_inputs s \<and> dep_inv nx s og (fst (collect_devices_links uc s st)) \<and>
    dep_version (fst (collect_devices_links uc s st)) = dep_version st \<and>
    ds_store (fst (collect_devices_links uc s st)) = ds_store st"
  using assms by (auto simp: collect_devices_links_def dep_inv_def dep_version_def Let_def split: option.split)

text \<open>Any caller, with any records: the graph is kept if there is one and built otherwise.\<close>

lemma get_logical_graph_inv:
  assumes "dep_inv nx s og st" "get_logical_graph nx ds ls False (ds_store st) = (store', v, g)"
  shows "g = (case og of None \<Rightarrow> build_logical_graph nx ds ls False | Some g \<Rightarrow> g) \<and> v = dep_version st \<and>
    topo_version store' = dep_version st \<and> dep_inv nx s (Some g) (st\<lparr>ds_store := store'\<rparr>)"
proof (cases og)
  case None
  with assms have "store' = (ds_store st)\<lparr>logical_graph := Some g, relaxed_flag_for_logical := Some False\<rparr>"
    "v = dep_version st" "g = build_logical_graph nx ds ls False"
    by (auto simp: get_logical_graph_def dep_version_def dep_inv_def Let_def)
  with assms(1) None show ?thesis by (fastforce simp: dep_inv_def dep_version_def upstream_tab_ok_def)
next
  case (Some g')
  with assms have "store' = ds_store st" "v = dep_version st" "g = g'"
    by (auto simp: get_logical_graph_def dep_version_def dep_inv_def)
  with assms(1) Some show ?thesis by (simp add: dep_version_def)
qed

lemma snapshot_returns:
  assumes inv: "dep_inv nx s og st"
  shows "\<exists>st'. get_versioned_logical_graph_snapshot nx uc s st = Some (st', dep_inputs s, served nx s og) \<and>
    dep_inv nx s (Some (served nx s og)) st' \<and> dep_version st' = dep_version st \<and> ds_upstream_cache st' = ds_upstream_cache st"
proof (cases "fst (ds_graph_cache st) = dep_version st \<and> snd (ds_graph_cache st) \<noteq> None")
  case True
  then obtain x where x: "snd (ds_graph_cache st) = Some x" "fst x = dep_inputs s" "og = Some (snd x)"
    using inv by (auto simp: dep_inv_def)
  then have "x = (dep_inputs s, served nx s og)" "Some (served nx s og) = og" by (simp_all add: served_def prod_eq_iff)
  with True x(1) inv show ?thesis
    by (subst get_versioned_logical_graph_snapshot.simps) simp
next
  case False
  define st1 where "st1 = fst (collect_devices_links uc s st)"
  have c: "collect_devices_links uc s st = (st1, dep_inputs s)" "dep_inv nx s og st1" "dep_version st1 = dep_version st"
    using collect_inv [OF inv, of uc] by (auto simp: st1_def prod_eq_iff)
  have u: "ds_upstream_cache st1 = ds_upstream_cache st"
    by (simp add: st1_def collect_devices_links_def Let_def split: option.split)
  obtain store' v g where l: "get_logical_graph nx (fst (dep_inputs s)) (fst (snd (dep_inputs s))) False (ds_store st1) = (store', v, g)"
    by (metis prod_cases3)
  note li = get_logical_graph_inv [OF c(2) l]
  have g: "g = served nx s og" using li by (cases og) (simp_all add: served_def dep_graph_def)
  let ?st = "st1\<lparr>ds_store := store', ds_graph_cache := (dep_version st, Some (dep_inputs s, g))\<rparr>"
  have miss: "(if fst (ds_graph_cache st) = dep_version st then snd (ds_graph_cache st) else None) = None"
    using False by (cases "snd (ds_graph_cache st)") simp_all
  have v: "v = dep_version st" "dep_version (st1\<lparr>ds_store := store'\<rparr>) = dep_version st"
    using li c(3) by (simp_all add: dep_version_def)
  have "get_versioned_logical_graph_snapshot nx uc s st = Some (?st, dep_inputs s, g)"
    by (subst get_versioned_logical_graph_snapshot.simps) (simp add: Let_def miss c(1) l v)
  moreover have "dep_inv nx s (Some g) ?st" using li c(3) by (auto simp: dep_inv_def dep_version_def)
  moreover have "dep_version ?st = dep_version st" using li c(3) by (simp add: dep_version_def)
  ultimately show ?thesis using u unfolding g by auto
qed

lemma router_chain_inv:
  assumes inv: "dep_inv nx s og st" and d: "get_device s (dev_id d) = Some d"
  shows "snd (router_l3_chain s st d) = trace_l3_path_to_anchor s d \<and> dep_inv nx s og (fst (router_l3_chain s st d)) \<and>
    dep_version (fst (router_l3_chain s st d)) = dep_version st \<and>
    ds_upstream_cache (fst (router_l3_chain s st d)) = ds_upstream_cache st"
proof -
  define tab where "tab = (case ds_router_cache st of Some (v, m) \<Rightarrow> if v = dep_version st then m else [] | None \<Rightarrow> [])"
  have tab: "router_tab_ok s tab"
    using inv by (auto simp: tab_def dep_inv_def router_tab_ok_def split: option.split)
  have upd: "dep_inv nx s og (st\<lparr>ds_router_cache := Some (dep_version st, m)\<rparr>)" if "router_tab_ok s m" for m
    using inv that by (simp add: dep_inv_def dep_version_def)
  show ?thesis
  proof (cases "map_of tab (dev_id d)")
    case None
    with tab d have "router_tab_ok s ((dev_id d, trace_l3_path_to_anchor s d) # tab)" by (auto simp: router_tab_ok_def)
    from upd [OF this] None show ?thesis
      by (simp add: router_l3_chain_def tab_def [symmetric] Let_def dep_version_def)
  next
    case (Some r)
    with tab d have "r = trace_l3_path_to_anchor s d" unfolding router_tab_ok_def by blast
    with upd [OF tab] Some show ?thesis
      by (simp add: router_l3_chain_def tab_def [symmetric] Let_def dep_version_def)
  qed
qed

lemma upstream_loop_inv:
  assumes "dep_inv nx s og st"
  shows "snd (upstream_loop nx s g d st rs acc) = acc @ concat (map (router_candidate nx s g d) rs) \<and>
    dep_inv nx s og (fst (upstream_loop nx s g d st rs acc)) \<and>
    dep_version (fst (upstream_loop nx s g d st rs acc)) = dep_version st \<and>
    ds_upstream_cache (fst (upstream_loop nx s g d st rs acc)) = ds_upstream_cache st"
  using assms
proof (induction rs arbitrary: st acc)
  case (Cons r rs)
  show ?case
  proof (cases "get_device s r")
    case (Some rd)
    then have "get_device s (dev_id rd) = Some rd" using dev.get_key by blast
    from router_chain_inv [OF Cons.prems this] obtain st' where st': "router_l3_chain s st rd = (st', trace_l3_path_to_anchor s rd)"
      "dep_inv nx s og st'" "dep_version st' = dep_version st" "ds_upstream_cache st' = ds_upstream_cache st"
      by (metis prod.collapse)
    from Cons.IH [OF st'(2)] Some st' show ?thesis
      by (auto simp: router_candidate_def Let_def split: option.split)
  qed (use Cons in \<open>simp add: router_candidate_def\<close>)
qed simp

lemma compute_upstream_inv:
  assumes inv: "dep_inv nx s og st" and d: "get_device s (dev_id d) = Some d" and nr: "dev_type d \<notin> router_class"
  shows "\<exists>st'. compute_upstream nx uc s st d = Some (st', upstream_on nx s (served nx s og) d) \<and>
    dep_inv nx s (Some (served nx s og)) st' \<and>
    dep_version st' = dep_version st \<and> ds_upstream_cache st' = ds_upstream_cache st"
proof -
  let ?g = "served nx s og"
  obtain st1 where st1: "get_versioned_logical_graph_snapshot nx uc s st = Some (st1, dep_inputs s, ?g)" "dep_inv nx s (Some ?g) st1"
    "dep_version st1 = dep_version st" "ds_upstream_cache st1 = ds_upstream_cache st"
    using snapshot_returns [OF inv, of uc] by blast
  have "compute_upstream nx uc s st d =
      (if dev_id d \<notin> nx_nodes nx ?g then Some (st1, upstream_fail d ''device_not_in_graph'')
       else if router_nodes nx ?g (dev_id d) = [] then Some (st1, upstream_fail d ''no_router_path'')
       else let (st2, candidates) = upstream_loop nx s ?g (dev_id d) st1 (router_nodes nx ?g (dev_id d)) []
            in Some (st2, choose_upstream d candidates))"
    using nr st1(1) by (simp add: compute_upstream_def Let_def)
  with nr st1 upstream_loop_inv [OF st1(2), of ?g "dev_id d" "router_nodes nx ?g (dev_id d)" "[]"] show ?thesis
    by (auto simp: upstream_on_def Let_def split: prod.split)
qed

text \<open>What a query leaves behind: a router changes nothing of the graph, any other device needs one.\<close>

definition queried :: "'g nx \<Rightarrow> db \<Rightarrow> 'g option \<Rightarrow> device \<Rightarrow> 'g option" where
  "queried nx s og d = (if dev_type d \<in> router_class then og else Some (served nx s og))"

lemma has_upstream_inv:
  assumes inv: "dep_inv nx s og st" and d: "get_device s (dev_id d) = Some d"
  shows "\<exists>st'. has_upstream_l3_or_anchor nx uc s st d = Some (st', upstream_on nx s (served nx s og) d) \<and>
    dep_inv nx s (queried nx s og d) st'"
proof (cases "dev_type d \<in> router_class")
  case True
  with router_chain_inv [OF inv d] show ?thesis
    by (auto simp: has_upstream_l3_or_anchor_def compute_upstream_def upstream_on_def queried_def split: prod.split)
next
  case False
  define st1 where "st1 = (if fst (ds_upstream_cache st) \<noteq> dep_version st
      then st\<lparr>ds_upstream_cache := (dep_version st, [])\<rparr> else st)"
  have inv1: "dep_inv nx s og st1" and v1: "fst (ds_upstream_cache st1) = dep_version st1"
    using inv by (auto simp: st1_def dep_inv_def dep_version_def upstream_tab_ok_def)
  have tab: "upstream_tab_ok nx s og (snd (ds_upstream_cache st1))" using inv1 v1 by (simp add: dep_inv_def)
  show ?thesis
  proof (cases "map_of (snd (ds_upstream_cache st1)) (dev_id d)")
    case (Some r)
    with tab d have "\<exists>g. og = Some g \<and> r = upstream_on nx s g d" unfolding upstream_tab_ok_def by blast
    then have "r = upstream_on nx s (served nx s og) d" "queried nx s og d = og" using False by (auto simp: served_def queried_def)
    with Some False inv1 show ?thesis by (simp add: has_upstream_l3_or_anchor_def st1_def [symmetric] Let_def)
  next
    case None
    let ?g = "served nx s og" and ?r = "upstream_on nx s (served nx s og) d"
    obtain st2 where st2: "compute_upstream nx uc s st1 d = Some (st2, ?r)" "dep_inv nx s (Some ?g) st2"
      "ds_upstream_cache st2 = ds_upstream_cache st1" using compute_upstream_inv [OF inv1 d False, of uc] by blast
    have "upstream_tab_ok nx s (Some ?g) ((dev_id d, ?r) # snd (ds_upstream_cache st2))"
      using tab d st2(3) by (fastforce simp: upstream_tab_ok_def served_def)
    then have "dep_inv nx s (Some ?g) (st2\<lparr>ds_upstream_cache := (fst (ds_upstream_cache st2), (dev_id d, ?r) # snd (ds_upstream_cache st2))\<rparr>)"
      using st2(2) by (simp add: dep_inv_def dep_version_def)
    with None False st2(1) show ?thesis by (simp add: has_upstream_l3_or_anchor_def st1_def [symmetric] Let_def queried_def)
  qed
qed

section \<open>Refinement over runs\<close>

text \<open>Requests between topology changes: queries of the resolver and requests of the tools endpoints, which share
  the store.\<close>

datatype dep_op = Change_Topology db | New_Session | Query ident | Ping ping_request | Traceroute traceroute_request

fun dep_step :: "'g nx \<Rightarrow> bool \<Rightarrow> db \<times> 'g dep_state \<Rightarrow> dep_op \<Rightarrow> db \<times> 'g dep_state" where
  "dep_step nx uc (s, st) (Change_Topology s') = (s', st\<lparr>ds_store := fst (bump_version (ds_store st))\<rparr>)"
| "dep_step nx uc (s, st) New_Session = (s, st\<lparr>ds_dep_cache := None, ds_router_cache := None\<rparr>)"
| "dep_step nx uc (s, st) (Query k) =
     (s, case get_device s k of
           None \<Rightarrow> st
         | Some d \<Rightarrow> (case has_upstream_l3_or_anchor nx uc s st d of None \<Rightarrow> st | Some (st', _) \<Rightarrow> st'))"
| "dep_step nx uc (s, st) (Ping p) = (s, st\<lparr>ds_store := fst (post_ping nx s (ds_store st) p)\<rparr>)"
| "dep_step nx uc (s, st) (Traceroute p) = (s, st\<lparr>ds_store := fst (post_traceroute nx s (ds_store st) p)\<rparr>)"

definition dep_run :: "'g nx \<Rightarrow> bool \<Rightarrow> db \<Rightarrow> dep_op list \<Rightarrow> db \<times> 'g dep_state" where
  "dep_run nx uc s ops = foldl (dep_step nx uc) (s, dep_state0 PathfindingStore) ops"

text \<open>Who has built the graph of the current topology: the first request since the last change that needed
  one. A query needs it for a device that exists and is not a router, a tools request when both its devices
  exist.\<close>

datatype builder = Resolver | Tools

definition asks_path :: "db \<Rightarrow> ping_request \<Rightarrow> bool" where
  "asks_path s p \<longleftrightarrow> pq_source_device_id p \<noteq> [] \<and> get_device s (pq_source_device_id p) \<noteq> None \<and>
     (case pq_target_device_id p of None \<Rightarrow> False | Some k \<Rightarrow> k \<noteq> [] \<and> get_device s k \<noteq> None)"

fun needs_graph :: "db \<Rightarrow> dep_op \<Rightarrow> builder option" where
  "needs_graph s (Query k) = (case get_device s k of None \<Rightarrow> None | Some d \<Rightarrow> if dev_type d \<in> router_class then None else Some Resolver)"
| "needs_graph s (Ping p) = (if asks_path s p then Some Tools else None)"
| "needs_graph s (Traceroute p) = (if asks_path s (ping_request.truncate p) then Some Tools else None)"
| "needs_graph s op = None"

fun first_asker :: "db \<Rightarrow> builder option \<Rightarrow> dep_op list \<Rightarrow> builder option" where
  "first_asker s b [] = b"
| "first_asker s b (Change_Topology s' # ops) = first_asker s' None ops"
| "first_asker s b (op # ops) = first_asker s (case b of None \<Rightarrow> needs_graph s op | Some x \<Rightarrow> Some x) ops"

definition tools_first :: "db \<Rightarrow> dep_op list \<Rightarrow> bool" where
  "tools_first s ops \<longleftrightarrow> first_asker s None ops = Some Tools"

definition graph_by :: "'g nx \<Rightarrow> db \<Rightarrow> builder \<Rightarrow> 'g" where
  "graph_by nx s b = (case b of Resolver \<Rightarrow> dep_graph nx s False | Tools \<Rightarrow> tools_graph nx s)"

lemma tools_path_store:
  assumes "tools_error s p = None"
  shows "fst (tools_path nx s st p) =
    (if asks_path s p then fst (get_logical_graph nx (device_records (devices s)) (map tools_link_record (links s)) False st) else st)"
  using assms by (auto simp: tools_path_def tools_error_def asks_path_def shortest_logical_path_def truthy_iff
      split: if_splits option.splits prod.split)

lemma tools_error_asks: "tools_error s p \<noteq> None \<Longrightarrow> \<not> asks_path s p"
  by (auto simp: tools_error_def asks_path_def truthy_iff split: if_splits option.splits)

lemma tools_step_inv:
  assumes inv: "dep_inv nx s (map_option (graph_by nx s) b) st"
    and st': "store' = (if asks_path s p
      then fst (get_logical_graph nx (device_records (devices s)) (map tools_link_record (links s)) False (ds_store st)) else ds_store st)"
  shows "dep_inv nx s (map_option (graph_by nx s) (case b of None \<Rightarrow> if asks_path s p then Some Tools else None | Some x \<Rightarrow> Some x))
    (st\<lparr>ds_store := store'\<rparr>)"
proof (cases "asks_path s p")
  case True
  obtain g v where l: "get_logical_graph nx (device_records (devices s)) (map tools_link_record (links s)) False (ds_store st) = (store', v, g)"
    using st' True by (metis fst_conv prod_cases3)
  from get_logical_graph_inv [OF inv l] True show ?thesis
    by (cases b) (auto simp: graph_by_def tools_graph_def)
qed (use assms in \<open>cases b; simp\<close>)

lemma post_ping_store:
  "fst (post_ping nx s st p) = (if asks_path s p
     then fst (get_logical_graph nx (device_records (devices s)) (map tools_link_record (links s)) False st) else st)"
  using tools_path_store [of s p nx st] tools_error_asks [of s p]
  by (cases "tools_error s p") (auto simp: post_ping_def case_prod_unfold Let_def)

lemma post_traceroute_store:
  "fst (post_traceroute nx s st p) = (if asks_path s (ping_request.truncate p)
     then fst (get_logical_graph nx (device_records (devices s)) (map tools_link_record (links s)) False st) else st)"
  using tools_path_store [of s "ping_request.truncate p" nx st] tools_error_asks [of s "ping_request.truncate p"]
  by (cases "tools_error s (ping_request.truncate p)") (auto simp: post_traceroute_def case_prod_unfold Let_def)

lemma query_step_inv:
  assumes inv: "dep_inv nx s (map_option (graph_by nx s) b) st"
  shows "dep_inv nx s (map_option (graph_by nx s) (case b of None \<Rightarrow> needs_graph s (Query k) | Some x \<Rightarrow> Some x))
    (snd (dep_step nx uc (s, st) (Query k)))"
proof (cases "get_device s k")
  case None
  with inv show ?thesis by (cases b) simp_all
next
  case (Some d)
  then have "get_device s (dev_id d) = Some d" using dev.get_key by blast
  from has_upstream_inv [OF inv this, of uc] Some show ?thesis
    by (cases b) (auto simp: queried_def served_def graph_by_def split: if_splits)
qed

lemma dep_run_inv:
  assumes "dep_inv nx s (map_option (graph_by nx s) b) st" "foldl (dep_step nx uc) (s, st) ops = (s', st')"
  shows "dep_inv nx s' (map_option (graph_by nx s') (first_asker s b ops)) st'"
  using assms
proof (induction ops arbitrary: s b st)
  case (Cons op ops)
  note ih = Cons.IH and inv = Cons.prems(1) and run = Cons.prems(2)
  show ?case
  proof (cases op)
    case (Change_Topology s1)
    with ih [of s1 None "st\<lparr>ds_store := fst (bump_version (ds_store st))\<rparr>"] dep_inv_bump [OF inv, of s1] run
    show ?thesis by simp
  next
    case New_Session
    have "(case b of None \<Rightarrow> needs_graph s New_Session | Some x \<Rightarrow> Some x) = b" by (cases b) simp_all
    with New_Session ih [OF dep_inv_session [OF inv]] run show ?thesis by simp
  next
    case (Query k)
    with ih [OF query_step_inv [OF inv, of k uc]] run show ?thesis by simp
  next
    case (Ping p)
    with ih [OF tools_step_inv [OF inv post_ping_store, of p]] run show ?thesis by (simp cong: option.case_cong)
  next
    case (Traceroute p)
    with ih [OF tools_step_inv [OF inv post_traceroute_store, of p]] run show ?thesis by (simp cong: option.case_cong)
  qed
qed simp

text \<open>C4: The memoised upstream evaluation refines the pure one. After any sequence of topology changes (each followed
  by \<^verbatim>\<open>bump_version\<close>), of new sessions, of queries and of ping and traceroute requests, a query for a device of the
  database returns. Its result is that of the pure evaluation on the current database, unless a tools
  request was the first since the last change to ask the store for the logical graph; then it is the
  evaluation on the graph of the tools endpoint, of all devices and links whatever their status.\<close>

theorem upstream_refines:
  assumes "dep_run nx uc s0 ops = (s, st)" "get_device s (dev_id d) = Some d"
  shows "\<exists>st'. has_upstream_l3_or_anchor nx uc s st d =
    Some (st', if tools_first s0 ops then upstream_on nx s (tools_graph nx s) d else upstream_result nx s d)"
proof -
  have "dep_inv nx s0 (map_option (graph_by nx s0) None) (dep_state0 PathfindingStore)" by (simp add: dep_inv_init)
  from dep_run_inv [OF this, of uc ops s st] assms(1)
  have inv: "dep_inv nx s (map_option (graph_by nx s) (first_asker s0 None ops)) st" by (simp add: dep_run_def)
  have "upstream_on nx s (served nx s (map_option (graph_by nx s) (first_asker s0 None ops))) d =
      (if tools_first s0 ops then upstream_on nx s (tools_graph nx s) d else upstream_result nx s d)"
    by (cases "first_asker s0 None ops") (auto simp: tools_first_def served_def graph_by_def upstream_result_on split: builder.split)
  with has_upstream_inv [OF inv assms(2), of uc] show ?thesis by auto
qed

definition demo_ping :: ping_request where
  "demo_ping = \<lparr>pq_source_device_id = ''olt'', pq_target_device_id = Some ''er'', pq_target_ip = None\<rparr>"

text \<open>The OLT asked twice, with a ping in between, is answered from the results of the first query. Asked after a
  ping it has no upstream any more: the graph of the ping has no edge to the interfaces of this topology.\<close>

theorem upstream_refines_witness:
  "\<exists>st st1 st' st1'. dep_run list_nx True empty_db [Change_Topology demo_l3, Query ''olt'', Ping demo_ping] = (demo_l3, st) \<and>
     dep_run list_nx True empty_db [Change_Topology demo_l3, Ping demo_ping, Query ''olt''] = (demo_l3, st1) \<and>
     has_upstream_l3_or_anchor list_nx True demo_l3 st demo_olt =
       Some (st', \<lparr>ul_ok = True, ul_anchor = Some ''bb'', ul_chain = [''olt'', ''er'', ''bb''], ul_reasons = []\<rparr>) \<and>
     has_upstream_l3_or_anchor list_nx True demo_l3 st1 demo_olt =
       Some (st1', \<lparr>ul_ok = False, ul_anchor = None, ul_chain = [''olt''], ul_reasons = [''no_router_path'']\<rparr>)"
proof -
  let ?ops = "[Change_Topology demo_l3, Query ''olt'', Ping demo_ping]"
  let ?ops1 = "[Change_Topology demo_l3, Ping demo_ping, Query ''olt'']"
  obtain st where st: "dep_run list_nx True empty_db ?ops = (demo_l3, st)" by (simp add: dep_run_def)
  obtain st1 where st1: "dep_run list_nx True empty_db ?ops1 = (demo_l3, st1)" by (simp add: dep_run_def)
  have t: "\<not> tools_first empty_db ?ops" "tools_first empty_db ?ops1" by code_simp+
  have u: "upstream_result list_nx demo_l3 demo_olt =
      \<lparr>ul_ok = True, ul_anchor = Some ''bb'', ul_chain = [''olt'', ''er'', ''bb''], ul_reasons = []\<rparr>" by code_simp
  have u1: "upstream_on list_nx demo_l3 (tools_graph list_nx demo_l3) demo_olt =
      \<lparr>ul_ok = False, ul_anchor = None, ul_chain = [''olt''], ul_reasons = [''no_router_path'']\<rparr>" by code_simp
  from upstream_refines [OF st demo_olt_row] t(1) u upstream_refines [OF st1 demo_olt_row] t(2) u1 st st1
  show ?thesis by auto
qed

text \<open>The same as a defect: with nothing but a ping in between, the upstream of a device is lost.\<close>

theorem ping_hides_upstream:
  "ul_ok (upstream_result list_nx demo_l3 demo_olt) \<and>
   \<not> ul_ok (upstream_on list_nx demo_l3 (tools_graph list_nx demo_l3) demo_olt)"
  by code_simp

text \<open>The components that ask the resolver are modelled with its pure result. For each of them the form that
  calls the memoised function is stated too, and these facts lead from one to the other: \<open>resolver_state\<close>
  holds of the tables after any run in which no tools request came first, and every query keeps it.\<close>

definition resolver_state :: "'g nx \<Rightarrow> db \<Rightarrow> 'g dep_state \<Rightarrow> bool" where
  "resolver_state nx s st \<longleftrightarrow> (\<exists>og. dep_inv nx s og st \<and> served nx s og = dep_graph nx s False)"

lemma resolver_state_run:
  assumes "dep_run nx uc s0 ops = (s, st)" "\<not> tools_first s0 ops"
  shows "resolver_state nx s st"
proof -
  have "dep_inv nx s0 (map_option (graph_by nx s0) None) (dep_state0 PathfindingStore)" by (simp add: dep_inv_init)
  from dep_run_inv [OF this, of uc ops s st] assms(1)
  have "dep_inv nx s (map_option (graph_by nx s) (first_asker s0 None ops)) st" by (simp add: dep_run_def)
  moreover have "served nx s (map_option (graph_by nx s) (first_asker s0 None ops)) = dep_graph nx s False"
    using assms(2) by (cases "first_asker s0 None ops") (auto simp: tools_first_def served_def graph_by_def split: builder.split)
  ultimately show ?thesis unfolding resolver_state_def by blast
qed

lemma resolver_query:
  assumes "resolver_state nx s st" "get_device s (dev_id d) = Some d"
  shows "\<exists>st'. has_upstream_l3_or_anchor nx uc s st d = Some (st', upstream_result nx s d) \<and> resolver_state nx s st'"
proof -
  from assms(1) obtain og where og: "dep_inv nx s og st" "served nx s og = dep_graph nx s False"
    unfolding resolver_state_def by blast
  from has_upstream_inv [OF og(1) assms(2), of uc] obtain st' where
    "has_upstream_l3_or_anchor nx uc s st d = Some (st', upstream_result nx s d)" "dep_inv nx s (queried nx s og d) st'"
    unfolding og(2) upstream_result_on [symmetric] by blast
  moreover have "served nx s (queried nx s og d) = dep_graph nx s False" using og(2) by (simp add: queried_def served_def)
  ultimately show ?thesis unfolding resolver_state_def by blast
qed

section \<open>What the result says\<close>

definition reaches_router :: "'g nx \<Rightarrow> db \<Rightarrow> ident \<Rightarrow> ident list \<Rightarrow> ident list \<Rightarrow> bool" where
  "reaches_router nx s k p ch \<longleftrightarrow> nx_walk nx (dep_graph nx s False) k p \<and>
     (\<exists>t \<in> ROUTER_NAMES. (last p, t) \<in> set (nx_nodes_data nx (dep_graph nx s False))) \<and>
     (\<exists>rd. get_device s (last p) = Some rd \<and> l3_path s rd ch)"

lemma path_lawsD:
  assumes "nx_path_laws nx" "u \<in> nx_nodes nx g" "v \<in> nx_nodes nx g"
  shows "nx_has_path nx g u v \<longleftrightarrow> (\<exists>p. nx_walk nx g u p \<and> last p = v)"
    "nx_walk nx g u q \<Longrightarrow> last q = v \<Longrightarrow>
       \<exists>p. nx_shortest_path nx g u v = Some p \<and> nx_walk nx g u p \<and> last p = v \<and> length p \<le> length q"
    "nx_shortest_path nx g u v = Some p \<Longrightarrow> nx_walk nx g u p \<and> last p = v"
proof -
  from assms have laws: "nx_has_path nx g u v \<longleftrightarrow> (\<exists>p. nx_walk nx g u p \<and> last p = v)"
    "case nx_shortest_path nx g u v of None \<Rightarrow> \<not> (\<exists>p. nx_walk nx g u p \<and> last p = v)
      | Some p \<Rightarrow> nx_walk nx g u p \<and> last p = v \<and> (\<forall>q. nx_walk nx g u q \<longrightarrow> last q = v \<longrightarrow> length p \<le> length q)"
    unfolding nx_path_laws_def by blast+
  show "nx_has_path nx g u v \<longleftrightarrow> (\<exists>p. nx_walk nx g u p \<and> last p = v)" by (fact laws)
  show "\<exists>p. nx_shortest_path nx g u v = Some p \<and> nx_walk nx g u p \<and> last p = v \<and> length p \<le> length q"
    if "nx_walk nx g u q" "last q = v" using laws(2) that by (auto split: option.splits)
  show "nx_walk nx g u p \<and> last p = v" if "nx_shortest_path nx g u v = Some p" using laws(2) that by auto
qed

lemma router_candidate_iff:
  "(n, full) \<in> set (router_candidate nx s g k r) \<longleftrightarrow>
     (\<exists>rd p. get_device s r = Some rd \<and> dc_ok (trace_l3_path_to_anchor s rd) \<and> nx_shortest_path nx g k r = Some p \<and>
        full = p @ tl (dc_chain (trace_l3_path_to_anchor s rd)) \<and> n = length full)"
  by (cases "get_device s r"; cases "nx_shortest_path nx g k r") (auto simp: router_candidate_def Let_def)

lemma candidate_sound:
  assumes nx: "nx_path_laws nx" and k: "k \<in> nx_nodes nx (dep_graph nx s False)"
    and r: "r \<in> set (router_nodes nx (dep_graph nx s False) k)"
    and c: "(n, full) \<in> set (router_candidate nx s (dep_graph nx s False) k r)"
  shows "n = length full \<and> (\<exists>p ch. reaches_router nx s k p ch \<and> full = p @ tl ch)"
proof -
  from c obtain rd p where rd: "get_device s r = Some rd" "dc_ok (trace_l3_path_to_anchor s rd)"
    "nx_shortest_path nx (dep_graph nx s False) k r = Some p" "n = length full"
    "full = p @ tl (dc_chain (trace_l3_path_to_anchor s rd))"
    unfolding router_candidate_iff by blast
  from r obtain t where t: "t \<in> ROUTER_NAMES" "(r, t) \<in> set (nx_nodes_data nx (dep_graph nx s False))"
    by (auto simp: router_nodes_def)
  then have "r \<in> nx_nodes nx (dep_graph nx s False)" by (force simp: nx_nodes_def)
  from path_lawsD(3) [OF nx k this rd(3)] have p: "nx_walk nx (dep_graph nx s False) k p" "last p = r" by blast+
  have "get_device s (dev_id rd) = Some rd" using rd(1) dev.get_key [OF rd(1)] by simp
  from trace_path_iff [OF this] rd(2) have "l3_path s rd (dc_chain (trace_l3_path_to_anchor s rd))" by blast
  with t p rd show ?thesis unfolding reaches_router_def by blast
qed

lemma candidate_complete:
  assumes nx: "nx_path_laws nx" and k: "k \<in> nx_nodes nx (dep_graph nx s False)"
    and q: "reaches_router nx s k q ch"
  shows "last q \<in> set (router_nodes nx (dep_graph nx s False) k)"
    "\<exists>n full. (n, full) \<in> set (router_candidate nx s (dep_graph nx s False) k (last q)) \<and> n \<le> length (q @ tl ch)"
proof -
  from q obtain t rd where t: "t \<in> ROUTER_NAMES" "(last q, t) \<in> set (nx_nodes_data nx (dep_graph nx s False))"
    and rd: "get_device s (last q) = Some rd" "l3_path s rd ch" and w: "nx_walk nx (dep_graph nx s False) k q"
    unfolding reaches_router_def by blast
  have n: "last q \<in> nx_nodes nx (dep_graph nx s False)" using t by (force simp: nx_nodes_def)
  have "nx_has_path nx (dep_graph nx s False) k (last q)" using path_lawsD(1) [OF nx k n] w by blast
  with t show "last q \<in> set (router_nodes nx (dep_graph nx s False) k)" by (force simp: router_nodes_def)
  from path_lawsD(2) [OF nx k n w refl] obtain p where
    p: "nx_shortest_path nx (dep_graph nx s False) k (last q) = Some p" "length p \<le> length q" by blast
  have "get_device s (dev_id rd) = Some rd" using rd(1) dev.get_key [OF rd(1)] by simp
  from trace_path_iff [OF this] rd(2)
  have "dc_ok (trace_l3_path_to_anchor s rd) \<and> dc_chain (trace_l3_path_to_anchor s rd) = ch" by blast
  with p rd(1) show "\<exists>n full. (n, full) \<in> set (router_candidate nx s (dep_graph nx s False) k (last q)) \<and> n \<le> length (q @ tl ch)"
    unfolding router_candidate_iff by auto
qed

lemma choose_upstream_best:
  "cs \<noteq> [] \<Longrightarrow> snd (hd (sort cs)) = f \<Longrightarrow> f \<noteq> [] \<Longrightarrow>
   choose_upstream d cs = \<lparr>ul_ok = True, ul_anchor = Some (last f), ul_chain = f, ul_reasons = []\<rparr>"
  by (simp add: choose_upstream_def)

lemma upstream_result_cases:
  assumes nx: "nx_path_laws nx" and d: "dev_type d \<notin> router_class"
  shows "ul_ok (upstream_result nx s d) \<longleftrightarrow>
      dev_id d \<in> nx_nodes nx (dep_graph nx s False) \<and> (\<exists>p ch. reaches_router nx s (dev_id d) p ch)" (is ?iff)
    and "ul_ok (upstream_result nx s d) \<Longrightarrow> \<exists>p ch. reaches_router nx s (dev_id d) p ch \<and>
      ul_chain (upstream_result nx s d) = p @ tl ch \<and> ul_anchor (upstream_result nx s d) = Some (last (p @ tl ch)) \<and>
      (\<forall>q ch'. reaches_router nx s (dev_id d) q ch' \<longrightarrow> length (p @ tl ch) \<le> length (q @ tl ch'))"
proof -
  let ?g = "dep_graph nx s False" and ?k = "dev_id d"
  let ?c = "concat (map (router_candidate nx s ?g ?k) (router_nodes nx ?g ?k))"
  have fail [simp]: "\<not> ul_ok (upstream_fail d x)" for x by (simp add: upstream_fail_def)
  show iff: ?iff
  proof (cases "?k \<in> nx_nodes nx ?g")
    case True
    have "?c \<noteq> [] \<longleftrightarrow> (\<exists>p ch. reaches_router nx s ?k p ch)"
    proof
      assume "?c \<noteq> []"
      then obtain x where "x \<in> set ?c" by (meson hd_in_set)
      then obtain r where "r \<in> set (router_nodes nx ?g ?k)" "(fst x, snd x) \<in> set (router_candidate nx s ?g ?k r)" by auto
      from candidate_sound [OF nx True this] show "\<exists>p ch. reaches_router nx s ?k p ch" by blast
    next
      assume "\<exists>p ch. reaches_router nx s ?k p ch"
      then show "?c \<noteq> []" using candidate_complete [OF nx True] by fastforce
    qed
    moreover have "ul_ok (upstream_result nx s d) \<longleftrightarrow> ?c \<noteq> []"
      using d True by (auto simp: upstream_result_def choose_upstream_def Let_def)
    ultimately show ?thesis using True by blast
  qed (use d in \<open>simp add: upstream_result_def Let_def\<close>)
  assume ok: "ul_ok (upstream_result nx s d)"
  with iff have k: "?k \<in> nx_nodes nx ?g" by blast
  have ne: "?c \<noteq> []" using ok d k by (auto simp: upstream_result_def choose_upstream_def Let_def split: if_splits)
  let ?b = "hd (sort ?c)"
  have "?b \<in> set ?c" by (rule hd_sort_key_in [OF ne])
  then obtain r where r: "r \<in> set (router_nodes nx ?g ?k)" "(fst ?b, snd ?b) \<in> set (router_candidate nx s ?g ?k r)" by auto
  from candidate_sound [OF nx k r] obtain p ch where p: "reaches_router nx s ?k p ch" "snd ?b = p @ tl ch"
    "fst ?b = length (p @ tl ch)" by auto
  have "length (p @ tl ch) \<le> length (q @ tl ch')" if q: "reaches_router nx s ?k q ch'" for q ch'
  proof -
    from candidate_complete [OF nx k q] obtain n full where "(n, full) \<in> set ?c" "n \<le> length (q @ tl ch')"
      by fastforce
    with hd_sort_key_le [of "(n, full)" ?c "\<lambda>x. x"] p(3) show ?thesis by (cases ?b) auto
  qed
  moreover have "upstream_result nx s d = choose_upstream d ?c"
    using ne d k by (auto simp: upstream_result_def Let_def)
  moreover have "p @ tl ch \<noteq> []" using p(1) by (auto simp: reaches_router_def nx_walk_def)
  note choose_upstream_best [OF ne p(2) this, of d]
  ultimately show "\<exists>p ch. reaches_router nx s ?k p ch \<and>
      ul_chain (upstream_result nx s d) = p @ tl ch \<and> ul_anchor (upstream_result nx s d) = Some (last (p @ tl ch)) \<and>
      (\<forall>q ch'. reaches_router nx s ?k q ch' \<longrightarrow> length (p @ tl ch) \<le> length (q @ tl ch'))"
    using p(1) by (intro exI [of _ p] exI [of _ ch]) simp
qed

text \<open>C5: A device that is not a router is reported to have an upstream exactly when the logical graph
  joins it to a router from which an L3 path leads to a backbone gateway; the reported chain is then a
  shortest such route, it starts at the device and its last device, the reported anchor, is a gateway
  that is not forced down.\<close>

theorem upstream_ok_iff:
  assumes "nx_path_laws nx" "dev_type d \<notin> router_class"
  shows "(ul_ok (upstream_result nx s d) \<longleftrightarrow>
      dev_id d \<in> nx_nodes nx (dep_graph nx s False) \<and> (\<exists>p ch. reaches_router nx s (dev_id d) p ch)) \<and>
    (ul_ok (upstream_result nx s d) \<longrightarrow>
      hd (ul_chain (upstream_result nx s d)) = dev_id d \<and>
      ul_anchor (upstream_result nx s d) = Some (last (ul_chain (upstream_result nx s d))) \<and>
      (\<exists>gw. get_device s (last (ul_chain (upstream_result nx s d))) = Some gw \<and> dev_type gw = BACKBONE_GATEWAY \<and> \<not> forced_down gw) \<and>
      (\<forall>q ch. reaches_router nx s (dev_id d) q ch \<longrightarrow> length (ul_chain (upstream_result nx s d)) \<le> length (q @ tl ch)))"
proof (intro conjI impI)
  show "ul_ok (upstream_result nx s d) \<longleftrightarrow>
      dev_id d \<in> nx_nodes nx (dep_graph nx s False) \<and> (\<exists>p ch. reaches_router nx s (dev_id d) p ch)"
    by (rule upstream_result_cases(1) [OF assms])
  assume "ul_ok (upstream_result nx s d)"
  from upstream_result_cases(2) [OF assms this] obtain p ch where p: "reaches_router nx s (dev_id d) p ch"
    and c: "ul_chain (upstream_result nx s d) = p @ tl ch" "ul_anchor (upstream_result nx s d) = Some (last (p @ tl ch))"
    and m: "\<forall>q ch'. reaches_router nx s (dev_id d) q ch' \<longrightarrow> length (p @ tl ch) \<le> length (q @ tl ch')" by blast
  from p obtain rd where rd: "get_device s (last p) = Some rd" "l3_path s rd ch" and w: "p \<noteq> []" "hd p = dev_id d"
    unfolding reaches_router_def nx_walk_def by blast
  have row: "get_device s (dev_id rd) = Some rd" "dev_id rd = last p" using rd(1) dev.get_key [OF rd(1)] by simp_all
  have "last (p @ tl ch) = last ch"
    using l3_path_collapse [OF rd(2)] row(2) w(1) by (cases "tl ch = []") (auto, metis last.simps last_ConsR)
  with l3_path_props [OF rd(2) row(1)] c(1)
  show "\<exists>gw. get_device s (last (ul_chain (upstream_result nx s d))) = Some gw \<and> dev_type gw = BACKBONE_GATEWAY \<and> \<not> forced_down gw"
    by auto
  show "hd (ul_chain (upstream_result nx s d)) = dev_id d" using c(1) w by simp
  show "ul_anchor (upstream_result nx s d) = Some (last (ul_chain (upstream_result nx s d)))" using c by simp
  show "\<forall>q ch. reaches_router nx s (dev_id d) q ch \<longrightarrow> length (ul_chain (upstream_result nx s d)) \<le> length (q @ tl ch)"
    using c(1) m by simp
qed

theorem upstream_ok_iff_witness:
  "ul_ok (upstream_result list_nx demo_l3 demo_olt) \<longleftrightarrow>
     dev_id demo_olt \<in> nx_nodes list_nx (dep_graph list_nx demo_l3 False) \<and>
     (\<exists>p ch. reaches_router list_nx demo_l3 (dev_id demo_olt) p ch)"
proof -
  have "dev_type demo_olt \<notin> router_class" by (simp add: demo_olt_def Device_def router_class_def)
  from upstream_ok_iff [OF list_nx_path_laws this, of demo_l3] show ?thesis by blast
qed

end
