(* ===== verification/Status.thy ===== *)
theory Status
  imports Dependency Links
begin

text \<open>
  Status evaluation and recomputation (\<^verbatim>\<open>services/status_service.py\<close>, \<^verbatim>\<open>status_service_passive.py\<close>,
  \<^verbatim>\<open>status_recompute.py\<close>, \<^verbatim>\<open>status_propagation_store.py\<close>). A call of \<^verbatim>\<open>has_upstream_l3_or_anchor\<close> is the pure
  \<open>upstream_result\<close>, which the memoised call refines. Python iterates over a set in an order of its
  own: the parameter \<open>so\<close> lists the elements of a set in that order, and the theorems hold for every
  such order. Metrics and log output are not modelled.
\<close>

section \<open>Passive devices\<close>

definition UPSTREAM_TYPES :: "DeviceType set" where
  "UPSTREAM_TYPES = {OLT, AON_SWITCH, CORE_ROUTER, EDGE_ROUTER}"

definition TERMINATOR_TYPES :: "DeviceType set" where
  "TERMINATOR_TYPES = {ONT, BUSINESS_ONT, AON_CPE}"

definition PASSIVE_TYPES :: "DeviceType set" where
  "PASSIVE_TYPES = {ODF, NVT, SPLITTER, HOP}"

definition upstream_ok :: "'g nx \<Rightarrow> db \<Rightarrow> device \<Rightarrow> bool" where
  "upstream_ok nx s d = ul_ok (upstream_result nx s d)"

definition own_if_ids :: "db \<Rightarrow> ident \<Rightarrow> ident set" where
  "own_if_ids s d = if_id ` set (filter (\<lambda>i. if_device_id i = d) (interfaces s))"

text \<open>The device ids at the far ends of the links of a device, in the order of the links.\<close>

definition link_neighbors :: "db \<Rightarrow> ident \<Rightarrow> ident list" where
  "link_neighbors s d =
     concat (map (\<lambda>l.
       if ln_a_interface_id l \<in> own_if_ids s d \<or> ln_b_interface_id l \<in> own_if_ids s d
       then case get_interface s (if ln_a_interface_id l \<in> own_if_ids s d then ln_b_interface_id l else ln_a_interface_id l) of
              None \<Rightarrow> [] | Some i \<Rightarrow> [if_device_id i]
       else []) (links s))"

definition typed_in :: "db \<Rightarrow> DeviceType set \<Rightarrow> ident \<Rightarrow> bool" where
  "typed_in s T k \<longleftrightarrow> (case get_device s k of None \<Rightarrow> False | Some d \<Rightarrow> dev_type d \<in> T)"

definition live_upstream :: "'g nx \<Rightarrow> db \<Rightarrow> ident \<Rightarrow> bool" where
  "live_upstream nx s k \<longleftrightarrow> (case get_device s k of
     None \<Rightarrow> False | Some d \<Rightarrow> dev_type d \<in> UPSTREAM_TYPES \<and> upstream_ok nx s d)"

lemma typed_in_ids: "typed_in s T k \<Longrightarrow> k \<in> dev_id ` set (devices s)"
  by (auto simp: typed_in_def split: option.splits dest: dev.get_SomeD)

text \<open>The stack of the first search, its top first; \<open>ups\<close> are the direct neighbours that can be an
  upstream. Devices already checked are not looked at again.\<close>

function chain_up_loop :: "'g nx \<Rightarrow> db \<Rightarrow> ident set \<Rightarrow> ident list \<Rightarrow> ident set \<Rightarrow> bool" where
  "chain_up_loop nx s ups [] checked = False"
| "chain_up_loop nx s ups (cur # stack) checked =
     (if cur \<in> checked then chain_up_loop nx s ups stack checked
      else if cur \<in> ups \<and> live_upstream nx s cur then True
      else let others = filter (\<lambda>o'. o' \<notin> insert cur checked) (link_neighbors s cur)
           in if list_ex (live_upstream nx s) others then True
              else chain_up_loop nx s ups (rev (filter (typed_in s PASSIVE_TYPES) others) @ stack) (insert cur checked))"
  by pat_completeness auto
termination
proof (relation "measures [\<lambda>(nx, s, ups, st, V). card ((dev_id ` set (devices s) \<union> set st) - V), \<lambda>(nx, s, ups, st, V). length st]", goal_cases)
  case (2 nx s ups cur stack checked)
  then have "dev_id ` set (devices s) \<union> set (cur # stack) - checked = dev_id ` set (devices s) \<union> set stack - checked" by auto
  then show ?case by simp
next
  case (3 nx s ups cur stack checked others)
  have "card (dev_id ` set (devices s) \<union> set (rev (filter (typed_in s PASSIVE_TYPES) others) @ stack) - insert cur checked)
      < card (dev_id ` set (devices s) \<union> set (cur # stack) - checked)"
    using 3(1) by (intro psubset_card_mono) (auto dest: typed_in_ids)
  then show ?case by simp
qed simp

function terminator_loop :: "db \<Rightarrow> ident list \<Rightarrow> ident set \<Rightarrow> bool" where
  "terminator_loop s [] visited = False"
| "terminator_loop s (cur # queue) visited =
     (if cur \<in> visited then terminator_loop s queue visited
      else let others = link_neighbors s cur
           in if list_ex (typed_in s TERMINATOR_TYPES) others then True
              else terminator_loop s (queue @ filter (\<lambda>o'. typed_in s PASSIVE_TYPES o' \<and> o' \<notin> insert cur visited) others)
                     (insert cur visited))"
  by pat_completeness auto
termination
proof (relation "measures [\<lambda>(s, st, V). card ((dev_id ` set (devices s) \<union> set st) - V), \<lambda>(s, st, V). length st]", goal_cases)
  case (2 s cur queue visited)
  then have "dev_id ` set (devices s) \<union> set (cur # queue) - visited = dev_id ` set (devices s) \<union> set queue - visited" by auto
  then show ?case by simp
next
  case (3 s cur queue visited others)
  have "card (dev_id ` set (devices s) \<union> set (queue @ filter (\<lambda>o'. typed_in s PASSIVE_TYPES o' \<and> o' \<notin> insert cur visited) others) - insert cur visited)
      < card (dev_id ` set (devices s) \<union> set (cur # queue) - visited)"
    using 3(1) by (intro psubset_card_mono) (auto dest: typed_in_ids)
  then show ?case by simp
qed simp

definition eval_passive_status :: "'g nx \<Rightarrow> (ident set \<Rightarrow> ident list) \<Rightarrow> db \<Rightarrow> device \<Rightarrow> Status" where
  "eval_passive_status nx so s d =
     (let neighbors = set (link_neighbors s (dev_id d))
      in if card neighbors < 2 then DOWN
         else let ns = so neighbors;
                  upstream_candidates = filter (typed_in s UPSTREAM_TYPES) ns;
                  downstream_terms = filter (typed_in s TERMINATOR_TYPES) ns;
                  passive_neighbors = filter (typed_in s PASSIVE_TYPES) ns
              in if \<not> chain_up_loop nx s (set upstream_candidates) (rev (upstream_candidates @ passive_neighbors)) {} then DOWN
                 else if downstream_terms = [] \<and> \<not> terminator_loop s passive_neighbors {} then DOWN
                 else UP)"

section \<open>Devices\<close>

text \<open>\<open>cache\<close> is the optional \<^verbatim>\<open>upstream_cache\<close>.\<close>

definition evaluate_device_status ::
    "'g nx \<Rightarrow> (ident set \<Rightarrow> ident list) \<Rightarrow> db \<Rightarrow> (ident \<rightharpoonup> bool) option \<Rightarrow> device \<Rightarrow> Status" where
  "evaluate_device_status nx so s cache d =
     (case dev_admin_override_status d of
        Some ov \<Rightarrow> ov
      | None \<Rightarrow>
          (case derive_role d of
             ALWAYS_ONLINE \<Rightarrow> UP
           | PASSIVE \<Rightarrow> eval_passive_status nx so s d
           | ACTIVE \<Rightarrow>
               if \<not> dev_provisioned d then DOWN
               else if dev_type d \<in> {ONT, BUSINESS_ONT} \<and> dev_signal_status d = Some NO_SIGNAL then DOWN
               else case (case cache of None \<Rightarrow> None | Some m \<Rightarrow> m (dev_id d)) of
                      Some ok \<Rightarrow> if ok then UP else DOWN
                    | None \<Rightarrow>
                        if dev_type d \<in> router_class
                        then if has_l3_reachability_to_anchor s d then UP else DOWN
                        else if upstream_ok nx s d then UP else DOWN))"

section \<open>The searches through passive devices\<close>

definition passive_succ :: "db \<Rightarrow> ident \<Rightarrow> ident set" where
  "passive_succ s x = {y \<in> set (link_neighbors s x). typed_in s PASSIVE_TYPES y}"

interpretation term_search: worklist_search "passive_succ s"
  "\<lambda>x q V. q @ filter (\<lambda>y. typed_in s PASSIVE_TYPES y \<and> y \<notin> insert x V) (link_neighbors s x)"
  "\<lambda>x. \<exists>y \<in> set (link_neighbors s x). typed_in s TERMINATOR_TYPES y" "terminator_loop s" for s
proof
  show "P q V" if "\<And>V. P [] V" "\<And>x q V. x \<in> V \<Longrightarrow> P q V \<Longrightarrow> P (x # q) V"
    "\<And>x q V. x \<notin> V \<Longrightarrow> P (q @ filter (\<lambda>y. typed_in s PASSIVE_TYPES y \<and> y \<notin> insert x V) (link_neighbors s x)) (insert x V)
        \<Longrightarrow> P (x # q) V" for P q V
  proof (rule worklist_induct [where N = "dev_id ` set (devices s)" and P = P and
      enqueue = "\<lambda>x q V. q @ filter (\<lambda>y. typed_in s PASSIVE_TYPES y \<and> y \<notin> insert x V) (link_neighbors s x)"])
    show "set (q @ filter (\<lambda>y. typed_in s PASSIVE_TYPES y \<and> y \<notin> insert x V) (link_neighbors s x))
        \<subseteq> set q \<union> dev_id ` set (devices s)" for x q V by (auto dest: typed_in_ids)
  qed (use that in auto)
qed (auto simp: Let_def list_ex_iff passive_succ_def)

definition upstream_hit :: "'g nx \<Rightarrow> db \<Rightarrow> ident set \<Rightarrow> ident \<Rightarrow> bool" where
  "upstream_hit nx s ups x \<longleftrightarrow> x \<in> ups \<and> live_upstream nx s x \<or> (\<exists>y \<in> set (link_neighbors s x). live_upstream nx s y)"

lemma passive_not_live: "typed_in s PASSIVE_TYPES x \<Longrightarrow> \<not> live_upstream nx s x"
  by (auto simp: typed_in_def live_upstream_def PASSIVE_TYPES_def UPSTREAM_TYPES_def split: option.splits)

lemma live_typed: "live_upstream nx s x \<Longrightarrow> typed_in s UPSTREAM_TYPES x"
  by (auto simp: typed_in_def live_upstream_def split: option.splits)

text \<open>Skipping the devices already checked loses nothing: a checked device that is a live upstream has
  ended the search.\<close>

lemma chain_up_gen:
  "\<forall>x \<in> V. \<not> upstream_hit nx s ups x \<and> passive_succ s x \<subseteq> V \<union> set q \<Longrightarrow>
   \<forall>x \<in> V \<union> set q. x \<in> ups \<or> typed_in s PASSIVE_TYPES x \<Longrightarrow>
   chain_up_loop nx s ups q V \<longleftrightarrow> (\<exists>y \<in> reach_from (passive_succ s) (V \<union> set q). upstream_hit nx s ups y)"
proof (induction nx s ups q V rule: chain_up_loop.induct)
  case (1 nx s ups V)
  then have "reach_from (passive_succ s) V \<subseteq> V" by (intro reach_from_least) auto
  with 1 show ?case by auto
next
  case (2 nx s ups x q V)
  show ?case
  proof (cases "x \<in> V")
    case True
    then have "V \<union> set (x # q) = V \<union> set q" by auto
    with 2 True show ?thesis by auto
  next
    case False
    let ?o = "filter (\<lambda>o'. o' \<notin> insert x V) (link_neighbors s x)"
    have dead: "\<not> live_upstream nx s y" if "y \<in> V" for y
      using 2(3,4) that passive_not_live [of s y nx] by (auto simp: upstream_hit_def)
    have hit: "upstream_hit nx s ups x \<longleftrightarrow> x \<in> ups \<and> live_upstream nx s x \<or> list_ex (live_upstream nx s) ?o"
      using dead 2(4) passive_not_live [of s x nx] by (auto simp: upstream_hit_def list_ex_iff)
    show ?thesis
    proof (cases "upstream_hit nx s ups x")
      case True
      then have "chain_up_loop nx s ups (x # q) V" using False hit by (auto simp: Let_def)
      moreover have "x \<in> reach_from (passive_succ s) (V \<union> set (x # q))"
        using reach_from_incl [of "V \<union> set (x # q)" "passive_succ s"] by auto
      ultimately show ?thesis using True by blast
    next
      case nohit: False
      let ?q = "rev (filter (typed_in s PASSIVE_TYPES) ?o) @ q"
      have step: "chain_up_loop nx s ups (x # q) V = chain_up_loop nx s ups ?q (insert x V)"
        using False nohit hit by (auto simp: Let_def)
      have "reach_from (passive_succ s) (insert x V \<union> set ?q) = reach_from (passive_succ s) (V \<union> set (x # q))"
        by (intro reach_from_grow) (auto simp: passive_succ_def)
      moreover have "chain_up_loop nx s ups ?q (insert x V) \<longleftrightarrow>
          (\<exists>y \<in> reach_from (passive_succ s) (insert x V \<union> set ?q). upstream_hit nx s ups y)"
        using False nohit hit 2(3,4)
        by (intro 2(2) [OF False _ refl]) (auto simp: passive_succ_def)
      ultimately show ?thesis using step by simp
    qed
  qed
qed

text \<open>What the code demands of a passive device that is up: at least two neighbours, an upstream
  that can reach an anchor, and a terminator, the latter two through passive devices.\<close>

definition passive_up :: "'g nx \<Rightarrow> db \<Rightarrow> ident \<Rightarrow> bool" where
  "passive_up nx s k \<longleftrightarrow>
     (let N = set (link_neighbors s k);
          start = {x \<in> N. typed_in s UPSTREAM_TYPES x \<or> typed_in s PASSIVE_TYPES x};
          chain = reach_from (passive_succ s) start;
          inline = reach_from (passive_succ s) {x \<in> N. typed_in s PASSIVE_TYPES x}
      in 2 \<le> card N \<and>
         (\<exists>x. live_upstream nx s x \<and> (x \<in> N \<or> (\<exists>y \<in> chain. x \<in> set (link_neighbors s y)))) \<and>
         (\<exists>x. typed_in s TERMINATOR_TYPES x \<and> (x \<in> N \<or> (\<exists>y \<in> inline. x \<in> set (link_neighbors s y)))))"

lemma eval_passive_iff:
  assumes so: "\<And>A. finite A \<Longrightarrow> set (so A) = A"
  shows "eval_passive_status nx so s d = (if passive_up nx s (dev_id d) then UP else DOWN)"
proof -
  define N where "N = set (link_neighbors s (dev_id d))"
  define ups where "ups = {x \<in> N. typed_in s UPSTREAM_TYPES x}"
  define start where "start = {x \<in> N. typed_in s UPSTREAM_TYPES x \<or> typed_in s PASSIVE_TYPES x}"
  have soN: "set (so N) = N" by (rule so) (simp add: N_def)
  let ?up = "filter (typed_in s UPSTREAM_TYPES) (so N)" and ?pas = "filter (typed_in s PASSIVE_TYPES) (so N)"
  have "chain_up_loop nx s (set ?up) (rev (?up @ ?pas)) {} \<longleftrightarrow>
      (\<exists>y \<in> reach_from (passive_succ s) ({} \<union> set (rev (?up @ ?pas))). upstream_hit nx s (set ?up) y)"
    by (rule chain_up_gen) auto
  moreover have "{} \<union> set (rev (?up @ ?pas)) = start" "set ?up = ups" by (auto simp: start_def ups_def soN)
  ultimately have up: "chain_up_loop nx s (set ?up) (rev (?up @ ?pas)) {} \<longleftrightarrow>
      (\<exists>y \<in> reach_from (passive_succ s) start. upstream_hit nx s ups y)" by simp
  have live_ups: "live_upstream nx s x \<Longrightarrow> x \<in> N \<Longrightarrow> x \<in> ups \<and> x \<in> reach_from (passive_succ s) start" for x
    using reach_from_incl [of start "passive_succ s"] live_typed [of nx s x]
    unfolding ups_def by (auto simp: start_def)
  have up': "(\<exists>y \<in> reach_from (passive_succ s) start. upstream_hit nx s ups y) \<longleftrightarrow>
      (\<exists>x. live_upstream nx s x \<and> (x \<in> N \<or> (\<exists>y \<in> reach_from (passive_succ s) start. x \<in> set (link_neighbors s y))))"
  proof
    assume "\<exists>y \<in> reach_from (passive_succ s) start. upstream_hit nx s ups y"
    then obtain y where y: "y \<in> reach_from (passive_succ s) start" "upstream_hit nx s ups y" by blast
    from y(2) show "\<exists>x. live_upstream nx s x \<and> (x \<in> N \<or> (\<exists>y \<in> reach_from (passive_succ s) start. x \<in> set (link_neighbors s y)))"
      unfolding upstream_hit_def
    proof
      assume "y \<in> ups \<and> live_upstream nx s y"
      then show ?thesis by (intro exI [of _ y]) (simp add: ups_def)
    qed (use y(1) in blast)
  next
    assume "\<exists>x. live_upstream nx s x \<and> (x \<in> N \<or> (\<exists>y \<in> reach_from (passive_succ s) start. x \<in> set (link_neighbors s y)))"
    then obtain x where x: "live_upstream nx s x" and "x \<in> N \<or> (\<exists>y \<in> reach_from (passive_succ s) start. x \<in> set (link_neighbors s y))"
      by blast
    from this(2) show "\<exists>y \<in> reach_from (passive_succ s) start. upstream_hit nx s ups y"
    proof
      assume "x \<in> N"
      from live_ups [OF x this] x show ?thesis unfolding upstream_hit_def by (intro bexI [of _ x]) auto
    next
      assume "\<exists>y \<in> reach_from (passive_succ s) start. x \<in> set (link_neighbors s y)"
      then obtain y where "y \<in> reach_from (passive_succ s) start" "x \<in> set (link_neighbors s y)" by blast
      with x show ?thesis unfolding upstream_hit_def by (intro bexI [of _ y]) auto
    qed
  qed
  have tm: "terminator_loop s ?pas {} \<longleftrightarrow>
      (\<exists>y \<in> reach_from (passive_succ s) {x \<in> N. typed_in s PASSIVE_TYPES x}. \<exists>x \<in> set (link_neighbors s y). typed_in s TERMINATOR_TYPES x)"
  proof -
    have "set ?pas = {x \<in> N. typed_in s PASSIVE_TYPES x}" by (auto simp: soN)
    then show ?thesis unfolding term_search.found_iff_reach by (simp only:)
  qed
  have tm': "(\<exists>x \<in> N. typed_in s TERMINATOR_TYPES x) \<or>
      (\<exists>y \<in> reach_from (passive_succ s) {x \<in> N. typed_in s PASSIVE_TYPES x}. \<exists>x \<in> set (link_neighbors s y). typed_in s TERMINATOR_TYPES x) \<longleftrightarrow>
      (\<exists>x. typed_in s TERMINATOR_TYPES x \<and> (x \<in> N \<or>
         (\<exists>y \<in> reach_from (passive_succ s) {x \<in> N. typed_in s PASSIVE_TYPES x}. x \<in> set (link_neighbors s y))))"
    by blast
  have dt: "filter (typed_in s TERMINATOR_TYPES) (so N) = [] \<longleftrightarrow> \<not> (\<exists>x \<in> N. typed_in s TERMINATOR_TYPES x)"
    by (auto simp: filter_empty_conv soN)
  show ?thesis
    unfolding eval_passive_status_def Let_def N_def [symmetric] up up' tm dt passive_up_def start_def [symmetric] tm' [symmetric]
    by (simp add: not_less)
qed

section \<open>The adjacency cache\<close>

text \<open>The adjacency is the list of its directed edges; \<^verbatim>\<open>sorted(adjacency.get(x, ()))\<close> is \<open>nbrs\<close>. \<open>eth\<close> is
  the configured Ethernet range of the viability check.\<close>

record graph_cache =
  gc_version :: int
  gc_override_fp :: "(nat \<times> nat \<times> nat \<times> nat) option"
  gc_adjacency :: "(ident \<times> ident) list option"
  gc_device_ids :: "ident list option"

definition override_fp :: "db \<Rightarrow> nat \<times> nat \<times> nat \<times> nat" where
  "override_fp s =
     (length (filter (\<lambda>d. dev_admin_override_status d = Some UP) (devices s)),
      length (filter (\<lambda>d. dev_admin_override_status d = Some DOWN) (devices s)),
      length (filter (\<lambda>l. ln_admin_override_status l = Some UP) (links s)),
      length (filter (\<lambda>l. ln_admin_override_status l = Some DOWN) (links s)))"

definition both_ways :: "ident \<Rightarrow> ident \<Rightarrow> (ident \<times> ident) list" where
  "both_ways a b = [(a, b), (b, a)]"

definition link_edges :: "pyfloat option \<Rightarrow> db \<Rightarrow> (ident \<times> ident) list" where
  "link_edges eth s =
     concat (map (\<lambda>l.
       if is_link_passable s l \<and> is_link_physically_viable eth s l \<and>
          truthy (if_to_dev s (ln_a_interface_id l)) \<and> truthy (if_to_dev s (ln_b_interface_id l))
       then both_ways (the (if_to_dev s (ln_a_interface_id l))) (the (if_to_dev s (ln_b_interface_id l)))
       else []) (links s))"

definition container_edges :: "db \<Rightarrow> (ident \<times> ident) list" where
  "container_edges s =
     concat (map (\<lambda>d. if truthy (dev_parent_container_id d) then both_ways (dev_id d) (the (dev_parent_container_id d)) else [])
       (devices s))"

definition status_edges :: "pyfloat option \<Rightarrow> db \<Rightarrow> (ident \<times> ident) list" where
  "status_edges eth s = link_edges eth s @ container_edges s"

definition ensure_graph_cache :: "pyfloat option \<Rightarrow> db \<Rightarrow> graph_cache \<Rightarrow> int
    \<Rightarrow> graph_cache \<times> (ident \<times> ident) list \<times> ident list" where
  "ensure_graph_cache eth s gc topo_v =
     (case (gc_adjacency gc, gc_device_ids gc, gc_version gc = topo_v \<and> gc_override_fp gc = Some (override_fp s)) of
        (Some adj, Some ids, True) \<Rightarrow> (gc, adj, ids)
      | _ \<Rightarrow> (\<lparr>gc_version = topo_v, gc_override_fp = Some (override_fp s), gc_adjacency = Some (status_edges eth s),
               gc_device_ids = Some (map dev_id (devices s))\<rparr>, status_edges eth s, map dev_id (devices s)))"

section \<open>Propagation\<close>

definition is_up_candidate :: "device \<Rightarrow> bool" where
  "is_up_candidate d \<longleftrightarrow>
     (dev_admin_override_status d = None \<or> dev_admin_override_status d = Some UP) \<and>
     (case derive_role d of ALWAYS_ONLINE \<Rightarrow> True | PASSIVE \<Rightarrow> True | ACTIVE \<Rightarrow> dev_provisioned d)"

definition anchor_seeds :: "db \<Rightarrow> ident set" where
  "anchor_seeds s =
     (let has_backbone = list_ex (\<lambda>d. dev_type d = BACKBONE_GATEWAY) (devices s)
      in dev_id ` set (filter (\<lambda>d. derive_role d = ALWAYS_ONLINE \<and> \<not> (has_backbone \<and> dev_type d \<noteq> BACKBONE_GATEWAY) \<and>
            (dev_admin_override_status d = None \<or> dev_admin_override_status d = Some UP)) (devices s)))"

text \<open>\<^verbatim>\<open>queue.append(nb)\<close>, followed by a sort when the last two are out of order.\<close>

definition push_sorted :: "ident list \<Rightarrow> ident \<Rightarrow> ident list" where
  "push_sorted q nb = (if q \<noteq> [] \<and> nb < last q then sort (q @ [nb]) else q @ [nb])"

lemma push_all_set: "set (foldl push_sorted q ns) = set q \<union> set ns"
  by (induction ns arbitrary: q) (auto simp: push_sorted_def)

lemma push_all_length: "length (foldl push_sorted q ns) = length q + length ns"
  by (induction ns arbitrary: q) (auto simp: push_sorted_def)

definition up_nbrs :: "db \<Rightarrow> (ident \<times> ident) list \<Rightarrow> ident \<Rightarrow> ident list" where
  "up_nbrs s es x = filter (\<lambda>nb. case get_device s nb of None \<Rightarrow> False | Some d \<Rightarrow> is_up_candidate d) (nbrs es x)"

lemma up_nbrs_distinct: "distinct (up_nbrs s es x)"
  by (simp add: up_nbrs_def nbrs_def)

lemma up_nbrs_range: "set (up_nbrs s es x) \<subseteq> snd ` set es"
  by (force simp: up_nbrs_def nbrs_set)

function propagate :: "db \<Rightarrow> (ident \<times> ident) list \<Rightarrow> ident list \<Rightarrow> ident set \<Rightarrow> ident set" where
  "propagate s es [] reachable = reachable"
| "propagate s es (cur # queue) reachable =
     (let new = filter (\<lambda>nb. nb \<notin> reachable) (up_nbrs s es cur)
      in propagate s es (foldl push_sorted queue new) (reachable \<union> set new))"
  by pat_completeness auto
termination
proof (relation "measure (\<lambda>(s, es, q, R). card (snd ` set es - R) + length q)", goal_cases)
  case (2 s es cur queue reachable new)
  have "card (snd ` set es - (reachable \<union> set new)) + length (queue @ new) < card (snd ` set es - reachable) + length (cur # queue)"
    using up_nbrs_range [of s es cur] up_nbrs_distinct [of s es cur] unfolding 2
    by (intro flood_decreases) auto
  then show ?case by (simp add: push_all_length)
qed simp

interpretation propagation: flood "\<lambda>x. set (up_nbrs s es x)"
  "\<lambda>x q R. foldl push_sorted q (filter (\<lambda>nb. nb \<notin> R) (up_nbrs s es x))" "propagate s es" for s es
proof
  show "P q R" if "\<And>R. P [] R"
    "\<And>x q R. P (foldl push_sorted q (filter (\<lambda>nb. nb \<notin> R) (up_nbrs s es x))) (R \<union> set (up_nbrs s es x)) \<Longrightarrow> P (x # q) R"
    for P q R
    using that by (induction s es q R rule: propagate.induct) (auto simp: Let_def)
qed (auto simp: Let_def push_all_set)

section \<open>The propagation snapshot\<close>

record snapshot =
  reachable_up :: "ident set option"
  seen_devices :: "ident set option"

definition set_snapshot :: "ident set \<Rightarrow> ident list option \<Rightarrow> snapshot" where
  "set_snapshot up seen =
     \<lparr>reachable_up = Some up, seen_devices = Some (case seen of None \<Rightarrow> up | Some ids \<Rightarrow> set ids)\<rparr>"

definition snapshot_is_up :: "snapshot \<Rightarrow> ident \<Rightarrow> bool option" where
  "snapshot_is_up sn k =
     (case reachable_up sn of
        None \<Rightarrow> None
      | Some up \<Rightarrow> (case seen_devices sn of
          Some seen \<Rightarrow> if k \<notin> seen then None else Some (k \<in> up)
        | None \<Rightarrow> Some (k \<in> up)))"

definition snapshot_clear :: snapshot where
  "snapshot_clear = \<lparr>reachable_up = None, seen_devices = None\<rparr>"

section \<open>Recomputation\<close>

fun Status_value :: "Status \<Rightarrow> string" where
  "Status_value UP = ''UP''"
| "Status_value DOWN = ''DOWN''"
| "Status_value DEGRADED = ''DEGRADED''"
| "Status_value BLOCKING = ''BLOCKING''"

definition Status_str :: "Status \<Rightarrow> string" where
  "Status_str st = ''Status.'' @ Status_value st"

record device_diag =
  dg_upstream_l3_ok :: bool
  dg_anchor :: "ident option"
  dg_chain :: "ident list"
  dg_reason_codes :: "string list"
  dg_legacy_bfs_reachable :: bool

text \<open>The environment of a recomputation: the graph class, the order of sets, the Ethernet range, the
  clock, and the answer of the Go status service for the changed devices, \<^const>\<open>None\<close> when it is not
  available or does not report success.\<close>

record 'g senv =
  se_nx :: "'g nx"
  se_so :: "ident set \<Rightarrow> ident list"
  se_eth :: "pyfloat option"
  se_now :: string
  se_go :: "ident list \<Rightarrow> ident set option"

record status_state =
  ss_db :: db
  ss_bus :: bus
  ss_version :: int
  ss_graph :: graph_cache
  ss_snapshot :: snapshot
  ss_diag :: "ident \<rightharpoonup> device_diag"

abbreviation eval_status :: "'g senv \<Rightarrow> db \<Rightarrow> device \<Rightarrow> Status" where
  "eval_status env s d \<equiv> evaluate_device_status (se_nx env) (se_so env) s None d"

definition bulk_update_device_statuses :: "'g senv \<Rightarrow> ident list \<Rightarrow> db \<Rightarrow> db" where
  "bulk_update_device_statuses env ids s =
     s\<lparr>devices := map (\<lambda>d. if dev_id d \<in> set ids then d\<lparr>dev_status := eval_status env s d\<rparr> else d) (devices s)\<rparr>"

definition status_transition :: "'g senv \<Rightarrow> db \<Rightarrow> (ident \<rightharpoonup> Status) option \<Rightarrow> device \<Rightarrow> (device \<times> Status \<times> Status) list" where
  "status_transition env s baseline d =
     (let before = (case (case baseline of None \<Rightarrow> None | Some b \<Rightarrow> b (dev_id d)) of
                      Some st \<Rightarrow> st | None \<Rightarrow> eval_status env s d);
          cur = (case get_device s (dev_id d) of Some r \<Rightarrow> r | None \<Rightarrow> d);
          after = eval_status env s cur
      in if before \<noteq> after then [(cur, before, after)] else [])"

definition status_event :: "int option \<Rightarrow> device \<times> Status \<times> Status \<Rightarrow> event" where
  "status_event tv t = (case t of (cur, before, after) \<Rightarrow>
     \<lparr>ev_type = ''device.status.changed'',
      ev_payload = [(''id'', JStr (dev_id cur)), (''status'', JStr (Status_value after)),
        (''effective_status'', JStr (Status_value after)),
        (''admin_override_status'', jopt (JStr \<circ> Status_value) (dev_admin_override_status cur))],
      ev_topo_version = tv, ev_correlation_id = None\<rparr>)"

definition set_diags :: "'g senv \<Rightarrow> db \<Rightarrow> ident set \<Rightarrow> (ident \<rightharpoonup> device_diag) \<Rightarrow> ident \<rightharpoonup> device_diag" where
  "set_diags env s reachable dg =
     foldl (\<lambda>m d. let r = upstream_result (se_nx env) s d
                  in m(dev_id d \<mapsto> \<lparr>dg_upstream_l3_ok = ul_ok r, dg_anchor = ul_anchor r, dg_chain = ul_chain r,
                         dg_reason_codes = ul_reasons r, dg_legacy_bfs_reachable = dev_id d \<in> reachable\<rparr>)) dg (devices s)"

definition selected_devices :: "db \<Rightarrow> ident list option \<Rightarrow> device list" where
  "selected_devices s ids =
     (case ids of None \<Rightarrow> devices s
      | Some ks \<Rightarrow> concat (map (\<lambda>k. case get_device s k of None \<Rightarrow> [] | Some d \<Rightarrow> [d]) ks))"

definition recompute_devices_status :: "'g senv \<Rightarrow> status_state \<Rightarrow> ident list option \<Rightarrow> int option
    \<Rightarrow> (ident \<rightharpoonup> Status) option \<Rightarrow> status_state \<times> (ident \<times> string \<times> string) list" where
  "recompute_devices_status env w device_ids tv baseline =
     (let s = ss_db w;
          selected = selected_devices s device_ids;
          (gc, adj, seen) = ensure_graph_cache (se_eth env) s (ss_graph w) (case tv of Some v \<Rightarrow> v | None \<Rightarrow> ss_version w);
          reachable = (case se_go env (case device_ids of None \<Rightarrow> [] | Some ks \<Rightarrow> ks) of
                         Some r \<Rightarrow> r
                       | None \<Rightarrow> propagate s adj (sorted_list_of_set (anchor_seeds s)) (anchor_seeds s));
          ts = concat (map (status_transition env s baseline) selected);
          b = foldl (\<lambda>b t. publish b (status_event tv t) (se_now env)) (ss_bus w) ts;
          s' = (if ts = [] then s else bulk_update_device_statuses env (map (dev_id \<circ> fst) ts) s)
      in (w\<lparr>ss_db := s', ss_bus := b, ss_graph := gc, ss_snapshot := set_snapshot reachable (Some seen),
            ss_diag := set_diags env s reachable (ss_diag w)\<rparr>,
          map (\<lambda>(cur, before, after). (dev_id cur, Status_str before, Status_str after)) ts))"

section \<open>Incremental recomputation\<close>

record dirty_cfg =
  cfg_enable_incremental :: bool
  cfg_topo_version :: "int option"
  cfg_baseline_status :: "(ident \<rightharpoonup> Status) option"

definition dirty_seeds :: "db \<Rightarrow> ident list \<Rightarrow> ident list \<Rightarrow> ident list" where
  "dirty_seeds s devs lnks =
     sort (remdups (devs @ concat (map (\<lambda>l.
        (if truthy (if_to_dev s (ln_a_interface_id l)) then [the (if_to_dev s (ln_a_interface_id l))] else []) @
        (if truthy (if_to_dev s (ln_b_interface_id l)) then [the (if_to_dev s (ln_b_interface_id l))] else []))
        (filter (\<lambda>l. ln_id l \<in> set lnks) (links s)))))"

function dirty_bfs :: "(ident \<times> ident) list \<Rightarrow> ident list \<Rightarrow> ident set \<Rightarrow> ident set" where
  "dirty_bfs es [] visited = visited"
| "dirty_bfs es (cur # queue) visited =
     (if cur \<in> visited then dirty_bfs es queue visited
      else dirty_bfs es (foldl push_sorted queue (filter (\<lambda>nb. nb \<notin> insert cur visited) (nbrs es cur))) (insert cur visited))"
  by pat_completeness auto
termination
proof (relation "measures [\<lambda>(es, q, V). card (snd ` set es \<union> set q - V), \<lambda>(es, q, V). length q]", goal_cases)
  case (2 es cur queue visited)
  then have "snd ` set es \<union> set (cur # queue) - visited = snd ` set es \<union> set queue - visited" by auto
  then show ?case by simp
next
  case (3 es cur queue visited)
  have "card (snd ` set es \<union> set (foldl push_sorted queue (filter (\<lambda>nb. nb \<notin> insert cur visited) (nbrs es cur))) - insert cur visited)
      < card (snd ` set es \<union> set (cur # queue) - visited)"
    using 3 by (intro psubset_card_mono) (auto simp: push_all_set nbrs_set, force)
  then show ?case by simp
qed simp

definition upstream_cache_for :: "'g senv \<Rightarrow> db \<Rightarrow> ident list \<Rightarrow> ident \<rightharpoonup> bool" where
  "upstream_cache_for env s affected k =
     (case find (\<lambda>d. dev_id d = k) (rev (filter (\<lambda>d. dev_id d \<in> set affected) (devices s))) of
        None \<Rightarrow> None
      | Some d \<Rightarrow> if derive_role d = ACTIVE then Some (upstream_ok (se_nx env) s d) else None)"

definition dirty_baseline :: "'g senv \<Rightarrow> db \<Rightarrow> ident list \<Rightarrow> ident \<rightharpoonup> Status" where
  "dirty_baseline env s affected k =
     (if k \<in> set affected
      then map_option (evaluate_device_status (se_nx env) (se_so env) s (Some (upstream_cache_for env s affected)))
             (find (\<lambda>d. dev_id d = k) (rev (filter (\<lambda>d. dev_id d \<in> set affected) (devices s))))
      else None)"

definition recompute_dirty :: "'g senv \<Rightarrow> status_state \<Rightarrow> ident list \<Rightarrow> ident list \<Rightarrow> dirty_cfg
    \<Rightarrow> status_state \<times> (ident \<times> string \<times> string) list" where
  "recompute_dirty env w dirty_devices dirty_links cfg =
     (let s = ss_db w; seeds = dirty_seeds s dirty_devices dirty_links
      in if \<not> cfg_enable_incremental cfg \<or> seeds = []
         then recompute_devices_status env w None (cfg_topo_version cfg) (cfg_baseline_status cfg)
         else let (gc, adj, _) = ensure_graph_cache (se_eth env) s (ss_graph w)
                    (case cfg_topo_version cfg of Some v \<Rightarrow> v | None \<Rightarrow> ss_version w);
                  affected = sorted_list_of_set (dirty_bfs adj seeds {});
                  baseline = (case cfg_baseline_status cfg of Some b \<Rightarrow> b | None \<Rightarrow> dirty_baseline env s affected)
              in recompute_devices_status env (w\<lparr>ss_graph := gc\<rparr>) (Some affected) (cfg_topo_version cfg) (Some baseline))"

section \<open>Causal chains\<close>

definition interface_to_device :: "db \<Rightarrow> ident \<rightharpoonup> ident" where
  "interface_to_device s =
     map_of (rev (concat (map (\<lambda>d. map (\<lambda>i. (if_id i, dev_id d)) (filter (\<lambda>i. if_device_id i = dev_id d) (interfaces s))) (devices s))))"

text \<open>The entry of the dependency graph for a device: the far ends of its passable links.\<close>

definition dependency_next :: "db \<Rightarrow> ident \<Rightarrow> ident list" where
  "dependency_next s x =
     concat (map (\<lambda>l.
       let a = interface_to_device s (ln_a_interface_id l); b = interface_to_device s (ln_b_interface_id l)
       in if is_link_passable s l \<and> truthy a \<and> truthy b
          then (if the a = x then [the b] else []) @ (if the b = x then [the a] else []) else []) (links s))"

definition can_propagate :: "device \<Rightarrow> bool" where
  "can_propagate d \<longleftrightarrow> dev_admin_override_status d = None \<and> \<not> (derive_role d = ACTIVE \<and> \<not> dev_provisioned d)"

definition causal_next :: "db \<Rightarrow> ident \<Rightarrow> ident list" where
  "causal_next s x = (case get_device s x of None \<Rightarrow> [] | Some d \<Rightarrow> if can_propagate d then dependency_next s x else [])"

lemma dependency_next_range: "set (dependency_next s x) \<subseteq> dev_id ` set (devices s)"
proof -
  have r: "the (interface_to_device s i) \<in> dev_id ` set (devices s)" if "truthy (interface_to_device s i)" for i
  proof -
    from that obtain v where v: "interface_to_device s i = Some v" by (auto simp: truthy_iff)
    then have "v \<in> dev_id ` set (devices s)"
      unfolding interface_to_device_def by (auto dest!: map_of_SomeD)
    with v show ?thesis by simp
  qed
  show ?thesis
  proof
    fix y assume "y \<in> set (dependency_next s x)"
    then show "y \<in> dev_id ` set (devices s)"
      unfolding dependency_next_def Let_def loop_rows using r by auto
  qed
qed

lemma causal_next_range: "set (causal_next s x) \<subseteq> dev_id ` set (devices s)"
proof -
  have "causal_next s x = [] \<or> causal_next s x = dependency_next s x"
    by (simp add: causal_next_def split: option.split)
  then show ?thesis using dependency_next_range [of s x] by auto
qed

definition extend_paths :: "ident \<Rightarrow> ident list \<Rightarrow> (ident \<rightharpoonup> ident list) \<Rightarrow> ident \<rightharpoonup> ident list" where
  "extend_paths cur ns paths k = (if k \<in> set ns then Some (the (paths cur) @ [k]) else paths k)"

function causal_loop :: "db \<Rightarrow> ident list \<Rightarrow> ident set \<Rightarrow> (ident \<rightharpoonup> ident list) \<Rightarrow> ident set \<times> (ident \<rightharpoonup> ident list)" where
  "causal_loop s [] visited paths = (visited, paths)"
| "causal_loop s (cur # queue) visited paths =
     (if cur \<in> visited then causal_loop s queue visited paths
      else let new = filter (\<lambda>d. d \<notin> insert cur visited) (causal_next s cur)
           in causal_loop s (queue @ new) (insert cur visited) (extend_paths cur new paths))"
  by pat_completeness auto
termination
proof (relation "measures [\<lambda>(s, q, V, p). card (dev_id ` set (devices s) \<union> set q - V), \<lambda>(s, q, V, p). length q]", goal_cases)
  case (2 s cur queue visited paths)
  then have "dev_id ` set (devices s) \<union> set (cur # queue) - visited = dev_id ` set (devices s) \<union> set queue - visited" by auto
  then show ?case by simp
next
  case (3 s cur queue visited paths new)
  have "card (dev_id ` set (devices s) \<union> set (queue @ new) - insert cur visited) < card (dev_id ` set (devices s) \<union> set (cur # queue) - visited)"
    using 3 causal_next_range [of s cur] by (intro psubset_card_mono) auto
  then show ?case by simp
qed simp

record causal_chain =
  cc_affected_devices :: "ident list"
  cc_affected_links :: "ident list"
  cc_dependency_paths :: "ident \<rightharpoonup> ident list"

definition detect_causal_chain_python :: "(ident set \<Rightarrow> ident list) \<Rightarrow> db \<Rightarrow> ident list \<Rightarrow> causal_chain" where
  "detect_causal_chain_python so s changed =
     (let (visited, paths) = causal_loop s changed {} (\<lambda>k. if k \<in> set changed then Some [k] else None)
      in \<lparr>cc_affected_devices = so visited, cc_affected_links = [], cc_dependency_paths = paths\<rparr>)"

lemma causal_visited: "fst (causal_loop s q V p) = fst (causal_loop s q V p')"
proof (induction s q V p arbitrary: p' rule: causal_loop.induct)
  case (2 s cur q V p)
  let ?new = "filter (\<lambda>d. d \<notin> insert cur V) (causal_next s cur)"
  show ?case
  proof (cases "cur \<in> V")
    case True
    with 2(1) [OF True, of p'] show ?thesis by simp
  next
    case False
    with 2(2) [OF False refl, of "extend_paths cur ?new p'"] show ?thesis by (simp add: Let_def)
  qed
qed simp

interpretation causal: worklist "\<lambda>x. set (causal_next s x)"
  "\<lambda>x q V. q @ filter (\<lambda>d. d \<notin> insert x V) (causal_next s x)" "\<lambda>q V. fst (causal_loop s q V Map.empty)" for s
proof
  show "P q V" if "\<And>V. P [] V" "\<And>x q V. x \<in> V \<Longrightarrow> P q V \<Longrightarrow> P (x # q) V"
    "\<And>x q V. x \<notin> V \<Longrightarrow> P (q @ filter (\<lambda>d. d \<notin> insert x V) (causal_next s x)) (insert x V) \<Longrightarrow> P (x # q) V" for P q V
  proof (rule worklist_induct [where N = "dev_id ` set (devices s)" and P = P and
      enqueue = "\<lambda>x q V. q @ filter (\<lambda>d. d \<notin> insert x V) (causal_next s x)"])
    show "set (q @ filter (\<lambda>d. d \<notin> insert x V) (causal_next s x)) \<subseteq> set q \<union> dev_id ` set (devices s)" for x q V
      using causal_next_range [of s x] by auto
  qed (use that in auto)
  show "fst (causal_loop s (x # q) V Map.empty) =
      fst (causal_loop s (q @ filter (\<lambda>d. d \<notin> insert x V) (causal_next s x)) (insert x V) Map.empty)" if "x \<notin> V" for x q V
    using that causal_visited by (simp add: Let_def)
qed auto

interpretation dirty: worklist "\<lambda>x. set (nbrs es x)"
  "\<lambda>x q V. foldl push_sorted q (filter (\<lambda>nb. nb \<notin> insert x V) (nbrs es x))" "dirty_bfs es" for es
proof
  show "P q V" if "\<And>V. P [] V" "\<And>x q V. x \<in> V \<Longrightarrow> P q V \<Longrightarrow> P (x # q) V"
    "\<And>x q V. x \<notin> V \<Longrightarrow> P (foldl push_sorted q (filter (\<lambda>nb. nb \<notin> insert x V) (nbrs es x))) (insert x V) \<Longrightarrow> P (x # q) V" for P q V
  proof (rule worklist_induct [where N = "snd ` set es" and P = P and
      enqueue = "\<lambda>x q V. foldl push_sorted q (filter (\<lambda>nb. nb \<notin> insert x V) (nbrs es x))"])
    show "set (foldl push_sorted q (filter (\<lambda>nb. nb \<notin> insert x V) (nbrs es x))) \<subseteq> set q \<union> snd ` set es" for x q V
      by (force simp: push_all_set nbrs_set)
  qed (use that in auto)
qed (auto simp: push_all_set)

section \<open>Facts about the evaluation\<close>

lemma router_upstream_ok: "dev_type d \<in> router_class \<Longrightarrow> upstream_ok nx s d = has_l3_reachability_to_anchor s d"
  by (simp add: upstream_ok_def upstream_result_def router_result_def has_l3_reachability_to_anchor_def)

text \<open>A cache that holds what the evaluation would compute does not change it.\<close>

lemma evaluate_cached:
  assumes "\<And>ok. m (dev_id d) = Some ok \<Longrightarrow> ok = upstream_ok nx s d"
  shows "evaluate_device_status nx so s (Some m) d = evaluate_device_status nx so s None d"
proof (cases "m (dev_id d)")
  case (Some ok)
  with assms [OF Some] router_upstream_ok [of d nx s] show ?thesis
    by (auto simp: evaluate_device_status_def split: option.split DeviceRole.split)
qed (simp only: evaluate_device_status_def option.case)

lemma find_rev_distinct:
  "distinct (map f xs) \<Longrightarrow> find (\<lambda>x. f x = k) (rev xs) = find (\<lambda>x. f x = k) xs"
proof -
  assume d: "distinct (map f xs)"
  have "find (\<lambda>x. f x = k) (rev xs) = Some r \<longleftrightarrow> find (\<lambda>x. f x = k) xs = Some r" for r
    using d find_key_iff [of f xs k r] find_key_iff [of f "rev xs" k r] by (simp add: rev_map [symmetric])
  then show ?thesis by (metis not_Some_eq)
qed

lemma find_filter_key: "k \<in> A \<Longrightarrow> find (\<lambda>x. f x = k) (filter (\<lambda>x. f x \<in> A) xs) = find (\<lambda>x. f x = k) xs"
  by (induction xs) auto

lemma dirty_row:
  assumes "wf_db s" "k \<in> set affected"
  shows "find (\<lambda>d. dev_id d = k) (rev (filter (\<lambda>d. dev_id d \<in> set affected) (devices s))) = get_device s k"
proof -
  have "distinct (map dev_id (filter (\<lambda>d. dev_id d \<in> set affected) (devices s)))"
    using assms(1) by (simp add: wf_db_def distinct_map_filter)
  then show ?thesis using assms(2) by (simp add: find_rev_distinct find_filter_key get_device_def)
qed

lemma dirty_baseline_current:
  assumes "wf_db s" "k \<in> set affected" "get_device s k = Some d"
  shows "dirty_baseline env s affected k = Some (eval_status env s d)"
proof -
  have "upstream_cache_for env s affected (dev_id d) = Some ok \<Longrightarrow> ok = upstream_ok (se_nx env) s d" for ok
    using dirty_row [OF assms(1,2)] dev.get_key [OF assms(3)] assms(3)
    by (auto simp: upstream_cache_for_def split: if_splits)
  then have "evaluate_device_status (se_nx env) (se_so env) s (Some (upstream_cache_for env s affected)) d = eval_status env s d"
    by (intro evaluate_cached) auto
  then show ?thesis using dirty_row [OF assms(1,2)] assms by (simp add: dirty_baseline_def)
qed

lemma transition_None_iff:
  assumes "get_device s (dev_id d) = Some d"
  shows "status_transition env s b d =
    (case (case b of None \<Rightarrow> None | Some m \<Rightarrow> m (dev_id d)) of
       None \<Rightarrow> [] | Some before \<Rightarrow> if before \<noteq> eval_status env s d then [(d, before, eval_status env s d)] else [])"
  using assms by (auto simp: status_transition_def Let_def split: option.splits)

lemma dirty_bfs_finite: "finite V \<Longrightarrow> finite (dirty_bfs es q V)"
  by (induction es q V rule: dirty_bfs.induct) auto

lemma selected_rows: "set (selected_devices s (Some ks)) = {d. \<exists>k \<in> set ks. get_device s k = Some d}"
  by (force simp: selected_devices_def in_set_concat_map in_set_case_option)

lemma selected_row:
  assumes "wf_db s" "d \<in> set (selected_devices s ids)" shows "get_device s (dev_id d) = Some d"
proof (cases ids)
  case None
  with assms show ?thesis by (simp add: selected_devices_def wf_db_get_device)
next
  case (Some ks)
  with assms(2) obtain k where "get_device s k = Some d" by (auto simp: selected_rows)
  then show ?thesis using dev.get_key [of s k d] by simp
qed

text \<open>A hit of the adjacency cache gives the current edges. The cache is keyed by the topology version and the
  number of overrides of each kind only; the results that rest on its freshness take it as this hypothesis.\<close>

definition graph_fresh :: "pyfloat option \<Rightarrow> db \<Rightarrow> graph_cache \<Rightarrow> int \<Rightarrow> bool" where
  "graph_fresh eth s gc v \<longleftrightarrow> (\<forall>adj. gc_version gc = v \<longrightarrow> gc_override_fp gc = Some (override_fp s) \<longrightarrow>
     gc_adjacency gc = Some adj \<longrightarrow> adj = status_edges eth s)"

lemma ensure_graph_fresh:
  "graph_fresh eth s gc v \<Longrightarrow> fst (snd (ensure_graph_cache eth s gc v)) = status_edges eth s"
  by (auto simp: ensure_graph_cache_def graph_fresh_def split: option.split bool.split)

lemma no_transitions:
  assumes "wf_db s" and "\<And>d. d \<in> set (selected_devices s ids) \<Longrightarrow> status_transition env s b d = []"
    and "ss_db w = s"
  shows "snd (recompute_devices_status env w ids tv b) = [] \<and>
    ss_db (fst (recompute_devices_status env w ids tv b)) = s \<and> ss_bus (fst (recompute_devices_status env w ids tv b)) = ss_bus w"
proof -
  have none: "concat (map (status_transition env s b) (selected_devices s ids)) = []" using assms(2) by simp
  show ?thesis unfolding recompute_devices_status_def Let_def assms(3) none by (simp split: prod.split)
qed

section \<open>Properties\<close>

text \<open>C2: The effective status the code gives a device without an override: containers and gateways are up; a passive device is up exactly when it has two neighbours, a live upstream and
  a terminator, reached through passive devices; an active device is up exactly when it is
  provisioned, is not an ONT without signal, and a path leads from it to a gateway (the L3 path of a
  router, the logical graph and then an L3 path for the others). Otherwise the device is down: never degraded,
  as \<^verbatim>\<open>docs/04_signal_budget_and_overrides.md\<close> and \<^verbatim>\<open>docs/01_overview_and_domain_model.md\<close> have it for a
  passive device cut off and for a provisioned device whose dependency fails.\<close>

theorem device_status_rules:
  assumes "\<And>A. finite A \<Longrightarrow> set (so A) = A" "nx_path_laws nx"
    and "get_device s (dev_id d) = Some d" "dev_admin_override_status d = None"
  shows "evaluate_device_status nx so s None d =
    (if (case derive_role d of
           ALWAYS_ONLINE \<Rightarrow> True
         | PASSIVE \<Rightarrow> passive_up nx s (dev_id d)
         | ACTIVE \<Rightarrow> dev_provisioned d \<and> \<not> (dev_type d \<in> {ONT, BUSINESS_ONT} \<and> dev_signal_status d = Some NO_SIGNAL) \<and>
             (if dev_type d \<in> router_class then \<exists>ch. l3_path s d ch
              else dev_id d \<in> nx_nodes nx (dep_graph nx s False) \<and> (\<exists>p ch. reaches_router nx s (dev_id d) p ch)))
     then UP else DOWN)"
proof -
  have "has_l3_reachability_to_anchor s d \<longleftrightarrow> (\<exists>ch. l3_path s d ch)"
    using trace_path_iff [OF assms(3)] by (auto simp: has_l3_reachability_to_anchor_def)
  moreover have "dev_type d \<notin> router_class \<Longrightarrow> upstream_ok nx s d \<longleftrightarrow>
      dev_id d \<in> nx_nodes nx (dep_graph nx s False) \<and> (\<exists>p ch. reaches_router nx s (dev_id d) p ch)"
    unfolding upstream_ok_def by (rule upstream_result_cases(1) [OF assms(2)])
  moreover have "eval_passive_status nx so s d = (if passive_up nx s (dev_id d) then UP else DOWN)"
    by (rule eval_passive_iff [OF assms(1)])
  ultimately show ?thesis using assms(4)
    unfolding evaluate_device_status_def by (cases "derive_role d") auto
qed

text \<open>A provisioned edge router with a path to the gateway, a provisioned OLT below it, the same OLT
  without provisioning, an OLT below a router that is forced down, a splitter without neighbours and a
  POP.\<close>

definition demo_rules :: db where
  "demo_rules = demo_l3\<lparr>devices := map (\<lambda>d. d\<lparr>dev_provisioned := True\<rparr>) (devices demo_l3) @ [Device ''sp'' SPLITTER, Device ''pop'' POP]\<rparr>"

definition rules_status :: "db \<Rightarrow> ident \<Rightarrow> Status option" where
  "rules_status s k = map_option (evaluate_device_status list_nx sorted_list_of_set s None) (get_device s k)"

theorem device_status_rules_witness:
  "map (rules_status demo_rules) [''er'', ''olt'', ''olt2'', ''sp'', ''pop''] = map Some [UP, UP, DOWN, DOWN, UP] \<and>
   (\<exists>ch. l3_path demo_rules ((Device ''er'' EDGE_ROUTER)\<lparr>dev_vrf_id := Some 1, dev_provisioned := True\<rparr>) ch) \<and>
   (\<exists>p ch. reaches_router list_nx demo_rules ''olt'' p ch) \<and>
   \<not> passive_up list_nx demo_rules ''sp''"
proof -
  let ?er = "(Device ''er'' EDGE_ROUTER)\<lparr>dev_vrf_id := Some 1, dev_provisioned := True\<rparr>"
  let ?olt = "demo_olt\<lparr>dev_provisioned := True\<rparr>"
  let ?sp = "Device ''sp'' SPLITTER"
  let ?ev = "evaluate_device_status list_nx sorted_list_of_set demo_rules None"
  have so: "\<And>A :: ident set. finite A \<Longrightarrow> set (sorted_list_of_set A) = A" by simp
  have row: "get_device demo_rules (dev_id ?er) = Some ?er" "get_device demo_rules (dev_id ?olt) = Some ?olt"
    "get_device demo_rules (dev_id ?sp) = Some ?sp"
    by (simp_all add: get_device_def demo_rules_def demo_l3_defs)
  have no: "dev_admin_override_status ?er = None" "dev_admin_override_status ?olt = None" "dev_admin_override_status ?sp = None"
    by (simp_all add: Device_def demo_olt_def)
  have all: "map (rules_status demo_rules) [''er'', ''olt'', ''olt2'', ''sp'', ''pop''] = map Some [UP, UP, DOWN, DOWN, UP]"
    by code_simp
  then have v: "?ev ?er = UP" "?ev ?olt = UP" "?ev ?sp = DOWN"
    using row by (simp_all add: rules_status_def Device_def demo_olt_def)
  have "\<exists>ch. l3_path demo_rules ?er ch" 
    using v(1) device_status_rules [OF so list_nx_path_laws row(1) no(1)]
    by (auto simp: derive_role_def Device_def router_class_def split: if_splits)
  moreover have "\<exists>p ch. reaches_router list_nx demo_rules ''olt'' p ch" 
    using v(2) device_status_rules [OF so list_nx_path_laws row(2) no(2)]
    by (auto simp: derive_role_def Device_def demo_olt_def router_class_def split: if_splits)
  moreover have "\<not> passive_up list_nx demo_rules ''sp''" 
    using v(3) device_status_rules [OF so list_nx_path_laws row(3) no(3)]
    by (auto simp: derive_role_def Device_def)
  ultimately show ?thesis using all by blast
qed

text \<open>C29: The recomputation the coalescer runs passes no baseline, so \<^verbatim>\<open>recompute_dirty\<close> takes the statuses
  that hold after the change as the baseline and compares them with themselves: it never reports a
  transition, publishes no event and writes no status, whatever the change was.\<close>

theorem recompute_dirty_without_baseline_is_silent:
  assumes "wf_db (ss_db w)" "cfg_baseline_status cfg = None"
  shows "snd (recompute_dirty env w devs lnks cfg) = [] \<and>
    ss_db (fst (recompute_dirty env w devs lnks cfg)) = ss_db w \<and>
    ss_bus (fst (recompute_dirty env w devs lnks cfg)) = ss_bus w"
proof (cases "\<not> cfg_enable_incremental cfg \<or> dirty_seeds (ss_db w) devs lnks = []")
  case True
  have "status_transition env (ss_db w) None d = []" if "d \<in> set (selected_devices (ss_db w) None)" for d
    using transition_None_iff [OF selected_row [OF assms(1) that], of env None] by simp
  from no_transitions [OF assms(1) this refl] True assms(2) show ?thesis
    by (simp add: recompute_dirty_def Let_def)
next
  case False
  obtain gc adj ids where g: "ensure_graph_cache (se_eth env) (ss_db w) (ss_graph w)
      (case cfg_topo_version cfg of Some v \<Rightarrow> v | None \<Rightarrow> ss_version w) = (gc, adj, ids)" by (metis prod_cases3)
  let ?a = "sorted_list_of_set (dirty_bfs adj (dirty_seeds (ss_db w) devs lnks) {})"
  have "status_transition env (ss_db w) (Some (dirty_baseline env (ss_db w) ?a)) d = []"
    if d: "d \<in> set (selected_devices (ss_db w) (Some ?a))" for d
  proof -
    from d obtain k where k: "k \<in> set ?a" "get_device (ss_db w) k = Some d" unfolding selected_rows by blast
    then have "dirty_baseline env (ss_db w) ?a (dev_id d) = Some (eval_status env (ss_db w) d)"
      using dirty_baseline_current [OF assms(1) k] dev.get_key [OF k(2)] by simp
    with transition_None_iff [OF selected_row [OF assms(1) d], of env "Some (dirty_baseline env (ss_db w) ?a)"]
    show ?thesis by simp
  qed
  from no_transitions [OF assms(1) this, where w = "w\<lparr>ss_graph := gc\<rparr>"] False assms(2) g show ?thesis
    by (simp add: recompute_dirty_def Let_def)
qed

definition demo_status :: status_state where
  "demo_status = \<lparr>ss_db = demo_l3\<lparr>devices := [Device ''er'' EDGE_ROUTER]\<rparr>, ss_bus = demo_bus, ss_version = 0,
     ss_graph = \<lparr>gc_version = -1, gc_override_fp = None, gc_adjacency = None, gc_device_ids = None\<rparr>,
     ss_snapshot = snapshot_clear, ss_diag = Map.empty\<rparr>"

definition demo_senv :: "list_graph senv" where
  "demo_senv = \<lparr>se_nx = list_nx, se_so = sorted_list_of_set, se_eth = None, se_now = [], se_go = (\<lambda>_. None)\<rparr>"

lemma demo_status_wf: "wf_db (ss_db demo_status)"
proof -
  have "wf_db demo_l3" by (simp add: wf_db_def demo_l3_defs)
  then show ?thesis by (simp add: demo_status_def wf_db_def)
qed

text \<open>The stored status of the edge router is up although it is not provisioned, hence down; the
  recomputation leaves it up.\<close>

theorem recompute_dirty_without_baseline_is_silent_witness:
  "map dev_status (devices (ss_db (fst (recompute_dirty demo_senv demo_status [''er''] []
      \<lparr>cfg_enable_incremental = True, cfg_topo_version = None, cfg_baseline_status = None\<rparr>)))) = [UP] \<and>
   evaluate_device_status list_nx sorted_list_of_set (ss_db demo_status) None (Device ''er'' EDGE_ROUTER) = DOWN"
proof -
  let ?cfg = "\<lparr>cfg_enable_incremental = True, cfg_topo_version = None, cfg_baseline_status = None\<rparr> :: dirty_cfg"
  have "cfg_baseline_status ?cfg = None" by simp
  from recompute_dirty_without_baseline_is_silent [OF demo_status_wf this, of demo_senv "[''er'']" "[]"]
  have "ss_db (fst (recompute_dirty demo_senv demo_status [''er''] [] ?cfg)) = ss_db demo_status" by blast
  then show ?thesis by (simp add: demo_status_def Device_def evaluate_device_status_def derive_role_def)
qed

lemma transitions_of_component:
  assumes "wf_db (ss_db w)" "cfg_enable_incremental cfg" "cfg_baseline_status cfg = Some b"
    and "graph_fresh (se_eth env) (ss_db w) (ss_graph w) (case cfg_topo_version cfg of Some v \<Rightarrow> v | None \<Rightarrow> ss_version w)"
    and "dirty_seeds (ss_db w) devs lnks \<noteq> []"
  shows "\<exists>w1 ks. recompute_dirty env w devs lnks cfg = recompute_devices_status env w1 (Some ks) (cfg_topo_version cfg) (Some b) \<and>
    ss_db w1 = ss_db w \<and> ss_bus w1 = ss_bus w \<and>
    set ks = reach_from (\<lambda>x. set (nbrs (status_edges (se_eth env) (ss_db w)) x)) (set (dirty_seeds (ss_db w) devs lnks))"
proof -
  obtain gc adj ids where g: "ensure_graph_cache (se_eth env) (ss_db w) (ss_graph w)
      (case cfg_topo_version cfg of Some v \<Rightarrow> v | None \<Rightarrow> ss_version w) = (gc, adj, ids)" by (metis prod_cases3)
  have adj: "adj = status_edges (se_eth env) (ss_db w)" using ensure_graph_fresh [OF assms(4)] g by simp
  let ?ks = "sorted_list_of_set (dirty_bfs adj (dirty_seeds (ss_db w) devs lnks) {})"
  have "recompute_dirty env w devs lnks cfg =
      recompute_devices_status env (w\<lparr>ss_graph := gc\<rparr>) (Some ?ks) (cfg_topo_version cfg) (Some b)"
    using assms(2,3,5) g by (simp add: recompute_dirty_def Let_def)
  moreover have "set ?ks = reach_from (\<lambda>x. set (nbrs adj x)) (set (dirty_seeds (ss_db w) devs lnks))"
    using dirty_bfs_finite [of "{}" adj] dirty.run_eq_reach [of adj] by simp
  ultimately show ?thesis unfolding adj by (intro exI [of _ "w\<lparr>ss_graph := gc\<rparr>"]) auto
qed

text \<open>The device changed status since the baseline was taken.\<close>

definition changed :: "'g senv \<Rightarrow> db \<Rightarrow> (ident \<rightharpoonup> Status) \<Rightarrow> device \<Rightarrow> bool" where
  "changed env s b d \<longleftrightarrow> (\<exists>st. b (dev_id d) = Some st \<and> st \<noteq> eval_status env s d)"

lemma recompute_with_baseline:
  fixes env w ks tv b
  assumes wf: "wf_db s" and w: "ss_db w = s"
  defines "r \<equiv> recompute_devices_status env w (Some ks) tv (Some b)"
  shows "(k, x, y) \<in> set (snd r) \<longleftrightarrow> k \<in> set ks \<and> (\<exists>d st. get_device s k = Some d \<and> b k = Some st \<and>
        st \<noteq> eval_status env s d \<and> x = Status_str st \<and> y = Status_str (eval_status env s d))"
    and "devices (ss_db (fst r)) = map (\<lambda>d. if dev_id d \<in> set ks \<and> changed env s b d
        then d\<lparr>dev_status := eval_status env s d\<rparr> else d) (devices s)"
proof -
  let ?ts = "concat (map (status_transition env s (Some b)) (selected_devices s (Some ks)))"
  have ts: "(d, st, st') \<in> set ?ts \<longleftrightarrow> dev_id d \<in> set ks \<and> get_device s (dev_id d) = Some d \<and> b (dev_id d) = Some st \<and>
      st \<noteq> eval_status env s d \<and> st' = eval_status env s d" for d st st'
  proof
    assume "(d, st, st') \<in> set ?ts"
    then obtain e where e: "e \<in> set (selected_devices s (Some ks))" "(d, st, st') \<in> set (status_transition env s (Some b) e)"
      by auto
    note row = selected_row [OF wf e(1)]
    from e(2) have "d = e" "b (dev_id d) = Some st" "st \<noteq> eval_status env s d" "st' = eval_status env s d"
      unfolding transition_None_iff [OF row] by (cases "b (dev_id e)"; auto split: if_splits)+
    moreover from e(1) obtain k where "k \<in> set ks" "get_device s k = Some e" unfolding selected_rows by blast
    ultimately show "dev_id d \<in> set ks \<and> get_device s (dev_id d) = Some d \<and> b (dev_id d) = Some st \<and>
      st \<noteq> eval_status env s d \<and> st' = eval_status env s d" using row dev.get_key [of s k e] by auto
  next
    assume h: "dev_id d \<in> set ks \<and> get_device s (dev_id d) = Some d \<and> b (dev_id d) = Some st \<and>
      st \<noteq> eval_status env s d \<and> st' = eval_status env s d"
    then have "d \<in> set (selected_devices s (Some ks))" unfolding selected_rows by blast
    moreover have "(d, st, st') \<in> set (status_transition env s (Some b) d)"
      using h transition_None_iff [of s d env "Some b"] by simp
    ultimately show "(d, st, st') \<in> set ?ts" by auto
  qed
  have snd: "snd r = map (\<lambda>(cur, before, after). (dev_id cur, Status_str before, Status_str after)) ?ts"
    unfolding r_def recompute_devices_status_def Let_def w by (simp split: prod.split)
  show "(k, x, y) \<in> set (snd r) \<longleftrightarrow> k \<in> set ks \<and> (\<exists>d st. get_device s k = Some d \<and> b k = Some st \<and>
        st \<noteq> eval_status env s d \<and> x = Status_str st \<and> y = Status_str (eval_status env s d))" (is "?L \<longleftrightarrow> ?R")
  proof
    assume ?L
    then obtain d st st' where t: "(d, st, st') \<in> set ?ts" "k = dev_id d" "x = Status_str st" "y = Status_str st'"
      unfolding snd by auto
    from t(1) ts [of d st st'] have "dev_id d \<in> set ks" "get_device s (dev_id d) = Some d" "b (dev_id d) = Some st"
      "st \<noteq> eval_status env s d" "st' = eval_status env s d" by blast+
    with t(2-4) show ?R by (intro conjI exI [of _ d] exI [of _ st]) simp_all
  next
    assume ?R
    then obtain d st where d: "k \<in> set ks" "get_device s k = Some d" "b k = Some st" "st \<noteq> eval_status env s d"
      "x = Status_str st" "y = Status_str (eval_status env s d)" by blast
    have "dev_id d = k" using dev.get_key [OF d(2)] .
    with d ts [of d st "eval_status env s d"] have "(d, st, eval_status env s d) \<in> set ?ts" by simp
    with d \<open>dev_id d = k\<close> show ?L unfolding snd by force
  qed
  have moved: "dev_id d \<in> set (map (dev_id \<circ> fst) ?ts) \<longleftrightarrow> dev_id d \<in> set ks \<and> changed env s b d" if "d \<in> set (devices s)" for d
  proof -
    have row: "get_device s (dev_id d) = Some d" using wf that by (rule wf_db_get_device)
    show ?thesis
    proof
      assume "dev_id d \<in> set (map (dev_id \<circ> fst) ?ts)"
      then obtain t where t: "t \<in> set ?ts" "dev_id d = dev_id (fst t)" unfolding set_map comp_def by blast
      obtain e st st' where e: "t = (e, st, st')" by (cases t) auto
      from t(1) ts [of e st st'] have h: "dev_id e \<in> set ks" "get_device s (dev_id e) = Some e" "b (dev_id e) = Some st"
        "st \<noteq> eval_status env s e" unfolding e by blast+
      from h(2) row t(2) e have "e = d" by (metis fst_conv option.inject)
      with h show "dev_id d \<in> set ks \<and> changed env s b d" unfolding changed_def by blast
    next
      assume "dev_id d \<in> set ks \<and> changed env s b d"
      then obtain st where "dev_id d \<in> set ks" "b (dev_id d) = Some st" "st \<noteq> eval_status env s d"
        unfolding changed_def by blast
      with row ts [of d st "eval_status env s d"] have "(d, st, eval_status env s d) \<in> set ?ts" by blast
      then show "dev_id d \<in> set (map (dev_id \<circ> fst) ?ts)" unfolding set_map comp_def by (metis fst_conv imageI)
    qed
  qed
  have db: "ss_db (fst r) = (if ?ts = [] then s else bulk_update_device_statuses env (map (dev_id \<circ> fst) ?ts) s)"
    unfolding r_def recompute_devices_status_def Let_def w by (simp split: prod.split)
  show "devices (ss_db (fst r)) = map (\<lambda>d. if dev_id d \<in> set ks \<and> changed env s b d
        then d\<lparr>dev_status := eval_status env s d\<rparr> else d) (devices s)"
  proof (cases "?ts = []")
    case True
    then have "\<not> (dev_id d \<in> set ks \<and> changed env s b d)" if "d \<in> set (devices s)" for d using moved [OF that] by simp
    then have "map (\<lambda>d. if dev_id d \<in> set ks \<and> changed env s b d then d\<lparr>dev_status := eval_status env s d\<rparr> else d) (devices s) = devices s"
      by (intro map_idI) auto
    with True db show ?thesis by simp
  next
    case False
    have "map (\<lambda>d. if dev_id d \<in> set (map (dev_id \<circ> fst) ?ts) then d\<lparr>dev_status := eval_status env s d\<rparr> else d) (devices s) =
        map (\<lambda>d. if dev_id d \<in> set ks \<and> changed env s b d then d\<lparr>dev_status := eval_status env s d\<rparr> else d) (devices s)"
      by (rule map_cong [OF refl]) (simp only: moved)
    moreover have "ss_db (fst r) = bulk_update_device_statuses env (map (dev_id \<circ> fst) ?ts) s"
      unfolding db by (rule if_not_P [OF False])
    ultimately show ?thesis unfolding bulk_update_device_statuses_def by simp
  qed
qed

text \<open>C12: With the statuses from before a change as the baseline, and when a cached adjacency that matches the
  topology version and the override counts is the current one (\<open>graph_fresh\<close>), an incremental recomputation
  reports exactly the devices that the adjacency of the code (\<open>status_edges\<close>) connects to the seeds it takes
  from the changed devices and links (\<open>dirty_seeds\<close>) and whose status differs from the baseline, with the
  old and the new status, and it writes the new status of exactly those devices; every other device row
  stays as it was.\<close>

theorem recompute_dirty_reports_changes:
  assumes "wf_db (ss_db w)" "cfg_enable_incremental cfg" "cfg_baseline_status cfg = Some b"
    and "graph_fresh (se_eth env) (ss_db w) (ss_graph w) (case cfg_topo_version cfg of Some v \<Rightarrow> v | None \<Rightarrow> ss_version w)"
    and "dirty_seeds (ss_db w) devs lnks \<noteq> []"
    and "cmp = reach_from (\<lambda>x. set (nbrs (status_edges (se_eth env) (ss_db w)) x)) (set (dirty_seeds (ss_db w) devs lnks))"
  shows "((k, x, y) \<in> set (snd (recompute_dirty env w devs lnks cfg)) \<longleftrightarrow> k \<in> cmp \<and>
      (\<exists>d st. get_device (ss_db w) k = Some d \<and> b k = Some st \<and> st \<noteq> eval_status env (ss_db w) d \<and>
         x = Status_str st \<and> y = Status_str (eval_status env (ss_db w) d))) \<and>
    devices (ss_db (fst (recompute_dirty env w devs lnks cfg))) =
      map (\<lambda>d. if dev_id d \<in> cmp \<and> changed env (ss_db w) b d then d\<lparr>dev_status := eval_status env (ss_db w) d\<rparr> else d)
        (devices (ss_db w))"
proof -
  obtain w1 ks where r: "recompute_dirty env w devs lnks cfg = recompute_devices_status env w1 (Some ks) (cfg_topo_version cfg) (Some b)"
    "ss_db w1 = ss_db w" "set ks = cmp"
    using transitions_of_component [OF assms(1-5)] assms(6) by blast
  from recompute_with_baseline(1) [OF assms(1) r(2), of k x y env ks "cfg_topo_version cfg" b]
    recompute_with_baseline(2) [OF assms(1) r(2), of env ks "cfg_topo_version cfg" b] show ?thesis
    unfolding r(1,3) by blast
qed

theorem recompute_dirty_reports_changes_witness:
  "(''er'', ''Status.UP'', ''Status.DOWN'') \<in> set (snd (recompute_dirty demo_senv demo_status [''er''] []
     \<lparr>cfg_enable_incremental = True, cfg_topo_version = None, cfg_baseline_status = Some [''er'' \<mapsto> UP]\<rparr>))"
proof -
  let ?cfg = "\<lparr>cfg_enable_incremental = True, cfg_topo_version = None, cfg_baseline_status = Some [''er'' \<mapsto> UP]\<rparr> :: dirty_cfg"
  have e: "cfg_enable_incremental ?cfg" "cfg_baseline_status ?cfg = Some [''er'' \<mapsto> UP]" by simp_all
  have f: "graph_fresh (se_eth demo_senv) (ss_db demo_status) (ss_graph demo_status)
      (case cfg_topo_version ?cfg of Some v \<Rightarrow> v | None \<Rightarrow> ss_version demo_status)"
    by (simp add: graph_fresh_def demo_status_def)
  have s: "dirty_seeds (ss_db demo_status) [''er''] [] = [''er'']" by (simp add: dirty_seeds_def)
  then have ne: "dirty_seeds (ss_db demo_status) [''er''] [] \<noteq> []" by simp
  let ?cmp = "reach_from (\<lambda>x. set (nbrs (status_edges (se_eth demo_senv) (ss_db demo_status)) x)) (set (dirty_seeds (ss_db demo_status) [''er''] []))"
  have c: "''er'' \<in> ?cmp" using reach_from_incl s by (metis list.set_intros(1) subsetD)
  have d: "get_device (ss_db demo_status) ''er'' = Some (Device ''er'' EDGE_ROUTER)"
    by (simp add: demo_status_def get_device_def Device_def)
  have v: "eval_status demo_senv (ss_db demo_status) (Device ''er'' EDGE_ROUTER) = DOWN"
    by (simp add: Device_def evaluate_device_status_def derive_role_def)
  note reported = recompute_dirty_reports_changes [OF demo_status_wf e f ne refl, THEN conjunct1, of "''er''" "''Status.UP''" "''Status.DOWN''"]
  show ?thesis unfolding reported using c d v
    by (intro conjI exI [of _ "Device ''er'' EDGE_ROUTER"] exI [of _ UP]) (simp_all add: Status_str_def)
qed

text \<open>The specification of the propagation, written over the rows. An anchor is a gateway, POP or core site
  that is not overridden to anything but up; while the topology has a backbone gateway only gateways
  count. A device relays when it exists, is not overridden to anything but up, and is passive, always
  online or provisioned. Two devices are joined by a viable link that is administratively up, or up with
  both devices known and not forced down, or by one being the container of the other.\<close>

definition live_anchor :: "db \<Rightarrow> ident \<Rightarrow> bool" where
  "live_anchor s k \<longleftrightarrow> (\<exists>d \<in> set (devices s). dev_id d = k \<and> dev_type d \<in> {BACKBONE_GATEWAY, POP, CORE_SITE} \<and>
     dev_admin_override_status d \<in> {None, Some UP} \<and>
     ((\<exists>g \<in> set (devices s). dev_type g = BACKBONE_GATEWAY) \<longrightarrow> dev_type d = BACKBONE_GATEWAY))"

definition relays :: "db \<Rightarrow> ident \<Rightarrow> bool" where
  "relays s k \<longleftrightarrow> (\<exists>d \<in> set (devices s). dev_id d = k \<and> dev_admin_override_status d \<in> {None, Some UP} \<and>
     (dev_type d \<in> {BACKBONE_GATEWAY, POP, CORE_SITE, SPLITTER, HOP, NVT, ODF} \<or> dev_provisioned d))"

definition link_open :: "db \<Rightarrow> link \<Rightarrow> bool" where
  "link_open s l \<longleftrightarrow> ln_admin_override_status l = Some UP \<or>
     ln_admin_override_status l = None \<and> ln_status l = UP \<and>
       (\<exists>da d_b. owner s (ln_a_interface_id l) = Some da \<and> owner s (ln_b_interface_id l) = Some d_b \<and>
          dev_admin_override_status da \<noteq> Some DOWN \<and> dev_admin_override_status d_b \<noteq> Some DOWN)"

definition adjoins :: "pyfloat option \<Rightarrow> db \<Rightarrow> ident \<Rightarrow> ident \<Rightarrow> bool" where
  "adjoins eth s x y \<longleftrightarrow>
     (\<exists>l \<in> set (links s). link_open s l \<and> is_link_physically_viable eth s l \<and> x \<noteq> [] \<and> y \<noteq> [] \<and>
        (link_ends s l = Some (x, y) \<or> link_ends s l = Some (y, x))) \<or>
     (\<exists>d \<in> set (devices s). \<exists>c. dev_parent_container_id d = Some c \<and> c \<noteq> [] \<and>
        (x = dev_id d \<and> y = c \<or> x = c \<and> y = dev_id d))"

definition fed_path :: "pyfloat option \<Rightarrow> db \<Rightarrow> ident list \<Rightarrow> bool" where
  "fed_path eth s p \<longleftrightarrow> p \<noteq> [] \<and> live_anchor s (hd p) \<and> (\<forall>k \<in> set (tl p). relays s k) \<and> successively (adjoins eth s) p"

lemma anchor_seeds_iff: "k \<in> anchor_seeds s \<longleftrightarrow> live_anchor s k"
proof -
  have role: "derive_role d = ALWAYS_ONLINE \<longleftrightarrow> dev_type d \<in> {BACKBONE_GATEWAY, POP, CORE_SITE}" for d
    by (auto simp: derive_role_def)
  show ?thesis unfolding anchor_seeds_def live_anchor_def Let_def role by (auto simp: list_ex_iff)
qed

lemma candidate_iff:
  "is_up_candidate d \<longleftrightarrow> dev_admin_override_status d \<in> {None, Some UP} \<and>
     (dev_type d \<in> {BACKBONE_GATEWAY, POP, CORE_SITE, SPLITTER, HOP, NVT, ODF} \<or> dev_provisioned d)"
  by (auto simp: is_up_candidate_def derive_role_def)

lemma relays_iff:
  assumes "wf_db s"
  shows "relays s k \<longleftrightarrow> (case get_device s k of None \<Rightarrow> False | Some d \<Rightarrow> is_up_candidate d)"
proof
  assume "relays s k"
  then obtain d where "d \<in> set (devices s)" "dev_id d = k" "is_up_candidate d" unfolding relays_def candidate_iff by blast
  with wf_db_get_device [OF assms] show "case get_device s k of None \<Rightarrow> False | Some d \<Rightarrow> is_up_candidate d" by auto
next
  assume "case get_device s k of None \<Rightarrow> False | Some d \<Rightarrow> is_up_candidate d"
  then obtain d where d: "get_device s k = Some d" "is_up_candidate d" by (auto split: option.splits)
  with dev.get_SomeD [OF d(1)] show "relays s k" unfolding relays_def candidate_iff by blast
qed

lemma link_open_iff: "wf_db s \<Longrightarrow> l \<in> set (links s) \<Longrightarrow> is_link_passable s l \<longleftrightarrow> link_open s l"
  unfolding link_passable_row link_open_def forced_down_def by (auto split: option.split)

lemma if_to_dev_row: "wf_db s \<Longrightarrow> if_to_dev s i = map_option if_device_id (get_interface s i)"
  by (simp add: if_to_dev_def get_interface_def wf_db_def find_rev_distinct)

lemma link_ends_iff:
  assumes "wf_db s"
  shows "link_ends s l = Some (x, y) \<longleftrightarrow>
    if_to_dev s (ln_a_interface_id l) = Some x \<and> if_to_dev s (ln_b_interface_id l) = Some y"
  unfolding if_to_dev_row [OF assms] link_ends_def by (auto split: option.split)

lemma in_both_ways: "(x, y) \<in> set (both_ways a b) \<longleftrightarrow> a = x \<and> b = y \<or> a = y \<and> b = x"
  by (auto simp: both_ways_def)

lemma status_edge_iff:
  assumes "wf_db s"
  shows "(x, y) \<in> set (status_edges eth s) \<longleftrightarrow> adjoins eth s x y"
proof -
  have "(x, y) \<in> set (link_edges eth s) \<longleftrightarrow>
    (\<exists>l \<in> set (links s). link_open s l \<and> is_link_physically_viable eth s l \<and> x \<noteq> [] \<and> y \<noteq> [] \<and>
        (link_ends s l = Some (x, y) \<or> link_ends s l = Some (y, x)))"
    unfolding link_edges_def in_set_concat_map in_set_if in_both_ways link_ends_iff [OF assms] truthy_iff
    by (intro bex_cong refl) (use link_open_iff [OF assms] in auto)
  moreover have "(x, y) \<in> set (container_edges s) \<longleftrightarrow>
    (\<exists>d \<in> set (devices s). \<exists>c. dev_parent_container_id d = Some c \<and> c \<noteq> [] \<and>
        (x = dev_id d \<and> y = c \<or> x = c \<and> y = dev_id d))"
    unfolding container_edges_def in_set_concat_map in_set_if in_both_ways truthy_iff
    by (intro bex_cong refl) auto
  ultimately show ?thesis unfolding status_edges_def adjoins_def by simp
qed

lemma reach_from_fed:
  assumes "wf_db s"
  shows "k \<in> reach_from (\<lambda>x. set (up_nbrs s (status_edges eth s) x)) (anchor_seeds s) \<longleftrightarrow>
    (\<exists>p. fed_path eth s p \<and> last p = k)"
proof
  have nb: "y \<in> set (up_nbrs s (status_edges eth s) x) \<longleftrightarrow> adjoins eth s x y \<and> relays s y" for x y
    by (auto simp: up_nbrs_def nbrs_set status_edge_iff [OF assms] relays_iff [OF assms])
  show "\<exists>p. fed_path eth s p \<and> last p = k"
    if "k \<in> reach_from (\<lambda>x. set (up_nbrs s (status_edges eth s) x)) (anchor_seeds s)"
    using that
  proof (induction rule: reach_from_induct)
    case (base x)
    then show ?case by (intro exI [of _ "[x]"]) (simp add: fed_path_def anchor_seeds_iff)
  next
    case (step x y)
    then obtain p where "fed_path eth s p" "last p = x" by blast
    moreover have "adjoins eth s x y" "relays s y" using step nb by auto
    ultimately show ?case
      by (intro exI [of _ "p @ [y]"]) (auto simp: fed_path_def successively_append_iff)
  qed
  show "k \<in> reach_from (\<lambda>x. set (up_nbrs s (status_edges eth s) x)) (anchor_seeds s)"
    if "\<exists>p. fed_path eth s p \<and> last p = k"
  proof -
    from that obtain p where "fed_path eth s p" "last p = k" by blast
    then show ?thesis
    proof (induction p arbitrary: k rule: rev_induct)
      case (snoc y p)
      show ?case
      proof (cases "p = []")
        case True
        with snoc.prems have "k \<in> anchor_seeds s" by (auto simp: fed_path_def anchor_seeds_iff)
        then show ?thesis by (rule subsetD [OF reach_from_incl])
      next
        case False
        with snoc.prems have "fed_path eth s p" "adjoins eth s (last p) y" "relays s y"
          by (auto simp: fed_path_def successively_append_iff)
        with snoc.IH [of "last p"] snoc.prems nb show ?thesis by (auto intro: reach_from_closed)
      qed
    qed (simp add: fed_path_def)
  qed
qed

text \<open>C32: Without an answer of the Go service, and when a cached adjacency that matches the topology version
  and the override counts is the current one, the snapshot a recomputation stores is exact: it holds a
  device exactly when a path of open, viable links and container memberships leads to it from a live
  anchor, and every device on the path after the anchor exists, is not overridden to anything but up, and is
  provisioned if it is an active device.\<close>

theorem propagation_snapshot_exact:
  assumes "wf_db (ss_db w)" "se_go env (case ids of None \<Rightarrow> [] | Some ks \<Rightarrow> ks) = None"
    and "graph_fresh (se_eth env) (ss_db w) (ss_graph w) (case tv of Some v \<Rightarrow> v | None \<Rightarrow> ss_version w)"
  shows "\<exists>up. reachable_up (ss_snapshot (fst (recompute_devices_status env w ids tv b))) = Some up \<and>
    (\<forall>k. k \<in> up \<longleftrightarrow> (\<exists>p. fed_path (se_eth env) (ss_db w) p \<and> last p = k))"
proof -
  have fin: "finite (anchor_seeds (ss_db w))" by (simp add: anchor_seeds_def Let_def)
  obtain gc adj seen where g: "ensure_graph_cache (se_eth env) (ss_db w) (ss_graph w)
      (case tv of Some v \<Rightarrow> v | None \<Rightarrow> ss_version w) = (gc, adj, seen)" by (metis prod_cases3)
  have adj: "adj = status_edges (se_eth env) (ss_db w)" using ensure_graph_fresh [OF assms(3)] g by simp
  have "propagate (ss_db w) adj (sorted_list_of_set (anchor_seeds (ss_db w))) (anchor_seeds (ss_db w)) =
      reach_from (\<lambda>x. set (up_nbrs (ss_db w) adj x)) (anchor_seeds (ss_db w))"
    using propagation.run_eq_reach [of "ss_db w" adj "sorted_list_of_set (anchor_seeds (ss_db w))"] fin by simp
  with g assms(2) have "reachable_up (ss_snapshot (fst (recompute_devices_status env w ids tv b))) =
      Some (reach_from (\<lambda>x. set (up_nbrs (ss_db w) (status_edges (se_eth env) (ss_db w)) x)) (anchor_seeds (ss_db w)))"
    unfolding adj by (simp add: recompute_devices_status_def Let_def set_snapshot_def)
  with reach_from_fed [OF assms(1)] show ?thesis by blast
qed

text \<open>A provisioned edge router below the gateway is reachable; the OLT below it is not provisioned, and
  neither it nor the router that is forced down is.\<close>

definition demo_fed :: status_state where
  "demo_fed = demo_status\<lparr>ss_db := demo_l3\<lparr>devices := map (\<lambda>d. d\<lparr>dev_provisioned := dev_id d \<noteq> ''olt''\<rparr>) (devices demo_l3)\<rparr>\<rparr>"

theorem propagation_snapshot_exact_witness:
  "\<exists>up. reachable_up (ss_snapshot (fst (recompute_devices_status demo_senv demo_fed None None None))) = Some up \<and>
     ''bb'' \<in> up \<and> ''er'' \<in> up \<and> ''olt'' \<notin> up \<and> ''dead'' \<notin> up"
proof -
  let ?s = "ss_db demo_fed"
  have wf: "wf_db ?s" by (simp add: wf_db_def demo_fed_def demo_l3_defs)
  have go: "se_go demo_senv (case None of None \<Rightarrow> [] | Some ks \<Rightarrow> ks) = None" by (simp add: demo_senv_def)
  have fr: "graph_fresh (se_eth demo_senv) ?s (ss_graph demo_fed) (case None of Some v \<Rightarrow> v | None \<Rightarrow> ss_version demo_fed)"
    by (simp add: graph_fresh_def demo_fed_def demo_status_def)
  from propagation_snapshot_exact [OF wf go fr] obtain up where
    up: "reachable_up (ss_snapshot (fst (recompute_devices_status demo_senv demo_fed None None None))) = Some up"
    "\<And>k. k \<in> up \<longleftrightarrow> (\<exists>p. fed_path (se_eth demo_senv) ?s p \<and> last p = k)" by blast
  have eth: "se_eth demo_senv = None" by (simp add: demo_senv_def)
  have bb: "live_anchor ?s ''bb''" by code_simp
  have er: "relays ?s ''er''" by code_simp
  have k2: "Link ''k2'' ''er-b'' ''bb-a'' \<in> set (links ?s)" by (simp add: demo_fed_def demo_l3_defs)
  have via: "is_link_physically_viable None ?s (Link ''k2'' ''er-b'' ''bb-a'')" by code_simp
  have ends: "link_ends ?s (Link ''k2'' ''er-b'' ''bb-a'') = Some (''er'', ''bb'')" by code_simp
  have pass: "is_link_passable ?s (Link ''k2'' ''er-b'' ''bb-a'')" by code_simp
  then have "link_open ?s (Link ''k2'' ''er-b'' ''bb-a'')" using link_open_iff [OF wf k2] by simp
  with k2 via ends have "adjoins None ?s ''bb'' ''er''" unfolding adjoins_def by (intro disjI1 bexI) simp_all
  with bb er have "fed_path None ?s [''bb'']" "fed_path None ?s [''bb'', ''er'']" by (auto simp: fed_path_def)
  then have in_up: "''bb'' \<in> up" "''er'' \<in> up" unfolding up(2) eth by (metis last.simps list.distinct(1))+
  have out: "k \<notin> up" if "\<not> live_anchor ?s k" "\<not> relays ?s k" for k
  proof
    assume "k \<in> up"
    then obtain p where p: "fed_path None ?s p" "last p = k" unfolding up(2) eth by blast
    then show False using that
      by (cases p rule: rev_cases; cases "butlast p") (auto simp: fed_path_def tl_append split: list.splits)
  qed
  have "\<not> live_anchor ?s ''olt''" "\<not> relays ?s ''olt''" "\<not> live_anchor ?s ''dead''" "\<not> relays ?s ''dead''"
    by code_simp+
  with out up(1) in_up show ?thesis by blast
qed

definition causal_path :: "db \<Rightarrow> ident set \<Rightarrow> ident \<Rightarrow> ident list \<Rightarrow> bool" where
  "causal_path s start k p \<longleftrightarrow> p \<noteq> [] \<and> hd p \<in> start \<and> last p = k \<and> successively (\<lambda>x y. y \<in> set (causal_next s x)) p"

lemma causal_paths:
  assumes "\<And>k p. paths k = Some p \<Longrightarrow> causal_path s start k p" "\<And>k. k \<in> set q \<union> V \<Longrightarrow> paths k \<noteq> None"
  shows "(\<forall>k p. snd (causal_loop s q V paths) k = Some p \<longrightarrow> causal_path s start k p) \<and>
    (\<forall>k \<in> fst (causal_loop s q V paths). snd (causal_loop s q V paths) k \<noteq> None)"
  using assms
proof (induction s q V paths rule: causal_loop.induct)
  case (2 s cur q V paths)
  show ?case
  proof (cases "cur \<in> V")
    case True
    with 2(1) [OF True] 2(3,4) show ?thesis by auto
  next
    case False
    let ?new = "filter (\<lambda>d. d \<notin> insert cur V) (causal_next s cur)"
    obtain pc where pc: "paths cur = Some pc" using 2(4) [of cur] by auto
    have "causal_path s start k p" if "extend_paths cur ?new paths k = Some p" for k p
      using that 2(3) [of k p] 2(3) [OF pc] pc
      by (auto simp: extend_paths_def causal_path_def successively_append_iff split: if_splits)
    moreover have "extend_paths cur ?new paths k \<noteq> None" if "k \<in> set (q @ ?new) \<union> insert cur V" for k
      using that 2(4) [of k] pc by (auto simp: extend_paths_def)
    ultimately show ?thesis using 2(2) [OF False refl] False by (simp add: Let_def)
  qed
qed simp

text \<open>The causal chain of changed devices is exact: a device is affected exactly when passable links
  lead to it from a changed device through devices that can pass a status on, and the reported
  dependency path of an affected device is such a path.\<close>

theorem causal_chain_exact:
  assumes "\<And>A. finite A \<Longrightarrow> set (so A) = A"
  shows "set (cc_affected_devices (detect_causal_chain_python so s ch)) =
      reach_from (\<lambda>x. set (causal_next s x)) (set ch) \<and>
    (\<forall>k \<in> set (cc_affected_devices (detect_causal_chain_python so s ch)).
       \<exists>p. cc_dependency_paths (detect_causal_chain_python so s ch) k = Some p \<and> causal_path s (set ch) k p)"
proof -
  let ?p = "\<lambda>k. if k \<in> set ch then Some [k] else None"
  let ?r = "causal_loop s ch {} ?p"
  have v: "fst ?r = reach_from (\<lambda>x. set (causal_next s x)) (set ch)"
    using causal.run_eq_reach [of s ch] causal_visited [of s ch "{}" ?p Map.empty] by simp
  have "reach_from (\<lambda>x. set (causal_next s x)) (set ch) \<subseteq> set ch \<union> dev_id ` set (devices s)"
    using causal_next_range by (intro reach_from_least) blast+
  then have fin: "finite (fst ?r)" unfolding v by (rule finite_subset) simp
  have "(\<forall>k p. snd ?r k = Some p \<longrightarrow> causal_path s (set ch) k p) \<and> (\<forall>k \<in> fst ?r. snd ?r k \<noteq> None)"
    by (rule causal_paths) (auto simp: causal_path_def split: if_splits)
  then have "\<forall>k \<in> fst ?r. \<exists>p. snd ?r k = Some p \<and> causal_path s (set ch) k p" by blast
  moreover have "detect_causal_chain_python so s ch =
      \<lparr>cc_affected_devices = so (fst ?r), cc_affected_links = [], cc_dependency_paths = snd ?r\<rparr>"
    by (simp add: detect_causal_chain_python_def split: prod.split)
  ultimately show ?thesis using assms [OF fin] v by simp
qed

theorem causal_chain_exact_witness:
  "set (cc_affected_devices (detect_causal_chain_python sorted_list_of_set demo_l3 [''olt''])) =
     reach_from (\<lambda>x. set (causal_next demo_l3 x)) {''olt''}"
proof -
  have so: "\<And>A :: ident set. finite A \<Longrightarrow> set (sorted_list_of_set A) = A" by simp
  from causal_chain_exact [OF so, of demo_l3 "[''olt'']"] show ?thesis by simp
qed

end
