(* ===== verification/Optical_Service.thy ===== *)
theory Optical_Service
  imports Status
begin

text \<open>
  The optical recomputation (\<^verbatim>\<open>services/optical_service.py\<close>): the signal budget of every ONT from the path
  query of the optical client, the decision whether it changed, the commit, the events and the status
  recomputation that follows. Log output and the epoch of the device cache are not modelled.
\<close>

section \<open>The budget of one ONT\<close>

definition classify_margin :: "pyfloat \<Rightarrow> SignalStatus" where
  "classify_margin margin =
     (if margin < 0 then NO_SIGNAL else if margin < 3 then SIG_CRITICAL else if margin < 6 then SIG_WARNING else SIG_OK)"

definition apply_path :: "db \<Rightarrow> path_answer \<Rightarrow> device \<Rightarrow> device" where
  "apply_path s a ont =
     (if \<not> pa_path_exists a
      then ont\<lparr>dev_signal_power_dbm := None, dev_signal_margin_db := None, dev_signal_status := Some NO_SIGNAL\<rparr>
      else let olt = (case pa_olt_id a of None \<Rightarrow> None | Some k \<Rightarrow> get_device s k);
               tx = (case olt of None \<Rightarrow> 0 | Some d \<Rightarrow> get_effective_tx_power_dbm s d);
               total_loss = (case pa_total_attenuation_db a of None \<Rightarrow> 0 | Some x \<Rightarrow> x);
               received = tx - total_loss;
               margin = received - get_effective_sensitivity_dbm s ont
           in ont\<lparr>dev_signal_power_dbm := Some received, dev_signal_margin_db := Some margin,
                 dev_signal_status := Some (classify_margin margin), dev_attenuation_db := Some total_loss\<rparr>)"

definition moved_by :: "pyfloat \<Rightarrow> pyfloat option \<Rightarrow> pyfloat option \<Rightarrow> bool" where
  "moved_by eps x y \<longleftrightarrow> (case (x, y) of (Some a, Some b) \<Rightarrow> \<bar>a - b\<bar> \<ge> eps | _ \<Rightarrow> False)"

definition signal_changed :: "device \<Rightarrow> device \<Rightarrow> bool" where
  "signal_changed old new \<longleftrightarrow>
     dev_signal_status old \<noteq> dev_signal_status new \<or>
     (dev_signal_power_dbm old = None) \<noteq> (dev_signal_power_dbm new = None) \<or>
     (dev_signal_margin_db old = None) \<noteq> (dev_signal_margin_db new = None) \<or>
     (dev_attenuation_db old = None) \<noteq> (dev_attenuation_db new = None) \<or>
     moved_by (1 / 10) (dev_signal_power_dbm old) (dev_signal_power_dbm new) \<or>
     moved_by (1 / 100) (dev_attenuation_db old) (dev_attenuation_db new)"

section \<open>The recomputation\<close>

record 'g optical_state =
  os_status :: status_state
  os_client :: optical_client
  os_store :: "'g pathfinding_store"

fun optical_loop :: "'g nx \<Rightarrow> db \<Rightarrow> optical_client \<times> 'g pathfinding_store \<Rightarrow> device list
    \<Rightarrow> (optical_client \<times> 'g pathfinding_store) \<times> (device \<times> device) list" where
  "optical_loop nx s c [] = (c, [])"
| "optical_loop nx s c (ont # onts) =
     (let (c1, a) = get_path nx s c (dev_id ont); (c2, rest) = optical_loop nx s c1 onts
      in (c2, (ont, apply_path s a ont) # rest))"

definition SignalStatus_value :: "SignalStatus \<Rightarrow> string" where
  "SignalStatus_value x = (case x of SIG_OK \<Rightarrow> ''OK'' | SIG_WARNING \<Rightarrow> ''WARNING'' | SIG_CRITICAL \<Rightarrow> ''CRITICAL'' | NO_SIGNAL \<Rightarrow> ''NO_SIGNAL'')"

definition optical_event :: "device \<Rightarrow> event" where
  "optical_event d =
     \<lparr>ev_type = ''device.optical.updated'',
      ev_payload = [(''id'', JStr (dev_id d)), (''signal_power_dbm'', jopt JNum (dev_signal_power_dbm d)),
        (''signal_margin_db'', jopt JNum (dev_signal_margin_db d)),
        (''signal_status'', jopt (JStr \<circ> SignalStatus_value) (dev_signal_status d)),
        (''received_dbm'', jopt JNum (dev_signal_power_dbm d)), (''margin_db'', jopt JNum (dev_signal_margin_db d)),
        (''attenuation_db'', jopt JNum (dev_attenuation_db d)),
        (''total_path_attenuation_db'', jopt JNum (dev_attenuation_db d))],
      ev_topo_version = None, ev_correlation_id = None\<rparr>"

text \<open>The rows the session holds are committed together when one of them changed; otherwise the session
  closes without a commit.\<close>

definition commit_rows :: "db \<Rightarrow> (device \<times> device) list \<Rightarrow> db" where
  "commit_rows s rows =
     s\<lparr>devices := map (\<lambda>d. case map_of (map (\<lambda>(old, new). (dev_id old, new)) rows) (dev_id d) of None \<Rightarrow> d | Some new \<Rightarrow> new) (devices s)\<rparr>"

definition recompute_optical_paths_for_affected_onts :: "'g senv \<Rightarrow> 'g optical_state \<Rightarrow> 'g optical_state" where
  "recompute_optical_paths_for_affected_onts env os =
     (let w = os_status os; s = ss_db w;
          onts = filter (\<lambda>d. dev_type d = ONT \<or> dev_type d = BUSINESS_ONT) (devices s);
          ((cl, st), rows) = optical_loop (se_nx env) s (os_client os, os_store os) onts;
          updated = filter (\<lambda>(old, new). signal_changed old new) rows;
          os' = os\<lparr>os_client := cl, os_store := st\<rparr>
      in if updated = [] then os'
         else let w1 = w\<lparr>ss_db := commit_rows s rows,
                         ss_bus := foldl (\<lambda>b (old, new). publish b (optical_event new) (se_now env)) (ss_bus w) updated\<rparr>;
                  baseline = map_of (map (\<lambda>(old, new). (dev_id old, eval_status env s old)) updated);
                  (w2, _) = recompute_devices_status env w1 (Some (map (dev_id \<circ> snd) updated)) None (Some baseline)
              in os'\<lparr>os_status := w2\<rparr>)"

section \<open>Properties\<close>

lemma fallback_answer:
  assumes "oc_connection_attempted cl" "\<not> oc_go_available cl" "oc_use_fallback cl"
  shows "pa_total_attenuation_db (snd (get_path nx s (cl, st) k)) = None"
    and "pa_path_exists (snd (get_path nx s (cl, st) k)) \<longleftrightarrow> snd (resolve_optical_path nx s st k) \<noteq> None"
    and "snd (resolve_optical_path nx s st k) = Some r \<Longrightarrow> pa_olt_id (snd (get_path nx s (cl, st) k)) = Some (opr_olt_id r)"
  using assms
  by (auto simp: get_path_def ensure_connected_def python_get_path_def no_path_answer_def Let_def split: prod.split option.split)

text \<open>C37: Without the Go service the optical budget forgets the losses: the fallback reports the attenuation
  under the key \<^verbatim>\<open>total_loss_db\<close> and the recomputation reads \<^verbatim>\<open>total_attenuation_db\<close>, so an ONT with a path is
  given an attenuation of zero and the full transmit power of the OLT, however lossy the path is.\<close>

theorem fallback_budget_ignores_losses:
  assumes "oc_connection_attempted cl" "\<not> oc_go_available cl" "oc_use_fallback cl"
    and "snd (resolve_optical_path nx s st (dev_id ont)) = Some r" "get_device s (opr_olt_id r) = Some olt"
  shows "dev_attenuation_db (apply_path s (snd (get_path nx s (cl, st) (dev_id ont))) ont) = Some 0 \<and>
    dev_signal_power_dbm (apply_path s (snd (get_path nx s (cl, st) (dev_id ont))) ont) = Some (get_effective_tx_power_dbm s olt)"
  using fallback_answer(1) [OF assms(1-3), of nx s st "dev_id ont"] fallback_answer(2) [OF assms(1-3), of nx s st "dev_id ont"]
    fallback_answer(3) [OF assms(1-3), of nx s st "dev_id ont", OF assms(4)] assms(4,5)
  by (simp add: apply_path_def Let_def)

definition demo_client :: optical_client where
  "demo_client = \<lparr>oc_connection_attempted = True, oc_health = False, oc_go_available = False, oc_use_fallback = True, oc_stub = (\<lambda>_. None)\<rparr>"

lemma demo_resolved:
  "map_option (\<lambda>r. (opr_olt_id r, opr_total_attenuation_db r)) (snd (resolve_optical_path list_nx demo_optical PathfindingStore ''ont'')) =
     Some (''olt'', 13 / 2)"
  by code_simp

theorem fallback_budget_ignores_losses_witness:
  "\<exists>r. snd (resolve_optical_path list_nx demo_optical PathfindingStore ''ont'') = Some r \<and>
     opr_total_attenuation_db r = 13 / 2 \<and>
     dev_attenuation_db (apply_path demo_optical (snd (get_path list_nx demo_optical (demo_client, PathfindingStore) ''ont'')) (Device ''ont'' ONT)) = Some 0"
proof -
  obtain r where r: "snd (resolve_optical_path list_nx demo_optical PathfindingStore ''ont'') = Some r"
    "opr_olt_id r = ''olt''" "opr_total_attenuation_db r = 13 / 2" using demo_resolved by auto
  have c: "oc_connection_attempted demo_client" "\<not> oc_go_available demo_client" "oc_use_fallback demo_client"
    by (simp_all add: demo_client_def)
  have i: "dev_id (Device ''ont'' ONT) = ''ont''" by (simp add: Device_def)
  have "get_device demo_optical (opr_olt_id r) = Some (Device ''olt'' OLT)"
    unfolding r(2) by (simp add: get_device_def demo_optical_def row_defs)
  from fallback_budget_ignores_losses [where ont = "Device ''ont'' ONT", unfolded i, OF c r(1) this] r(1,3)
  show ?thesis by blast
qed

end
