(* ===== verification/Ip_Address.thy ===== *)
theory Ip_Address
  imports Prelude "HOL-Library.Word"
begin

unbundle bit_operations_syntax

text \<open>
  What the services use of Python's module \<^verbatim>\<open>ipaddress\<close>: \<^verbatim>\<open>ip_address\<close>, \<^verbatim>\<open>ip_network\<close>, membership, \<^verbatim>\<open>hosts()\<close>
  and \<^verbatim>\<open>str\<close>. An address is a 32-bit or a 128-bit word. The text form of IPv4 is modelled in full; the
  text form of IPv6, which the services accept only to reject it, is the parameter \<open>v6\<close>.
\<close>

section \<open>Splitting and joining\<close>

fun split_on :: "char \<Rightarrow> string \<Rightarrow> string list" where
  "split_on c [] = [[]]"
| "split_on c (x # xs) =
     (if x = c then [] # split_on c xs
      else case split_on c xs of [] \<Rightarrow> [[x]] | p # ps \<Rightarrow> (x # p) # ps)"

fun join_on :: "char \<Rightarrow> string list \<Rightarrow> string" where
  "join_on c [] = []"
| "join_on c [x] = x"
| "join_on c (x # xs) = x @ c # join_on c xs"

lemma split_on_not_Nil [simp]: "split_on c s \<noteq> []"
  by (cases s) (auto split: list.splits)

lemma split_on_append: "c \<notin> set p \<Longrightarrow> split_on c (p @ c # s) = p # split_on c s"
  by (induction p) auto

lemma split_on_single: "c \<notin> set p \<Longrightarrow> split_on c p = [p]"
  by (induction p) auto

lemma split_join: "ps \<noteq> [] \<Longrightarrow> \<forall>p \<in> set ps. c \<notin> set p \<Longrightarrow> split_on c (join_on c ps) = ps"
  by (induction c ps rule: join_on.induct) (auto simp: split_on_append split_on_single)

lemma join_on_Cons: "ps \<noteq> [] \<Longrightarrow> join_on c (p # ps) = p @ c # join_on c ps"
  by (cases ps) auto

lemma join_split: "join_on c (split_on c s) = s"
proof (induction s)
  case (Cons x xs)
  then show ?case
    by (cases "split_on c xs"; cases "tl (split_on c xs)") (auto simp: join_on_Cons)
qed simp

lemma split_on_parts: "p \<in> set (split_on c s) \<Longrightarrow> c \<notin> set p"
  by (induction s arbitrary: p) (auto split: if_splits list.splits)

section \<open>Decimal numbers\<close>

definition is_digit :: "char \<Rightarrow> bool" where
  "is_digit c \<longleftrightarrow> (48::nat) \<le> of_char c \<and> of_char c \<le> (57::nat)"

definition digit_value :: "char \<Rightarrow> nat" where
  "digit_value c = of_char c - 48"

text \<open>\<^verbatim>\<open>int(s)\<close> of a string of digits.\<close>

definition int_of_digits :: "string \<Rightarrow> nat" where
  "int_of_digits = foldl (\<lambda>n c. 10 * n + digit_value c) 0"

lemma char_of_48 [simp]: "char_of (48 :: nat) = CHR ''0''"
  by code_simp

lemma of_char_digit: "n < 10 \<Longrightarrow> of_char (char_of (48 + n) :: char) = 48 + n" for n :: nat
  by simp

lemma int_of_digits_snoc: "int_of_digits (s @ [c]) = 10 * int_of_digits s + digit_value c"
  by (simp add: int_of_digits_def)

lemma digits_of_show: "\<forall>c \<in> set (show_nat n). is_digit c"
  by (induction n rule: show_nat.induct) (subst show_nat.simps, auto simp: is_digit_def)

lemma int_of_show [simp]: "int_of_digits (show_nat n) = n"
proof (induction n rule: show_nat.induct)
  case (1 n)
  show ?case
  proof (cases "n < 10")
    case True
    then show ?thesis by (subst show_nat.simps) (simp add: int_of_digits_def digit_value_def)
  next
    case False
    then have "int_of_digits (show_nat (n div 10)) = n div 10" using 1 by simp
    with False show ?thesis
      by (subst show_nat.simps) (simp add: int_of_digits_snoc digit_value_def)
  qed
qed

lemma show_nat_not_Nil [simp]: "show_nat n \<noteq> []"
  by (subst show_nat.simps) simp

lemma show_nat_0 [simp]: "show_nat 0 = ''0''"
  by (subst show_nat.simps) simp

lemma show_nat_head: "0 < n \<Longrightarrow> hd (show_nat n) \<noteq> CHR ''0''"
proof (induction n rule: show_nat.induct)
  case (1 n)
  have zero: "CHR ''0'' = char_of (48 + 0 :: nat)" by simp
  show ?case
  proof (cases "n < 10")
    case True
    then have "of_char (hd (show_nat n)) = 48 + n"
      by (subst show_nat.simps) simp
    with 1(2) show ?thesis unfolding zero by (metis add_left_cancel less_irrefl of_char_digit zero_less_numeral)
  next
    case False
    then show ?thesis using 1 by (subst show_nat.simps) (simp add: hd_append)
  qed
qed

lemma show_nat_length: "n < 10 ^ k \<Longrightarrow> 0 < k \<Longrightarrow> length (show_nat n) \<le> k"
proof (induction n arbitrary: k rule: show_nat.induct)
  case (1 n)
  show ?case
  proof (cases "n < 10")
    case True
    with 1(3) show ?thesis by (subst show_nat.simps) simp
  next
    case False
    then obtain j where k: "k = Suc j" "0 < j" using 1(2) by (cases k; cases "k - 1") auto
    then have "n div 10 < 10 ^ j" using 1(2) by (simp add: div_less_iff_less_mult mult.commute)
    then have "length (show_nat (n div 10)) \<le> j" using 1(1) False k by simp
    with False k show ?thesis by (subst show_nat.simps) simp
  qed
qed

text \<open>A string of digits without a superfluous zero is the one that \<^verbatim>\<open>str\<close> prints.\<close>

lemma show_nat_step: "10 \<le> n \<Longrightarrow> show_nat n = show_nat (n div 10) @ [char_of (48 + n mod 10)]"
  by (subst show_nat.simps) simp

lemma digit_char: "is_digit c \<Longrightarrow> char_of (48 + digit_value c) = c \<and> digit_value c < 10"
  by (auto simp: is_digit_def digit_value_def)

lemma int_of_digits_pos:
  "s \<noteq> [] \<Longrightarrow> \<forall>c \<in> set s. is_digit c \<Longrightarrow> hd s \<noteq> CHR ''0'' \<Longrightarrow> 0 < int_of_digits s"
proof (induction s rule: rev_induct)
  case (snoc c s)
  show ?case
  proof (cases "s = []")
    case True
    then have "is_digit c" "c \<noteq> CHR ''0''" using snoc.prems by auto
    then have "0 < digit_value c"
      using digit_char [of c] by (cases "digit_value c") auto
    then show ?thesis by (simp add: True int_of_digits_def)
  next
    case False
    then show ?thesis using snoc by (simp add: int_of_digits_snoc)
  qed
qed simp

lemma show_int_of_digits:
  "s \<noteq> [] \<Longrightarrow> \<forall>c \<in> set s. is_digit c \<Longrightarrow> s = ''0'' \<or> hd s \<noteq> CHR ''0'' \<Longrightarrow>
     show_nat (int_of_digits s) = s"
proof (induction s rule: rev_induct)
  case (snoc c s)
  have c: "char_of (48 + digit_value c) = c" "digit_value c < 10"
    using snoc.prems(2) digit_char by auto
  show ?case
  proof (cases "s = []")
    case True
    then show ?thesis using c by (subst show_nat.simps) (simp add: int_of_digits_def)
  next
    case False
    then have hd: "hd s \<noteq> CHR ''0''" using snoc.prems(3) by (cases s) auto
    then have pos: "0 < int_of_digits s" using int_of_digits_pos [of s] snoc.prems(2) False by simp
    have IH: "show_nat (int_of_digits s) = s" using snoc hd False by simp
    show ?thesis
      using pos c IH by (subst show_nat_step) (auto simp: int_of_digits_snoc)
  qed
qed simp

section \<open>IPv4 addresses as text\<close>

type_synonym ip4 = "32 word"
type_synonym ip6 = "128 word"

definition parse_octet :: "string \<Rightarrow> nat option" where
  "parse_octet s =
     (if s = [] then None
      else if \<not> list_all is_digit s then None
      else if length s > 3 then None
      else if s \<noteq> ''0'' \<and> hd s = CHR ''0'' then None
      else let n = int_of_digits s in if n > 255 then None else Some n)"

fun those_octets :: "string list \<Rightarrow> nat list option" where
  "those_octets [] = Some []"
| "those_octets (s # ss) =
     (case parse_octet s of None \<Rightarrow> None
      | Some n \<Rightarrow> (case those_octets ss of None \<Rightarrow> None | Some ns \<Rightarrow> Some (n # ns)))"

text \<open>\<^verbatim>\<open>int.from_bytes(..., 'big')\<close> and \<^verbatim>\<open>to_bytes(4, 'big')\<close>.\<close>

definition from_bytes :: "nat list \<Rightarrow> ip4" where
  "from_bytes bs = foldl (\<lambda>n b. 256 * n + of_nat b) 0 bs"

definition to_bytes :: "ip4 \<Rightarrow> nat list" where
  "to_bytes w = map unat [w div 16777216 mod 256, w div 65536 mod 256, w div 256 mod 256, w mod 256]"

definition ip4_from_string :: "string \<Rightarrow> ip4 option" where
  "ip4_from_string s =
     (if s = [] then None
      else let octets = split_on (CHR ''.'') s
           in if length octets \<noteq> 4 then None else map_option from_bytes (those_octets octets))"

definition IPv4Address :: "string \<Rightarrow> ip4 option" where
  "IPv4Address s = (if CHR ''/'' \<in> set s then None else ip4_from_string s)"

definition str_ip4 :: "ip4 \<Rightarrow> string" where
  "str_ip4 w = join_on (CHR ''.'') (map show_nat (to_bytes w))"

lemma is_digit_0 [simp]: "is_digit (CHR ''0'')"
  by code_simp

lemma digit_not_sep: "is_digit c \<Longrightarrow> c \<noteq> CHR ''.'' \<and> c \<noteq> CHR ''/''"
  by (auto simp: is_digit_def)

lemma parse_octet_show: "n < 256 \<Longrightarrow> parse_octet (show_nat n) = Some n"
  using digits_of_show [of n] show_nat_length [of n 3] show_nat_head [of n]
    int_of_show [of 0]
  by (cases "n = 0") (auto simp: parse_octet_def list_all_iff Let_def)

lemma parse_octet_SomeD: "parse_octet s = Some n \<Longrightarrow> n < 256 \<and> show_nat n = s"
  using show_int_of_digits [of s]
  by (auto simp: parse_octet_def list_all_iff Let_def split: if_splits)

lemma those_octets_show: "\<forall>n \<in> set ns. n < 256 \<Longrightarrow> those_octets (map show_nat ns) = Some ns"
  by (induction ns) (simp_all add: parse_octet_show)

lemma those_octets_SomeD:
  "those_octets ss = Some ns \<Longrightarrow> map show_nat ns = ss \<and> (\<forall>n \<in> set ns. n < 256)"
  by (induction ss arbitrary: ns) (auto dest: parse_octet_SomeD split: option.splits)

lemma from_bytes_nat: "from_bytes bs = of_nat (foldl (\<lambda>n b. 256 * n + b) 0 bs)"
proof -
  have "foldl (\<lambda>n b. 256 * n + of_nat b) (of_nat k) bs = (of_nat (foldl (\<lambda>n b. 256 * n + b) k bs) :: ip4)" for k
  proof (induction bs arbitrary: k)
    case (Cons b bs)
    from Cons.IH [of "256 * k + b"] show ?case by simp
  qed simp
  from this [of 0] show ?thesis by (simp add: from_bytes_def)
qed

lemma to_bytes_nat:
  "to_bytes w = [unat w div 2 ^ 24 mod 256, unat w div 2 ^ 16 mod 256, unat w div 2 ^ 8 mod 256, unat w mod 256]"
  by (simp add: to_bytes_def unat_div unat_mod)

lemma bytes_combine: "256 * (256 * (256 * (x div 2 ^ 24 mod 256) + x div 2 ^ 16 mod 256) + x div 2 ^ 8 mod 256) + x mod 256 = x"
  if "x < 2 ^ 32" for x :: nat
proof -
  have d16: "x div 2 ^ 16 = x div 2 ^ 8 div 256" and d24: "x div 2 ^ 24 = x div 2 ^ 8 div 256 div 256"
    by (simp_all add: div_mult2_eq [symmetric])
  have "x div 2 ^ 8 div 256 div 256 mod 256 = x div 2 ^ 8 div 256 div 256"
    using that by (simp add: div_mult2_eq [symmetric] less_mult_imp_div_less)
  then have "256 * (x div 2 ^ 24 mod 256) + x div 2 ^ 16 mod 256 = x div 2 ^ 16"
    by (simp only: d16 d24 mult_div_mod_eq)
  moreover have "256 * (x div 2 ^ 16) + x div 2 ^ 8 mod 256 = x div 2 ^ 8"
    by (simp only: d16 mult_div_mod_eq)
  moreover have "256 * (x div 2 ^ 8) + x mod 256 = x" by simp
  ultimately show ?thesis by (simp only:)
qed

lemma bytes_split:
  assumes "a < 256" and "b < 256" and "c < 256" and "d < 256"
  defines "x \<equiv> 256 * (256 * (256 * a + b) + c) + d :: nat"
  shows "x div 2 ^ 24 mod 256 = a" "x div 2 ^ 16 mod 256 = b" "x div 2 ^ 8 mod 256 = c" "x mod 256 = d"
proof -
  have d8: "x div 2 ^ 8 = 256 * (256 * a + b) + c" using assms by simp
  have d16: "x div 2 ^ 16 = 256 * a + b"
    using assms(3) div_mult2_eq [of x "2 ^ 8" 256] d8 by simp
  have d24: "x div 2 ^ 24 = a"
    using assms(2) div_mult2_eq [of x "2 ^ 16" 256] d16 by simp
  show "x div 2 ^ 24 mod 256 = a" "x div 2 ^ 16 mod 256 = b" "x div 2 ^ 8 mod 256 = c"
    unfolding d8 d16 d24 using assms(1-4) by (simp_all only: mod_mult_self4 mod_less)
  show "x mod 256 = d"
    unfolding x_def using assms(4) by (simp only: mod_mult_self4 mod_less)
qed

lemma from_to_bytes [simp]: "from_bytes (to_bytes w) = w"
proof -
  have "unat w < 2 ^ 32" using unsigned_less [of w] by simp
  then have "foldl (\<lambda>n b. 256 * n + b) 0 (to_bytes w) = unat w"
    unfolding to_bytes_nat by (simp only: foldl.simps mult_0_right add_0 bytes_combine)
  then show ?thesis by (simp add: from_bytes_nat)
qed

lemma length_to_bytes [simp]: "length (to_bytes w) = 4"
  by (simp add: to_bytes_def)

lemma to_bytes_less: "n \<in> set (to_bytes w) \<Longrightarrow> n < 256"
  by (auto simp: to_bytes_nat)

lemma to_from_bytes:
  assumes "length ns = 4" and "\<forall>n \<in> set ns. n < 256"
  shows "to_bytes (from_bytes ns) = ns"
proof -
  obtain a b c d where ns: "ns = [a, b, c, d]"
    using assms(1) by (auto simp: numeral_eq_Suc length_Suc_conv)
  then have le: "a < 256" "b < 256" "c < 256" "d < 256" using assms(2) by auto
  have fold: "foldl (\<lambda>n b. 256 * n + b) 0 ns = 256 * (256 * (256 * a + b) + c) + d"
    by (simp add: ns)
  have "256 * (256 * (256 * a + b) + c) + d < 2 ^ 32" using le by simp
  then have "unat (from_bytes ns) = 256 * (256 * (256 * a + b) + c) + d"
    unfolding from_bytes_nat fold by (subst unat_of_nat) (simp add: take_bit_eq_mod)
  then show ?thesis using bytes_split [OF le] by (simp only: to_bytes_nat ns)
qed

lemma no_sep_show: "CHR ''.'' \<notin> set (show_nat n)" "CHR ''/'' \<notin> set (show_nat n)"
  using digits_of_show [of n] digit_not_sep by blast+

lemma str_ip4_no_slash: "CHR ''/'' \<notin> set (str_ip4 w)"
  by (simp add: str_ip4_def to_bytes_def no_sep_show)

text \<open>Printing and parsing are inverse to each other: every address has one text form.\<close>

lemma IPv4Address_str: "IPv4Address (str_ip4 w) = Some w"
proof -
  have "split_on (CHR ''.'') (str_ip4 w) = map show_nat (to_bytes w)"
    unfolding str_ip4_def by (rule split_join) (auto simp: to_bytes_def no_sep_show)
  moreover have "str_ip4 w \<noteq> []" by (simp add: str_ip4_def to_bytes_def)
  moreover have "those_octets (map show_nat (to_bytes w)) = Some (to_bytes w)"
    using to_bytes_less by (intro those_octets_show) blast
  ultimately show ?thesis
    by (simp add: IPv4Address_def ip4_from_string_def str_ip4_no_slash Let_def)
qed

lemma str_IPv4Address:
  assumes "IPv4Address s = Some w"
  shows "str_ip4 w = s"
proof -
  from assms obtain ns where ns: "those_octets (split_on (CHR ''.'') s) = Some ns"
      and len: "length (split_on (CHR ''.'') s) = 4" and w: "w = from_bytes ns"
    by (auto simp: IPv4Address_def ip4_from_string_def Let_def split: if_splits)
  note sh = those_octets_SomeD [OF ns]
  then have "length ns = 4" using len by (metis length_map)
  then have "to_bytes w = ns" using sh by (simp add: w to_from_bytes)
  then show ?thesis using sh by (simp add: str_ip4_def join_split)
qed

lemma str_ip4_eq_iff [simp]: "str_ip4 v = str_ip4 w \<longleftrightarrow> v = w"
  by (metis IPv4Address_str option.inject)

section \<open>Networks\<close>

text \<open>A network is its address and its prefix length. The mask is the exclusive or of all ones and
  all ones shifted right by the prefix length, as in \<^verbatim>\<open>_ip_int_from_prefix\<close>.\<close>

definition netmask :: "nat \<Rightarrow> 'a::len word" where
  "netmask p = (- 1) XOR drop_bit p (- 1)"

definition net_contains :: "'a::len word \<times> nat \<Rightarrow> 'a word \<Rightarrow> bool" where
  "net_contains n ip \<longleftrightarrow> ip AND netmask (snd n) = fst n"

text \<open>\<^verbatim>\<open>_prefix_from_ip_int\<close>: the trailing zeros of a dotted mask are its host bits.\<close>

fun trailing_zeros :: "nat \<Rightarrow> int \<Rightarrow> nat" where
  "trailing_zeros 0 n = 0"
| "trailing_zeros (Suc bits) n = (if n mod 2 = 1 then 0 else Suc (trailing_zeros bits (n div 2)))"

definition prefix_from_int :: "ip4 \<Rightarrow> nat option" where
  "prefix_from_int w =
     (let z = (if w = 0 then 32 else trailing_zeros 32 (uint w)); p = 32 - z
      in if uint w div 2 ^ z = 2 ^ p - 1 then Some p else None)"

definition make_netmask :: "string \<Rightarrow> nat option" where
  "make_netmask m =
     (if m \<noteq> [] \<and> list_all is_digit m \<and> int_of_digits m \<le> 32 then Some (int_of_digits m)
      else case ip4_from_string m of
             None \<Rightarrow> None
           | Some w \<Rightarrow> (case prefix_from_int w of Some p \<Rightarrow> Some p | None \<Rightarrow> prefix_from_int (NOT w)))"

definition IPv4Network :: "bool \<Rightarrow> string \<Rightarrow> (ip4 \<times> nat) option" where
  "IPv4Network strict s =
     (let parts = split_on (CHR ''/'') s
      in if length parts > 2 then None
         else case (IPv4Address (hd parts), if length parts = 2 then make_netmask (parts ! 1) else Some 32) of
                (Some a, Some p) \<Rightarrow>
                  (if a AND netmask p = a then Some (a, p)
                   else if strict then None else Some (a AND netmask p, p))
              | _ \<Rightarrow> None)"

definition str_net4 :: "ip4 \<times> nat \<Rightarrow> string" where
  "str_net4 n = str_ip4 (fst n) @ CHR ''/'' # show_nat (snd n)"

text \<open>A well-formed network: the prefix fits the width and the host bits are zero.\<close>

definition wf_net :: "'a::len word \<times> nat \<Rightarrow> bool" where
  "wf_net n \<longleftrightarrow> snd n \<le> LENGTH('a) \<and> fst n AND netmask (snd n) = fst n"

lemma bit_netmask: "bit (netmask p :: 'a::len word) k \<longleftrightarrow> k < LENGTH('a) \<and> LENGTH('a) - p \<le> k"
  by (auto simp: netmask_def bit_simps)

lemma make_netmask_show: "p \<le> 32 \<Longrightarrow> make_netmask (show_nat p) = Some p"
  using digits_of_show [of p] by (simp add: make_netmask_def list_all_iff)

text \<open>Printing a network and parsing it gives it back; the text of any parsed network is canonical
  after one round.\<close>

lemma IPv4Network_str: "wf_net n \<Longrightarrow> IPv4Network strict (str_net4 n) = Some n"
  using make_netmask_show [of "snd n"]
  by (cases n) (simp add: IPv4Network_def str_net4_def split_on_append split_on_single no_sep_show
      str_ip4_no_slash IPv4Address_str wf_net_def Let_def)

lemma prefix_from_int_le: "prefix_from_int w = Some p \<Longrightarrow> p \<le> 32"
  by (auto simp: prefix_from_int_def Let_def split: if_splits)

lemma make_netmask_le: "make_netmask m = Some p \<Longrightarrow> p \<le> 32"
  by (auto simp: make_netmask_def split: if_splits option.splits dest: prefix_from_int_le)

lemma IPv4Network_wf: "IPv4Network strict s = Some n \<Longrightarrow> wf_net n"
  by (auto simp: IPv4Network_def wf_net_def Let_def and.assoc split: if_splits option.splits
      dest: make_netmask_le)

text \<open>Membership compares the leading bits, and the members are an interval.\<close>

lemma drop_and_netmask:
  fixes a :: "'a::len word"
  assumes "p \<le> LENGTH('a)"
  shows "a AND netmask p = push_bit (LENGTH('a) - p) (drop_bit (LENGTH('a) - p) a)"
  by (rule bit_eqI) (auto simp: bit_simps bit_netmask)

lemma net_contains_iff:
  fixes ip :: "'a::len word"
  assumes "wf_net n"
  shows "net_contains n ip \<longleftrightarrow> drop_bit (LENGTH('a) - snd n) ip = drop_bit (LENGTH('a) - snd n) (fst n)"
proof -
  let ?k = "LENGTH('a) - snd n"
  have le: "snd n \<le> LENGTH('a)" using assms by (simp add: wf_net_def)
  have n: "push_bit ?k (drop_bit ?k (fst n)) = fst n"
    using assms drop_and_netmask [OF le, of "fst n"] by (simp add: wf_net_def)
  have "drop_bit ?k (push_bit ?k (drop_bit ?k ip)) = drop_bit ?k ip"
    by (rule bit_eqI) (auto simp: bit_simps dest: bit_imp_le_length)
  then show ?thesis
    using le n by (metis drop_and_netmask net_contains_def)
qed

section \<open>Hosts\<close>

definition net_size :: "'a::len word \<times> nat \<Rightarrow> nat" where
  "net_size n = 2 ^ (LENGTH('a) - snd n)"

definition host_at :: "'a::len word \<times> nat \<Rightarrow> nat \<Rightarrow> 'a word" where
  "host_at n i = fst n + of_nat i"

text \<open>\<^verbatim>\<open>IPv4Network.hosts\<close> leaves out the network and the broadcast address, \<^verbatim>\<open>IPv6Network.hosts\<close> only the
  first address; a network of one or two addresses yields them all.\<close>

definition hosts4 :: "ip4 \<times> nat \<Rightarrow> ip4 list" where
  "hosts4 n = map (host_at n) (if snd n \<ge> 31 then [0..<net_size n] else [1..<net_size n - 1])"

definition hosts6 :: "ip6 \<times> nat \<Rightarrow> ip6 list" where
  "hosts6 n = map (host_at n) (if snd n \<ge> 127 then [0..<net_size n] else [1..<net_size n])"

lemma net_contains_host:
  fixes n :: "'a::len word \<times> nat"
  assumes "wf_net n" and "i < net_size n"
  shows "net_contains n (host_at n i)"
proof -
  let ?k = "LENGTH('a) - snd n"
  have le: "snd n \<le> LENGTH('a)" and m: "fst n AND netmask (snd n) = fst n"
    using assms(1) by (simp_all add: wf_net_def)
  have net: "push_bit ?k (drop_bit ?k (fst n)) = fst n"
    using m drop_and_netmask [OF le, of "fst n"] by simp
  have i: "take_bit ?k (of_nat i :: 'a word) = of_nat i"
    using assms(2) by (simp add: net_size_def of_nat_take_bit [symmetric] take_bit_nat_eq_self)
  have "fst n AND (of_nat i :: 'a word) = 0"
    by (rule bit_eqI, subst net [symmetric], subst i [symmetric]) (auto simp: bit_simps)
  then have "host_at n i = fst n OR of_nat i"
    by (simp add: host_at_def disjunctive_add_eq_or)
  moreover have "(fst n OR of_nat i) AND netmask (snd n) = fst n"
    by (rule bit_eqI, subst m [symmetric], subst i [symmetric]) (auto simp: bit_simps bit_netmask)
  ultimately show ?thesis by (simp add: net_contains_def)
qed

lemma net_size_le: "net_size (n :: 'a::len word \<times> nat) \<le> 2 ^ LENGTH('a)"
  by (simp add: net_size_def)

lemma host_at_eq_iff:
  fixes n :: "'a::len word \<times> nat"
  assumes "i < net_size n" and "j < net_size n"
  shows "host_at n i = host_at n j \<longleftrightarrow> i = j"
proof -
  have "i < 2 ^ LENGTH('a)" and "j < 2 ^ LENGTH('a)"
    using assms net_size_le [of n] by simp_all
  then show ?thesis
    by (simp add: host_at_def word_of_nat_eq_iff take_bit_nat_eq_self)
qed

lemma net_contains_is_host:
  fixes n :: "'a::len word \<times> nat"
  assumes "wf_net n" and "net_contains n ip"
  shows "\<exists>i < net_size n. ip = host_at n i"
proof (intro exI conjI)
  let ?k = "LENGTH('a) - snd n"
  have le: "snd n \<le> LENGTH('a)" using assms(1) by (simp add: wf_net_def)
  have net: "fst n = push_bit ?k (drop_bit ?k ip)"
    using assms(2) drop_and_netmask [OF le, of ip] by (simp add: net_contains_def)
  show "unat (take_bit ?k ip) < net_size n"
    by (simp add: net_size_def unsigned_take_bit_eq)
  show "ip = host_at n (unat (take_bit ?k ip))"
    by (simp add: host_at_def net bits_ident)
qed

lemma set_hosts4:
  assumes "wf_net n"
  shows "set (hosts4 n) =
    {ip. net_contains n ip \<and> (snd n < 31 \<longrightarrow> ip \<noteq> host_at n 0 \<and> ip \<noteq> host_at n (net_size n - 1))}"
proof -
  have mem: "net_contains n ip \<longleftrightarrow> (\<exists>i < net_size n. ip = host_at n i)" for ip
    using net_contains_host [OF assms] net_contains_is_host [OF assms] by blast
  show ?thesis
  proof (cases "snd n < 31")
    case True
    then have "2 ^ 1 \<le> net_size n" unfolding net_size_def by (intro power_increasing) auto
    then have "{1..<net_size n - 1} = {i. i < net_size n \<and> host_at n i \<noteq> host_at n 0 \<and> host_at n i \<noteq> host_at n (net_size n - 1)}"
      by (auto simp: host_at_eq_iff)
    with True show ?thesis by (auto simp: hosts4_def mem)
  next
    case False
    then show ?thesis by (auto simp: hosts4_def mem)
  qed
qed

lemma distinct_hosts4: "distinct (hosts4 n)"
  by (auto simp: hosts4_def distinct_map inj_on_def host_at_eq_iff)

lemma length_hosts4: "length (hosts4 n) = (if snd n \<ge> 31 then net_size n else net_size n - 2)"
  by (simp add: hosts4_def numeral_2_eq_2)

section \<open>Both versions\<close>

datatype ip_addr = V4 ip4 | V6 ip6
datatype ip_net = Net4 "ip4 \<times> nat" | Net6 "ip6 \<times> nat"

record v6_text =
  v6_address :: "string \<Rightarrow> ip6 option"
  v6_network :: "bool \<Rightarrow> string \<Rightarrow> (ip6 \<times> nat) option"
  v6_str :: "ip6 \<Rightarrow> string"

definition ip_address :: "v6_text \<Rightarrow> string \<Rightarrow> ip_addr option" where
  "ip_address v6 s =
     (case IPv4Address s of Some w \<Rightarrow> Some (V4 w) | None \<Rightarrow> map_option V6 (v6_address v6 s))"

definition ip_network :: "v6_text \<Rightarrow> bool \<Rightarrow> string \<Rightarrow> ip_net option" where
  "ip_network v6 strict s =
     (case IPv4Network strict s of Some n \<Rightarrow> Some (Net4 n) | None \<Rightarrow> map_option Net6 (v6_network v6 strict s))"

fun net_in :: "ip_addr \<Rightarrow> ip_net \<Rightarrow> bool" where
  "net_in (V4 a) (Net4 n) = net_contains n a"
| "net_in (V6 a) (Net6 n) = net_contains n a"
| "net_in _ _ = False"

fun prefixlen :: "ip_net \<Rightarrow> nat" where
  "prefixlen (Net4 n) = snd n"
| "prefixlen (Net6 n) = snd n"

fun hosts :: "ip_net \<Rightarrow> ip_addr list" where
  "hosts (Net4 n) = map V4 (hosts4 n)"
| "hosts (Net6 n) = map V6 (hosts6 n)"

fun str_addr :: "v6_text \<Rightarrow> ip_addr \<Rightarrow> string" where
  "str_addr v6 (V4 a) = str_ip4 a"
| "str_addr v6 (V6 a) = v6_str v6 a"

fun str_net :: "v6_text \<Rightarrow> ip_net \<Rightarrow> string" where
  "str_net v6 (Net4 n) = str_net4 n"
| "str_net v6 (Net6 n) = v6_str v6 (fst n) @ CHR ''/'' # show_nat (snd n)"

text \<open>A text library without IPv6, for concrete evaluations.\<close>

definition no_v6 :: v6_text where
  "no_v6 = \<lparr>v6_address = \<lambda>_. None, v6_network = \<lambda>_ _. None, v6_str = \<lambda>_. []\<rparr>"

end
