(* ===== verification/Ipam.thy ===== *)
theory Ipam
  imports Links Ip_Address
begin

text \<open>
  Address management: the pools and prefixes (\<^verbatim>\<open>models_pkg/ipam.py\<close>), their seeding
  (\<^verbatim>\<open>seed_helpers/ipam.py\<close>), the endpoints for VRFs, prefixes and pools (\<^verbatim>\<open>api/endpoints/vrf_prefix.py\<close>,
  \<^verbatim>\<open>api/endpoints/ipam.py\<close>), the address endpoints of \<^verbatim>\<open>api/endpoints/interfaces.py\<close> and the first-fit
  search of \<^verbatim>\<open>services/provisioning_ipam.py\<close>. A request body has the JSON types the code expects; a new
  row gets the identifier SQLite assigns, one more than the largest. \<^verbatim>\<open>strip()\<close> removes ASCII blanks.
\<close>

section \<open>Rows\<close>

datatype exn = Http http_exception | ValueError

definition next_row_id :: "int list \<Rightarrow> int" where
  "next_row_id ks = (if ks = [] then 1 else Max (set ks) + 1)"

definition get_vrf :: "db \<Rightarrow> int \<Rightarrow> vrf option" where
  "get_vrf s k = find (\<lambda>r. vrf_id r = k) (vrfs s)"

definition get_prefix :: "db \<Rightarrow> int \<Rightarrow> ip_prefix option" where
  "get_prefix s k = find (\<lambda>r. px_id r = k) (prefixes s)"

definition get_address :: "db \<Rightarrow> int \<Rightarrow> interface_address option" where
  "get_address s k = find (\<lambda>r. ia_id r = k) (addresses s)"

interpretation vrf: table vrfs vrf_id get_vrf
  by unfold_locales (simp add: get_vrf_def)

interpretation pfx: table prefixes px_id get_prefix
  by unfold_locales (simp add: get_prefix_def)

interpretation adr: table addresses ia_id get_address
  by unfold_locales (simp add: get_address_def)

lemma next_row_id_fresh: "next_row_id ks \<notin> set ks"
proof
  assume k: "next_row_id ks \<in> set ks"
  then have "ks \<noteq> []" by auto
  moreover have "next_row_id ks \<le> Max (set ks)" using k by (rule Max_ge [rotated]) simp
  ultimately show False by (simp add: next_row_id_def)
qed

section \<open>Pools\<close>

record ip_pool =
  pool_key :: string
  pool_cidr :: string
  pool_next_index :: int

datatype pool_error = InvalidCidr | PoolExhausted | IndexError

text \<open>A negative index of a list counts from its end.\<close>

definition py_index :: "'a list \<Rightarrow> int \<Rightarrow> 'a option" where
  "py_index xs i =
     (if 0 \<le> i then if nat i < length xs then Some (xs ! nat i) else None
      else if - i \<le> int (length xs) then Some (xs ! nat (int (length xs) + i)) else None)"

definition allocate :: "v6_text \<Rightarrow> ip_pool \<Rightarrow> pool_error + (string \<times> ip_pool)" where
  "allocate v6 p =
     (case ip_network v6 True (pool_cidr p) of
        None \<Rightarrow> Inl InvalidCidr
      | Some net \<Rightarrow>
          (let hs = hosts net; idx = pool_next_index p - 1
           in if idx \<ge> int (length hs) then Inl PoolExhausted
              else case py_index hs idx of
                     None \<Rightarrow> Inl IndexError
                   | Some h \<Rightarrow> Inr (str_addr v6 h, p\<lparr>pool_next_index := pool_next_index p + 1\<rparr>)))"

section \<open>First fit\<close>

definition classify_prefix_role :: "DeviceType \<Rightarrow> string option" where
  "classify_prefix_role t =
     (if t \<in> {CORE_ROUTER, EDGE_ROUTER} then Some ''core_mgmt''
      else if t = OLT then Some ''olt_mgmt''
      else if t = AON_SWITCH then Some ''aon_mgmt''
      else if t \<in> {ONT, BUSINESS_ONT} then Some ''ont_mgmt''
      else if t = AON_CPE then Some ''cpe_mgmt''
      else None)"

definition taken_in_prefix :: "db \<Rightarrow> int \<Rightarrow> string \<Rightarrow> bool" where
  "taken_in_prefix s k ip \<longleftrightarrow> list_ex (\<lambda>a. ia_prefix_id a = Some k \<and> ia_ip a = ip) (addresses s)"

definition next_free_ip_in_prefix :: "v6_text \<Rightarrow> db \<Rightarrow> ip_prefix \<Rightarrow> exn + (string \<times> nat) option" where
  "next_free_ip_in_prefix v6 s p =
     (case ip_network v6 True (px_prefix p) of
        None \<Rightarrow> Inl ValueError
      | Some net \<Rightarrow>
          Inr (map_option (\<lambda>h. (str_addr v6 h, prefixlen net))
                 (find (\<lambda>h. \<not> taken_in_prefix s (px_id p) (str_addr v6 h)) (hosts net))))"

section \<open>Seeding\<close>

definition desired_prefixes :: "(string \<times> string) list" where
  "desired_prefixes =
     [(''core_mgmt'', ''10.252.0.0/24''), (''olt_mgmt'', ''10.251.0.0/24''), (''ont_mgmt'', ''10.250.0.0/16''),
      (''aon_mgmt'', ''10.253.0.0/24''), (''cpe_mgmt'', ''10.254.0.0/24''), (''noc_tools'', ''10.250.10.0/24'')]"

definition find_vrf :: "db \<Rightarrow> string \<Rightarrow> vrf option" where
  "find_vrf s n = find (\<lambda>r. vrf_name r = n) (vrfs s)"

definition add_vrf :: "db \<Rightarrow> string \<Rightarrow> db" where
  "add_vrf s n = s\<lparr>vrfs := vrfs s @ [\<lparr>vrf_id = next_row_id (map vrf_id (vrfs s)), vrf_name = n\<rparr>]\<rparr>"

definition add_prefix :: "db \<Rightarrow> string \<Rightarrow> int \<Rightarrow> string option \<Rightarrow> db" where
  "add_prefix s cidr v d =
     s\<lparr>prefixes := prefixes s @ [\<lparr>px_id = next_row_id (map px_id (prefixes s)), px_prefix = cidr,
        px_vrf_id = v, px_description = d\<rparr>]\<rparr>"

definition ensure_vrf :: "db \<Rightarrow> string \<Rightarrow> db" where
  "ensure_vrf s n = (if find_vrf s n = None then add_vrf s n else s)"

definition ensure_prefix :: "int \<Rightarrow> db \<Rightarrow> string \<times> string \<Rightarrow> db" where
  "ensure_prefix m s dc =
     (case dc of (desc, cidr) \<Rightarrow>
        let by_desc = filter (\<lambda>p. px_vrf_id p = m \<and> px_description p = Some desc) (prefixes s)
        in if by_desc \<noteq> []
           then (let keep = hd (sort_key px_id by_desc)
                 in s\<lparr>prefixes := filter (\<lambda>p. px_vrf_id p = m \<and> px_description p = Some desc \<longrightarrow>
                        px_id p = px_id keep) (prefixes s)\<rparr>)
           else case find (\<lambda>p. px_vrf_id p = m \<and> px_prefix p = cidr) (prefixes s) of
                  Some e \<Rightarrow>
                    (if px_description e \<in> {None, Some []}
                     then s\<lparr>prefixes := map (\<lambda>p. if px_id p = px_id e then p\<lparr>px_description := Some desc\<rparr> else p)
                            (prefixes s)\<rparr>
                     else s)
                | None \<Rightarrow> add_prefix s cidr m (Some desc))"

definition mgmt_vrf_id :: "db \<Rightarrow> int" where
  "mgmt_vrf_id s = (case find_vrf s ''mgmt'' of Some v \<Rightarrow> vrf_id v | None \<Rightarrow> 0)"

definition ensure_ipam_defaults :: "db \<Rightarrow> db" where
  "ensure_ipam_defaults s =
     (let s1 = ensure_vrf s ''mgmt''; s2 = ensure_vrf s1 ''internet''
      in foldl (ensure_prefix (mgmt_vrf_id s1)) s2 desired_prefixes)"

section \<open>VRF and prefix endpoints\<close>

definition is_blank :: "char \<Rightarrow> bool" where
  "is_blank c \<longleftrightarrow> of_char c \<in> {9, 10, 11, 12, 13, 28, 29, 30, 31, 32 :: nat}"

definition strip :: "string \<Rightarrow> string" where
  "strip s = rev (dropWhile is_blank (rev (dropWhile is_blank s)))"

definition create_vrf :: "db \<Rightarrow> string option \<Rightarrow> db \<times> (http_exception + vrf)" where
  "create_vrf s name =
     (let n = strip (case name of None \<Rightarrow> [] | Some x \<Rightarrow> x)
      in if n = [] then (s, Inl (http 422 ''name is required''))
         else if find_vrf s n \<noteq> None then (s, Inl (http 409 ''VRF already exists''))
         else (let t = add_vrf s n in (t, Inr (last (vrfs t)))))"

definition delete_vrf :: "db \<Rightarrow> int \<Rightarrow> db \<times> http_exception option" where
  "delete_vrf s k =
     (case get_vrf s k of
        None \<Rightarrow> (s, Some (http 404 ''Not found''))
      | Some v \<Rightarrow> (s\<lparr>vrfs := filter (\<lambda>r. vrf_id r \<noteq> k) (vrfs s)\<rparr>, None))"

definition list_prefixes :: "db \<Rightarrow> int option \<Rightarrow> ip_prefix list" where
  "list_prefixes s v = filter (\<lambda>p. case v of None \<Rightarrow> True | Some k \<Rightarrow> px_vrf_id p = k) (prefixes s)"

record prefix_request =
  pq_prefix :: "string option"
  pq_vrf_id :: "int option"
  pq_description :: "string option"

definition create_prefix :: "v6_text \<Rightarrow> db \<Rightarrow> prefix_request \<Rightarrow> db \<times> (http_exception + ip_prefix)" where
  "create_prefix v6 s r =
     (case (pq_prefix r, pq_vrf_id r) of
        (Some p, Some v) \<Rightarrow>
          if p = [] then (s, Inl (http 422 ''prefix and vrf_id are required''))
          else (case ip_network v6 True p of
                  Some (Net4 n) \<Rightarrow>
                    (if get_vrf s v = None then (s, Inl (http 404 ''VRF not found''))
                     else if find (\<lambda>q. px_vrf_id q = v \<and> px_prefix q = str_net4 n) (prefixes s) \<noteq> None
                     then (s, Inl (http 409 ''Prefix already exists in VRF''))
                     else (let t = add_prefix s (str_net4 n) v (pq_description r) in (t, Inr (last (prefixes t)))))
                | _ \<Rightarrow> (s, Inl (http 422 ''invalid prefix'')))
      | _ \<Rightarrow> (s, Inl (http 422 ''prefix and vrf_id are required'')))"

definition delete_prefix :: "db \<Rightarrow> int \<Rightarrow> db \<times> http_exception option" where
  "delete_prefix s k =
     (case get_prefix s k of
        None \<Rightarrow> (s, Some (http 404 ''Not found''))
      | Some p \<Rightarrow> (s\<lparr>prefixes := filter (\<lambda>r. px_id r \<noteq> k) (prefixes s)\<rparr>, None))"

section \<open>Pool statistics\<close>

record pool_stats =
  ps_pool_key :: string
  ps_cidr :: string
  ps_next_index :: int
  ps_allocated_count :: int
  ps_capacity :: int
  ps_utilization :: pyfloat

definition prefix_pool_stats :: "v6_text \<Rightarrow> ip_prefix \<Rightarrow> int \<Rightarrow> http_exception + pool_stats" where
  "prefix_pool_stats v6 p allocated =
     (case ip_network v6 True (px_prefix p) of
        None \<Rightarrow> Inl (http 500 (''Invalid prefix '' @ px_prefix p))
      | Some net \<Rightarrow>
          (let cap = int (length (hosts net)); alloc = min allocated cap
           in Inr \<lparr>ps_pool_key = (case px_description p of Some d \<Rightarrow> if d = [] then px_prefix p else d
                                  | None \<Rightarrow> px_prefix p),
                ps_cidr = px_prefix p, ps_next_index = 1, ps_allocated_count = alloc, ps_capacity = cap,
                ps_utilization = (if cap = 0 then 0 else round_dec 4 (of_int alloc / of_int cap))\<rparr>))"

definition POOL_ROLES :: "string list" where
  "POOL_ROLES = [''core_mgmt'', ''olt_mgmt'', ''aon_mgmt'', ''ont_mgmt'', ''cpe_mgmt'', ''noc_tools'']"

definition allocated_in :: "db \<Rightarrow> int \<Rightarrow> int" where
  "allocated_in s k = int (length (filter (\<lambda>a. ia_prefix_id a = Some k) (addresses s)))"

fun collect_stats :: "v6_text \<Rightarrow> db \<Rightarrow> ip_prefix list \<Rightarrow> http_exception + pool_stats list" where
  "collect_stats v6 s [] = Inr []"
| "collect_stats v6 s (p # ps) =
     (case prefix_pool_stats v6 p (allocated_in s (px_id p)) of
        Inl e \<Rightarrow> Inl e
      | Inr x \<Rightarrow> (case collect_stats v6 s ps of Inl e \<Rightarrow> Inl e | Inr xs \<Rightarrow> Inr (x # xs)))"

definition list_pools :: "v6_text \<Rightarrow> bool \<Rightarrow> db \<Rightarrow> http_exception + pool_stats list" where
  "list_pools v6 dev_features s =
     (let s = (if dev_features then ensure_ipam_defaults s else s)
      in case find_vrf s ''mgmt'' of
           None \<Rightarrow> Inr []
         | Some m \<Rightarrow>
             (case collect_stats v6 s (filter (\<lambda>p. px_vrf_id p = vrf_id m \<and>
                     (\<exists>d \<in> set POOL_ROLES. px_description p = Some d)) (prefixes s)) of
                Inl e \<Rightarrow> Inl e
              | Inr xs \<Rightarrow> Inr (sort_key ps_pool_key xs)))"

section \<open>Address endpoints\<close>

record addr_request =
  ar_ip :: "string option"
  ar_prefix_len :: "int option"
  ar_prefix_id :: "int option"

definition request_ip :: "v6_text \<Rightarrow> addr_request \<Rightarrow> http_exception + ip_addr option" where
  "request_ip v6 r =
     (if truthy (ar_ip r)
      then (case ip_address v6 (the (ar_ip r)) of
              Some (V4 a) \<Rightarrow> Inr (Some (V4 a))
            | _ \<Rightarrow> Inl (http 422 ''invalid ip''))
      else Inr None)"

definition first_unused :: "v6_text \<Rightarrow> db \<Rightarrow> ip_prefix \<Rightarrow> ip_net \<Rightarrow> string option" where
  "first_unused v6 s p net =
     (let used = map ia_ip (filter (\<lambda>a. ia_prefix_id a = Some (px_id p)) (addresses s))
      in map_option (str_addr v6) (find (\<lambda>h. str_addr v6 h \<notin> set used) (hosts net)))"

definition bind_prefix :: "v6_text \<Rightarrow> db \<Rightarrow> int \<Rightarrow> ip_addr option \<Rightarrow> exn + (ip_addr \<times> int)" where
  "bind_prefix v6 s k ip =
     (case get_prefix s k of
        None \<Rightarrow> Inl (Http (http 404 ''Prefix not found''))
      | Some p \<Rightarrow>
          (case ip_network v6 True (px_prefix p) of
             None \<Rightarrow> Inl ValueError
           | Some net \<Rightarrow>
               (case ip of
                  None \<Rightarrow>
                    (case first_unused v6 s p net of
                       None \<Rightarrow> Inl (Http (http 409 ''Prefix exhausted''))
                     | Some t \<Rightarrow>
                         (case ip_address v6 t of
                            None \<Rightarrow> Inl ValueError
                          | Some a \<Rightarrow> Inr (a, int (prefixlen net))))
                | Some a \<Rightarrow>
                    (if \<not> net_in a net then Inl (Http (http 422 ''ip not contained in prefix''))
                     else if taken_in_prefix s (px_id p) (str_addr v6 a)
                     then Inl (Http (http 409 ''duplicate ip in prefix''))
                     else Inr (a, int (prefixlen net))))))"

definition resolve_request :: "v6_text \<Rightarrow> db \<Rightarrow> ident \<Rightarrow> addr_request \<Rightarrow> exn + (ip_addr \<times> int)" where
  "resolve_request v6 s i r =
     (if \<not> truthy (ar_ip r) \<and> ar_prefix_len r = None \<and> ar_prefix_id r = None
      then Inl (Http (http 422 ''provide either ip/prefix_len or prefix_id''))
      else case request_ip v6 r of
             Inl e \<Rightarrow> Inl (Http e)
           | Inr ip \<Rightarrow>
               if (case ar_prefix_len r of None \<Rightarrow> False | Some pl \<Rightarrow> \<not> (1 \<le> pl \<and> pl \<le> 32))
               then Inl (Http (http 422 ''invalid prefix_len''))
               else if get_interface s i = None then Inl (Http (http 404 ''Interface not found''))
               else case ar_prefix_id r of
                      Some k \<Rightarrow> bind_prefix v6 s k ip
                    | None \<Rightarrow>
                        (case (ip, ar_prefix_len r) of
                           (Some a, Some pl) \<Rightarrow> Inr (a, pl)
                         | _ \<Rightarrow> Inl (Http (http 422 ''ip/prefix_len resolution failed''))))"

text \<open>The two unique constraints of the table; a null column never conflicts.\<close>

definition address_conflict :: "db \<Rightarrow> string \<Rightarrow> int option \<Rightarrow> int option \<Rightarrow> bool" where
  "address_conflict s ip v p \<longleftrightarrow>
     list_ex (\<lambda>a. ia_ip a = ip \<and> (p \<noteq> None \<and> ia_prefix_id a = p \<or> v \<noteq> None \<and> ia_vrf_id a = v)) (addresses s)"

definition touch :: "cenv \<Rightarrow> string \<Rightarrow> string \<Rightarrow> world \<Rightarrow> world option" where
  "touch env scope key w =
     (let (tv, w1) = Links.bump_version w
      in map_option (\<lambda>c. w1\<lparr>w_coal := c\<rparr>) (schedule (ce_timer_ok env) scope (Some key) (w_coal w1)))"

definition create_interface_address ::
    "v6_text \<Rightarrow> cenv \<Rightarrow> world \<Rightarrow> ident \<Rightarrow> addr_request \<Rightarrow> (world \<times> (exn + interface_address)) option" where
  "create_interface_address v6 env w i r =
     (case resolve_request v6 (w_db w) i r of
        Inl e \<Rightarrow> Some (w, Inl e)
      | Inr (a, pl) \<Rightarrow>
          (let s = w_db w;
               row = \<lparr>ia_id = next_row_id (map ia_id (addresses s)), ia_interface_id = i, ia_ip = str_addr v6 a,
                      ia_prefix_len = pl, ia_vrf_id = None, ia_prefix_id = ar_prefix_id r\<rparr>
           in if address_conflict s (ia_ip row) (ia_vrf_id row) (ia_prefix_id row)
              then Some (w, Inl (Http (http 409 ''DUPLICATE_IP'')))
              else case append_domain_event (bus_store (w_bus w)) ''PROVISIONING_UPDATED'' i
                          [(''address_id'', JInt (ia_id row)), (''ip'', JStr (ia_ip row)),
                           (''prefix_len'', JInt (ia_prefix_len row))] None (ce_now env) of
                     Inl m \<Rightarrow> Some (w, Inl (Http (http 500 m)))
                   | Inr st \<Rightarrow>
                       map_option (\<lambda>w'. (w', Inr row))
                         (touch env ''addresses'' i
                           (w\<lparr>w_db := s\<lparr>addresses := addresses s @ [row]\<rparr>, w_bus := (w_bus w)\<lparr>bus_store := st\<rparr>\<rparr>))))"

definition delete_interface_address ::
    "cenv \<Rightarrow> world \<Rightarrow> ident \<Rightarrow> int \<Rightarrow> (world \<times> http_exception option) option" where
  "delete_interface_address env w i k =
     (let s = w_db w
      in if get_interface s i = None then Some (w, Some (http 404 ''Interface not found''))
         else case get_address s k of
                None \<Rightarrow> Some (w, Some (http 404 ''Address not found''))
              | Some a \<Rightarrow>
                  if ia_interface_id a \<noteq> i then Some (w, Some (http 404 ''Address not found''))
                  else case append_domain_event (bus_store (w_bus w)) ''PROVISIONING_UPDATED'' i
                              [(''address_id'', JInt k), (''action'', JStr ''address_deleted'')] None (ce_now env) of
                         Inl m \<Rightarrow> Some (w, Some (http 500 m))
                       | Inr st \<Rightarrow>
                           map_option (\<lambda>w'. (w', None))
                             (touch env ''addresses'' i
                               (w\<lparr>w_db := s\<lparr>addresses := filter (\<lambda>r. ia_id r \<noteq> k) (addresses s)\<rparr>,
                                  w_bus := (w_bus w)\<lparr>bus_store := st\<rparr>\<rparr>)))"

definition InterfaceRole_of :: "string \<Rightarrow> InterfaceRole option" where
  "InterfaceRole_of v = map_of [(''management'', ROLE_MANAGEMENT), (''p2p_uplink'', ROLE_P2P_UPLINK),
     (''access'', ROLE_ACCESS)] v"

definition PortRole_of :: "string \<Rightarrow> PortRole option" where
  "PortRole_of v = map_of [(''ACCESS'', PORT_ACCESS), (''UPLINK'', PORT_UPLINK), (''PON'', PORT_PON),
     (''TRUNK'', PORT_TRUNK)] v"

text \<open>A new interface; the address the allocator hands out is \<open>ce_mac_a\<close>.\<close>

definition create_interface ::
    "cenv \<Rightarrow> world \<Rightarrow> ident \<Rightarrow> string option \<Rightarrow> string option \<Rightarrow> string option
       \<Rightarrow> world \<times> (http_exception + iface)" where
  "create_interface env w d name role port_role =
     (let s = w_db w; n = the name; iid = d @ ''-'' @ n
      in if \<not> truthy name then (w, Inl (http 422 ''name is required''))
         else if get_device s d = None then (w, Inl (http 404 ''Device not found''))
         else if get_interface s iid \<noteq> None then (w, Inl (http 409 ''Interface already exists''))
         else if port_role \<noteq> None \<and> PortRole_of (the port_role) = None
         then (w, Inl (http 422 ''invalid port_role''))
         else if truthy role \<and> InterfaceRole_of (the role) = None then (w, Inl (http 422 ''invalid role''))
         else (let row = (Interface iid d n)\<lparr>if_mac_address := Some (ce_mac_a env),
                     if_role := (if truthy role then InterfaceRole_of (the role) else None),
                     if_port_role := Option.bind port_role PortRole_of\<rparr>
               in case append_domain_event (bus_store (w_bus w)) ''PORT_CONNECTED'' iid
                         [(''device_id'', JStr d), (''name'', JStr n),
                          (''port_role'', jopt (\<lambda>v. JStr (''PortRole.'' @ v)) port_role)] None (ce_now env) of
                    Inl m \<Rightarrow> (w, Inl (http 500 m))
                  | Inr st \<Rightarrow>
                      if list_ex (\<lambda>r. if_device_id r = d \<and> if_name r = n \<or> if_mac_address r = if_mac_address row)
                           (interfaces s)
                      then (w, Inl (http 409 ''INTERFACE_CONFLICT''))
                      else (w\<lparr>w_db := s\<lparr>interfaces := interfaces s @ [row]\<rparr>,
                              w_bus := (w_bus w)\<lparr>bus_store := st\<rparr>\<rparr>, Inr row)))"

section \<open>The invariant\<close>

definition net_text :: "string \<Rightarrow> bool" where
  "net_text t \<longleftrightarrow> (\<exists>n. wf_net n \<and> t = str_net4 n)"

definition ipam_inv :: "db \<Rightarrow> bool" where
  "ipam_inv s \<longleftrightarrow>
     distinct (map vrf_id (vrfs s)) \<and> distinct (map vrf_name (vrfs s)) \<and>
     distinct (map px_id (prefixes s)) \<and> distinct (map (\<lambda>p. (px_vrf_id p, px_prefix p)) (prefixes s)) \<and>
     (\<forall>p \<in> set (prefixes s). net_text (px_prefix p)) \<and>
     distinct (map ia_id (addresses s)) \<and>
     (\<forall>a \<in> set (addresses s). \<exists>w. ia_ip a = str_ip4 w) \<and>
     distinct (map (\<lambda>a. (ia_prefix_id a, ia_ip a)) (filter (\<lambda>a. ia_prefix_id a \<noteq> None) (addresses s)))"

lemma ip_network_str: "wf_net n \<Longrightarrow> ip_network v6 b (str_net4 n) = Some (Net4 n)"
  by (simp add: ip_network_def IPv4Network_str)

lemma ip_address_str: "ip_address v6 (str_ip4 a) = Some (V4 a)"
  by (simp add: ip_address_def IPv4Address_str)

lemma ip_network_Net4: "ip_network v6 b t = Some (Net4 n) \<Longrightarrow> wf_net n"
  by (auto simp: ip_network_def split: option.splits dest: IPv4Network_wf)

lemma net_text_network: "net_text t \<Longrightarrow> \<exists>n. ip_network v6 b t = Some (Net4 n) \<and> wf_net n \<and> t = str_net4 n"
  by (auto simp: net_text_def ip_network_str)

lemma net_text_str: "wf_net n \<Longrightarrow> net_text (str_net4 n)"
  unfolding net_text_def by blast

lemma net_textI: "IPv4Network True t = Some n \<Longrightarrow> str_net4 n = t \<Longrightarrow> net_text t"
  unfolding net_text_def using IPv4Network_wf by metis

lemma desired_texts: "\<forall>dc \<in> set desired_prefixes. net_text (snd dc)"
proof -
  have lit: "str_net4 (0xAFC0000, 24) = ''10.252.0.0/24''" "str_net4 (0xAFB0000, 24) = ''10.251.0.0/24''"
    "str_net4 (0xAFA0000, 16) = ''10.250.0.0/16''" "str_net4 (0xAFD0000, 24) = ''10.253.0.0/24''"
    "str_net4 (0xAFE0000, 24) = ''10.254.0.0/24''" "str_net4 (0xAFA0A00, 24) = ''10.250.10.0/24''"
    by (simp_all add: str_net4_def str_ip4_def to_bytes_def show_nat.simps char_of_def bit_Suc_0_iff)
  have "wf_net (0xAFC0000 :: ip4, 24)" "wf_net (0xAFB0000 :: ip4, 24)" "wf_net (0xAFA0000 :: ip4, 16)"
    "wf_net (0xAFD0000 :: ip4, 24)" "wf_net (0xAFE0000 :: ip4, 24)" "wf_net (0xAFA0A00 :: ip4, 24)"
    by (simp_all add: wf_net_def drop_and_netmask push_bit_eq_mult drop_bit_eq_div)
  then show ?thesis
    using net_text_str by (simp add: desired_prefixes_def flip: lit)
qed

lemma distinct_filter_map: "distinct (map f xs) \<Longrightarrow> distinct (map f (filter P xs))"
  by (induction xs) auto

lemma add_vrf_inv: "ipam_inv s \<Longrightarrow> find_vrf s n = None \<Longrightarrow> ipam_inv (add_vrf s n)"
  using next_row_id_fresh [of "map vrf_id (vrfs s)"]
  by (auto simp: ipam_inv_def add_vrf_def find_vrf_def find_None_iff')

lemma ensure_vrf_inv: "ipam_inv s \<Longrightarrow> ipam_inv (ensure_vrf s n)"
  by (simp add: ensure_vrf_def add_vrf_inv)

lemma add_prefix_inv:
  assumes "ipam_inv s" and "\<forall>q \<in> set (prefixes s). \<not> (px_vrf_id q = v \<and> px_prefix q = t)" and "net_text t"
  shows "ipam_inv (add_prefix s t v d)"
  using assms next_row_id_fresh [of "map px_id (prefixes s)"]
  by (auto simp: ipam_inv_def add_prefix_def)

lemma filter_prefixes_inv: "ipam_inv s \<Longrightarrow> ipam_inv (s\<lparr>prefixes := filter P (prefixes s)\<rparr>)"
  by (simp add: ipam_inv_def distinct_filter_map)

lemma relabel_inv:
  assumes "ipam_inv s"
  shows "ipam_inv (s\<lparr>prefixes := map (\<lambda>p. if px_id p = k then p\<lparr>px_description := d\<rparr> else p) (prefixes s)\<rparr>)"
proof -
  have "px_id (if px_id p = k then p\<lparr>px_description := d\<rparr> else p) = px_id p"
    "px_vrf_id (if px_id p = k then p\<lparr>px_description := d\<rparr> else p) = px_vrf_id p"
    "px_prefix (if px_id p = k then p\<lparr>px_description := d\<rparr> else p) = px_prefix p" for p :: ip_prefix
    by simp_all
  with assms show ?thesis by (auto simp: ipam_inv_def comp_def)
qed

lemma ensure_prefix_inv: "ipam_inv s \<Longrightarrow> net_text (snd dc) \<Longrightarrow> ipam_inv (ensure_prefix m s dc)"
  by (cases dc) (auto simp: ensure_prefix_def Let_def filter_prefixes_inv relabel_inv find_None_iff'
      intro!: add_prefix_inv split: option.splits)

lemma foldl_inv: "I s \<Longrightarrow> (\<And>s x. I s \<Longrightarrow> x \<in> set xs \<Longrightarrow> I (f s x)) \<Longrightarrow> I (foldl f s xs)"
  by (induction xs arbitrary: s) auto

lemma ensure_ipam_defaults_inv: "ipam_inv s \<Longrightarrow> ipam_inv (ensure_ipam_defaults s)"
  unfolding ensure_ipam_defaults_def Let_def
  by (rule foldl_inv) (simp_all add: ensure_vrf_inv ensure_prefix_inv desired_texts)

lemma create_prefix_InrD:
  assumes "create_prefix v6 s r = (t, Inr p)"
  shows "\<exists>n x v. pq_prefix r = Some x \<and> pq_vrf_id r = Some v \<and> ip_network v6 True x = Some (Net4 n) \<and> wf_net n \<and>
     get_vrf s v \<noteq> None \<and> (\<forall>q \<in> set (prefixes s). \<not> (px_vrf_id q = v \<and> px_prefix q = str_net4 n)) \<and>
     t = add_prefix s (str_net4 n) v (pq_description r) \<and> p = last (prefixes t)"
  using assms ip_network_Net4
  by (auto simp: create_prefix_def Let_def find_None_iff' split: option.splits if_splits ip_net.splits)

lemma create_prefix_inv: "ipam_inv s \<Longrightarrow> ipam_inv (fst (create_prefix v6 s r))"
proof (cases "snd (create_prefix v6 s r)")
  case (Inl e)
  moreover assume "ipam_inv s"
  ultimately show ?thesis
    by (auto simp: create_prefix_def Let_def split: option.splits if_splits ip_net.splits)
next
  case (Inr p)
  then obtain t where "create_prefix v6 s r = (t, Inr p)" by (cases "create_prefix v6 s r") auto
  moreover assume "ipam_inv s"
  ultimately show ?thesis
    using create_prefix_InrD [of v6 s r t p] by (auto intro!: add_prefix_inv net_text_str)
qed

lemma create_vrf_inv: "ipam_inv s \<Longrightarrow> ipam_inv (fst (create_vrf s n))"
  by (simp add: create_vrf_def Let_def add_vrf_inv)

lemma delete_vrf_inv: "ipam_inv s \<Longrightarrow> ipam_inv (fst (delete_vrf s k))"
  by (simp add: delete_vrf_def ipam_inv_def distinct_filter_map split: option.splits)

lemma delete_prefix_inv: "ipam_inv s \<Longrightarrow> ipam_inv (fst (delete_prefix s k))"
  by (simp add: delete_prefix_def filter_prefixes_inv split: option.splits)

lemma prefix_row_network:
  "ipam_inv s \<Longrightarrow> p \<in> set (prefixes s) \<Longrightarrow>
     \<exists>n. ip_network v6 b (px_prefix p) = Some (Net4 n) \<and> wf_net n \<and> px_prefix p = str_net4 n"
  by (rule net_text_network) (simp add: ipam_inv_def)

lemma find_map_V4: "find P (map V4 xs) = map_option V4 (find (\<lambda>a. P (V4 a)) xs)"
  by (simp add: find_map comp_def)

lemma taken_in_prefix_iff:
  "taken_in_prefix s k ip \<longleftrightarrow> ip \<in> set (map ia_ip (filter (\<lambda>a. ia_prefix_id a = Some k) (addresses s)))"
  by (auto simp: taken_in_prefix_def list_ex_iff)

text \<open>The address endpoint chooses the address that the first-fit search of provisioning chooses.\<close>

lemma first_unused_next_free:
  "ip_network v6 True (px_prefix p) = Some net \<Longrightarrow>
     next_free_ip_in_prefix v6 s p = Inr (map_option (\<lambda>t. (t, prefixlen net)) (first_unused v6 s p net))"
  by (simp add: next_free_ip_in_prefix_def first_unused_def taken_in_prefix_iff Let_def option.map_comp comp_def)

lemma first_unused_V4:
  assumes "first_unused v6 s p (Net4 n) = Some t"
  shows "\<exists>a \<in> set (hosts4 n). t = str_ip4 a \<and> \<not> taken_in_prefix s (px_id p) t"
  using assms
  by (auto simp: first_unused_def Let_def find_map_V4 taken_in_prefix_iff dest!: find_SomeD)

lemma bind_prefix_InrD:
  assumes "ipam_inv s" and "bind_prefix v6 s k ip = Inr (a, pl)" and "\<And>x. ip = Some x \<Longrightarrow> \<exists>w. x = V4 w"
  shows "\<exists>p w n. get_prefix s k = Some p \<and> px_prefix p = str_net4 n \<and> a = V4 w \<and> net_contains n w \<and>
     pl = int (snd n) \<and> \<not> taken_in_prefix s k (str_ip4 w)"
proof -
  obtain p where p: "get_prefix s k = Some p"
    using assms(2) by (auto simp: bind_prefix_def split: option.splits)
  then have row: "p \<in> set (prefixes s)" "px_id p = k" by (auto dest: pfx.get_SomeD)
  obtain n where n: "ip_network v6 True (px_prefix p) = Some (Net4 n)" "wf_net n" "px_prefix p = str_net4 n"
    using prefix_row_network [OF assms(1) row(1), of v6 True] by auto
  have mem: "w \<in> set (hosts4 n) \<Longrightarrow> net_contains n w" for w using set_hosts4 [OF n(2)] by auto
  show ?thesis
    using assms(2,3) p n row
    by (auto simp: bind_prefix_def ip_address_str simp del: split_paired_Ex intro!: exI [of _ n] mem
        split: option.splits if_splits dest!: first_unused_V4)
qed

lemma request_ip_V4: "request_ip v6 r = Inr (Some x) \<Longrightarrow> \<exists>w. x = V4 w"
  by (auto simp: request_ip_def split: if_splits option.splits ip_addr.splits)

lemma resolve_request_V4:
  assumes "ipam_inv s" and "resolve_request v6 s i r = Inr (a, pl)"
  shows "\<exists>w. a = V4 w"
proof -
  obtain ip where ip: "request_ip v6 r = Inr ip"
    using assms(2) by (auto simp: resolve_request_def split: if_splits sum.splits)
  show ?thesis
  proof (cases "ar_prefix_id r")
    case None
    then show ?thesis
      using assms(2) ip request_ip_V4 [of v6 r]
      by (auto simp: resolve_request_def split: if_splits option.splits)
  next
    case (Some k)
    then have "bind_prefix v6 s k ip = Inr (a, pl)"
      using assms(2) ip by (auto simp: resolve_request_def split: if_splits)
    from bind_prefix_InrD [OF assms(1) this] show ?thesis
      using ip request_ip_V4 [of v6 r] by blast
  qed
qed

lemma add_address_inv:
  assumes "ipam_inv s" and "\<not> address_conflict s (ia_ip row) (ia_vrf_id row) (ia_prefix_id row)"
    and "ia_id row = next_row_id (map ia_id (addresses s))" and "\<exists>w. ia_ip row = str_ip4 w"
  shows "ipam_inv (s\<lparr>addresses := addresses s @ [row]\<rparr>)"
  using assms next_row_id_fresh [of "map ia_id (addresses s)"]
  by (auto simp: ipam_inv_def address_conflict_def list_ex_iff)

lemma touch_db: "touch env sc k w = Some w' \<Longrightarrow> w_db w' = w_db w"
  by (auto simp: touch_def Let_def Links.bump_version_def)

lemma create_interface_address_inv:
  assumes "create_interface_address v6 env w i r = Some (w', res)" and "ipam_inv (w_db w)"
  shows "ipam_inv (w_db w')"
proof (cases "resolve_request v6 (w_db w) i r")
  case (Inr x)
  then obtain a pl where x: "resolve_request v6 (w_db w) i r = Inr (a, pl)" by (cases x) auto
  then have "\<exists>b. str_addr v6 a = str_ip4 b" using resolve_request_V4 [OF assms(2)] by fastforce
  then show ?thesis
    using assms x
    by (auto simp: create_interface_address_def Let_def split: if_splits sum.splits dest!: touch_db intro!: add_address_inv)
qed (use assms in \<open>auto simp: create_interface_address_def\<close>)

lemma delete_interface_address_inv:
  assumes "delete_interface_address env w i k = Some (w', res)" and "ipam_inv (w_db w)"
  shows "ipam_inv (w_db w')"
proof -
  have "ipam_inv ((w_db w)\<lparr>addresses := filter P (addresses (w_db w))\<rparr>)" for P
  proof -
    have "filter Q (filter P xs) = filter P (filter Q xs)" for Q and xs :: "interface_address list"
      by (simp add: conj_commute)
    then show ?thesis using assms(2) by (simp add: ipam_inv_def distinct_filter_map del: filter_filter)
  qed
  then show ?thesis
    using assms
    by (auto simp: delete_interface_address_def Let_def split: if_splits option.splits sum.splits dest!: touch_db)
qed

section \<open>Runs\<close>

inductive ipam_run :: "v6_text \<Rightarrow> cenv \<Rightarrow> world \<Rightarrow> world \<Rightarrow> bool" for v6 env where
  start: "ipam_run v6 env w w"
| vrf_created: "ipam_run v6 env w w' \<Longrightarrow> ipam_run v6 env w (w'\<lparr>w_db := fst (create_vrf (w_db w') n)\<rparr>)"
| vrf_deleted: "ipam_run v6 env w w' \<Longrightarrow> ipam_run v6 env w (w'\<lparr>w_db := fst (delete_vrf (w_db w') k)\<rparr>)"
| prefix_created: "ipam_run v6 env w w' \<Longrightarrow> ipam_run v6 env w (w'\<lparr>w_db := fst (create_prefix v6 (w_db w') r)\<rparr>)"
| prefix_deleted: "ipam_run v6 env w w' \<Longrightarrow> ipam_run v6 env w (w'\<lparr>w_db := fst (delete_prefix (w_db w') k)\<rparr>)"
| seeded: "ipam_run v6 env w w' \<Longrightarrow> ipam_run v6 env w (w'\<lparr>w_db := ensure_ipam_defaults (w_db w')\<rparr>)"
| address_created: "ipam_run v6 env w w' \<Longrightarrow> create_interface_address v6 env w' i q = Some (w'', res) \<Longrightarrow>
    ipam_run v6 env w w''"
| address_deleted: "ipam_run v6 env w w' \<Longrightarrow> delete_interface_address env w' i k = Some (w'', res) \<Longrightarrow>
    ipam_run v6 env w w''"

lemmas ipam_inv_steps = create_vrf_inv delete_vrf_inv create_prefix_inv delete_prefix_inv ensure_ipam_defaults_inv
  create_interface_address_inv delete_interface_address_inv

lemma ipam_run_inv: "ipam_run v6 env w w' \<Longrightarrow> ipam_inv (w_db w) \<Longrightarrow> ipam_inv (w_db w')"
  by (induction rule: ipam_run.induct) (auto intro: ipam_inv_steps)

lemma empty_ipam_inv: "addresses s = [] \<Longrightarrow> prefixes s = [] \<Longrightarrow> vrfs s = [] \<Longrightarrow> ipam_inv s"
  by (simp add: ipam_inv_def)

lemma prefix_pool_stats_ok:
  assumes "ipam_inv s" and "p \<in> set (prefixes s)"
  shows "\<exists>x. prefix_pool_stats v6 p k = Inr x"
proof -
  obtain n where "ip_network v6 True (px_prefix p) = Some (Net4 n)"
    using prefix_row_network [OF assms, of v6 True] by blast
  then show ?thesis unfolding prefix_pool_stats_def Let_def by simp
qed

lemma collect_stats_ok:
  assumes "ipam_inv s" and "set ps \<subseteq> set (prefixes s)"
  shows "\<exists>xs. collect_stats v6 s ps = Inr xs"
  using assms(2)
proof (induction ps)
  case (Cons p ps)
  then obtain x xs where "prefix_pool_stats v6 p (allocated_in s (px_id p)) = Inr x" "collect_stats v6 s ps = Inr xs"
    using prefix_pool_stats_ok [OF assms(1), of p v6] by fastforce
  then show ?case by simp
qed simp

text \<open>C21: Whatever the sequence of requests and seedings, every stored prefix is the canonical text of an
  IPv4 network, every stored address the canonical text of an IPv4 address, no prefix is stored twice in
  a VRF, no address twice in a prefix, and so the pool statistics never fail and the search for a free
  address never raises.\<close>

theorem ipam_always_canonical:
  assumes "ipam_run v6 env w w'" and "addresses (w_db w) = []" and "prefixes (w_db w) = []" and "vrfs (w_db w) = []"
  shows "ipam_inv (w_db w') \<and>
    (\<forall>p \<in> set (prefixes (w_db w')). next_free_ip_in_prefix v6 (w_db w') p \<noteq> Inl ValueError) \<and>
    (\<forall>b. \<exists>xs. list_pools v6 b (w_db w') = Inr xs)"
proof -
  have inv: "ipam_inv (w_db w')" by (rule ipam_run_inv [OF assms(1) empty_ipam_inv [OF assms(2-4)]])
  have free: "next_free_ip_in_prefix v6 (w_db w') p \<noteq> Inl ValueError" if p: "p \<in> set (prefixes (w_db w'))" for p
  proof -
    obtain n where "ip_network v6 True (px_prefix p) = Some (Net4 n)"
      using prefix_row_network [OF inv p, of v6 True] by blast
    then show ?thesis by (simp add: next_free_ip_in_prefix_def)
  qed
  have "\<exists>xs. list_pools v6 b (w_db w') = Inr xs" for b
  proof -
    define s where "s = (if b then ensure_ipam_defaults (w_db w') else w_db w')"
    have "ipam_inv s" using inv ensure_ipam_defaults_inv by (simp add: s_def)
    from collect_stats_ok [OF this filter_is_subset] have "\<exists>xs. collect_stats v6 s (filter P (prefixes s)) = Inr xs" for P .
    then obtain g where "collect_stats v6 s (filter P (prefixes s)) = Inr (g P)" for P by metis
    then show ?thesis
      unfolding list_pools_def Let_def s_def [symmetric] by (cases "find_vrf s ''mgmt''") simp_all
  qed
  with inv free show ?thesis by blast
qed

definition ipam_world :: world where
  "ipam_world = demo_world\<lparr>w_db := (w_db demo_world)\<lparr>addresses := [], prefixes := [], vrfs := []\<rparr>\<rparr>"

theorem ipam_always_canonical_witness:
  "ipam_inv (ensure_ipam_defaults (w_db ipam_world)) \<and> length (prefixes (ensure_ipam_defaults (w_db ipam_world))) = 6"
proof
  have "ipam_run no_v6 demo_env0 ipam_world (ipam_world\<lparr>w_db := ensure_ipam_defaults (w_db ipam_world)\<rparr>)"
    by (rule ipam_run.seeded [OF ipam_run.start])
  from ipam_always_canonical [OF this] show "ipam_inv (ensure_ipam_defaults (w_db ipam_world))"
    by (simp add: ipam_world_def)
  show "length (prefixes (ensure_ipam_defaults (w_db ipam_world))) = 6"
    by code_simp
qed

section \<open>Round trips\<close>

text \<open>C28: A prefix that was accepted is stored as the text of the network that was requested: parsing the
  stored text, strictly or not, gives that network back, printing the network gives the stored text, and
  requesting the stored text instead has the same effect.\<close>

theorem prefix_text_roundtrip:
  assumes "create_prefix v6 s r = (t, Inr p)"
  shows "\<exists>n x. pq_prefix r = Some x \<and> ip_network v6 True x = Some (Net4 n) \<and>
     (\<forall>b. ip_network v6 b (px_prefix p) = Some (Net4 n)) \<and> str_net v6 (Net4 n) = px_prefix p \<and>
     p \<in> set (prefixes t) \<and> create_prefix v6 s (r\<lparr>pq_prefix := Some (px_prefix p)\<rparr>) = (t, Inr p)"
proof -
  obtain n x v where n: "pq_prefix r = Some x" "pq_vrf_id r = Some v" "ip_network v6 True x = Some (Net4 n)" "wf_net n"
    "get_vrf s v \<noteq> None" "\<forall>q \<in> set (prefixes s). \<not> (px_vrf_id q = v \<and> px_prefix q = str_net4 n)"
    "t = add_prefix s (str_net4 n) v (pq_description r)" "p = last (prefixes t)"
    using create_prefix_InrD [OF assms] by blast
  have p: "px_prefix p = str_net4 n" "p \<in> set (prefixes t)" using n(7,8) by (simp_all add: add_prefix_def)
  have "str_net4 n \<noteq> []" by (simp add: str_net4_def)
  then have "create_prefix v6 s (r\<lparr>pq_prefix := Some (str_net4 n)\<rparr>) = (t, Inr p)"
    using n by (simp add: create_prefix_def ip_network_str Let_def find_None_iff' del: not_None_eq)
  with n p show ?thesis by (auto simp: ip_network_str simp del: split_paired_Ex)
qed

definition demo_prefix_request :: prefix_request where
  "demo_prefix_request = \<lparr>pq_prefix = Some ''10.0.0.0/255.255.255.252'', pq_vrf_id = Some 1, pq_description = None\<rparr>"

theorem prefix_text_roundtrip_witness:
  "\<exists>t p. create_prefix no_v6 (add_vrf empty_db ''mgmt'') demo_prefix_request = (t, Inr p) \<and> px_prefix p = ''10.0.0.0/30'' \<and>
     create_prefix no_v6 (add_vrf empty_db ''mgmt'') (demo_prefix_request\<lparr>pq_prefix := Some ''10.0.0.0/30''\<rparr>) = (t, Inr p)"
proof -
  let ?s = "add_vrf empty_db ''mgmt''"
  obtain t p where tp: "create_prefix no_v6 ?s demo_prefix_request = (t, Inr p)" and px: "px_prefix p = ''10.0.0.0/30''"
  proof -
    have "map_option px_prefix (case snd (create_prefix no_v6 ?s demo_prefix_request) of Inl e \<Rightarrow> None | Inr p \<Rightarrow> Some p)
        = Some ''10.0.0.0/30''" by code_simp
    then show ?thesis
      using that by (cases "create_prefix no_v6 ?s demo_prefix_request") (auto split: sum.splits)
  qed
  with prefix_text_roundtrip [OF tp] show ?thesis by auto
qed

section \<open>First fit is exact\<close>

text \<open>C25: For a stored prefix, the search for a free address gives up exactly when every host address of the
  prefix is taken; otherwise it returns the least host address that is not taken in the prefix, with the
  prefix length. The address lies in the network and is, in a network of more than two addresses, neither
  the network nor the broadcast address. The address endpoint, asked for any address of the prefix, picks
  the same one.\<close>

theorem next_free_ip_exact:
  assumes "ipam_inv s" and "p \<in> set (prefixes s)"
  shows "\<exists>n. px_prefix p = str_net4 n \<and>
    (next_free_ip_in_prefix v6 s p = Inr None \<longleftrightarrow> (\<forall>h \<in> set (hosts4 n). taken_in_prefix s (px_id p) (str_ip4 h))) \<and>
    (\<forall>ip l. next_free_ip_in_prefix v6 s p = Inr (Some (ip, l)) \<longleftrightarrow>
       (\<exists>i < length (hosts4 n). ip = str_ip4 (hosts4 n ! i) \<and> l = snd n \<and> \<not> taken_in_prefix s (px_id p) ip \<and>
          (\<forall>j < i. taken_in_prefix s (px_id p) (str_ip4 (hosts4 n ! j))))) \<and>
    (\<forall>h \<in> set (hosts4 n). net_contains n h \<and> (snd n < 31 \<longrightarrow> h \<noteq> fst n \<and> h \<noteq> host_at n (net_size n - 1))) \<and>
    (\<forall>ip l. next_free_ip_in_prefix v6 s p = Inr (Some (ip, l)) \<longrightarrow>
       (\<exists>a. bind_prefix v6 s (px_id p) None = Inr (V4 a, int l) \<and> ip = str_ip4 a))"
proof -
  obtain n where n: "ip_network v6 True (px_prefix p) = Some (Net4 n)" "wf_net n" "px_prefix p = str_net4 n"
    using prefix_row_network [OF assms, of v6 True] by blast
  have nf: "next_free_ip_in_prefix v6 s p =
      Inr (map_option (\<lambda>h. (str_ip4 h, snd n)) (find (\<lambda>h. \<not> taken_in_prefix s (px_id p) (str_ip4 h)) (hosts4 n)))"
    by (simp add: next_free_ip_in_prefix_def n(1) find_map_V4 option.map_comp comp_def)
  have 1: "next_free_ip_in_prefix v6 s p = Inr None \<longleftrightarrow> (\<forall>h \<in> set (hosts4 n). taken_in_prefix s (px_id p) (str_ip4 h))"
    by (simp add: nf find_None_iff')
  have 2: "next_free_ip_in_prefix v6 s p = Inr (Some (ip, l)) \<longleftrightarrow>
       (\<exists>i < length (hosts4 n). ip = str_ip4 (hosts4 n ! i) \<and> l = snd n \<and> \<not> taken_in_prefix s (px_id p) ip \<and>
          (\<forall>j < i. taken_in_prefix s (px_id p) (str_ip4 (hosts4 n ! j))))" for ip l
    unfolding nf by (auto simp: find_Some_iff)
  have 3: "\<forall>h \<in> set (hosts4 n). net_contains n h \<and> (snd n < 31 \<longrightarrow> h \<noteq> fst n \<and> h \<noteq> host_at n (net_size n - 1))"
    by (auto simp: set_hosts4 [OF n(2)] host_at_def)
  have row: "get_prefix s (px_id p) = Some p" using assms by (simp add: ipam_inv_def pfx.get_exact)
  have 4: "\<exists>a. bind_prefix v6 s (px_id p) None = Inr (V4 a, int l) \<and> ip = str_ip4 a"
    if "next_free_ip_in_prefix v6 s p = Inr (Some (ip, l))" for ip l
    using that first_unused_V4 [of v6 s p n]
    unfolding first_unused_next_free [OF n(1)]
    by (auto simp: bind_prefix_def row n(1) ip_address_str)
  from n(3) 1 2 3 4 show ?thesis by blast
qed

definition small_ipam :: db where
  "small_ipam = empty_db\<lparr>prefixes := [\<lparr>px_id = 7, px_prefix = ''10.0.0.0/30'', px_vrf_id = 1, px_description = None\<rparr>],
     addresses := [\<lparr>ia_id = 1, ia_interface_id = ''r1-if0'', ia_ip = ''10.0.0.1'', ia_prefix_len = 30, ia_vrf_id = None,
       ia_prefix_id = Some 7\<rparr>]\<rparr>"

lemma small_ipam_inv: "ipam_inv small_ipam"
proof -
  have "net_text ''10.0.0.0/30''" by (rule net_textI [of _ "(0xA000000, 30)"]) code_simp+
  moreover have "''10.0.0.1'' = str_ip4 0xA000001" by code_simp
  ultimately show ?thesis by (auto simp: ipam_inv_def small_ipam_def empty_db_def)
qed

theorem next_free_ip_exact_witness:
  "\<exists>a. bind_prefix no_v6 small_ipam 7 None = Inr (V4 a, 30) \<and> str_ip4 a = ''10.0.0.2''"
proof -
  have m: "hd (prefixes small_ipam) \<in> set (prefixes small_ipam)" "px_id (hd (prefixes small_ipam)) = 7"
    by (simp_all add: small_ipam_def)
  have "next_free_ip_in_prefix no_v6 small_ipam (hd (prefixes small_ipam)) = Inr (Some (''10.0.0.2'', 30))"
    by code_simp
  then obtain a where "bind_prefix no_v6 small_ipam 7 None = Inr (V4 a, int 30)" "''10.0.0.2'' = str_ip4 a"
    using next_free_ip_exact [OF small_ipam_inv m(1), of no_v6] unfolding m(2) by blast
  then show ?thesis by auto
qed

section \<open>Pools are used up in order\<close>

fun allocate_many :: "v6_text \<Rightarrow> nat \<Rightarrow> ip_pool \<Rightarrow> pool_error + (string list \<times> ip_pool)" where
  "allocate_many v6 0 p = Inr ([], p)"
| "allocate_many v6 (Suc k) p =
     (case allocate v6 p of
        Inl e \<Rightarrow> Inl e
      | Inr (ip, p1) \<Rightarrow> (case allocate_many v6 k p1 of Inl e \<Rightarrow> Inl e | Inr (ips, p2) \<Rightarrow> Inr (ip # ips, p2)))"

lemma allocate_step:
  assumes "ip_network v6 True (pool_cidr p) = Some (Net4 n)" and "pool_next_index p = int i + 1"
  shows "allocate v6 p = (if i < length (hosts4 n)
    then Inr (str_ip4 (hosts4 n ! i), p\<lparr>pool_next_index := int i + 2\<rparr>) else Inl PoolExhausted)"
  by (simp add: allocate_def assms py_index_def Let_def)

lemma allocate_many_step:
  assumes "ip_network v6 True (pool_cidr p) = Some (Net4 n)" and "pool_next_index p = int i + 1"
  shows "allocate_many v6 k p = (if i + k \<le> length (hosts4 n) \<or> k = 0
    then Inr (map (\<lambda>j. str_ip4 (hosts4 n ! j)) [i..<i + k], p\<lparr>pool_next_index := int (i + k) + 1\<rparr>) else Inl PoolExhausted)"
  using assms
proof (induction k arbitrary: p i)
  case (Suc k)
  show ?case
  proof (cases "i < length (hosts4 n)")
    case True
    have "[i..<i + Suc k] = i # [Suc i..<Suc i + k]" by (simp add: upt_conv_Cons del: upt_Suc)
    then show ?thesis
      using True Suc.IH [of "p\<lparr>pool_next_index := int i + 2\<rparr>" "Suc i"] Suc.prems
      by (auto simp: allocate_step simp del: upt_Suc)
  next
    case False
    then show ?thesis using Suc.prems by (simp add: allocate_step)
  qed
qed simp

text \<open>A fresh pool over an IPv4 network of capacity \<open>c\<close> (its number of host addresses) hands out its host
  addresses in order, all different and all inside the network, for exactly \<open>c\<close> allocations; one more
  allocation fails with \<^verbatim>\<open>POOL_EXHAUSTED\<close>.\<close>

theorem pool_allocates_capacity:
  assumes "ip_network v6 True (pool_cidr p) = Some (Net4 n)" and "pool_next_index p = 1"
  shows "(\<forall>k. (\<exists>ips q. allocate_many v6 k p = Inr (ips, q)) \<longleftrightarrow>
            k \<le> (if snd n \<ge> 31 then 2 ^ (32 - snd n) else 2 ^ (32 - snd n) - 2)) \<and>
    (\<forall>k ips q. allocate_many v6 k p = Inr (ips, q) \<longrightarrow> distinct ips \<and> length ips = k \<and>
       (\<forall>ip \<in> set ips. \<exists>a. ip_address v6 ip = Some (V4 a) \<and> net_contains n a)) \<and>
    (\<forall>k. k > length (hosts4 n) \<longrightarrow> allocate_many v6 k p = Inl PoolExhausted)"
proof -
  have step: "allocate_many v6 k p = (if k \<le> length (hosts4 n) \<or> k = 0
      then Inr (map (\<lambda>j. str_ip4 (hosts4 n ! j)) [0..<k], p\<lparr>pool_next_index := int k + 1\<rparr>) else Inl PoolExhausted)" for k
    using allocate_many_step [OF assms(1), of 0 k] assms(2) by simp
  have len: "length (hosts4 n) = (if snd n \<ge> 31 then 2 ^ (32 - snd n) else 2 ^ (32 - snd n) - 2)"
    by (simp add: length_hosts4 net_size_def)
  have "inj_on (\<lambda>j. str_ip4 (hosts4 n ! j)) {0..<k}" if "k \<le> length (hosts4 n)" for k
    using that distinct_hosts4 [of n] by (auto simp: inj_on_def nth_eq_iff_index_eq)
  moreover have "net_contains n (hosts4 n ! j)" if "j < length (hosts4 n)" for j
    using nth_mem [OF that] set_hosts4 [OF ip_network_Net4 [OF assms(1)]] by blast
  ultimately show ?thesis
    unfolding len [symmetric] step
    by (auto simp: distinct_map ip_address_str split: if_splits)
qed

definition demo_pool :: ip_pool where
  "demo_pool = \<lparr>pool_key = ''core_mgmt'', pool_cidr = ''10.0.0.0/30'', pool_next_index = 1\<rparr>"

theorem pool_allocates_capacity_witness:
  "allocate_many no_v6 2 demo_pool = Inr ([''10.0.0.1'', ''10.0.0.2''], demo_pool\<lparr>pool_next_index := 3\<rparr>) \<and>
   allocate_many no_v6 3 demo_pool = Inl PoolExhausted"
proof
  have n: "ip_network no_v6 True (pool_cidr demo_pool) = Some (Net4 (0xA000000, 30))" by code_simp
  have len: "length (hosts4 (0xA000000, 30)) = 2" by (simp add: length_hosts4 net_size_def)
  show "allocate_many no_v6 2 demo_pool = Inr ([''10.0.0.1'', ''10.0.0.2''], demo_pool\<lparr>pool_next_index := 3\<rparr>)"
    by code_simp
  show "allocate_many no_v6 3 demo_pool = Inl PoolExhausted"
    using pool_allocates_capacity [OF n] len by (simp add: demo_pool_def)
qed

section \<open>Seeding twice\<close>

text \<open>Two rows of the management VRF never carry the same label.\<close>

definition labels_unique :: "int \<Rightarrow> db \<Rightarrow> bool" where
  "labels_unique m s \<longleftrightarrow> (\<forall>p \<in> set (prefixes s). \<forall>q \<in> set (prefixes s). px_vrf_id p = m \<and> px_vrf_id q = m \<and>
     px_description p = px_description q \<and> truthy (px_description p) \<longrightarrow> px_id p = px_id q)"

definition labelled :: "int \<Rightarrow> db \<Rightarrow> string \<Rightarrow> bool" where
  "labelled m s d \<longleftrightarrow> (\<exists>p \<in> set (prefixes s). px_vrf_id p = m \<and> px_description p = Some d)"

definition settled :: "int \<Rightarrow> db \<Rightarrow> string \<times> string \<Rightarrow> bool" where
  "settled m s dc \<longleftrightarrow> labelled m s (fst dc) \<or>
     (\<exists>p \<in> set (prefixes s). px_vrf_id p = m \<and> px_prefix p = snd dc \<and> truthy (px_description p))"

lemma not_truthy_iff: "x \<in> {None, Some []} \<longleftrightarrow> \<not> truthy x"
  by (cases x) auto

lemma find_cidr:
  "ipam_inv s \<Longrightarrow> p \<in> set (prefixes s) \<Longrightarrow> px_vrf_id p = m \<Longrightarrow> px_prefix p = c \<Longrightarrow>
     find (\<lambda>p. px_vrf_id p = m \<and> px_prefix p = c) (prefixes s) = Some p"
  using find_key_iff [of "\<lambda>p. (px_vrf_id p, px_prefix p)" "prefixes s" "(m, c)" p] by (simp add: ipam_inv_def)

lemma by_desc_Nil: "filter (\<lambda>p. px_vrf_id p = m \<and> px_description p = Some d) (prefixes s) = [] \<longleftrightarrow> \<not> labelled m s d"
  by (auto simp: labelled_def filter_empty_conv)

lemma ensure_prefix_labelled:
  assumes "labels_unique m s" and "labelled m s d" and "d \<noteq> []"
  shows "ensure_prefix m s (d, c) = s"
proof -
  let ?by = "filter (\<lambda>p. px_vrf_id p = m \<and> px_description p = Some d) (prefixes s)"
  have ne: "?by \<noteq> []" using assms(2) by (simp only: by_desc_Nil not_not)
  define keep where "keep = hd (sort_key px_id ?by)"
  have "keep \<in> set ?by" unfolding keep_def by (rule hd_sort_key_in [OF ne])
  then have keep: "keep \<in> set (prefixes s)" "px_vrf_id keep = m" "px_description keep = Some d" by simp_all
  have "px_id p = px_id keep" if "p \<in> set (prefixes s)" "px_vrf_id p = m" "px_description p = Some d" for p
    using assms(1,3) that keep unfolding labels_unique_def by (metis truthy.simps(2))
  then have "filter (\<lambda>p. px_vrf_id p = m \<and> px_description p = Some d \<longrightarrow> px_id p = px_id keep) (prefixes s) = prefixes s"
    unfolding filter_id_conv by blast
  with ne show ?thesis by (simp add: ensure_prefix_def Let_def keep_def)
qed

lemma ensure_prefix_settled:
  assumes "ipam_inv s" and "labels_unique m s" and "settled m s (d, c)" and "d \<noteq> []"
  shows "ensure_prefix m s (d, c) = s"
proof (cases "labelled m s d")
  case False
  then obtain p where p: "p \<in> set (prefixes s)" "px_vrf_id p = m" "px_prefix p = c" "truthy (px_description p)"
    using assms(3) by (auto simp: settled_def)
  then show ?thesis
    using False find_cidr [OF assms(1) p(1-3)]
    by (simp add: ensure_prefix_def Let_def by_desc_Nil not_truthy_iff del: insert_iff)
qed (use assms ensure_prefix_labelled in blast)

text \<open>One step settles its entry, keeps settled ones settled and keeps the labels unique.\<close>

lemma ensure_prefix_cases:
  assumes "ipam_inv s" and "labels_unique m s" and "d \<noteq> []"
  obtains "ensure_prefix m s (d, c) = s" "settled m s (d, c)"
  | e where "\<not> labelled m s d" "e \<in> set (prefixes s)" "px_vrf_id e = m" "px_prefix e = c" "\<not> truthy (px_description e)"
      "ensure_prefix m s (d, c) =
         s\<lparr>prefixes := map (\<lambda>p. if px_id p = px_id e then p\<lparr>px_description := Some d\<rparr> else p) (prefixes s)\<rparr>"
  | "\<not> labelled m s d" "ensure_prefix m s (d, c) = add_prefix s c m (Some d)"
proof (cases "settled m s (d, c)")
  case True
  then show ?thesis using that(1) ensure_prefix_settled [OF assms(1,2) _ assms(3)] by blast
next
  case False
  then have nl: "\<not> labelled m s d" by (simp add: settled_def)
  show ?thesis
  proof (cases "find (\<lambda>p. px_vrf_id p = m \<and> px_prefix p = c) (prefixes s)")
    case None
    then show ?thesis using nl that(3) by (simp add: ensure_prefix_def Let_def by_desc_Nil)
  next
    case (Some e)
    then have e: "e \<in> set (prefixes s)" "px_vrf_id e = m" "px_prefix e = c" by (auto dest: find_SomeD)
    then have "\<not> truthy (px_description e)" using False by (auto simp: settled_def)
    moreover from this have "ensure_prefix m s (d, c) =
         s\<lparr>prefixes := map (\<lambda>p. if px_id p = px_id e then p\<lparr>px_description := Some d\<rparr> else p) (prefixes s)\<rparr>"
      using nl Some by (simp add: ensure_prefix_def Let_def by_desc_Nil not_truthy_iff del: insert_iff)
    ultimately show ?thesis using nl e that(2) by blast
  qed
qed

lemma relabel_rows:
  assumes "ipam_inv s" "e \<in> set (prefixes s)"
  shows "map (\<lambda>p. if px_id p = px_id e then p\<lparr>px_description := d\<rparr> else p) (prefixes s) =
    map (\<lambda>p. if p = e then p\<lparr>px_description := d\<rparr> else p) (prefixes s)"
proof (rule map_cong [OF refl])
  fix p assume "p \<in> set (prefixes s)"
  then have "px_id p = px_id e \<longleftrightarrow> p = e"
    using assms by (auto simp: ipam_inv_def distinct_map inj_on_def)
  then show "(if px_id p = px_id e then p\<lparr>px_description := d\<rparr> else p) = (if p = e then p\<lparr>px_description := d\<rparr> else p)"
    by simp
qed

lemma ensure_prefix_settles:
  assumes "ipam_inv s" and "labels_unique m s" and "d \<noteq> []"
  shows "settled m (ensure_prefix m s (d, c)) (d, c) \<and> labels_unique m (ensure_prefix m s (d, c)) \<and>
     (\<forall>x. fst x \<noteq> [] \<longrightarrow> settled m s x \<longrightarrow> settled m (ensure_prefix m s (d, c)) x)"
  using assms
proof (cases rule: ensure_prefix_cases [OF assms, where c = c, case_names same label add])
  case (label e)
  let ?t = "s\<lparr>prefixes := map (\<lambda>p. if p = e then p\<lparr>px_description := Some d\<rparr> else p) (prefixes s)\<rparr>"
  have t: "ensure_prefix m s (d, c) = ?t" using label(6) relabel_rows [OF assms(1) label(2)] by simp
  have rows: "set (prefixes ?t) = insert (e\<lparr>px_description := Some d\<rparr>) (set (prefixes s) - {e})"
    using label(2) by (auto simp: image_iff)
  have kept: "p \<in> set (prefixes ?t)" if "p \<in> set (prefixes s)" "truthy (px_description p)" for p
    using that label(5) unfolding rows by auto
  have "settled m ?t x" if sx: "settled m s x" "fst x \<noteq> []" for x
  proof -
    obtain p where p: "p \<in> set (prefixes s)" "px_vrf_id p = m" "truthy (px_description p)"
        "px_description p = Some (fst x) \<or> px_prefix p = snd x"
      using sx by (auto simp: settled_def labelled_def)
    with kept [OF p(1,3)] show ?thesis unfolding settled_def labelled_def by blast
  qed
  moreover have "labels_unique m ?t"
    using assms(2) label(1) unfolding labels_unique_def labelled_def rows by auto
  moreover have "settled m ?t (d, c)" unfolding settled_def labelled_def rows using label by auto
  ultimately show ?thesis unfolding t by blast
next
  case add
  let ?t = "add_prefix s c m (Some d)"
  obtain new where rows: "set (prefixes ?t) = insert new (set (prefixes s))"
      and new: "px_vrf_id new = m" "px_description new = Some d"
    by (simp add: add_prefix_def)
  have "settled m ?t x" if "settled m s x" for x
    using that unfolding settled_def labelled_def rows by blast
  moreover have "labels_unique m ?t"
    unfolding labels_unique_def rows
  proof (intro ballI impI, elim conjE)
    fix p q
    assume pq: "p \<in> insert new (set (prefixes s))" "q \<in> insert new (set (prefixes s))" "px_vrf_id p = m" "px_vrf_id q = m"
      "px_description p = px_description q" "truthy (px_description p)"
    have "\<not> (r \<in> set (prefixes s) \<and> px_vrf_id r = m \<and> px_description r = Some d)" for r
      using add(1) unfolding labelled_def by blast
    then show "px_id p = px_id q"
      using pq new assms(2) unfolding labels_unique_def by (metis insertE)
  qed
  moreover have "settled m ?t (d, c)" unfolding settled_def labelled_def rows using new by auto
  ultimately show ?thesis unfolding add(2) by blast
qed simp

lemma desired_labels: "\<forall>dc \<in> set desired_prefixes. fst dc \<noteq> []"
  by (simp add: desired_prefixes_def)

lemma ensure_prefixes_settle:
  assumes "ipam_inv s" and "labels_unique m s" and "\<forall>dc \<in> set xs. fst dc \<noteq> [] \<and> net_text (snd dc)"
  shows "ipam_inv (foldl (ensure_prefix m) s xs) \<and> labels_unique m (foldl (ensure_prefix m) s xs) \<and>
    (\<forall>x. fst x \<noteq> [] \<longrightarrow> x \<in> set xs \<or> settled m s x \<longrightarrow> settled m (foldl (ensure_prefix m) s xs) x)"
  using assms
proof (induction xs arbitrary: s)
  case (Cons dc xs)
  obtain d c where dc: "dc = (d, c)" by (cases dc)
  note st = ensure_prefix_settles [OF Cons.prems(1,2), of d c]
  have "ipam_inv (ensure_prefix m s (d, c))" using Cons.prems by (simp add: dc ensure_prefix_inv)
  from Cons.IH [OF this] st Cons.prems(3) show ?case unfolding dc by auto
qed auto

lemma foldl_id: "\<forall>x \<in> set xs. f s x = s \<Longrightarrow> foldl f s xs = s"
  by (induction xs) auto

lemma ensure_prefix_frame: "vrfs (ensure_prefix m s dc) = vrfs s"
  by (simp add: ensure_prefix_def add_prefix_def Let_def split: prod.splits option.splits)

lemma ensure_prefixes_frame: "vrfs (foldl (ensure_prefix m) s xs) = vrfs s"
  by (induction xs arbitrary: s) (simp_all add: ensure_prefix_frame)

lemma ensure_vrf_exists: "find_vrf (ensure_vrf s n) n \<noteq> None"
  by (auto simp: ensure_vrf_def add_vrf_def find_vrf_def find_append split: option.splits)

lemma ensure_vrf_other: "find_vrf s k = Some v \<Longrightarrow> find_vrf (ensure_vrf s n) k = Some v"
  by (simp add: ensure_vrf_def add_vrf_def find_vrf_def find_append)

lemma ensure_vrf_prefixes: "prefixes (ensure_vrf s n) = prefixes s"
  by (simp add: ensure_vrf_def add_vrf_def)

lemma ensure_vrf_id: "find_vrf s n \<noteq> None \<Longrightarrow> ensure_vrf s n = s"
  by (auto simp: ensure_vrf_def)

text \<open>Seeding the management prefixes is idempotent as long as no two prefixes of the management VRF share a
  label, and afterwards every role has a prefix with its label, or the address block of the role is in use
  under another label.\<close>

theorem seeding_idempotent:
  assumes "ipam_inv s" and "labels_unique (mgmt_vrf_id (ensure_vrf s ''mgmt'')) s"
  shows "ensure_ipam_defaults (ensure_ipam_defaults s) = ensure_ipam_defaults s \<and>
    (\<forall>(d, c) \<in> set desired_prefixes. \<exists>p \<in> set (prefixes (ensure_ipam_defaults s)).
       px_vrf_id p = mgmt_vrf_id (ensure_ipam_defaults s) \<and>
       (px_description p = Some d \<or> px_prefix p = c \<and> truthy (px_description p)))"
proof -
  let ?s1 = "ensure_vrf s ''mgmt''" let ?s2 = "ensure_vrf ?s1 ''internet''" let ?t = "ensure_ipam_defaults s"
  define m where "m = mgmt_vrf_id ?s1"
  obtain v where v: "find_vrf ?s1 ''mgmt'' = Some v" using ensure_vrf_exists [of s "''mgmt''"] by auto
  have t: "?t = foldl (ensure_prefix m) ?s2 desired_prefixes" by (simp add: ensure_ipam_defaults_def Let_def m_def)
  have fv: "find_vrf ?t n = find_vrf ?s2 n" for n unfolding t find_vrf_def ensure_prefixes_frame ..
  have m2: "find_vrf ?t ''mgmt'' = Some v" using fv ensure_vrf_other [OF v] by simp
  then have mt: "mgmt_vrf_id ?t = m" using v by (simp add: mgmt_vrf_id_def m_def)
  have i2: "find_vrf ?t ''internet'' \<noteq> None" using fv ensure_vrf_exists by simp
  have inv: "ipam_inv ?s2" "labels_unique m ?s2"
    using assms by (simp_all add: ensure_vrf_inv labels_unique_def ensure_vrf_prefixes m_def)
  note st = ensure_prefixes_settle [OF inv, of desired_prefixes, folded t]
  then have st': "ipam_inv ?t" "labels_unique m ?t" "\<forall>x \<in> set desired_prefixes. settled m ?t x"
    using desired_texts desired_labels by auto
  have "\<forall>x \<in> set desired_prefixes. ensure_prefix m ?t x = ?t"
    using st' desired_labels ensure_prefix_settled [of ?t m] by (metis prod.exhaust_sel)
  moreover have "ensure_ipam_defaults ?t = foldl (ensure_prefix m) ?t desired_prefixes"
    unfolding ensure_ipam_defaults_def [of ?t] Let_def
    using m2 i2 mt by (simp add: ensure_vrf_id)
  ultimately have "ensure_ipam_defaults ?t = ?t" by (simp add: foldl_id)
  moreover have "\<forall>(d, c) \<in> set desired_prefixes. \<exists>p \<in> set (prefixes ?t). px_vrf_id p = mgmt_vrf_id ?t \<and>
       (px_description p = Some d \<or> px_prefix p = c \<and> truthy (px_description p))"
    using st'(3) unfolding mt settled_def labelled_def by fastforce
  ultimately show ?thesis ..
qed

theorem seeding_idempotent_witness:
  "ensure_ipam_defaults (ensure_ipam_defaults small_ipam) = ensure_ipam_defaults small_ipam \<and>
   length (prefixes (ensure_ipam_defaults small_ipam)) = 7"
proof
  have "labels_unique (mgmt_vrf_id (ensure_vrf small_ipam ''mgmt'')) small_ipam"
    by (simp add: labels_unique_def small_ipam_def)
  from seeding_idempotent [OF small_ipam_inv this]
  show "ensure_ipam_defaults (ensure_ipam_defaults small_ipam) = ensure_ipam_defaults small_ipam" by blast
  show "length (prefixes (ensure_ipam_defaults small_ipam)) = 7" by code_simp
qed

end
