(* ===== verification/Provisioning.thy ===== *)
theory Provisioning
  imports Status Ipam Mac_Allocator
begin

text \<open>
  Provisioning: the constants (\<^verbatim>\<open>constants/provisioning.py\<close>), the dependency gates
  (\<^verbatim>\<open>services/provisioning_dependency.py\<close>), the orchestrator (\<^verbatim>\<open>services/provisioning_service.py\<close>), the L3
  set-up of router uplinks (\<^verbatim>\<open>services/provisioning_l3_auto.py\<close>) and the older module
  \<^verbatim>\<open>backend/provisioning.py\<close>. Of \<^verbatim>\<open>networkx\<close> the gates use membership, \<^verbatim>\<open>neighbors\<close> and \<^verbatim>\<open>subgraph\<close>: the neighbours of a
  node are the nodes an edge joins it to, and a subgraph keeps the edges between its nodes. SHA-1 is a
  parameter. A clash of the unique constraints on the name or the MAC address of \<^verbatim>\<open>mgmt0\<close> is not modelled.
\<close>

section \<open>Constants\<close>

definition PROVISIONABLE_TYPES :: "DeviceType set" where
  "PROVISIONABLE_TYPES = {CORE_ROUTER, EDGE_ROUTER, OLT, AON_SWITCH, ONT, BUSINESS_ONT, AON_CPE}"

definition POOL_KEY_MAP :: "DeviceType \<Rightarrow> string option" where
  "POOL_KEY_MAP t =
     (if t \<in> {CORE_ROUTER, EDGE_ROUTER} then Some ''core_mgmt''
      else if t \<in> {OLT, AON_SWITCH} then Some ''access_mgmt''
      else if t \<in> {ONT, BUSINESS_ONT} then Some ''ont_mgmt''
      else if t = AON_CPE then Some ''cpe_mgmt''
      else None)"

record parent_rule =
  requires_parent :: bool
  parent_type :: "DeviceType option"

definition DEVICE_PARENT_POOL_MAP :: "DeviceType \<Rightarrow> parent_rule option" where
  "DEVICE_PARENT_POOL_MAP t =
     (if t \<in> {OLT, AON_SWITCH} then Some \<lparr>requires_parent = False, parent_type = Some POP\<rparr> else None)"

record provision_prereq =
  requires_upstream_core :: bool
  requires_reachable_olt :: bool
  requires_reachable_aon_switch :: bool

definition no_prereq :: provision_prereq where
  "no_prereq = \<lparr>requires_upstream_core = False, requires_reachable_olt = False, requires_reachable_aon_switch = False\<rparr>"

definition PROVISION_MATRIX :: "DeviceType \<Rightarrow> provision_prereq option" where
  "PROVISION_MATRIX t =
     (if t = CORE_ROUTER then Some no_prereq
      else if t \<in> {EDGE_ROUTER, OLT, AON_SWITCH} then Some (no_prereq\<lparr>requires_upstream_core := True\<rparr>)
      else if t \<in> {ONT, BUSINESS_ONT} then Some (no_prereq\<lparr>requires_reachable_olt := True\<rparr>)
      else if t = AON_CPE then Some (no_prereq\<lparr>requires_reachable_aon_switch := True\<rparr>)
      else None)"

definition POOL_DEFS :: "string \<Rightarrow> string option" where
  "POOL_DEFS k = map_of [(''core_mgmt'', ''10.250.0.0/24''), (''access_mgmt'', ''10.250.4.0/24''),
     (''ont_mgmt'', ''10.250.1.0/24''), (''cpe_mgmt'', ''10.250.3.0/24'')] k"

section \<open>The older provisioning module\<close>

definition ensure_pool :: "ip_pool list \<Rightarrow> string \<Rightarrow> http_exception + (ip_pool \<times> ip_pool list)" where
  "ensure_pool pools k =
     (case find (\<lambda>p. pool_key p = k) pools of
        Some p \<Rightarrow> Inr (p, pools)
      | None \<Rightarrow>
          (case POOL_DEFS k of
             None \<Rightarrow> Inl (http 500 (''Unknown pool '' @ k))
           | Some c \<Rightarrow> let p = \<lparr>pool_key = k, pool_cidr = c, pool_next_index = 1\<rparr> in Inr (p, pools @ [p])))"

definition legacy_dependency_ok :: "db \<Rightarrow> device \<Rightarrow> bool" where
  "legacy_dependency_ok s d =
     (let has = (\<lambda>t. list_ex (\<lambda>x. dev_type x = t) (devices s))
      in case PROVISION_MATRIX (dev_type d) of
           None \<Rightarrow> True
         | Some q \<Rightarrow> \<not> (requires_upstream_core q \<and> \<not> has CORE_ROUTER) \<and>
                     \<not> (requires_reachable_olt q \<and> \<not> has OLT) \<and>
                     \<not> (requires_reachable_aon_switch q \<and> \<not> has AON_SWITCH))"

definition legacy_defaults :: "device \<Rightarrow> device" where
  "legacy_defaults d =
     (let d1 = (if dev_type d = OLT \<and> dev_tx_power_dbm d = None then d\<lparr>dev_tx_power_dbm := Some 5\<rparr> else d);
          d2 = (if dev_type d1 \<in> {ONT, BUSINESS_ONT} \<and> dev_sensitivity_min_dbm d1 = None
                then d1\<lparr>dev_sensitivity_min_dbm := Some (- 30)\<rparr> else d1);
          d3 = (if dev_type d2 = SPLITTER \<and> dev_insertion_loss_db d2 = None
                then d2\<lparr>dev_insertion_loss_db := Some (7 / 2)\<rparr> else d2);
          d4 = (if dev_type d3 = NVT \<and> dev_insertion_loss_db d3 = None
                then d3\<lparr>dev_insertion_loss_db := Some (1 / 10)\<rparr> else d3);
          d5 = (if dev_type d4 \<in> {ODF, HOP} \<and> dev_insertion_loss_db d4 = None
                then d4\<lparr>dev_insertion_loss_db := Some (1 / 2)\<rparr> else d4)
      in d5\<lparr>dev_provisioned := True\<rparr>)"

definition legacy_provision_device ::
    "v6_text \<Rightarrow> db \<Rightarrow> ip_pool list \<Rightarrow> device \<Rightarrow> exn + (device \<times> ip_pool list)" where
  "legacy_provision_device v6 s pools d =
     (if dev_type d \<notin> PROVISIONABLE_TYPES then Inl (Http (http 400 ''INVALID_PROVISION_PATH''))
      else if dev_provisioned d then Inl (Http (http 409 ''ALREADY_PROVISIONED''))
      else if \<not> legacy_dependency_ok s d then Inl (Http (http 400 ''INVALID_PROVISION_PATH''))
      else case POOL_KEY_MAP (dev_type d) of
             None \<Rightarrow> Inr (legacy_defaults d, pools)
           | Some k \<Rightarrow>
               (case ensure_pool pools k of
                  Inl e \<Rightarrow> Inl (Http e)
                | Inr (p, pools') \<Rightarrow>
                    (case allocate v6 p of
                       Inl PoolExhausted \<Rightarrow> Inl (Http (http 409 ''POOL_EXHAUSTED''))
                     | Inl _ \<Rightarrow> Inl ValueError
                     | Inr (ip, p') \<Rightarrow>
                         Inr (legacy_defaults d, map (\<lambda>x. if pool_key x = pool_key p then p' else x) pools'))))"

section \<open>Dependency gates\<close>

definition provisioned_upstream_available :: "device option \<Rightarrow> bool" where
  "provisioned_upstream_available d =
     (case d of None \<Rightarrow> False | Some x \<Rightarrow> dev_provisioned x \<and> dev_admin_override_status x \<noteq> Some DOWN)"

definition OPTICAL_INLINE_TYPES :: "string set" where
  "OPTICAL_INLINE_TYPES = {''ODF'', ''SPLITTER'', ''NVT'', ''HOP''}"

text \<open>The neighbours of a node in the subgraph over the nodes \<open>as\<close>, sorted.\<close>

definition sub_nbrs :: "'g nx \<Rightarrow> 'g \<Rightarrow> ident set \<Rightarrow> ident \<Rightarrow> ident list" where
  "sub_nbrs nx g as x =
     (if x \<in> as then sort (remdups (filter (\<lambda>y. y \<in> as \<and> nx_has_edge nx g x y) (map fst (nx_nodes_data nx g)))) else [])"

function bfs_path :: "'g nx \<Rightarrow> 'g \<Rightarrow> ident set \<Rightarrow> ident \<Rightarrow> (ident \<times> ident list) list \<Rightarrow> ident set \<Rightarrow> ident list option" where
  "bfs_path nx g as dst [] seen = None"
| "bfs_path nx g as dst ((node, path') # q) seen =
     (if node = dst then Some path'
      else let new = filter (\<lambda>nb. nb \<notin> seen) (sub_nbrs nx g as node)
           in bfs_path nx g as dst (q @ map (\<lambda>nb. (nb, path' @ [nb])) new) (seen \<union> set new))"
  by pat_completeness auto
termination
proof (relation "measure (\<lambda>(nx, g, as, dst, q, seen). card (nx_nodes nx g - seen) + length q)", simp)
  fix nx :: "'g nx" and g as dst node path' q seen new
  assume new: "new = filter (\<lambda>nb. nb \<notin> seen) (sub_nbrs nx g as node)"
  have "distinct new" "set new \<subseteq> nx_nodes nx g - seen" by (auto simp: new sub_nbrs_def nx_nodes_def split: if_splits)
  from flood_decreases [OF _ this, of q node]
  show "((nx, g, as, dst, q @ map (\<lambda>nb. (nb, path' @ [nb])) new, seen \<union> set new), nx, g, as, dst, (node, path') # q, seen)
      \<in> measure (\<lambda>(nx, g, as, dst, q, seen). card (nx_nodes nx g - seen) + length q)"
    by (simp add: nx_nodes_def)
qed

definition shortest_path :: "'g nx \<Rightarrow> 'g \<Rightarrow> ident set \<Rightarrow> ident \<Rightarrow> ident \<Rightarrow> ident list option" where
  "shortest_path nx g as src dst =
     (if src \<notin> nx_nodes nx g \<inter> as \<or> dst \<notin> nx_nodes nx g \<inter> as then None
      else bfs_path nx g as dst [(src, [src])] {src})"

definition has_valid_provisioned_olt_path :: "'g nx \<Rightarrow> db \<Rightarrow> device \<Rightarrow> bool" where
  "has_valid_provisioned_olt_path nx s d =
     (if dev_type d \<notin> {ONT, BUSINESS_ONT} then False
      else let (ds, ls, _) = dep_inputs s; g = build_optical_graph nx ds ls;
               as = dr_id ` {r \<in> set ds. dr_id r = dev_id d \<or> dr_type r = ''OLT'' \<or> dr_type r \<in> OPTICAL_INLINE_TYPES}
           in if dev_id d \<notin> nx_nodes nx g then False
              else list_ex (\<lambda>r. dr_type r = ''OLT'' \<and> provisioned_upstream_available (get_device s (dr_id r)) \<and>
                     (case shortest_path nx g as (dev_id d) (dr_id r) of None \<Rightarrow> False | Some p \<Rightarrow> p \<noteq> [])) ds)"

definition far_device :: "link_record \<Rightarrow> ident \<Rightarrow> ident option" where
  "far_device l d =
     (if lr_a_device_id l = d then Some (lr_b_device_id l)
      else if lr_b_device_id l = d then Some (lr_a_device_id l) else None)"

definition has_valid_provisioned_aon_switch_path :: "db \<Rightarrow> device \<Rightarrow> bool" where
  "has_valid_provisioned_aon_switch_path s d =
     (if dev_type d \<noteq> AON_CPE then False
      else list_ex (\<lambda>l. case far_device l (dev_id d) of
             None \<Rightarrow> False
           | Some k \<Rightarrow> (case get_device s k of
                          None \<Rightarrow> False
                        | Some x \<Rightarrow> dev_type x = AON_SWITCH \<and> provisioned_upstream_available (Some x)))
             (fst (snd (dep_inputs s))))"

definition dependency_ok :: "'g nx \<Rightarrow> db \<Rightarrow> device \<Rightarrow> bool" where
  "dependency_ok nx s d =
     (if dev_type d \<in> router_class then True
      else if dev_type d \<in> {ONT, BUSINESS_ONT} then has_valid_provisioned_olt_path nx s d
      else if dev_type d = AON_CPE then has_valid_provisioned_aon_switch_path s d
      else let res = upstream_result nx s d
           in if ul_ok res then True
              else if \<not> list_ex (\<lambda>x. dev_type x = BACKBONE_GATEWAY) (devices s) \<and>
                      set (ul_reasons res) \<subseteq> {''routers_no_l3''} \<and>
                      dev_type d \<in> {OLT, AON_SWITCH, ONT, BUSINESS_ONT, AON_CPE}
              then True
              else dev_type d \<in> router_class)"

text \<open>The code asks the memoised resolver. This is the same check with its tables passed along; on tables that no
  tools request has filled first it gives the same answer.\<close>

definition dependency_ok_memo :: "'g nx \<Rightarrow> bool \<Rightarrow> db \<Rightarrow> 'g dep_state \<Rightarrow> device \<Rightarrow> ('g dep_state \<times> bool) option" where
  "dependency_ok_memo nx uc s st d =
     (if dev_type d \<in> router_class then Some (st, True)
      else if dev_type d \<in> {ONT, BUSINESS_ONT} then Some (st, has_valid_provisioned_olt_path nx s d)
      else if dev_type d = AON_CPE then Some (st, has_valid_provisioned_aon_switch_path s d)
      else map_option (\<lambda>(st', res). (st',
             if ul_ok res then True
             else if \<not> list_ex (\<lambda>x. dev_type x = BACKBONE_GATEWAY) (devices s) \<and>
                     set (ul_reasons res) \<subseteq> {''routers_no_l3''} \<and>
                     dev_type d \<in> {OLT, AON_SWITCH, ONT, BUSINESS_ONT, AON_CPE}
             then True
             else dev_type d \<in> router_class))
           (has_upstream_l3_or_anchor nx uc s st d))"

lemma dependency_ok_refines:
  assumes "resolver_state nx s st" "get_device s (dev_id d) = Some d"
  shows "\<exists>st'. dependency_ok_memo nx uc s st d = Some (st', dependency_ok nx s d) \<and> resolver_state nx s st'"
  using resolver_query [OF assms, of uc] assms(1) by (auto simp: dependency_ok_memo_def dependency_ok_def Let_def)

section \<open>Checks before provisioning\<close>

definition access_dependency_error_message :: "DeviceType \<Rightarrow> string" where
  "access_dependency_error_message t =
     (if t = ONT then ''Cannot provision ONT: no valid provisioned OLT path found.''
      else if t = BUSINESS_ONT then ''Cannot provision BUSINESS_ONT: no valid provisioned OLT path found.''
      else ''Cannot provision AON_CPE: upstream AON_SWITCH is missing or not provisioned.'')"

definition access_parent_error :: "'g nx \<Rightarrow> db \<Rightarrow> device \<Rightarrow> http_exception option" where
  "access_parent_error nx s d =
     (if dev_type d \<in> {ONT, BUSINESS_ONT} \<and> \<not> has_valid_provisioned_olt_path nx s d \<or>
         dev_type d = AON_CPE \<and> \<not> has_valid_provisioned_aon_switch_path s d
      then Some (http 400 (access_dependency_error_message (dev_type d))) else None)"

definition parent_error :: "db \<Rightarrow> device \<Rightarrow> http_exception option" where
  "parent_error s d =
     (case DEVICE_PARENT_POOL_MAP (dev_type d) of
        Some rule \<Rightarrow>
          if requires_parent rule \<and> \<not> truthy (dev_parent_container_id d)
          then Some (raise_error CONTAINER_REQUIRED (Some ''missing parent'') None)
          else if truthy (dev_parent_container_id d) \<and>
                  map_option dev_type (get_device s (the (dev_parent_container_id d))) \<noteq> parent_type rule
          then Some (raise_error CONTAINER_REQUIRED (Some (''expected parent DeviceType.'' @
                 (case parent_type rule of None \<Rightarrow> [] | Some t \<Rightarrow> DeviceType_name t))) None)
          else None
      | None \<Rightarrow>
          if truthy (dev_parent_container_id d)
          then Some (raise_error INVALID_PROVISION_PATH (Some ''unexpected parent'') None) else None)"

definition adjacent_to_router :: "db \<Rightarrow> device \<Rightarrow> bool" where
  "adjacent_to_router s d =
     list_ex (\<lambda>l. case far_device l (dev_id d) of
         None \<Rightarrow> False
       | Some k \<Rightarrow> (case get_device s k of None \<Rightarrow> False | Some x \<Rightarrow> dev_type x \<in> router_class))
       (fst (snd (dep_inputs s)))"

definition provision_error :: "'g nx \<Rightarrow> db \<Rightarrow> device \<Rightarrow> http_exception option" where
  "provision_error nx s d =
     (if dev_type d \<notin> PROVISIONABLE_TYPES then Some (raise_error INVALID_PROVISION_PATH None None)
      else if dev_provisioned d then Some (raise_error ALREADY_PROVISIONED None None)
      else case parent_error s d of
             Some e \<Rightarrow> Some e
           | None \<Rightarrow>
               (case access_parent_error nx s d of
                  Some e \<Rightarrow> Some e
                | None \<Rightarrow>
                    if dev_type d = OLT \<and> \<not> adjacent_to_router s d
                    then Some (raise_error INVALID_PROVISION_PATH (Some ''no router adjacency'') None)
                    else if dev_type d \<notin> {OLT, ONT, BUSINESS_ONT, AON_CPE} \<and> \<not> dependency_ok nx s d
                    then Some (raise_error INVALID_PROVISION_PATH (Some ''upstream dependency failed'') None)
                    else None))"

section \<open>The management address\<close>

definition role_to_cidr :: "string \<Rightarrow> string option" where
  "role_to_cidr r = map_of [(''core_mgmt'', ''10.252.0.0/24''), (''olt_mgmt'', ''10.251.0.0/24''),
     (''ont_mgmt'', ''10.250.0.0/16''), (''aon_mgmt'', ''10.253.0.0/24''), (''cpe_mgmt'', ''10.254.0.0/24'')] r"

definition find_role_prefix :: "db \<Rightarrow> string \<Rightarrow> ip_prefix option" where
  "find_role_prefix s role =
     (case find (\<lambda>p. px_description p = Some role) (prefixes s) of
        Some p \<Rightarrow> Some p
      | None \<Rightarrow>
          (case role_to_cidr role of None \<Rightarrow> None | Some c \<Rightarrow> find (\<lambda>p. px_prefix p = c) (prefixes s)))"

definition taken_in_vrf :: "db \<Rightarrow> int \<Rightarrow> string \<Rightarrow> bool" where
  "taken_in_vrf s v ip \<longleftrightarrow> list_ex (\<lambda>a. ia_vrf_id a = Some v \<and> ia_ip a = ip) (addresses s)"

definition add_address :: "db \<Rightarrow> ident \<Rightarrow> string \<Rightarrow> int \<Rightarrow> int option \<Rightarrow> int option \<Rightarrow> db" where
  "add_address s i ip len v p =
     s\<lparr>addresses := addresses s @ [\<lparr>ia_id = next_row_id (map ia_id (addresses s)), ia_interface_id = i, ia_ip = ip,
        ia_prefix_len = len, ia_vrf_id = v, ia_prefix_id = p\<rparr>]\<rparr>"

definition exhausted :: exn where
  "exhausted = Http (raise_error POOL_EXHAUSTED None None)"

text \<open>The loop around the insertion of the address. The first argument counts the attempts that are left.
  An insertion that violates a unique constraint rolls the transaction back to \<open>s0\<close>.\<close>

fun address_loop ::
    "v6_text \<Rightarrow> nat \<Rightarrow> db \<Rightarrow> ip_prefix \<Rightarrow> vrf option \<Rightarrow> ident \<Rightarrow> db \<Rightarrow> string \<times> nat \<Rightarrow> exn + (db \<times> string)" where
  "address_loop v6 0 s0 p v i s c = Inl exhausted"
| "address_loop v6 (Suc k) s0 p v i s c =
     (case (case v of
              Some x \<Rightarrow> if taken_in_vrf s (vrf_id x) (fst c) then next_free_ip_in_prefix v6 s p else Inr (Some c)
            | None \<Rightarrow> Inr (Some c)) of
        Inl e \<Rightarrow> Inl e
      | Inr None \<Rightarrow> Inl exhausted
      | Inr (Some (ip, len)) \<Rightarrow>
          if \<not> address_conflict s ip (map_option vrf_id v) (Some (px_id p))
          then Inr (add_address s i ip (int len) (map_option vrf_id v) (Some (px_id p)), ip)
          else case next_free_ip_in_prefix v6 s0 p of
                 Inl e \<Rightarrow> Inl e
               | Inr None \<Rightarrow> Inl exhausted
               | Inr (Some c') \<Rightarrow> address_loop v6 k s0 p v i s0 c')"

record mgmt_addr =
  ma_db :: db
  ma_ip :: string
  ma_vrf :: "vrf option"
  ma_prefix :: ip_prefix

definition mgmt_interface :: "device \<Rightarrow> string \<Rightarrow> iface" where
  "mgmt_interface d mac =
     (Interface (dev_id d @ ''-mgmt0'') (dev_id d) ''mgmt0'')\<lparr>if_role := Some ROLE_MANAGEMENT, if_mac_address := Some mac\<rparr>"

text \<open>\<open>s0\<close> is the committed database, \<open>s\<close> the one after seeding.\<close>

definition bind_mgmt :: "v6_text \<Rightarrow> string \<Rightarrow> db \<Rightarrow> db \<Rightarrow> device \<Rightarrow> ip_prefix \<Rightarrow> string \<times> nat \<Rightarrow> exn + mgmt_addr" where
  "bind_mgmt v6 mac s0 s d p c =
     (let i = dev_id d @ ''-mgmt0''; existing = get_interface s i;
          addr = find (\<lambda>a. ia_interface_id a = i) (addresses s);
          v = get_vrf s (px_vrf_id p)
      in if existing \<noteq> None \<and> addr \<noteq> None
         then if dev_type d \<in> {CORE_ROUTER, EDGE_ROUTER}
              then (let p' = (case Option.bind (ia_prefix_id (the addr)) (get_prefix s) of Some x \<Rightarrow> x | None \<Rightarrow> p)
                    in Inr \<lparr>ma_db = s, ma_ip = ia_ip (the addr),
                            ma_vrf = (if px_vrf_id p' \<noteq> 0 then get_vrf s (px_vrf_id p') else None), ma_prefix = p'\<rparr>)
              else Inl (Http (raise_error DUPLICATE_MGMT_INTERFACE None None))
         else (let s1 = (if existing = None then s\<lparr>interfaces := interfaces s @ [mgmt_interface d mac]\<rparr> else s)
               in if addr \<noteq> None then Inr \<lparr>ma_db = s1, ma_ip = fst c, ma_vrf = v, ma_prefix = p\<rparr>
                  else case address_loop v6 5 s0 p v i s1 c of
                         Inl e \<Rightarrow> Inl e
                       | Inr (s2, ip) \<Rightarrow> Inr \<lparr>ma_db = s2, ma_ip = ip, ma_vrf = v, ma_prefix = p\<rparr>))"

definition assign_mgmt :: "v6_text \<Rightarrow> string \<Rightarrow> db \<Rightarrow> device \<Rightarrow> exn + (db \<times> mgmt_addr option)" where
  "assign_mgmt v6 mac s0 d =
     (let s = ensure_ipam_defaults s0
      in case classify_prefix_role (dev_type d) of
           None \<Rightarrow> Inr (s, None)
         | Some role \<Rightarrow>
             (let (s, p) = (case find_role_prefix s role of
                              Some p \<Rightarrow> (s, Some p)
                            | None \<Rightarrow> (let s = ensure_ipam_defaults s in (s, find_role_prefix s role)))
              in case p of
                   None \<Rightarrow> Inl (Http (raise_error INVALID_PROVISION_PATH (Some (''missing prefix '' @ role)) None))
                 | Some p \<Rightarrow>
                     (case next_free_ip_in_prefix v6 s p of
                        Inl e \<Rightarrow> Inl e
                      | Inr None \<Rightarrow> Inl exhausted
                      | Inr (Some c) \<Rightarrow>
                          (case bind_mgmt v6 mac s0 s d p c of Inl e \<Rightarrow> Inl e | Inr m \<Rightarrow> Inr (ma_db m, Some m)))))"

section \<open>Router uplinks\<close>

definition stable_ptp_pair :: "(string \<Rightarrow> nat list) \<Rightarrow> ident \<Rightarrow> string \<times> string \<times> int" where
  "stable_ptp_pair sha1 lid =
     (let h = sha1 lid; x = h ! 0; y = 2 * (h ! 1 div 2)
      in (''172.18.'' @ show_nat x @ ''.'' @ show_nat y, ''172.18.'' @ show_nat x @ ''.'' @ show_nat (y + 1), 31))"

text \<open>A row that violates a unique constraint makes the next query raise, which is \<open>None\<close>.\<close>

definition ensure_addr :: "db \<Rightarrow> ident \<Rightarrow> string \<Rightarrow> int \<Rightarrow> int option \<Rightarrow> db option" where
  "ensure_addr s i ip plen v =
     (if list_ex (\<lambda>a. ia_interface_id a = i \<and> ia_ip a = ip) (addresses s) then Some s
      else if list_ex (\<lambda>a. ia_interface_id a = i) (addresses s) then Some s
      else if address_conflict s ip v None then None
      else Some (add_address s i ip plen v None))"

definition neighbor_mac :: "(string \<Rightarrow> nat list) \<Rightarrow> ident \<Rightarrow> ident \<Rightarrow> string \<Rightarrow> string" where
  "neighbor_mac sha1 lid i ip =
     (let d = sha1 (lid @ '':'' @ i @ '':'' @ ip)
      in join '':'' (''02'' # map (\<lambda>k. hex_byte (int (d ! k))) [0, 1, 2, 3, 4]))"

definition ensure_neighbor :: "(string \<Rightarrow> nat list) \<Rightarrow> db \<Rightarrow> ident \<Rightarrow> string \<Rightarrow> ident \<Rightarrow> db" where
  "ensure_neighbor sha1 s i ip lid =
     (if list_ex (\<lambda>n. nb_interface_id n = i \<and> nb_ip_address n = ip) (neighbors s) then s
      else s\<lparr>neighbors := neighbors s @ [\<lparr>nb_interface_id = i, nb_ip_address = ip, nb_mac_address = neighbor_mac sha1 lid i ip\<rparr>]\<rparr>)"

definition ensure_default_route :: "db \<Rightarrow> ident list \<Rightarrow> int \<Rightarrow> ident \<Rightarrow> string \<Rightarrow> db" where
  "ensure_default_route s my_ifs v i nh =
     (let defaults = filter (\<lambda>r. rt_vrf_id r = v \<and> rt_prefix r = ''0.0.0.0/0'') (routes s)
      in if list_ex (\<lambda>r. rt_interface_id r = Some i \<and> rt_next_hop r = Some nh) defaults then s
         else if list_ex (\<lambda>r. \<exists>k \<in> set my_ifs. rt_interface_id r = Some k) defaults then s
         else s\<lparr>routes := routes s @ [\<lparr>rt_id = Some (next_row_id (List.map_filter rt_id (routes s))), rt_vrf_id = v,
                 rt_prefix = ''0.0.0.0/0'', rt_next_hop = Some nh, rt_interface_id = Some i, rt_admin_distance = 1,
                 rt_metric = 0\<rparr>]\<rparr>)"

definition set_admin_up :: "db \<Rightarrow> ident \<Rightarrow> db" where
  "set_admin_up s i =
     s\<lparr>interfaces := map (\<lambda>r. if if_id r = i \<and> if_admin_status r = ADMIN_DOWN then r\<lparr>if_admin_status := ADMIN_UP\<rparr> else r)
        (interfaces s)\<rparr>"

definition upstream_pair :: "DeviceType \<Rightarrow> DeviceType \<Rightarrow> bool" where
  "upstream_pair t peer \<longleftrightarrow> t = EDGE_ROUTER \<and> peer = CORE_ROUTER \<or> t = CORE_ROUTER \<and> peer = BACKBONE_GATEWAY"

definition uplink_step :: "(string \<Rightarrow> nat list) \<Rightarrow> device \<Rightarrow> int \<Rightarrow> ident list \<Rightarrow> db \<Rightarrow> link \<Rightarrow> db option" where
  "uplink_step sha1 d v my_ifs s lk =
     (if ln_a_interface_id lk \<notin> set my_ifs \<and> ln_b_interface_id lk \<notin> set my_ifs then Some s
      else let my_if = (if ln_a_interface_id lk \<in> set my_ifs then ln_a_interface_id lk else ln_b_interface_id lk);
               peer_if = (if my_if = ln_a_interface_id lk then ln_b_interface_id lk else ln_a_interface_id lk)
           in case owner s peer_if of
                None \<Rightarrow> Some s
              | Some peer_dev \<Rightarrow>
                  if \<not> upstream_pair (dev_type d) (dev_type peer_dev) then Some s
                  else let s1 = set_admin_up (set_admin_up s my_if) peer_if;
                           lid = (if ln_id lk \<noteq> [] then ln_id lk else my_if @ ''--'' @ peer_if);
                           (a_ip, b_ip, plen) = stable_ptp_pair sha1 lid;
                           (my_ip, peer_ip) = (if my_if < peer_if then (a_ip, b_ip) else (b_ip, a_ip));
                           peer_v = (case dev_vrf_id peer_dev of Some k \<Rightarrow> if k = 0 then v else k | None \<Rightarrow> v)
                       in case ensure_addr s1 my_if my_ip plen (Some v) of
                            None \<Rightarrow> None
                          | Some s2 \<Rightarrow>
                              (case ensure_addr s2 peer_if peer_ip plen (Some peer_v) of
                                 None \<Rightarrow> None
                               | Some s3 \<Rightarrow>
                                   (let s4 = ensure_neighbor sha1 s3 my_if peer_ip (ln_id lk);
                                        s5 = ensure_neighbor sha1 s4 peer_if my_ip (ln_id lk)
                                    in Some (ensure_default_route s5 my_ifs v my_if peer_ip))))"

fun uplink_loop :: "(string \<Rightarrow> nat list) \<Rightarrow> device \<Rightarrow> int \<Rightarrow> ident list \<Rightarrow> db \<Rightarrow> link list \<Rightarrow> db option" where
  "uplink_loop sha1 d v my_ifs s [] = Some s"
| "uplink_loop sha1 d v my_ifs s (l # ls) =
     (case uplink_step sha1 d v my_ifs s l of None \<Rightarrow> None | Some s' \<Rightarrow> uplink_loop sha1 d v my_ifs s' ls)"

definition update_device :: "db \<Rightarrow> device \<Rightarrow> db" where
  "update_device s d = s\<lparr>devices := map (\<lambda>x. if dev_id x = dev_id d then d else x) (devices s)\<rparr>"

definition auto_configure_l3_uplinks :: "(string \<Rightarrow> nat list) \<Rightarrow> db \<Rightarrow> device \<Rightarrow> db option" where
  "auto_configure_l3_uplinks sha1 s d =
     (if dev_type d \<notin> {EDGE_ROUTER, CORE_ROUTER} then Some s
      else let s = (if find_vrf s ''mgmt'' = None then ensure_ipam_defaults s else s)
           in case find_vrf s ''mgmt'' of
                None \<Rightarrow> Some s
              | Some m \<Rightarrow>
                  (let v = (case dev_vrf_id d of Some k \<Rightarrow> k | None \<Rightarrow> vrf_id m);
                       d = d\<lparr>dev_vrf_id := Some v\<rparr>; s = update_device s d;
                       my_ifs = map if_id (filter (\<lambda>i. if_device_id i = dev_id d) (interfaces s))
                   in if my_ifs = [] then Some s else uplink_loop sha1 d v my_ifs s (links s)))"

section \<open>The orchestrator\<close>

record prov_record =
  pv_ts :: string
  pv_device_id :: ident
  pv_interface_id :: ident
  pv_ip :: string
  pv_vrf_id :: "int option"
  pv_prefix_id :: int
  pv_actor :: string
  pv_correlation_id :: "string option"

record pworld =
  pw_world :: world
  pw_records :: "prov_record list"

record 'g penv =
  pe_cenv :: cenv
  pe_nx :: "'g nx"
  pe_v6 :: v6_text
  pe_sha1 :: "string \<Rightarrow> nat list"
  pe_actor :: string
  pe_correlation_id :: "string option"

definition provision_defaults :: "device \<Rightarrow> device" where
  "provision_defaults d =
     (let d1 = (if dev_type d = OLT \<and> dev_tx_power_dbm d = None then d\<lparr>dev_tx_power_dbm := Some 5\<rparr> else d);
          d2 = (if dev_type d1 \<in> {ONT, BUSINESS_ONT} \<and> dev_sensitivity_min_dbm d1 = None
                then d1\<lparr>dev_sensitivity_min_dbm := Some (- 30)\<rparr> else d1)
      in d2\<lparr>dev_provisioned := True\<rparr>)"

definition audit_record :: "'g penv \<Rightarrow> device \<Rightarrow> mgmt_addr \<Rightarrow> prov_record" where
  "audit_record env d m =
     \<lparr>pv_ts = ce_now (pe_cenv env), pv_device_id = dev_id d, pv_interface_id = dev_id d @ ''-mgmt0'', pv_ip = ma_ip m,
      pv_vrf_id = map_option vrf_id (ma_vrf m), pv_prefix_id = px_id (ma_prefix m), pv_actor = pe_actor env,
      pv_correlation_id = pe_correlation_id env\<rparr>"

text \<open>The transaction up to the commit, and what follows it: the version, the event and the uplinks. A failure
  to set up the uplinks is ignored and leaves what was committed.\<close>

definition provision_device :: "'g penv \<Rightarrow> pworld \<Rightarrow> device \<Rightarrow> pworld \<times> (exn + device)" where
  "provision_device env pw d =
     (let w = pw_world pw; s0 = w_db w
      in case provision_error (pe_nx env) s0 d of
           Some e \<Rightarrow> (pw, Inl (Http e))
         | None \<Rightarrow>
             (case assign_mgmt (pe_v6 env) (ce_mac_a (pe_cenv env)) s0 d of
                Inl e \<Rightarrow> (pw, Inl e)
              | Inr (s1, m) \<Rightarrow>
                  (let ip = jopt (\<lambda>m. JStr (ma_ip m)) m
                   in case append_domain_event (bus_store (w_bus w)) ''PROVISIONING_UPDATED'' (dev_id d)
                             [(''device_type'', JStr (DeviceType_name (dev_type d))), (''provisioned'', JBool True), (''ip'', ip)]
                             None (ce_now (pe_cenv env)) of
                        Inl msg \<Rightarrow> (pw, Inl (Http (http 500 msg)))
                      | Inr st \<Rightarrow>
                          (let d' = provision_defaults d; s2 = update_device s1 d';
                               recs = pw_records pw @ (case m of None \<Rightarrow> [] | Some m \<Rightarrow> [audit_record env d m]);
                               w1 = w\<lparr>w_db := s2, w_bus := (w_bus w)\<lparr>bus_store := st\<rparr>\<rparr>;
                               (tv, w2) = Links.bump_version w1;
                               w3 = emit (pe_cenv env) w2 ''device.provisioned''
                                      [(''id'', JStr (dev_id d)), (''type'', JStr (DeviceType_name (dev_type d))), (''ip'', ip)] tv;
                               s3 = (case auto_configure_l3_uplinks (pe_sha1 env) s2 d' of Some s \<Rightarrow> s | None \<Rightarrow> s2)
                           in (\<lparr>pw_world = w3\<lparr>w_db := s3\<rparr>, pw_records = recs\<rparr>,
                               Inr (the (get_device s3 (dev_id d))))))))"

section \<open>What the gates decide\<close>

text \<open>A search is found or not whatever the paths that accompany the nodes of its queue.\<close>

lemma bfs_path_None_cong:
  "map fst q = map fst q' \<Longrightarrow> bfs_path nx g as dst q R = None \<longleftrightarrow> bfs_path nx g as dst q' R = None"
proof (induction nx g as dst q R arbitrary: q' rule: bfs_path.induct)
  case (2 nx g as dst node p q seen)
  then obtain p' r where q': "q' = (node, p') # r" "map fst q = map fst r" by (cases q') auto
  show ?case
  proof (cases "node = dst")
    case False
    let ?new = "filter (\<lambda>nb. nb \<notin> seen) (sub_nbrs nx g as node)"
    have "map fst (q @ map (\<lambda>nb. (nb, p @ [nb])) ?new) = map fst (r @ map (\<lambda>nb. (nb, p' @ [nb])) ?new)"
      using q'(2) by (simp add: comp_def)
    from 2(1) [OF False refl this] False show ?thesis by (simp add: q'(1) Let_def)
  qed (simp add: q'(1))
qed simp

interpretation olt_search: flood_search "\<lambda>x. set (sub_nbrs nx g as x)"
  "\<lambda>x q R. q @ filter (\<lambda>nb. nb \<notin> R) (sub_nbrs nx g as x)" "\<lambda>x. x = dst"
  "\<lambda>q R. bfs_path nx g as dst (map (\<lambda>x. (x, [])) q) R \<noteq> None" for nx g as dst
proof
  show "P q R" if "\<And>R. P [] R"
    "\<And>x q R. P (q @ filter (\<lambda>nb. nb \<notin> R) (sub_nbrs nx g as x)) (R \<union> set (sub_nbrs nx g as x)) \<Longrightarrow> P (x # q) R"
    for P and q :: "ident list" and R
  proof (induction "card (nx_nodes nx g - R) + length q" arbitrary: q R rule: less_induct)
    case less
    show ?case
    proof (cases q)
      case (Cons x q')
      let ?ns = "filter (\<lambda>nb. nb \<notin> R) (sub_nbrs nx g as x)"
      have "finite (nx_nodes nx g)" "distinct ?ns" "set ?ns \<subseteq> nx_nodes nx g - R"
        by (auto simp: sub_nbrs_def nx_nodes_def split: if_splits)
      from flood_decreases [OF this, of q' x]
      have "P (q' @ ?ns) (R \<union> set ?ns)" using Cons by (intro less) simp
      moreover have "R \<union> set ?ns = R \<union> set (sub_nbrs nx g as x)" by auto
      ultimately show ?thesis using Cons by (simp add: that(2))
    qed (simp add: that(1))
  qed
next
  fix x q R
  let ?ns = "filter (\<lambda>nb. nb \<notin> R) (sub_nbrs nx g as x)"
  have "R \<union> set ?ns = R \<union> set (sub_nbrs nx g as x)" by auto
  moreover have "bfs_path nx g as dst (map (\<lambda>x. (x, [])) q @ map (\<lambda>nb. (nb, [nb])) ?ns) V = None \<longleftrightarrow>
      bfs_path nx g as dst (map (\<lambda>x. (x, [])) (q @ ?ns)) V = None" for V
    by (rule bfs_path_None_cong) (simp add: comp_def)
  ultimately show "(bfs_path nx g as dst (map (\<lambda>x. (x, [])) (x # q)) R \<noteq> None) \<longleftrightarrow>
      x = dst \<or> bfs_path nx g as dst (map (\<lambda>x. (x, [])) (q @ ?ns)) (R \<union> set (sub_nbrs nx g as x)) \<noteq> None"
    by (simp add: Let_def del: not_None_eq)
qed auto

lemma shortest_path_reach:
  "shortest_path nx g as src dst \<noteq> None \<longleftrightarrow> src \<in> nx_nodes nx g \<inter> as \<and> dst \<in> nx_nodes nx g \<inter> as \<and>
     dst \<in> reach_from (\<lambda>x. set (sub_nbrs nx g as x)) {src}"
proof -
  have "bfs_path nx g as dst [(src, [src])] {src} = None \<longleftrightarrow> bfs_path nx g as dst (map (\<lambda>x. (x, [])) [src]) {src} = None"
    by (rule bfs_path_None_cong) simp
  then show ?thesis
    using olt_search.found_iff_reach [where q = "[src]" and nx = nx and g = g and as = as and dst = dst]
    by (auto simp: shortest_path_def)
qed

text \<open>The nodes reached are the ends of the walks that stay in the subgraph.\<close>

lemma set_sub_nbrs: "y \<in> set (sub_nbrs nx g as x) \<longleftrightarrow> y \<in> nx_nodes nx g \<inter> as \<and> x \<in> as \<and> nx_has_edge nx g x y"
  by (cases "x \<in> as") (auto simp: sub_nbrs_def nx_nodes_def)

lemma reach_sub_walk:
  assumes "src \<in> nx_nodes nx g \<inter> as"
  shows "dst \<in> reach_from (\<lambda>x. set (sub_nbrs nx g as x)) {src} \<longleftrightarrow>
     (\<exists>p. nx_walk nx g src p \<and> set p \<subseteq> nx_nodes nx g \<inter> as \<and> last p = dst)"
proof
  assume "dst \<in> reach_from (\<lambda>x. set (sub_nbrs nx g as x)) {src}"
  then show "\<exists>p. nx_walk nx g src p \<and> set p \<subseteq> nx_nodes nx g \<inter> as \<and> last p = dst"
  proof (induction rule: reach_from_induct)
    case (base x)
    then show ?case using assms by (intro exI [of _ "[x]"]) (simp add: nx_walk_def)
  next
    case (step x y)
    from step have y: "y \<in> set (sub_nbrs nx g as x)" by blast
    from step obtain p where "nx_walk nx g src p" "set p \<subseteq> nx_nodes nx g \<inter> as" "last p = x" by blast
    with y show ?case
      by (intro exI [of _ "p @ [y]"]) (auto simp: nx_walk_def set_sub_nbrs successively_append_iff)
  qed
next
  assume "\<exists>p. nx_walk nx g src p \<and> set p \<subseteq> nx_nodes nx g \<inter> as \<and> last p = dst"
  then obtain p where "nx_walk nx g src p" "set p \<subseteq> nx_nodes nx g \<inter> as" "last p = dst" by blast
  then show "dst \<in> reach_from (\<lambda>x. set (sub_nbrs nx g as x)) {src}"
  proof (induction p arbitrary: dst rule: rev_induct)
    case (snoc y p)
    show ?case
    proof (cases "p = []")
      case True
      then show ?thesis using snoc.prems reach_from_incl [of "{src}"] by (auto simp: nx_walk_def)
    next
      case False
      with snoc.prems have "nx_walk nx g src p" "nx_has_edge nx g (last p) y" "last p \<in> as"
        by (auto simp: nx_walk_def successively_append_iff)
      with snoc show ?thesis by (auto simp: set_sub_nbrs intro: reach_from_closed)
    qed
  qed (simp add: nx_walk_def)
qed

lemma shortest_path_walk:
  "shortest_path nx g as src dst \<noteq> None \<longleftrightarrow> (\<exists>p. nx_walk nx g src p \<and> set p \<subseteq> nx_nodes nx g \<inter> as \<and> last p = dst)"
proof (cases "src \<in> nx_nodes nx g \<inter> as")
  case True
  have "last p \<in> nx_nodes nx g \<inter> as" if "nx_walk nx g src p" "set p \<subseteq> nx_nodes nx g \<inter> as" for p
    using that last_in_set [of p] unfolding nx_walk_def by blast
  then show ?thesis using True reach_sub_walk [OF True, of dst] unfolding shortest_path_reach by blast
next
  case False
  have "src \<in> set p" if "nx_walk nx g src p" for p using that hd_in_set [of p] unfolding nx_walk_def by blast
  with False show ?thesis unfolding shortest_path_reach by blast
qed

lemma bfs_path_nonempty:
  "bfs_path nx g as dst q R = Some p \<Longrightarrow> [] \<notin> snd ` set q \<Longrightarrow> p \<noteq> []"
proof (induction nx g as dst q R rule: bfs_path.induct)
  case (2 nx g as dst node p' q seen)
  show ?case
  proof (cases "node = dst")
    case False
    have ne: "[] \<notin> snd ` set (q @ map (\<lambda>nb. (nb, p' @ [nb])) ns)" for ns using 2(3) by auto
    show ?thesis by (rule 2(1) [OF False refl _ ne]) (use 2(2) False in \<open>simp add: Let_def\<close>)
  qed (use 2 in auto)
qed simp

lemma shortest_path_nonempty: "shortest_path nx g as src dst \<noteq> Some []"
  using bfs_path_nonempty [of nx g as dst "[(src, [src])]" "{src}" "[]"] by (auto simp: shortest_path_def)

text \<open>What the gates mean. A device that is forced down is not part of the graph.\<close>

definition access_graph :: "'g nx \<Rightarrow> db \<Rightarrow> 'g" where
  "access_graph nx s = build_optical_graph nx (fst (dep_inputs s)) (fst (snd (dep_inputs s)))"

definition fed_by_olt :: "'g nx \<Rightarrow> db \<Rightarrow> device \<Rightarrow> bool" where
  "fed_by_olt nx s d \<longleftrightarrow>
     (\<exists>p. nx_walk nx (access_graph nx s) (dev_id d) p \<and> set p \<subseteq> nx_nodes nx (access_graph nx s) \<and>
        (\<forall>k \<in> set p. \<exists>e \<in> set (dep_devices s). dev_id e = k \<and> (k = dev_id d \<or> dev_type e \<in> {OLT, ODF, SPLITTER, NVT, HOP})) \<and>
        (\<exists>x \<in> set (dep_devices s). dev_id x = last p \<and> dev_type x = OLT \<and> dev_provisioned x))"

definition fed_by_switch :: "db \<Rightarrow> device \<Rightarrow> bool" where
  "fed_by_switch s d \<longleftrightarrow>
     (\<exists>l \<in> set (fst (snd (dep_inputs s))). \<exists>x \<in> set (dep_devices s).
        far_device l (dev_id d) = Some (dev_id x) \<and> dev_type x = AON_SWITCH \<and> dev_provisioned x)"

definition next_to_router :: "db \<Rightarrow> device \<Rightarrow> bool" where
  "next_to_router s d \<longleftrightarrow>
     (\<exists>l \<in> set (fst (snd (dep_inputs s))). \<exists>x \<in> set (devices s).
        far_device l (dev_id d) = Some (dev_id x) \<and> dev_type x \<in> router_class)"

lemma DeviceType_name_OLT [simp]: "DeviceType_name t = ''OLT'' \<longleftrightarrow> t = OLT"
  by (cases t) simp_all

lemma DeviceType_name_inline [simp]: "DeviceType_name t \<in> OPTICAL_INLINE_TYPES \<longleftrightarrow> t \<in> {ODF, SPLITTER, NVT, HOP}"
  by (cases t) (simp_all add: OPTICAL_INLINE_TYPES_def)

lemma provisioned_upstream_available_iff:
  assumes "wf_db s" "x \<in> set (devices s)"
  shows "provisioned_upstream_available (get_device s (dev_id x)) \<longleftrightarrow> dev_provisioned x \<and> x \<in> set (dep_devices s)"
  using assms by (simp add: wf_db_get_device provisioned_upstream_available_def dep_devices_def)

lemma olt_path_iff_fed:
  assumes "wf_db s"
  shows "has_valid_provisioned_olt_path nx s d \<longleftrightarrow> dev_type d \<in> {ONT, BUSINESS_ONT} \<and> fed_by_olt nx s d"
proof (cases "dev_type d \<in> {ONT, BUSINESS_ONT}")
  case True
  let ?g = "access_graph nx s" and ?ds = "fst (dep_inputs s)"
  define as where "as = dr_id ` {r \<in> set ?ds. dr_id r = dev_id d \<or> dr_type r = ''OLT'' \<or> dr_type r \<in> OPTICAL_INLINE_TYPES}"
  have ds: "(\<exists>r \<in> set ?ds. P (dr_id r) (dr_type r)) \<longleftrightarrow> (\<exists>x \<in> set (dep_devices s). P (dev_id x) (DeviceType_name (dev_type x)))" for P
    by (simp add: dep_inputs_def device_records_def)
  have as: "k \<in> as \<longleftrightarrow> (\<exists>e \<in> set (dep_devices s). dev_id e = k \<and> (k = dev_id d \<or> dev_type e \<in> {OLT, ODF, SPLITTER, NVT, HOP}))" for k
  proof -
    have "k \<in> as \<longleftrightarrow> (\<exists>r \<in> set ?ds. k = dr_id r \<and> (dr_id r = dev_id d \<or> dr_type r = ''OLT'' \<or> dr_type r \<in> OPTICAL_INLINE_TYPES))"
      unfolding as_def by blast
    then show ?thesis
      unfolding ds [of "\<lambda>i t. k = i \<and> (i = dev_id d \<or> t = ''OLT'' \<or> t \<in> OPTICAL_INLINE_TYPES)"] by auto
  qed
  have ne: "(case q of None \<Rightarrow> False | Some p \<Rightarrow> p \<noteq> []) \<longleftrightarrow> q \<noteq> None" if "q \<noteq> Some []" for q :: "ident list option"
    using that by (cases q) auto
  have "has_valid_provisioned_olt_path nx s d \<longleftrightarrow> dev_id d \<in> nx_nodes nx ?g \<and>
      (\<exists>r \<in> set ?ds. dr_type r = ''OLT'' \<and> provisioned_upstream_available (get_device s (dr_id r)) \<and>
         shortest_path nx ?g as (dev_id d) (dr_id r) \<noteq> None)"
    using True
    by (simp add: has_valid_provisioned_olt_path_def access_graph_def as_def Let_def list_ex_iff split_beta
        ne [OF shortest_path_nonempty] del: not_None_eq)
  also have "\<dots> \<longleftrightarrow> (\<exists>x \<in> set (dep_devices s). dev_type x = OLT \<and> dev_provisioned x \<and>
      shortest_path nx ?g as (dev_id d) (dev_id x) \<noteq> None)"
  proof -
    have src: "shortest_path nx ?g as (dev_id d) k \<noteq> None \<Longrightarrow> dev_id d \<in> nx_nodes nx ?g" for k
      unfolding shortest_path_reach by blast
    have av: "x \<in> set (dep_devices s) \<Longrightarrow> provisioned_upstream_available (get_device s (dev_id x)) \<longleftrightarrow> dev_provisioned x" for x
      using provisioned_upstream_available_iff [OF assms, of x] by (simp add: dep_devices_def)
    show ?thesis
      unfolding ds [of "\<lambda>k t. t = ''OLT'' \<and> provisioned_upstream_available (get_device s k) \<and> shortest_path nx ?g as (dev_id d) k \<noteq> None"]
        DeviceType_name_OLT using src av by blast
  qed
  also have "\<dots> \<longleftrightarrow> fed_by_olt nx s d"
  proof -
    have swap: "(\<exists>x \<in> D. A x \<and> B x \<and> (\<exists>p. W p \<and> set p \<subseteq> N \<inter> as \<and> R p x)) \<longleftrightarrow>
        (\<exists>p. W p \<and> set p \<subseteq> N \<and> (\<forall>k \<in> set p. k \<in> as) \<and> (\<exists>x \<in> D. R p x \<and> A x \<and> B x))" for D A B W N R
      by blast
    show ?thesis unfolding fed_by_olt_def as [symmetric] shortest_path_walk eq_commute [of "dev_id _" "last _"]
      by (rule swap)
  qed
  finally show ?thesis using True by blast
qed (simp add: has_valid_provisioned_olt_path_def)

lemma case_option_iff: "(case x of None \<Rightarrow> False | Some y \<Rightarrow> P y) \<longleftrightarrow> (\<exists>y. x = Some y \<and> P y)"
  by (cases x) auto

lemma get_device_cases:
  assumes "wf_db s"
  shows "(case get_device s k of None \<Rightarrow> False | Some x \<Rightarrow> P x) \<longleftrightarrow> (\<exists>x \<in> set (devices s). dev_id x = k \<and> P x)"
  unfolding case_option_iff using wf_db_get_device [OF assms] dev.get_SomeD [of s k] by metis

lemma switch_path_iff_fed:
  assumes "wf_db s"
  shows "has_valid_provisioned_aon_switch_path s d \<longleftrightarrow> dev_type d = AON_CPE \<and> fed_by_switch s d"
proof -
  have "(case get_device s k of None \<Rightarrow> False | Some x \<Rightarrow> dev_type x = AON_SWITCH \<and> provisioned_upstream_available (Some x)) \<longleftrightarrow>
      (\<exists>x \<in> set (dep_devices s). k = dev_id x \<and> dev_type x = AON_SWITCH \<and> dev_provisioned x)" for k
    unfolding get_device_cases [OF assms] provisioned_upstream_available_def dep_devices_def by auto
  note eq = this
  have "list_ex (\<lambda>l. case far_device l (dev_id d) of None \<Rightarrow> False | Some k \<Rightarrow>
      (case get_device s k of None \<Rightarrow> False | Some x \<Rightarrow> dev_type x = AON_SWITCH \<and> provisioned_upstream_available (Some x)))
      (fst (snd (dep_inputs s))) \<longleftrightarrow> fed_by_switch s d"
    unfolding fed_by_switch_def list_ex_iff eq unfolding case_option_iff by blast
  then show ?thesis unfolding has_valid_provisioned_aon_switch_path_def by simp
qed

lemma adjacent_iff_next_to_router:
  assumes "wf_db s"
  shows "adjacent_to_router s d \<longleftrightarrow> next_to_router s d"
proof -
  have "(case get_device s k of None \<Rightarrow> False | Some x \<Rightarrow> dev_type x \<in> router_class) \<longleftrightarrow>
      (\<exists>x \<in> set (devices s). k = dev_id x \<and> dev_type x \<in> router_class)" for k
    unfolding get_device_cases [OF assms] by blast
  note eq = this
  show ?thesis
    unfolding adjacent_to_router_def next_to_router_def list_ex_iff eq unfolding case_option_iff by blast
qed

definition parent_fits :: "db \<Rightarrow> device \<Rightarrow> bool" where
  "parent_fits s d \<longleftrightarrow> (\<not> truthy (dev_parent_container_id d) \<or>
     dev_type d \<in> {OLT, AON_SWITCH} \<and> map_option dev_type (get_device s (the (dev_parent_container_id d))) = Some POP)"

definition upstream_fits :: "'g nx \<Rightarrow> db \<Rightarrow> device \<Rightarrow> bool" where
  "upstream_fits nx s d \<longleftrightarrow>
     (case dev_type d of
        ONT \<Rightarrow> fed_by_olt nx s d
      | BUSINESS_ONT \<Rightarrow> fed_by_olt nx s d
      | AON_CPE \<Rightarrow> fed_by_switch s d
      | OLT \<Rightarrow> next_to_router s d
      | AON_SWITCH \<Rightarrow> ul_ok (upstream_result nx s d) \<or>
          BACKBONE_GATEWAY \<notin> dev_type ` set (devices s) \<and> set (ul_reasons (upstream_result nx s d)) \<subseteq> {''routers_no_l3''}
      | CORE_ROUTER \<Rightarrow> True
      | EDGE_ROUTER \<Rightarrow> True
      | _ \<Rightarrow> False)"

lemma parent_error_None_iff: "parent_error s d = None \<longleftrightarrow> parent_fits s d"
  by (auto simp: parent_error_def parent_fits_def DEVICE_PARENT_POOL_MAP_def)

text \<open>C11: The checks before provisioning accept exactly the devices that are not provisioned yet, stand in no container
  or, for an OLT or a switch, in a POP, and have the upstream their type asks for: an ONT a walk over optical links and passive devices
  to a provisioned OLT, a CPE a link that is up to a provisioned switch, an OLT a link that is up to a router, a switch an upstream path,
  a router nothing. This is the gate of the code. It departs from the matrix of \<^verbatim>\<open>docs/02_provisioning_model.md\<close> and
  from \<^verbatim>\<open>PROVISION_MATRIX\<close>, by which a core router needs a backbone gateway, an edge router, an OLT and a switch need a core router, and
  an ONT or a CPE may stand under a parent that is not a POP or a core site. The upstream path of a switch is that of the
  resolver's own graph (\<open>dependency_ok_memo\<close>).\<close>

theorem provision_gate_exact:
  assumes "wf_db s"
  shows "provision_error nx s d = None \<longleftrightarrow> \<not> dev_provisioned d \<and> parent_fits s d \<and> upstream_fits nx s d"
proof -
  note iffs = olt_path_iff_fed [OF assms] switch_path_iff_fed [OF assms] adjacent_iff_next_to_router [OF assms]
  have gw: "list_ex (\<lambda>x. dev_type x = BACKBONE_GATEWAY) (devices s) \<longleftrightarrow> BACKBONE_GATEWAY \<in> dev_type ` set (devices s)"
    by (auto simp: list_ex_iff image_iff eq_commute [of BACKBONE_GATEWAY])
  show ?thesis
    unfolding provision_error_def parent_error_None_iff [symmetric] access_parent_error_def dependency_ok_def iffs gw Let_def
    by (cases "dev_type d"; cases "parent_error s d")
      (simp_all add: upstream_fits_def PROVISIONABLE_TYPES_def router_class_def)
qed

section \<open>An address that is taken in the VRF\<close>

lemma address_loop_stuck:
  assumes "next_free_ip_in_prefix v6 s0 p = Inr (Some c)" and "taken_in_vrf s0 (vrf_id v) (fst c)"
    and "addresses s = addresses s0"
  shows "address_loop v6 k s0 p (Some v) i s c = Inl exhausted"
  using assms(3)
proof (induction k arbitrary: s)
  case (Suc k)
  obtain ip len where c: "c = (ip, len)" by (cases c)
  have same: "taken_in_vrf s = taken_in_vrf s0" "address_conflict s = address_conflict s0"
    "taken_in_prefix s = taken_in_prefix s0"
    using Suc.prems by (simp_all add: taken_in_vrf_def address_conflict_def taken_in_prefix_def fun_eq_iff)
  have nf: "next_free_ip_in_prefix v6 s p = Inr (Some c)"
    using assms(1) unfolding next_free_ip_in_prefix_def same .
  have "address_conflict s0 ip (Some (vrf_id v)) (Some (px_id p))"
    using assms(2) by (auto simp: c taken_in_vrf_def address_conflict_def list_ex_iff)
  then show ?case
    using nf assms(1,2) same Suc.IH [of s0] by (simp add: c)
qed simp

text \<open>When the address chosen for a device is free in its management prefix but taken in the VRF of the prefix, through
  an address of another prefix, provisioning fails with \<^verbatim>\<open>POOL_EXHAUSTED\<close> and leaves everything as it was,
  however many addresses of the prefix are free: every retry chooses the same address again.\<close>

theorem vrf_clash_exhausts_pool:
  assumes "provision_error (pe_nx env) (w_db (pw_world pw)) d = None"
    and "ensure_ipam_defaults (w_db (pw_world pw)) = w_db (pw_world pw)"
    and "classify_prefix_role (dev_type d) = Some role" and "find_role_prefix (w_db (pw_world pw)) role = Some p"
    and "get_vrf (w_db (pw_world pw)) (px_vrf_id p) = Some v"
    and "next_free_ip_in_prefix (pe_v6 env) (w_db (pw_world pw)) p = Inr (Some (ip, len))"
    and "taken_in_vrf (w_db (pw_world pw)) (vrf_id v) ip"
    and "\<not> list_ex (\<lambda>a. ia_interface_id a = dev_id d @ ''-mgmt0'') (addresses (w_db (pw_world pw)))"
  shows "provision_device env pw d = (pw, Inl (Http (raise_error POOL_EXHAUSTED None None)))"
proof -
  let ?s = "w_db (pw_world pw)" and ?i = "dev_id d @ ''-mgmt0''"
  have none: "find (\<lambda>a. ia_interface_id a = ?i) (addresses ?s) = None"
    using assms(8) by (simp add: find_None_iff' list_ex_iff)
  have "address_loop (pe_v6 env) 5 ?s p (Some v) ?i s1 (ip, len) = Inl exhausted" if "addresses s1 = addresses ?s" for s1
    using assms(6,7) that by (intro address_loop_stuck) simp_all
  then have "bind_mgmt (pe_v6 env) mac ?s ?s d p (ip, len) = Inl exhausted" for mac
    by (simp add: bind_mgmt_def none assms(5) Let_def)
  then have "assign_mgmt (pe_v6 env) mac ?s d = Inl exhausted" for mac
    by (simp add: assign_mgmt_def assms Let_def)
  then show ?thesis using assms(1) by (simp add: provision_device_def exhausted_def Let_def)
qed

definition demo_prefix :: "int \<Rightarrow> string \<Rightarrow> string \<Rightarrow> ip_prefix" where
  "demo_prefix k c d = \<lparr>px_id = k, px_prefix = c, px_vrf_id = 1, px_description = Some d\<rparr>"

definition demo_site :: db where
  "demo_site = empty_db\<lparr>
     devices := [Device ''core'' CORE_ROUTER, Device ''olt'' OLT],
     interfaces := [Interface ''core-d'' ''core'' ''d'', Interface ''olt-u'' ''olt'' ''u''],
     links := [Link ''l1'' ''core-d'' ''olt-u''],
     vrfs := [\<lparr>vrf_id = 1, vrf_name = ''mgmt''\<rparr>, \<lparr>vrf_id = 2, vrf_name = ''internet''\<rparr>],
     prefixes := [demo_prefix 1 ''10.0.1.0/30'' ''core_mgmt'', demo_prefix 2 ''10.0.0.0/30'' ''olt_mgmt'',
       demo_prefix 3 ''10.0.2.0/30'' ''ont_mgmt'', demo_prefix 4 ''10.0.3.0/30'' ''aon_mgmt'',
       demo_prefix 5 ''10.0.4.0/30'' ''cpe_mgmt'', demo_prefix 6 ''10.0.5.0/30'' ''noc_tools'']\<rparr>"

definition demo_clash :: db where
  "demo_clash = demo_site\<lparr>addresses := [\<lparr>ia_id = 1, ia_interface_id = ''old-mgmt0'', ia_ip = ''10.0.0.1'', ia_prefix_len = 24,
     ia_vrf_id = Some 1, ia_prefix_id = Some 99\<rparr>]\<rparr>"

definition demo_penv :: "list_graph penv" where
  "demo_penv = \<lparr>pe_cenv = demo_env0, pe_nx = list_nx, pe_v6 = no_v6, pe_sha1 = \<lambda>_. replicate 20 0, pe_actor = ''system'',
     pe_correlation_id = None\<rparr>"

lemma demo_clash_facts:
  "provision_error list_nx demo_clash (Device ''olt'' OLT) = None"
  "ensure_ipam_defaults demo_clash = demo_clash"
  "classify_prefix_role (dev_type (Device ''olt'' OLT)) = Some ''olt_mgmt''" "dev_id (Device ''olt'' OLT) = ''olt''"
  "px_vrf_id (demo_prefix 2 ''10.0.0.0/30'' ''olt_mgmt'') = 1"
  "find_role_prefix demo_clash ''olt_mgmt'' = Some (demo_prefix 2 ''10.0.0.0/30'' ''olt_mgmt'')"
  "get_vrf demo_clash 1 = Some \<lparr>vrf_id = 1, vrf_name = ''mgmt''\<rparr>"
  "next_free_ip_in_prefix no_v6 demo_clash (demo_prefix 2 ''10.0.0.0/30'' ''olt_mgmt'') = Inr (Some (''10.0.0.1'', 30))"
  "taken_in_vrf demo_clash 1 ''10.0.0.1''"
  "\<not> list_ex (\<lambda>a. ia_interface_id a = ''olt-mgmt0'') (addresses demo_clash)"
  by code_simp+

theorem vrf_clash_exhausts_pool_witness:
  "provision_device demo_penv \<lparr>pw_world = demo_world\<lparr>w_db := demo_clash\<rparr>, pw_records = []\<rparr> (Device ''olt'' OLT)
     = (\<lparr>pw_world = demo_world\<lparr>w_db := demo_clash\<rparr>, pw_records = []\<rparr>, Inl (Http (raise_error POOL_EXHAUSTED None None)))"
  by (rule vrf_clash_exhausts_pool [where role = "''olt_mgmt''" and p = "demo_prefix 2 ''10.0.0.0/30'' ''olt_mgmt''"
        and v = "\<lparr>vrf_id = 1, vrf_name = ''mgmt''\<rparr>" and ip = "''10.0.0.1''" and len = 30])
    (simp_all add: demo_penv_def demo_clash_facts)


theorem provision_gate_exact_witness:
  "wf_db demo_site \<and> provision_error list_nx demo_site (Device ''olt'' OLT) = None \<and> next_to_router demo_site (Device ''olt'' OLT) \<and>
   provision_error list_nx demo_site (Device ''ont'' ONT) \<noteq> None \<and> \<not> fed_by_olt list_nx demo_site (Device ''ont'' ONT)"
proof -
  have wf: "wf_db demo_site" by code_simp
  have olt: "provision_error list_nx demo_site (Device ''olt'' OLT) = None" by code_simp
  have ont: "provision_error list_nx demo_site (Device ''ont'' ONT) \<noteq> None" by code_simp
  have "\<not> truthy (dev_parent_container_id (Device ''ont'' ONT)) \<and> \<not> dev_provisioned (Device ''ont'' ONT)" by code_simp
  then show ?thesis
    using wf olt ont provision_gate_exact [OF wf, of list_nx "Device ''olt'' OLT"] provision_gate_exact [OF wf, of list_nx "Device ''ont'' ONT"]
    by (simp add: upstream_fits_def parent_fits_def Device_def del: not_None_eq)
qed

end
