(* ===== verification/Uplinks.thy ===== *)
theory Uplinks
  imports Provisioning
begin

text \<open>
  What provisioning leaves behind: the rows the set-up of router uplinks touches and those it keeps, and what the
  L3 trace and the status service then say of the router.
\<close>

section \<open>What the set-up of uplinks keeps\<close>

abbreviation raised :: "iface \<Rightarrow> iface" where
  "raised r \<equiv> r\<lparr>if_admin_status := ADMIN_UP\<rparr>"

abbreviation addrs_of :: "db \<Rightarrow> ident \<Rightarrow> interface_address list" where
  "addrs_of s i \<equiv> filter (\<lambda>a. ia_interface_id a = i) (addresses s)"

definition l3_frame :: "db \<Rightarrow> db \<Rightarrow> bool" where
  "l3_frame s t \<longleftrightarrow> devices t = devices s \<and> links t = links s \<and> vrfs t = vrfs s \<and> prefixes t = prefixes s \<and>
     list_all2 (\<lambda>r r'. r' = r \<or> r' = raised r) (interfaces s) (interfaces t) \<and>
     (\<forall>i. addrs_of s i \<noteq> [] \<longrightarrow> addrs_of t i = addrs_of s i)"

lemma l3_frame_refl [simp]: "l3_frame s s"
  by (simp add: l3_frame_def list_all2_same)

lemma l3_frame_trans: "l3_frame s t \<Longrightarrow> l3_frame t u \<Longrightarrow> l3_frame s u"
  unfolding l3_frame_def
  by (elim conjE, intro conjI)
    (simp_all, erule (1) list_all2_trans [rotated], auto)

lemma l3_frame_get_device: "l3_frame s t \<Longrightarrow> get_device t = get_device s"
  by (simp add: l3_frame_def get_device_def fun_eq_iff)

lemma find_related:
  assumes "list_all2 (\<lambda>r r'. r' = r \<or> r' = raised r) xs ys"
  shows "rel_option (\<lambda>r r'. r' = r \<or> r' = raised r) (find (\<lambda>r. if_id r = k) xs) (find (\<lambda>r. if_id r = k) ys)"
  using assms by (induction rule: list_all2_induct) auto

lemma l3_frame_interface:
  assumes "l3_frame s t"
  shows "get_interface s k = Some r \<Longrightarrow> get_interface t k = Some r \<or> get_interface t k = Some (raised r)"
    and "get_interface s k = None \<Longrightarrow> get_interface t k = None"
  using find_related [of "interfaces s" "interfaces t" k] assms
  by (auto simp: l3_frame_def get_interface_def option_rel_Some1)

lemma l3_frame_owner: "l3_frame s t \<Longrightarrow> owner t = owner s"
proof
  fix i assume f: "l3_frame s t"
  show "owner t i = owner s i"
    using l3_frame_interface [OF f, of i] l3_frame_get_device [OF f]
    by (cases "get_interface s i") (auto simp: owner_def)
qed

lemma set_admin_up_frame: "l3_frame s (set_admin_up s i)"
  by (simp add: l3_frame_def set_admin_up_def list_all2_map2 list_all2_same)

lemma add_address_frame: "addrs_of s i = [] \<Longrightarrow> l3_frame s (add_address s i ip len v p)"
  by (auto simp: l3_frame_def add_address_def list_all2_same)

lemma ensure_addr_frame: "ensure_addr s i ip len v = Some t \<Longrightarrow> l3_frame s t"
  by (auto simp: ensure_addr_def filter_empty_conv list_ex_iff split: if_splits intro!: add_address_frame)

lemma ensure_neighbor_frame: "l3_frame s (ensure_neighbor sha1 s i ip lid)"
  by (simp add: l3_frame_def ensure_neighbor_def list_all2_same)

lemma ensure_default_route_frame: "l3_frame s (ensure_default_route s ifs v i nh)"
  by (simp add: l3_frame_def ensure_default_route_def Let_def list_all2_same)

text \<open>One link of the loop: it is skipped, or both ends are raised, addressed and given neighbours before the
  default route is set.\<close>

definition my_end :: "ident list \<Rightarrow> link \<Rightarrow> ident" where
  "my_end ifs lk = (if ln_a_interface_id lk \<in> set ifs then ln_a_interface_id lk else ln_b_interface_id lk)"

definition is_uplink :: "db \<Rightarrow> device \<Rightarrow> ident list \<Rightarrow> link \<Rightarrow> bool" where
  "is_uplink s d ifs lk \<longleftrightarrow> my_end ifs lk \<in> set ifs \<and>
     (case owner s (far_end lk (my_end ifs lk)) of None \<Rightarrow> False | Some p \<Rightarrow> upstream_pair (dev_type d) (dev_type p))"

lemma stable_ptp_pair_nonempty: "stable_ptp_pair sha1 lid = (a, b, n) \<Longrightarrow> a \<noteq> [] \<and> b \<noteq> []"
  by (auto simp: stable_ptp_pair_def Let_def)

lemma routes_kept [simp]:
  "routes (set_admin_up s i) = routes s" "routes (ensure_neighbor sha1 s i ip lid) = routes s"
  by (simp_all add: set_admin_up_def ensure_neighbor_def)

lemma ensure_addr_routes: "ensure_addr s i ip len v = Some t \<Longrightarrow> routes t = routes s"
  by (auto simp: ensure_addr_def add_address_def split: if_splits)

lemma uplink_step_other: "\<not> is_uplink s d ifs lk \<Longrightarrow> uplink_step sha1 d v ifs s lk = Some s"
  by (auto simp: uplink_step_def is_uplink_def my_end_def far_end_def Let_def split: option.splits if_splits)

lemma uplink_step_parts:
  assumes "is_uplink s d ifs lk" and "uplink_step sha1 d v ifs s lk = Some t"
    and "i = my_end ifs lk" and "j = far_end lk i"
  obtains s2 s3 lid a b n my nh pv where "stable_ptp_pair sha1 lid = (a, b, n)" "(my, nh) = (a, b) \<or> (my, nh) = (b, a)"
    "ensure_addr (set_admin_up (set_admin_up s i) j) i my n (Some v) = Some s2" "ensure_addr s2 j nh n (Some pv) = Some s3"
    "t = ensure_default_route (ensure_neighbor sha1 (ensure_neighbor sha1 s3 i nh (ln_id lk)) j my (ln_id lk)) ifs v i nh"
proof -
  let ?i = "my_end ifs lk" and ?j = "far_end lk (my_end ifs lk)"
  obtain p where p: "owner s ?j = Some p" "upstream_pair (dev_type d) (dev_type p)"
    using assms(1) by (auto simp: is_uplink_def split: option.splits)
  have ifs: "ln_a_interface_id lk \<in> set ifs \<or> ln_b_interface_id lk \<in> set ifs"
    "(if ln_a_interface_id lk \<in> set ifs then ln_a_interface_id lk else ln_b_interface_id lk) = ?i"
    "(if ?i = ln_a_interface_id lk then ln_b_interface_id lk else ln_a_interface_id lk) = ?j"
    using assms(1) by (auto simp: is_uplink_def my_end_def far_end_def split: if_splits)
  let ?s1 = "set_admin_up (set_admin_up s ?i) ?j"
  obtain a b n where ptp: "stable_ptp_pair sha1 (if ln_id lk \<noteq> [] then ln_id lk else ?i @ ''--'' @ ?j) = (a, b, n)"
    by (metis prod_cases3)
  define my where "my = (if ?i < ?j then a else b)"
  define nh where "nh = (if ?i < ?j then b else a)"
  define pv where "pv = (case dev_vrf_id p of Some k \<Rightarrow> if k = 0 then v else k | None \<Rightarrow> v)"
  have pair: "(if ?i < ?j then (a, b) else (b, a)) = (my, nh)" by (simp add: my_def nh_def)
  from assms(2) obtain s2 s3 where s2: "ensure_addr ?s1 ?i my n (Some v) = Some s2"
    and s3: "ensure_addr s2 ?j nh n (Some pv) = Some s3"
    and t: "t = ensure_default_route (ensure_neighbor sha1 (ensure_neighbor sha1 s3 ?i nh (ln_id lk)) ?j my (ln_id lk)) ifs v ?i nh"
    using ifs(1) unfolding uplink_step_def Let_def ifs(2,3) p(1) option.case ptp prod.case pair pv_def [symmetric]
    by (auto simp: p(2) split: option.splits)
  have "(my, nh) = (a, b) \<or> (my, nh) = (b, a)" by (simp add: my_def nh_def)
  from that [OF ptp this] s2 s3 t assms(3,4) show thesis by blast
qed

lemma uplink_step_uplink:
  assumes "is_uplink s d ifs lk" and "uplink_step sha1 d v ifs s lk = Some t"
  shows "\<exists>s5 nh. l3_frame (set_admin_up s (my_end ifs lk)) s5 \<and> routes s5 = routes s \<and> nh \<noteq> [] \<and>
    t = ensure_default_route s5 ifs v (my_end ifs lk) nh"
proof -
  let ?i = "my_end ifs lk" and ?j = "far_end lk (my_end ifs lk)"
  from uplink_step_parts [OF assms refl refl] obtain s2 s3 lid a b n my nh pv where
    ptp: "stable_ptp_pair sha1 lid = (a, b, n)" "(my, nh) = (a, b) \<or> (my, nh) = (b, a)"
    and s2: "ensure_addr (set_admin_up (set_admin_up s ?i) ?j) ?i my n (Some v) = Some s2"
    and s3: "ensure_addr s2 ?j nh n (Some pv) = Some s3"
    and t: "t = ensure_default_route (ensure_neighbor sha1 (ensure_neighbor sha1 s3 ?i nh (ln_id lk)) ?j my (ln_id lk)) ifs v ?i nh"
    .
  let ?s5 = "ensure_neighbor sha1 (ensure_neighbor sha1 s3 ?i nh (ln_id lk)) ?j my (ln_id lk)"
  have "l3_frame (set_admin_up s ?i) ?s5"
    using set_admin_up_frame ensure_addr_frame [OF s2] ensure_addr_frame [OF s3] ensure_neighbor_frame
    by (meson l3_frame_trans)
  moreover have "routes ?s5 = routes s" by (simp add: ensure_addr_routes [OF s2] ensure_addr_routes [OF s3])
  moreover have "nh \<noteq> []" using stable_ptp_pair_nonempty [OF ptp(1)] ptp(2) by auto
  ultimately show ?thesis using t by blast
qed

lemma uplink_step_frame: "uplink_step sha1 d v ifs s lk = Some t \<Longrightarrow> l3_frame s t"
  using uplink_step_other [of s d ifs lk] uplink_step_uplink [of s d ifs lk sha1 v t]
    set_admin_up_frame [of s] ensure_default_route_frame
  by (cases "is_uplink s d ifs lk") (auto, meson l3_frame_trans)

lemma uplink_loop_frame: "uplink_loop sha1 d v ifs s ls = Some t \<Longrightarrow> l3_frame s t"
proof (induction ls arbitrary: s)
  case (Cons l ls)
  then obtain u where "uplink_step sha1 d v ifs s l = Some u" "uplink_loop sha1 d v ifs u ls = Some t"
    by (auto split: option.splits)
  with Cons.IH show ?case by (blast intro: l3_frame_trans uplink_step_frame)
qed simp

section \<open>The default route\<close>

definition own_default :: "ident list \<Rightarrow> int \<Rightarrow> route \<Rightarrow> bool" where
  "own_default ifs v r \<longleftrightarrow> rt_vrf_id r = v \<and> rt_prefix r = ''0.0.0.0/0'' \<and> rt_interface_id r \<in> Some ` set ifs"

definition default_row :: "db \<Rightarrow> int \<Rightarrow> ident \<Rightarrow> string \<Rightarrow> route" where
  "default_row s v i nh = \<lparr>rt_id = Some (next_row_id (List.map_filter rt_id (routes s))), rt_vrf_id = v,
     rt_prefix = ''0.0.0.0/0'', rt_next_hop = Some nh, rt_interface_id = Some i, rt_admin_distance = 1, rt_metric = 0\<rparr>"

lemma ensure_default_route_routes:
  assumes "i \<in> set ifs"
  shows "routes (ensure_default_route s ifs v i nh) =
    (if \<exists>r \<in> set (routes s). own_default ifs v r then routes s else routes s @ [default_row s v i nh])"
proof -
  let ?ds = "filter (\<lambda>r. rt_vrf_id r = v \<and> rt_prefix r = ''0.0.0.0/0'') (routes s)"
  have "list_ex (\<lambda>r. \<exists>k \<in> set ifs. rt_interface_id r = Some k) ?ds \<longleftrightarrow> (\<exists>r \<in> set (routes s). own_default ifs v r)"
    by (auto simp: list_ex_iff own_default_def)
  moreover have "list_ex (\<lambda>r. rt_interface_id r = Some i \<and> rt_next_hop r = Some nh) ?ds \<Longrightarrow> (\<exists>r \<in> set (routes s). own_default ifs v r)"
    using assms by (auto simp: list_ex_iff own_default_def)
  ultimately show ?thesis by (auto simp: ensure_default_route_def default_row_def Let_def)
qed

lemma is_uplink_frame: "l3_frame s t \<Longrightarrow> is_uplink t = is_uplink s"
  by (simp add: is_uplink_def fun_eq_iff l3_frame_owner)

lemma default_kept:
  "uplink_loop sha1 d v ifs s ls = Some t \<Longrightarrow> \<exists>r \<in> set (routes s). own_default ifs v r \<Longrightarrow> routes t = routes s"
proof (induction ls arbitrary: s)
  case (Cons l ls)
  then obtain u where u: "uplink_step sha1 d v ifs s l = Some u" "uplink_loop sha1 d v ifs u ls = Some t"
    by (auto split: option.splits)
  have "routes u = routes s"
  proof (cases "is_uplink s d ifs l")
    case True
    then have "my_end ifs l \<in> set ifs" by (simp add: is_uplink_def)
    with uplink_step_uplink [OF True u(1)] Cons.prems(2) show ?thesis by (auto simp: ensure_default_route_routes)
  qed (use u uplink_step_other in simp)
  with Cons u show ?case by metis
qed simp

text \<open>The first uplink sets the route, the others find it.\<close>

lemma admin_raised:
  "get_interface (set_admin_up s i) i = Some r \<Longrightarrow> if_admin_status r = ADMIN_UP"
proof -
  assume r: "get_interface (set_admin_up s i) i = Some r"
  let ?f = "\<lambda>x. if if_id x = i \<and> if_admin_status x = ADMIN_DOWN then raised x else x"
  have "set (interfaces (set_admin_up s i)) = ?f ` set (interfaces s)" by (simp add: set_admin_up_def)
  with ifc.get_SomeD [OF r] obtain x where x: "r = ?f x" "if_id r = i" by blast
  show ?thesis
  proof (cases "if_admin_status x")
    case ADMIN_UP
    with x(1) show ?thesis by simp
  next
    case ADMIN_DOWN
    then show ?thesis using x by (cases "if_id x = i") simp_all
  qed
qed

lemma admin_up_frame:
  assumes "l3_frame s t" "\<And>r. get_interface s i = Some r \<Longrightarrow> if_admin_status r = ADMIN_UP" "get_interface t i = Some r'"
  shows "if_admin_status r' = ADMIN_UP"
  using l3_frame_interface [OF assms(1), of i] assms(2,3) by (cases "get_interface s i") auto

lemma uplink_loop_route:
  assumes "uplink_loop sha1 d v ifs s ls = Some t" "\<not> (\<exists>r \<in> set (routes s). own_default ifs v r)"
    and "filter (is_uplink s d ifs) ls = l0 # rest"
  shows "\<exists>nh u. nh \<noteq> [] \<and> routes u = routes s \<and> routes t = routes s @ [default_row u v (my_end ifs l0) nh] \<and>
    (\<forall>r. get_interface t (my_end ifs l0) = Some r \<longrightarrow> if_admin_status r = ADMIN_UP)"
  using assms
proof (induction ls arbitrary: s)
  case (Cons l ls)
  then obtain u where u: "uplink_step sha1 d v ifs s l = Some u" "uplink_loop sha1 d v ifs u ls = Some t"
    by (auto split: option.splits)
  show ?case
  proof (cases "is_uplink s d ifs l")
    case True
    then have l0: "l = l0" and i: "my_end ifs l0 \<in> set ifs" using Cons.prems(3) by (auto simp: is_uplink_def)
    from uplink_step_uplink [OF True u(1)] obtain s5 nh where s5: "l3_frame (set_admin_up s (my_end ifs l0)) s5"
      "routes s5 = routes s" "nh \<noteq> []" "u = ensure_default_route s5 ifs v (my_end ifs l0) nh" unfolding l0 by blast
    have ru: "routes u = routes s @ [default_row s5 v (my_end ifs l0) nh]"
      using Cons.prems(2) by (simp add: s5(2,4) ensure_default_route_routes [OF i])
    have "own_default ifs v (default_row s5 v (my_end ifs l0) nh)" using i by (simp add: own_default_def default_row_def)
    then have "\<exists>r \<in> set (routes u). own_default ifs v r" unfolding ru by simp
    from default_kept [OF u(2) this] ru have rt: "routes t = routes s @ [default_row s5 v (my_end ifs l0) nh]" by simp
    have "l3_frame (set_admin_up s (my_end ifs l0)) t"
      using s5(1) ensure_default_route_frame [of s5 ifs v "my_end ifs l0" nh] uplink_loop_frame [OF u(2)]
      unfolding s5(4) [symmetric] by (blast intro: l3_frame_trans)
    then have "\<forall>r. get_interface t (my_end ifs l0) = Some r \<longrightarrow> if_admin_status r = ADMIN_UP"
      using admin_raised admin_up_frame by blast
    with rt s5(2,3) show ?thesis by blast
  next
    case False
    then have "u = s" using u(1) uplink_step_other by simp
    with Cons u(2) False show ?thesis by simp
  qed
qed simp

section \<open>The trace after the set-up\<close>

definition passable_end :: "db \<Rightarrow> ident \<Rightarrow> bool" where
  "passable_end s i \<longleftrightarrow> (case peer_device s i of None \<Rightarrow> False | Some d \<Rightarrow> \<not> forced_down d)"

lemma trace_link_passable_ends:
  "trace_link_passable s l \<longleftrightarrow>
     (case ln_admin_override_status l of Some ov \<Rightarrow> ov = UP | None \<Rightarrow> ln_status l = UP) \<and>
     passable_end s (ln_a_interface_id l) \<and> passable_end s (ln_b_interface_id l)"
  unfolding trace_link_passable_def passable_end_def peer_device_def by (simp split: option.splits)

lemma peer_device_frame: "l3_frame s t \<Longrightarrow> peer_device t = peer_device s"
proof
  fix i assume f: "l3_frame s t"
  show "peer_device t i = peer_device s i"
    using l3_frame_interface [OF f, of i] l3_frame_get_device [OF f]
    by (cases "get_interface s i") (auto simp: peer_device_def)
qed

lemma trace_link_passable_frame: "l3_frame s t \<Longrightarrow> trace_link_passable t = trace_link_passable s"
  by (simp add: trace_link_passable_ends fun_eq_iff passable_end_def peer_device_frame)

lemma passable_end_owner: "passable_end s i \<Longrightarrow> peer_device s i = owner s i"
  by (auto simp: passable_end_def peer_device_def owner_def split: option.splits if_splits)

lemma eligible_routes_foreign:
  assumes "\<And>r i eg. r \<in> set rs \<Longrightarrow> rt_interface_id r = Some i \<Longrightarrow> get_interface s i = Some eg \<Longrightarrow> if_device_id eg \<noteq> dev_id d"
  shows "eligible_routes s d (rs @ qs) = eligible_routes s d qs"
  using assms
proof (induction rs)
  case (Cons r rs)
  have "eligible_routes s d (rs @ qs) = eligible_routes s d qs" using Cons.prems by (intro Cons.IH) auto
  with Cons.prems [of r] show ?case by (auto split: option.splits)
qed simp

lemma router_peer_single:
  assumes "routes t = rs @ [r]" and "own_default [i] v r" and "dev_vrf_id d = Some v"
    and "\<And>q j eg. q \<in> set rs \<Longrightarrow> rt_vrf_id q = v \<Longrightarrow> rt_prefix q = ''0.0.0.0/0'' \<Longrightarrow> rt_interface_id q = Some j \<Longrightarrow>
      get_interface t j = Some eg \<Longrightarrow> if_device_id eg \<noteq> dev_id d"
    and "get_interface t i = Some eg" "if_device_id eg = dev_id d" "if_admin_status eg = ADMIN_UP" "truthy (rt_next_hop r)"
    and "resolve_peer_via_if t i (rt_next_hop r) = Some p" "\<not> forced_down p"
  shows "router_peer t d = Inr p"
proof -
  let ?P = "\<lambda>q. Some (rt_vrf_id q) = dev_vrf_id d \<and> rt_prefix q = ''0.0.0.0/0''"
  have r: "rt_interface_id r = Some i" "?P r" "if_id eg = i"
    using assms(2,3) ifc.get_key [OF assms(5)] by (auto simp: own_default_def)
  have rts: "filter ?P (routes t) = filter ?P rs @ [r]" using r(2) by (simp add: assms(1))
  have "eligible_routes t d (filter ?P rs @ [r]) = eligible_routes t d [r]"
    by (rule eligible_routes_foreign) (use assms(3,4) in auto)
  also have "\<dots> = Inr [r]" using assms(5-8) r by simp
  finally show ?thesis unfolding router_peer_def rts Let_def using assms(5,9,10) r by simp
qed

lemma next_peer_after_uplink:
  assumes f: "uplink_loop sha1 d v ifs s (links s) = Some t" and d: "dev_type d \<in> L3_ROUTERS" "dev_vrf_id d = Some v"
    and ifs: "ifs = map if_id (filter (\<lambda>i. if_device_id i = dev_id d) (interfaces s))" and wf: "distinct (map if_id (interfaces s))"
    and fresh: "\<not> (\<exists>r \<in> set (routes s). own_default ifs v r)"
    and l0: "filter (is_uplink s d ifs) (links s) = l0 # rest" "links_on s (my_end ifs l0) = [l0]" "trace_link_passable s l0"
  shows "\<exists>p. next_peer t d = Inr p \<and> owner s (far_end l0 (my_end ifs l0)) = Some p \<and> \<not> forced_down p \<and>
    upstream_pair (dev_type d) (dev_type p)"
proof -
  let ?i = "my_end ifs l0"
  note frame = uplink_loop_frame [OF f]
  have "is_uplink s d ifs l0" using l0(1) by (metis filter_eq_ConsD)
  then obtain p where p: "?i \<in> set ifs" "owner s (far_end l0 ?i) = Some p" "upstream_pair (dev_type d) (dev_type p)"
    by (auto simp: is_uplink_def split: option.splits)
  have "passable_end s (far_end l0 ?i)" using l0(3) by (simp add: trace_link_passable_ends far_end_def)
  then have peer: "peer_device t (far_end l0 ?i) = Some p" "\<not> forced_down p"
    using passable_end_owner [of s "far_end l0 ?i"] p(2) by (simp_all add: peer_device_frame [OF frame] passable_end_def)
  have own: "get_interface t j = Some eg \<Longrightarrow> if_device_id eg = dev_id d \<Longrightarrow> j \<in> set ifs" for j eg
    using l3_frame_interface [OF frame, of j] ifc.get_SomeD [of s j]
    by (cases "get_interface s j") (auto simp: ifs)
  obtain eg where eg: "get_interface t ?i = Some eg" "if_device_id eg = dev_id d"
  proof -
    from p(1) obtain x where x: "x \<in> set (interfaces s)" "if_id x = ?i" "if_device_id x = dev_id d" unfolding ifs by auto
    from ifc.get_exact [OF wf x(1)] x(2) l3_frame_interface(1) [OF frame, of ?i x] x(3)
    show thesis by (auto intro: that)
  qed
  obtain nh u where r: "nh \<noteq> []" "routes t = routes s @ [default_row u v ?i nh]" "if_admin_status eg = ADMIN_UP"
    using uplink_loop_route [OF f fresh l0(1)] eg(1) by blast
  have "resolve_peer_via_if t ?i (Some nh) = Some p"
  proof -
    have "filter (trace_link_passable t) (links_on t ?i) = [l0]"
      using l0(2,3) frame by (simp add: trace_link_passable_frame [OF frame] links_on_def l3_frame_def)
    then show ?thesis using peer by (simp add: resolve_peer_via_if_def Let_def)
  qed
  then have "router_peer t d = Inr p"
    by (intro router_peer_single [OF r(2) _ d(2) _ eg r(3) _ _ peer(2)])
      (use r(1) fresh own in \<open>auto simp: default_row_def own_default_def\<close>)
  then show ?thesis using d p(2,3) peer(2) by (auto simp: next_peer_def L3_ROUTERS_def)
qed

lemma get_device_update:
  "get_device s (dev_id d) \<noteq> None \<Longrightarrow> get_device (update_device s d) k = (if k = dev_id d then Some d else get_device s k)"
proof -
  have "find (\<lambda>r. dev_id r = k) (map (\<lambda>x. if dev_id x = dev_id d then d else x) xs) =
      (if k = dev_id d then if dev_id d \<in> dev_id ` set xs then Some d else None else find (\<lambda>r. dev_id r = k) xs)" for xs
    by (induction xs) auto
  then show "get_device s (dev_id d) \<noteq> None \<Longrightarrow> ?thesis"
    using dev.get_None_iff [of s "dev_id d"] by (simp add: get_device_def update_device_def del: not_None_eq)
qed

lemma update_device_keeps [simp]:
  "interfaces (update_device s d) = interfaces s" "links (update_device s d) = links s" "routes (update_device s d) = routes s"
  "addresses (update_device s d) = addresses s" "get_interface (update_device s d) = get_interface s" "vrfs (update_device s d) = vrfs s"
  "prefixes (update_device s d) = prefixes s" "neighbors (update_device s d) = neighbors s"
  by (simp_all add: update_device_def get_interface_def fun_eq_iff)

text \<open>Storing the VRF of the router leaves the other rows alone.\<close>

lemma vrf_stored:
  assumes "get_device s (dev_id d) = Some d" "s' = update_device s (d\<lparr>dev_vrf_id := v\<rparr>)"
  shows "get_device s' k = (if k = dev_id d then Some (d\<lparr>dev_vrf_id := v\<rparr>) else get_device s k)"
    and "map_option dev_type (owner s' j) = map_option dev_type (owner s j)"
    and "trace_link_passable s' l = trace_link_passable s l"
proof -
  show gd: "get_device s' k = (if k = dev_id d then Some (d\<lparr>dev_vrf_id := v\<rparr>) else get_device s k)" for k
    using get_device_update [of s "d\<lparr>dev_vrf_id := v\<rparr>" k] assms by simp
  have gi: "get_interface s' = get_interface s" using assms(2) by simp
  show "map_option dev_type (owner s' j) = map_option dev_type (owner s j)"
    unfolding owner_def gi gd using assms(1) by (cases "get_interface s j") auto
  have "passable_end s' i = passable_end s i" for i
    unfolding passable_end_def peer_device_def gi gd using assms(1)
    by (cases "get_interface s i") (auto simp: forced_down_def)
  then show "trace_link_passable s' l = trace_link_passable s l" by (simp add: trace_link_passable_ends)
qed

lemma auto_configure_loop:
  assumes "dev_type d \<in> {EDGE_ROUTER, CORE_ROUTER}" "find_vrf s ''mgmt'' = Some m"
    and "v = (case dev_vrf_id d of Some k \<Rightarrow> k | None \<Rightarrow> vrf_id m)" "d' = d\<lparr>dev_vrf_id := Some v\<rparr>" "s' = update_device s d'"
    and "ifs = map if_id (filter (\<lambda>i. if_device_id i = dev_id d') (interfaces s'))"
  shows "auto_configure_l3_uplinks sha1 s d = (if ifs = [] then Some s' else uplink_loop sha1 d' v ifs s' (links s'))"
  using assms unfolding auto_configure_l3_uplinks_def by (simp add: Let_def)

text \<open>A link between an interface of the device and a backbone gateway.\<close>

definition gateway_link :: "db \<Rightarrow> device \<Rightarrow> iface \<Rightarrow> link \<Rightarrow> bool" where
  "gateway_link s d i l \<longleftrightarrow> i \<in> set (interfaces s) \<and> if_device_id i = dev_id d \<and> l \<in> set (links s) \<and>
     (ln_a_interface_id l = if_id i \<or> ln_b_interface_id l = if_id i) \<and>
     map_option dev_type (owner s (far_end l (if_id i))) = Some BACKBONE_GATEWAY"

lemma gateway_is_uplink:
  assumes "distinct (map if_id (interfaces s))" "get_device s (dev_id d) = Some d" "dev_type d = CORE_ROUTER" "d' = d\<lparr>dev_vrf_id := v\<rparr>"
    and "s' = update_device s d'" "ifs = map if_id (filter (\<lambda>i. if_device_id i = dev_id d') (interfaces s'))"
  shows "is_uplink s' d' ifs l \<and> l \<in> set (links s) \<longleftrightarrow> (\<exists>i. gateway_link s d i l \<and> if_id i = my_end ifs l)"
    and "gateway_link s d i l \<Longrightarrow> is_uplink s' d' ifs l \<and> l \<in> set (links s)"
proof -
  have in_ifs: "k \<in> set ifs \<longleftrightarrow> (\<exists>i \<in> set (interfaces s). if_device_id i = dev_id d \<and> if_id i = k)" for k
    by (auto simp: assms(4-6))
  have up: "upstream_pair (dev_type d') t \<longleftrightarrow> t = BACKBONE_GATEWAY" for t
    using assms(3,4) by (simp add: upstream_pair_def)
  have "is_uplink s' d' ifs l \<longleftrightarrow> my_end ifs l \<in> set ifs \<and>
      map_option dev_type (owner s (far_end l (my_end ifs l))) = Some BACKBONE_GATEWAY"
    unfolding is_uplink_def up vrf_stored(2) [OF assms(2) assms(5) [unfolded assms(4)], symmetric] by (auto split: option.splits)
  moreover have "ln_a_interface_id l = my_end ifs l \<or> ln_b_interface_id l = my_end ifs l" by (simp add: my_end_def)
  ultimately show gw: "is_uplink s' d' ifs l \<and> l \<in> set (links s) \<longleftrightarrow> (\<exists>i. gateway_link s d i l \<and> if_id i = my_end ifs l)"
    unfolding gateway_link_def in_ifs by metis
  assume l: "gateway_link s d i l"
  then have i: "if_id i \<in> set ifs" "ln_a_interface_id l = if_id i \<or> ln_b_interface_id l = if_id i"
    by (auto simp: gateway_link_def in_ifs)
  have "owner s j = Some d" if "j \<in> set ifs" for j
    using that ifc.get_exact [OF assms(1)] assms(2) unfolding in_ifs by (auto simp: owner_def)
  then have "ln_a_interface_id l \<notin> set ifs" if "ln_a_interface_id l \<noteq> if_id i"
    using that l i(2) assms(3) by (auto simp: gateway_link_def far_end_def)
  then have "if_id i = my_end ifs l" using i by (cases "ln_a_interface_id l = if_id i") (simp_all add: my_end_def)
  with l show "is_uplink s' d' ifs l \<and> l \<in> set (links s)" unfolding gw by blast
qed

text \<open>C10: Setting up the uplinks brings a core router up: a provisioned core router without an override and without a default route
  of its own, with a link to a backbone gateway, all such links passable and no interface with more than one link, is evaluated as
  up once the set-up succeeds, and the path traced for it leads over the link to the gateway.\<close>

theorem core_router_comes_up:
  assumes "wf_db s" "get_device s (dev_id d) = Some d" "dev_type d = CORE_ROUTER" "dev_provisioned d" "dev_admin_override_status d = None"
    and "auto_configure_l3_uplinks sha1 s d = Some t" "find_vrf s ''mgmt'' \<noteq> None"
    and "\<forall>r \<in> set (routes s). \<forall>i \<in> set (interfaces s). rt_prefix r = ''0.0.0.0/0'' \<longrightarrow> if_device_id i = dev_id d \<longrightarrow> rt_interface_id r \<noteq> Some (if_id i)"
    and "\<exists>i l. gateway_link s d i l"
    and "\<forall>i l. gateway_link s d i l \<longrightarrow> trace_link_passable s l \<and> links_on s (if_id i) = [l]"
  shows "\<exists>d' g. get_device t (dev_id d) = Some d' \<and> evaluate_device_status nx so t None d' = UP \<and>
    get_device s (dev_id g) = Some g \<and> dev_type g = BACKBONE_GATEWAY \<and>
    dc_ok (trace_l3_path_to_anchor t d') \<and> dc_chain (trace_l3_path_to_anchor t d') = [dev_id d, dev_id g]"
proof -
  obtain m where m: "find_vrf s ''mgmt'' = Some m" using assms(7) by auto
  define v where "v = (case dev_vrf_id d of Some k \<Rightarrow> k | None \<Rightarrow> vrf_id m)"
  define d' where "d' = d\<lparr>dev_vrf_id := Some v\<rparr>"
  define s0 where "s0 = update_device s d'"
  define ifs where "ifs = map if_id (filter (\<lambda>i. if_device_id i = dev_id d') (interfaces s0))"
  have dist: "distinct (map if_id (interfaces s))" using assms(1) by (simp add: wf_db_def)
  note vs = vrf_stored [OF assms(2) s0_def [unfolded d'_def]]
  note gw = gateway_is_uplink [OF dist assms(2,3) d'_def s0_def ifs_def]
  obtain l where "l \<in> set (filter (is_uplink s0 d' ifs) (links s))" using assms(9) gw(2) by auto
  then obtain l0 rest where "filter (is_uplink s0 d' ifs) (links s) = l0 # rest"
    by (cases "filter (is_uplink s0 d' ifs) (links s)") auto
  then have l0: "filter (is_uplink s0 d' ifs) (links s0) = l0 # rest" "is_uplink s0 d' ifs l0 \<and> l0 \<in> set (links s)"
    by (auto simp: s0_def dest: filter_eq_ConsD)
  then obtain i where i: "gateway_link s d i l0" "if_id i = my_end ifs l0" using gw(1) by blast
  have "ifs \<noteq> []" using l0(2) by (auto simp: is_uplink_def)
  then have loop: "uplink_loop sha1 d' v ifs s0 (links s0) = Some t"
    using assms(6) auto_configure_loop [OF _ m v_def d'_def s0_def ifs_def] assms(3) by simp
  note frame = uplink_loop_frame [OF loop]
  have fresh: "\<not> (\<exists>r \<in> set (routes s0). own_default ifs v r)"
    using assms(8) by (auto simp: own_default_def ifs_def s0_def d'_def)
  have "trace_link_passable s l0 \<and> links_on s (my_end ifs l0) = [l0]" using assms(10) i by metis
  then have single: "links_on s0 (my_end ifs l0) = [l0]" and pass: "trace_link_passable s0 l0"
    using vs(3) [of l0] by (simp_all add: links_on_def s0_def)
  have router: "dev_type d' \<in> L3_ROUTERS" "dev_vrf_id d' = Some v" "distinct (map if_id (interfaces s0))" "dev_type d' = CORE_ROUTER"
    using assms(3) dist by (simp_all add: d'_def s0_def L3_ROUTERS_def)
  obtain g where g: "next_peer t d' = Inr g" "owner s0 (far_end l0 (my_end ifs l0)) = Some g" "\<not> forced_down g"
    "dev_type g = BACKBONE_GATEWAY"
    using next_peer_after_uplink [OF loop router(1,2) ifs_def router(3) fresh l0(1) single pass] router(4)
    by (auto simp: upstream_pair_def)
  have gd: "get_device t = get_device s0" by (rule l3_frame_get_device [OF frame])
  have row: "get_device t (dev_id d') = Some d'" unfolding gd vs(1) by (simp add: d'_def)
  have "get_device s0 (dev_id g) = Some g" using g(2) dev.get_key by (auto simp: owner_def split: option.splits)
  then have "get_device s (dev_id g) = Some g" using g(4) assms(3) unfolding vs(1) by (auto split: if_splits)
  moreover have "l3_path t d' [dev_id d', dev_id g]"
    by (rule l3_path.hop [OF _ _ g(1) at_anchor [OF g(3,4)]]) (use assms(3,5) in \<open>simp_all add: d'_def forced_down_def\<close>)
  then have "dc_ok (trace_l3_path_to_anchor t d') \<and> dc_chain (trace_l3_path_to_anchor t d') = [dev_id d', dev_id g]"
    using trace_path_iff [OF row] by blast
  moreover have "evaluate_device_status nx so t None d' = UP"
    using calculation(2) assms(3-5)
    by (simp add: evaluate_device_status_def derive_role_def has_l3_reachability_to_anchor_def router_class_def d'_def)
  ultimately show ?thesis using row g(4) by (intro exI [of _ d'] exI [of _ g]) (simp add: d'_def)
qed

definition demo_core_device :: device where
  "demo_core_device = (Device ''core'' CORE_ROUTER)\<lparr>dev_provisioned := True\<rparr>"

definition demo_core :: db where
  "demo_core = empty_db\<lparr>
     devices := [demo_core_device, Device ''bb'' BACKBONE_GATEWAY],
     interfaces := [(Interface ''core-u'' ''core'' ''u'')\<lparr>if_admin_status := ADMIN_DOWN\<rparr>, Interface ''bb-d'' ''bb'' ''d''],
     links := [Link ''l1'' ''core-u'' ''bb-d''],
     vrfs := [\<lparr>vrf_id = 1, vrf_name = ''mgmt''\<rparr>]\<rparr>"

lemma demo_core_facts:
  "wf_db demo_core" "get_device demo_core ''core'' = Some demo_core_device" "dev_id demo_core_device = ''core''"
  "dev_type demo_core_device = CORE_ROUTER" "dev_provisioned demo_core_device" "dev_admin_override_status demo_core_device = None"
  "auto_configure_l3_uplinks (\<lambda>_. replicate 20 0) demo_core demo_core_device \<noteq> None" "find_vrf demo_core ''mgmt'' \<noteq> None"
  "routes demo_core = []" "trace_link_passable demo_core (Link ''l1'' ''core-u'' ''bb-d'')"
  "links_on demo_core ''core-u'' = [Link ''l1'' ''core-u'' ''bb-d'']"
  "gateway_link demo_core demo_core_device ((Interface ''core-u'' ''core'' ''u'')\<lparr>if_admin_status := ADMIN_DOWN\<rparr>) (Link ''l1'' ''core-u'' ''bb-d'')"
  by code_simp+

lemma demo_gateway_link:
  "gateway_link demo_core demo_core_device i l \<Longrightarrow> if_id i = ''core-u'' \<and> l = Link ''l1'' ''core-u'' ''bb-d''"
  by (auto simp: gateway_link_def demo_core_def demo_core_device_def row_defs)

theorem core_router_comes_up_witness:
  "\<exists>t d'. auto_configure_l3_uplinks (\<lambda>_. replicate 20 0) demo_core demo_core_device = Some t \<and>
     get_device t ''core'' = Some d' \<and> evaluate_device_status list_nx sorted_list_of_set t None d' = UP"
proof -
  obtain t where t: "auto_configure_l3_uplinks (\<lambda>_. replicate 20 0) demo_core demo_core_device = Some t"
    using demo_core_facts(7) by blast
  have gw: "\<exists>i l. gateway_link demo_core demo_core_device i l" using demo_core_facts(12) by blast
  have "\<forall>i l. gateway_link demo_core demo_core_device i l \<longrightarrow> trace_link_passable demo_core l \<and> links_on demo_core (if_id i) = [l]"
    using demo_gateway_link demo_core_facts(10,11) by metis
  from core_router_comes_up [OF demo_core_facts(1) _ demo_core_facts(4-6) t demo_core_facts(8) _ gw this, of list_nx sorted_list_of_set] t
  show ?thesis by (auto simp: demo_core_facts(2,3,9))
qed

section \<open>Provisioning keeps the address plan\<close>

lemma next_free_text:
  assumes "net_text (px_prefix p)" "next_free_ip_in_prefix v6 s p = Inr (Some (ip, len))"
  shows "\<exists>w. ip = str_ip4 w" and "\<not> taken_in_prefix s (px_id p) ip"
proof -
  obtain n where "ip_network v6 True (px_prefix p) = Some (Net4 n)" using net_text_network [OF assms(1)] by blast
  with assms(2) obtain h where h: "find (\<lambda>h. \<not> taken_in_prefix s (px_id p) (str_addr v6 h)) (hosts (Net4 n)) = Some h" "ip = str_addr v6 h"
    by (auto simp: next_free_ip_in_prefix_def)
  from find_SomeD [OF h(1)] h(2) show "\<exists>w. ip = str_ip4 w" and "\<not> taken_in_prefix s (px_id p) ip"
    by (auto simp: hosts.simps)
qed

lemma ipam_inv_cong:
  "vrfs t = vrfs s \<Longrightarrow> prefixes t = prefixes s \<Longrightarrow> addresses t = addresses s \<Longrightarrow> ipam_inv t = ipam_inv s"
  by (simp add: ipam_inv_def)

lemma add_address_keeps:
  "ipam_inv s \<Longrightarrow> \<not> address_conflict s (str_ip4 w) v p \<Longrightarrow> ipam_inv (add_address s i (str_ip4 w) len v p)"
  unfolding add_address_def by (rule add_address_inv) auto

lemma address_loop_keeps:
  assumes "address_loop v6 k s0 p v i s c = Inr (t, ip)" "ipam_inv s0" "ipam_inv s" "net_text (px_prefix p)" "\<exists>w. fst c = str_ip4 w"
  shows "ipam_inv t"
  using assms
proof (induction v6 k s0 p v i s c rule: address_loop.induct)
  case (2 v6 k s0 p v i s c)
  define q where "q = (case v of
              Some x \<Rightarrow> if taken_in_vrf s (vrf_id x) (fst c) then next_free_ip_in_prefix v6 s p else Inr (Some c)
            | None \<Rightarrow> Inr (Some c))"
  from 2(2) obtain ip' len where q: "q = Inr (Some (ip', len))"
    unfolding address_loop.simps q_def [symmetric] by (auto split: sum.splits option.splits)
  have ip': "\<exists>w. ip' = str_ip4 w"
    using q 2(6) next_free_text(1) [OF 2(5)] unfolding q_def by (auto split: option.splits if_splits)
  show ?case
  proof (cases "address_conflict s ip' (map_option vrf_id v) (Some (px_id p))")
    case False
    with 2(2) q ip' show ?thesis
      unfolding address_loop.simps q_def [symmetric] by (auto intro!: add_address_keeps 2(4))
  next
    case True
    with 2(2) q obtain c' where c': "next_free_ip_in_prefix v6 s0 p = Inr (Some c')" "address_loop v6 k s0 p v i s0 c' = Inr (t, ip)"
      unfolding address_loop.simps q_def [symmetric] by (auto split: sum.splits option.splits)
    have "\<exists>w. fst c' = str_ip4 w" using next_free_text(1) [OF 2(5), of v6 s0 "fst c'" "snd c'"] c'(1) by simp
    moreover have "\<not> \<not> address_conflict s ip' (map_option vrf_id v) (Some (px_id p))" using True by simp
    ultimately show ?thesis using 2(1) [OF q [unfolded q_def] refl refl _ c'(1) refl c'(2) 2(3,3,5)] by blast
  qed
qed simp

lemma bind_mgmt_keeps:
  assumes "bind_mgmt v6 mac s0 s d p c = Inr m" "ipam_inv s0" "ipam_inv s" "net_text (px_prefix p)" "\<exists>w. fst c = str_ip4 w"
  shows "ipam_inv (ma_db m)"
proof -
  have inv: "ipam_inv (s\<lparr>interfaces := x\<rparr>)" for x using assms(3) by (simp add: ipam_inv_def)
  show ?thesis
    using assms(1) unfolding bind_mgmt_def Let_def
    by (auto simp: inv assms(3) split: if_splits sum.splits intro: address_loop_keeps [OF _ assms(2) _ assms(4,5)])
qed

lemma find_role_prefix_in: "find_role_prefix s role = Some p \<Longrightarrow> p \<in> set (prefixes s)"
  by (auto simp: find_role_prefix_def split: option.splits dest: find_SomeD)

lemma assign_mgmt_keeps:
  assumes "assign_mgmt v6 mac s0 d = Inr (t, m)" "ipam_inv s0"
  shows "ipam_inv t"
proof (cases "classify_prefix_role (dev_type d)")
  case None
  then show ?thesis using assms by (auto simp: assign_mgmt_def Let_def ensure_ipam_defaults_inv)
next
  case (Some role)
  define s where "s = (case find_role_prefix (ensure_ipam_defaults s0) role of
      Some _ \<Rightarrow> ensure_ipam_defaults s0 | None \<Rightarrow> ensure_ipam_defaults (ensure_ipam_defaults s0))"
  have inv: "ipam_inv s" using assms(2) by (simp add: s_def ensure_ipam_defaults_inv split: option.splits)
  from assms(1) Some obtain p c m' where p: "find_role_prefix s role = Some p" "next_free_ip_in_prefix v6 s p = Inr (Some c)"
    "bind_mgmt v6 mac s0 s d p c = Inr m'" "t = ma_db m'"
    by (auto simp: assign_mgmt_def Let_def s_def split: option.splits sum.splits)
  have "net_text (px_prefix p)" using inv find_role_prefix_in [OF p(1)] by (simp add: ipam_inv_def)
  moreover from next_free_text(1) [OF this, of v6 s "fst c" "snd c"] p(2) have "\<exists>w. fst c = str_ip4 w" by simp
  ultimately show ?thesis using bind_mgmt_keeps [OF p(3) assms(2) inv] p(4) by simp
qed

text \<open>The bytes of a digest are below 256, so the addresses of an uplink are canonical.\<close>

lemma octets_text: "x < 256 \<Longrightarrow> y < 256 \<Longrightarrow> \<exists>w. ''172.18.'' @ show_nat x @ ''.'' @ show_nat y = str_ip4 w"
proof -
  assume "x < 256" "y < 256"
  then have "to_bytes (from_bytes [172, 18, x, y]) = [172, 18, x, y]" by (intro to_from_bytes) auto
  moreover have "show_nat 172 = ''172''" "show_nat 18 = ''18''" by code_simp+
  ultimately have "str_ip4 (from_bytes [172, 18, x, y]) = ''172.18.'' @ show_nat x @ ''.'' @ show_nat y"
    by (simp add: str_ip4_def)
  then show ?thesis by metis
qed

definition byte_digest :: "(string \<Rightarrow> nat list) \<Rightarrow> bool" where
  "byte_digest sha1 \<longleftrightarrow> (\<forall>m. length (sha1 m) = 20 \<and> (\<forall>b \<in> set (sha1 m). b < 256))"

lemma ptp_text:
  assumes "byte_digest sha1" "stable_ptp_pair sha1 lid = (a, b, n)"
  shows "\<exists>w. a = str_ip4 w" "\<exists>w. b = str_ip4 w"
proof -
  have "sha1 lid ! k < 256" if "k < 20" for k using assms(1) that unfolding byte_digest_def by (metis nth_mem)
  from this [of 0] this [of 1] have "sha1 lid ! 0 < 256" "2 * (sha1 lid ! 1 div 2) + 1 < 256" by simp_all presburger
  note octets = octets_text [OF this(1), of "2 * (sha1 lid ! 1 div 2)"] octets_text [OF this]
  have "a = ''172.18.'' @ show_nat (sha1 lid ! 0) @ ''.'' @ show_nat (2 * (sha1 lid ! 1 div 2))"
    "b = ''172.18.'' @ show_nat (sha1 lid ! 0) @ ''.'' @ show_nat (2 * (sha1 lid ! 1 div 2) + 1)"
    using assms(2) by (simp_all add: stable_ptp_pair_def Let_def)
  then show "\<exists>w. a = str_ip4 w" "\<exists>w. b = str_ip4 w"
    using octets \<open>2 * (sha1 lid ! 1 div 2) + 1 < 256\<close> by (metis add_lessD1)+
qed

lemma ensure_addr_keeps: "ensure_addr s i (str_ip4 w) len v = Some t \<Longrightarrow> ipam_inv s \<Longrightarrow> ipam_inv t"
  by (auto simp: ensure_addr_def split: if_splits intro: add_address_keeps)

lemma other_tables_keep [simp]:
  "ipam_inv (set_admin_up s i) = ipam_inv s" "ipam_inv (ensure_neighbor sha1 s i ip lid) = ipam_inv s"
  "ipam_inv (ensure_default_route s ifs v i nh) = ipam_inv s" "ipam_inv (update_device s d) = ipam_inv s"
  by (simp_all add: ipam_inv_def set_admin_up_def ensure_neighbor_def ensure_default_route_def Let_def)


lemma uplink_step_keeps:
  assumes "byte_digest sha1" "uplink_step sha1 d v ifs s lk = Some t" "ipam_inv s"
  shows "ipam_inv t"
proof (cases "is_uplink s d ifs lk")
  case True
  from uplink_step_parts [OF True assms(2) refl refl] obtain s2 s3 lid a b n my nh pv where
    ptp: "stable_ptp_pair sha1 lid = (a, b, n)" "(my, nh) = (a, b) \<or> (my, nh) = (b, a)"
    and s2: "ensure_addr (set_admin_up (set_admin_up s (my_end ifs lk)) (far_end lk (my_end ifs lk))) (my_end ifs lk) my n (Some v) = Some s2"
    and s3: "ensure_addr s2 (far_end lk (my_end ifs lk)) nh n (Some pv) = Some s3"
    and t: "t = ensure_default_route (ensure_neighbor sha1 (ensure_neighbor sha1 s3 (my_end ifs lk) nh (ln_id lk))
      (far_end lk (my_end ifs lk)) my (ln_id lk)) ifs v (my_end ifs lk) nh"
    .
  from ptp_text [OF assms(1) ptp(1)] ptp(2) obtain x y where "my = str_ip4 x" "nh = str_ip4 y" by auto
  with ensure_addr_keeps s2 s3 assms(3) have "ipam_inv s3" by (metis other_tables_keep(1))
  then show ?thesis by (simp add: t)
qed (use assms uplink_step_other in simp)

lemma uplink_loop_keeps: "byte_digest sha1 \<Longrightarrow> uplink_loop sha1 d v ifs s ls = Some t \<Longrightarrow> ipam_inv s \<Longrightarrow> ipam_inv t"
  by (induction ls arbitrary: s) (auto split: option.splits dest: uplink_step_keeps)

lemma auto_configure_keeps:
  assumes "byte_digest sha1" "auto_configure_l3_uplinks sha1 s d = Some t" "ipam_inv s"
  shows "ipam_inv t"
  using assms unfolding auto_configure_l3_uplinks_def Let_def
  by (auto simp: ensure_ipam_defaults_inv split: if_splits option.splits dest!: uplink_loop_keeps [OF assms(1)])


text \<open>The outcomes of an attempt: an error and nothing changed, or everything done.\<close>

definition set_up_uplinks :: "(string \<Rightarrow> nat list) \<Rightarrow> db \<Rightarrow> device \<Rightarrow> db" where
  "set_up_uplinks sha1 s d = (case auto_configure_l3_uplinks sha1 s d of Some t \<Rightarrow> t | None \<Rightarrow> s)"

lemma domain_event_accepted:
  "\<exists>st'. append_domain_event st ''PROVISIONING_UPDATED'' k p c now = Inr st'"
  by (simp add: append_domain_event_def DOMAIN_EVENT_TYPES_def)

lemma emit_keeps [simp]: "w_db (emit env w ty p tv) = w_db w" "w_version (emit env w ty p tv) = w_version w"
  by (simp_all add: emit_def)

lemma provision_device_ok:
  assumes "provision_error (pe_nx env) (w_db (pw_world pw)) d = None"
    and "assign_mgmt (pe_v6 env) (ce_mac_a (pe_cenv env)) (w_db (pw_world pw)) d = Inr (s1, m)"
    and "t = set_up_uplinks (pe_sha1 env) (update_device s1 (provision_defaults d)) (provision_defaults d)"
  shows "\<exists>pw'. provision_device env pw d = (pw', Inr (the (get_device t (dev_id d)))) \<and> w_db (pw_world pw') = t \<and>
    w_version (pw_world pw') = w_version (pw_world pw) + 1 \<and>
    pw_records pw' = pw_records pw @ (case m of None \<Rightarrow> [] | Some m \<Rightarrow> [audit_record env d m])"
proof -
  let ?ev = "append_domain_event (bus_store (w_bus (pw_world pw))) ''PROVISIONING_UPDATED'' (dev_id d)
    [(''device_type'', JStr (DeviceType_name (dev_type d))), (''provisioned'', JBool True), (''ip'', jopt (\<lambda>m. JStr (ma_ip m)) m)]
    None (ce_now (pe_cenv env))"
  obtain st where "?ev = Inr st" using domain_event_accepted by blast
  then show ?thesis
    using assms unfolding provision_device_def set_up_uplinks_def
    by (simp add: Let_def Links.bump_version_def)
qed

lemma provision_device_fails:
  assumes "\<And>s1 m. \<not> (provision_error (pe_nx env) (w_db (pw_world pw)) d = None \<and>
    assign_mgmt (pe_v6 env) (ce_mac_a (pe_cenv env)) (w_db (pw_world pw)) d = Inr (s1, m))"
  shows "fst (provision_device env pw d) = pw"
proof (cases "provision_error (pe_nx env) (w_db (pw_world pw)) d")
  case None
  then obtain e where "assign_mgmt (pe_v6 env) (ce_mac_a (pe_cenv env)) (w_db (pw_world pw)) d = Inl e"
    using assms by (cases "assign_mgmt (pe_v6 env) (ce_mac_a (pe_cenv env)) (w_db (pw_world pw)) d") auto
  then show ?thesis using None by (simp add: provision_device_def Let_def)
qed (simp add: provision_device_def Let_def)

text \<open>C22: Whatever provisioning does, it keeps the address plan valid: with a digest of 20 bytes, every attempt to provision a device, whether
  it succeeds or fails, leaves prefixes and addresses in canonical form, unique keys unique and no address twice in a prefix.\<close>

theorem provisioning_keeps_address_plan:
  assumes "ipam_inv (w_db (pw_world pw))" "byte_digest (pe_sha1 env)"
  shows "ipam_inv (w_db (pw_world (fst (provision_device env pw d))))"
proof -
  let ?assign = "assign_mgmt (pe_v6 env) (ce_mac_a (pe_cenv env)) (w_db (pw_world pw)) d"
  show ?thesis
  proof (cases "\<exists>s1 m. provision_error (pe_nx env) (w_db (pw_world pw)) d = None \<and> ?assign = Inr (s1, m)")
    case True
    then obtain s1 m where ok: "provision_error (pe_nx env) (w_db (pw_world pw)) d = None" "?assign = Inr (s1, m)" by blast
    have "ipam_inv s1" using assign_mgmt_keeps [OF ok(2) assms(1)] .
    then have "ipam_inv (set_up_uplinks (pe_sha1 env) (update_device s1 e) e')" for e e'
      using auto_configure_keeps [OF assms(2), of "update_device s1 e" e'] by (simp add: set_up_uplinks_def split: option.splits)
    then show ?thesis using provision_device_ok [OF ok refl] by auto
  qed (use assms(1) provision_device_fails [of env pw d] in auto)
qed

theorem provisioning_keeps_address_plan_witness:
  "ipam_inv (w_db (pw_world (fst (provision_device demo_penv \<lparr>pw_world = demo_world\<lparr>w_db := empty_db\<rparr>, pw_records = []\<rparr> (Device ''core'' CORE_ROUTER)))))"
  by (rule provisioning_keeps_address_plan) (simp_all add: demo_penv_def byte_digest_def ipam_inv_def empty_db_def)


section \<open>What a successful attempt leaves behind\<close>

lemma seeding_keeps_rows:
  "devices (ensure_ipam_defaults s) = devices s" "links (ensure_ipam_defaults s) = links s" "interfaces (ensure_ipam_defaults s) = interfaces s"
  "addresses (ensure_ipam_defaults s) = addresses s"
proof -
  have step: "devices (ensure_prefix m s dc) = devices s" "links (ensure_prefix m s dc) = links s"
    "interfaces (ensure_prefix m s dc) = interfaces s" "addresses (ensure_prefix m s dc) = addresses s" for m s dc
    by (simp_all add: ensure_prefix_def add_prefix_def Let_def split: prod.splits option.splits)
  have all: "devices (foldl (ensure_prefix m) s xs) = devices s" "links (foldl (ensure_prefix m) s xs) = links s"
    "interfaces (foldl (ensure_prefix m) s xs) = interfaces s" "addresses (foldl (ensure_prefix m) s xs) = addresses s" for m s xs
    by (induction xs arbitrary: s) (simp_all add: step)
  show "devices (ensure_ipam_defaults s) = devices s" "links (ensure_ipam_defaults s) = links s"
    "interfaces (ensure_ipam_defaults s) = interfaces s" "addresses (ensure_ipam_defaults s) = addresses s"
    by (simp_all add: ensure_ipam_defaults_def Let_def all ensure_vrf_def add_vrf_def)
qed

definition only_vrf_of :: "db \<Rightarrow> device \<Rightarrow> db \<Rightarrow> bool" where
  "only_vrf_of s d t \<longleftrightarrow> links t = links s \<and> (\<exists>v. get_device t (dev_id d) = Some (d\<lparr>dev_vrf_id := v\<rparr>)) \<and>
     (\<forall>k. k \<noteq> dev_id d \<longrightarrow> get_device t k = get_device s k) \<and> (\<forall>i. addrs_of s i \<noteq> [] \<longrightarrow> addrs_of t i = addrs_of s i) \<and>
     (\<forall>i. get_interface s i \<noteq> None \<longrightarrow> get_interface t i \<noteq> None)"

lemma only_vrf_refl: "get_device s (dev_id d) = Some d \<Longrightarrow> only_vrf_of s d s"
proof -
  assume "get_device s (dev_id d) = Some d"
  then have "\<exists>v. get_device s (dev_id d) = Some (d\<lparr>dev_vrf_id := v\<rparr>)" by (intro exI [of _ "dev_vrf_id d"]) simp
  then show ?thesis by (simp add: only_vrf_of_def)
qed

lemma only_vrf_frame:
  assumes "get_device s (dev_id d) = Some d" "s' = update_device s (d\<lparr>dev_vrf_id := v\<rparr>)" "l3_frame s' t"
  shows "only_vrf_of s d t"
proof -
  have "get_device t k = (if k = dev_id d then Some (d\<lparr>dev_vrf_id := v\<rparr>) else get_device s k)" for k
    using vrf_stored(1) [OF assms(1,2)] l3_frame_get_device [OF assms(3)] by simp
  moreover have "get_interface t i \<noteq> None" if "get_interface s i \<noteq> None" for i
    using that l3_frame_interface(1) [OF assms(3), of i] assms(2) by auto
  ultimately show ?thesis using assms(2,3) by (auto simp: only_vrf_of_def l3_frame_def)
qed

lemma auto_configure_rows:
  assumes "get_device s (dev_id d) = Some d" "auto_configure_l3_uplinks sha1 s d = Some t"
  shows "only_vrf_of s d t"
proof -
  define s1 where "s1 = (if find_vrf s ''mgmt'' = None then ensure_ipam_defaults s else s)"
  have s1: "get_device s1 = get_device s" "links s1 = links s" "addresses s1 = addresses s" "get_interface s1 = get_interface s"
    by (simp_all add: s1_def seeding_keeps_rows get_device_def get_interface_def fun_eq_iff)
  have same: "only_vrf_of s1 d t \<Longrightarrow> only_vrf_of s d t" by (simp add: only_vrf_of_def s1)
  have row: "get_device s1 (dev_id d) = Some d" using assms(1) s1 by simp
  show ?thesis
  proof (cases "dev_type d \<in> {EDGE_ROUTER, CORE_ROUTER}")
    case False
    then have "t = s" using assms(2) by (simp add: auto_configure_l3_uplinks_def)
    then show ?thesis using only_vrf_refl [OF assms(1)] by simp
  next
    case router: True
    show ?thesis
    proof (cases "find_vrf s1 ''mgmt''")
      case None
      then have "t = s1" using assms(2) router unfolding auto_configure_l3_uplinks_def s1_def by (auto simp: Let_def)
      then show ?thesis using same only_vrf_refl [OF row] by simp
    next
      case (Some m)
      have eq: "auto_configure_l3_uplinks sha1 s d = auto_configure_l3_uplinks sha1 s1 d"
        using Some router unfolding auto_configure_l3_uplinks_def s1_def by (auto simp: Let_def)
      define v where "v = (case dev_vrf_id d of Some k \<Rightarrow> k | None \<Rightarrow> vrf_id m)"
      define s' where "s' = update_device s1 (d\<lparr>dev_vrf_id := Some v\<rparr>)"
      from auto_configure_loop [OF router Some v_def refl s'_def refl, of sha1] assms(2) eq
      have "l3_frame s' t" by (auto split: if_splits dest: uplink_loop_frame)
      from only_vrf_frame [OF row s'_def this] same show ?thesis by blast
    qed
  qed
qed

lemma set_up_uplinks_rows: "get_device s (dev_id d) = Some d \<Longrightarrow> only_vrf_of s d (set_up_uplinks sha1 s d)"
  using auto_configure_rows only_vrf_refl by (auto simp: set_up_uplinks_def split: option.splits)


text \<open>The first attempt of the loop succeeds when the address is free in prefix and VRF.\<close>

lemma fresh_mgmt_address:
  assumes "classify_prefix_role (dev_type d) = Some role" "find_role_prefix s role = Some p" "s = ensure_ipam_defaults s0"
    and "next_free_ip_in_prefix v6 s p = Inr (Some (ip, len))" "net_text (px_prefix p)"
    and "\<And>v. get_vrf s (px_vrf_id p) = Some v \<Longrightarrow> \<not> taken_in_vrf s (vrf_id v) ip" "addrs_of s (dev_id d @ ''-mgmt0'') = []"
  shows "\<exists>s1. assign_mgmt v6 mac s0 d = Inr (add_address s1 (dev_id d @ ''-mgmt0'') ip (int len) (map_option vrf_id (get_vrf s (px_vrf_id p))) (Some (px_id p)),
      Some \<lparr>ma_db = add_address s1 (dev_id d @ ''-mgmt0'') ip (int len) (map_option vrf_id (get_vrf s (px_vrf_id p))) (Some (px_id p)),
        ma_ip = ip, ma_vrf = get_vrf s (px_vrf_id p), ma_prefix = p\<rparr>) \<and>
    (s1 = s \<and> get_interface s (dev_id d @ ''-mgmt0'') \<noteq> None \<or> s1 = s\<lparr>interfaces := interfaces s @ [mgmt_interface d mac]\<rparr>)"
proof -
  let ?i = "dev_id d @ ''-mgmt0''" and ?v = "get_vrf s (px_vrf_id p)"
  define s1 where "s1 = (if get_interface s ?i = None then s\<lparr>interfaces := interfaces s @ [mgmt_interface d mac]\<rparr> else s)"
  have none: "find (\<lambda>a. ia_interface_id a = ?i) (addresses s) = None"
    using assms(7) by (simp add: find_None_iff' filter_empty_conv)
  have ad: "addresses s1 = addresses s" by (simp add: s1_def)
  then have free: "\<not> address_conflict s1 ip (map_option vrf_id ?v) (Some (px_id p))"
    using next_free_text(2) [OF assms(5,4)] assms(6)
    by (cases ?v) (auto simp: address_conflict_def taken_in_prefix_def taken_in_vrf_def list_ex_iff)
  have first: "(case ?v of Some x \<Rightarrow> if taken_in_vrf s1 (vrf_id x) ip then next_free_ip_in_prefix v6 s1 p else Inr (Some (ip, len))
      | None \<Rightarrow> Inr (Some (ip, len))) = Inr (Some (ip, len))"
    using assms(6) ad by (cases ?v) (simp_all add: taken_in_vrf_def)
  have five: "(5 :: nat) = Suc 4" by simp
  have loop: "address_loop v6 5 s0 p ?v ?i s1 (ip, len) = Inr (add_address s1 ?i ip (int len) (map_option vrf_id ?v) (Some (px_id p)), ip)"
    unfolding five address_loop.simps fst_conv first using free by simp
  have "bind_mgmt v6 mac s0 s d p (ip, len) = Inr \<lparr>ma_db = add_address s1 ?i ip (int len) (map_option vrf_id ?v) (Some (px_id p)), ma_ip = ip, ma_vrf = ?v, ma_prefix = p\<rparr>"
    unfolding bind_mgmt_def Let_def none s1_def [symmetric] loop by simp
  then have "assign_mgmt v6 mac s0 d = Inr (add_address s1 ?i ip (int len) (map_option vrf_id ?v) (Some (px_id p)),
      Some \<lparr>ma_db = add_address s1 ?i ip (int len) (map_option vrf_id ?v) (Some (px_id p)), ma_ip = ip, ma_vrf = ?v, ma_prefix = p\<rparr>)"
    using assms(1,2,4) unfolding assign_mgmt_def assms(3) [symmetric] by (simp add: Let_def)
  then show ?thesis by (intro exI [of _ s1]) (simp add: s1_def)
qed


text \<open>C9: A device that passes the checks is provisioned when the prefix of its role has a least free address, that address is
  not taken in the prefix's VRF either, and \<^verbatim>\<open>mgmt0\<close> of the device carries no address yet. Its row is stored as provisioned, its management
  interface exists and carries exactly that address, the topology version grows by one and one audit record is written. Of the other rows,
  those of all other devices and all links stay as they were, and so do the addresses of every interface that had one; every interface still
  exists. The set-up of the uplinks may add interfaces, addresses, routes and a VRF besides.\<close>

theorem provisioning_assigns_address:
  assumes "ipam_inv (w_db (pw_world pw))" "get_device (w_db (pw_world pw)) (dev_id d) = Some d"
    and "provision_error (pe_nx env) (w_db (pw_world pw)) d = None"
    and "s = ensure_ipam_defaults (w_db (pw_world pw))" "classify_prefix_role (dev_type d) = Some role" "find_role_prefix s role = Some p"
    and "next_free_ip_in_prefix (pe_v6 env) s p = Inr (Some (ip, len))"
    and "\<And>v. get_vrf s (px_vrf_id p) = Some v \<Longrightarrow> \<not> taken_in_vrf s (vrf_id v) ip"
    and "\<forall>a \<in> set (addresses s). ia_interface_id a \<noteq> dev_id d @ ''-mgmt0''"
  shows "\<exists>pw' t d'. provision_device env pw d = (pw', Inr d') \<and> t = w_db (pw_world pw') \<and>
    get_device t (dev_id d) = Some d' \<and> dev_provisioned d' \<and> (\<forall>k. k \<noteq> dev_id d \<longrightarrow> get_device t k = get_device s k) \<and> links t = links s \<and>
    get_interface t (dev_id d @ ''-mgmt0'') \<noteq> None \<and>
    map (\<lambda>a. (ia_ip a, ia_prefix_len a, ia_prefix_id a)) (addrs_of t (dev_id d @ ''-mgmt0'')) = [(ip, int len, Some (px_id p))] \<and>
    (\<forall>i. addrs_of s i \<noteq> [] \<longrightarrow> addrs_of t i = addrs_of s i) \<and> (\<forall>i. get_interface s i \<noteq> None \<longrightarrow> get_interface t i \<noteq> None) \<and>
    w_version (pw_world pw') = w_version (pw_world pw) + 1 \<and>
    (\<exists>r. pw_records pw' = pw_records pw @ [r] \<and> pv_device_id r = dev_id d \<and> pv_ip r = ip \<and> pv_prefix_id r = px_id p)"
proof -
  let ?i = "dev_id d @ ''-mgmt0''" and ?e = "provision_defaults d"
  have inv: "ipam_inv s" using assms(1) by (simp add: assms(4) ensure_ipam_defaults_inv)
  have nt: "net_text (px_prefix p)" using inv find_role_prefix_in [OF assms(6)] by (simp add: ipam_inv_def)
  have e: "dev_id ?e = dev_id d" "dev_provisioned ?e" by (simp_all add: provision_defaults_def Let_def)
  have noaddr: "addrs_of s ?i = []" using assms(9) by (simp add: filter_empty_conv)
  from fresh_mgmt_address [OF assms(5,6,4,7) nt assms(8) noaddr, of "ce_mac_a (pe_cenv env)"] obtain s1 s2 m where
    as: "assign_mgmt (pe_v6 env) (ce_mac_a (pe_cenv env)) (w_db (pw_world pw)) d = Inr (s2, Some m)"
    and m: "ma_ip m = ip" "ma_prefix m = p"
    and s2: "s2 = add_address s1 ?i ip (int len) (map_option vrf_id (get_vrf s (px_vrf_id p))) (Some (px_id p))"
    and s1: "s1 = s \<and> get_interface s ?i \<noteq> None \<or> s1 = s\<lparr>interfaces := interfaces s @ [mgmt_interface d (ce_mac_a (pe_cenv env))]\<rparr>"
    by auto
  have rows: "get_device s2 = get_device s" "links s2 = links s" "addresses s1 = addresses s"
    using s1 by (auto simp: s2 add_address_def get_device_def fun_eq_iff)
  have ifc: "get_interface s2 ?i \<noteq> None"
    using s1 by (auto simp: s2 add_address_def get_interface_def find_None_iff' mgmt_interface_def Interface_def find_append split: option.splits)
  have row: "get_device s (dev_id d) = Some d" using assms(2) by (simp add: assms(4) seeding_keeps_rows get_device_def)
  define s3 where "s3 = update_device s2 ?e"
  have gd: "get_device s3 k = (if k = dev_id d then Some ?e else get_device s k)" for k
    using get_device_update [of s2 ?e k] row by (simp add: s3_def rows e)
  define t where "t = set_up_uplinks (pe_sha1 env) s3 ?e"
  have fr: "only_vrf_of s3 ?e t" unfolding t_def by (rule set_up_uplinks_rows) (simp add: gd e)
  obtain pw' where pw': "provision_device env pw d = (pw', Inr (the (get_device t (dev_id d))))" "w_db (pw_world pw') = t"
    "w_version (pw_world pw') = w_version (pw_world pw) + 1" "pw_records pw' = pw_records pw @ [audit_record env d m]"
    using provision_device_ok [OF assms(3) as, of t] by (auto simp: t_def s3_def)
  have ad: "addrs_of s3 ?i \<noteq> []" "map (\<lambda>a. (ia_ip a, ia_prefix_len a, ia_prefix_id a)) (addrs_of s3 ?i) = [(ip, int len, Some (px_id p))]"
    "addrs_of s i \<noteq> [] \<Longrightarrow> addrs_of s3 i = addrs_of s i" for i
    using noaddr by (auto simp: s3_def s2 add_address_def rows)
  note frD = fr [unfolded only_vrf_of_def e]
  have addr_t: "addrs_of t ?i = addrs_of s3 ?i" using frD ad(1) by blast
  have others: "addrs_of t i = addrs_of s i" if "addrs_of s i \<noteq> []" for i
    using frD ad(3) [OF that] that by metis
  have keep: "get_interface s3 = get_interface s2" "links s3 = links s2" by (simp_all add: s3_def)
  have "get_interface s2 i \<noteq> None" if "get_interface s i \<noteq> None" for i
    using s1 that by (auto simp: s2 add_address_def get_interface_def find_append split: option.splits)
  then have grown: "\<forall>i. get_interface s i \<noteq> None \<longrightarrow> get_interface t i \<noteq> None" using frD keep by metis
  have "get_interface t ?i \<noteq> None" using frD ifc keep by metis
  moreover have "links t = links s" using frD keep rows by metis
  moreover have "\<forall>k. k \<noteq> dev_id d \<longrightarrow> get_device t k = get_device s k" using frD gd by metis
  moreover obtain v where v: "get_device t (dev_id d) = Some (?e\<lparr>dev_vrf_id := v\<rparr>)" using frD by blast
  moreover have "dev_provisioned (?e\<lparr>dev_vrf_id := v\<rparr>)" using e by simp
  moreover have "pv_device_id (audit_record env d m) = dev_id d" "pv_ip (audit_record env d m) = ip" "pv_prefix_id (audit_record env d m) = px_id p"
    using m by (simp_all add: audit_record_def)
  ultimately show ?thesis using pw' others ad(2) addr_t grown
    by (intro exI [of _ pw'] exI [of _ t] exI [of _ "?e\<lparr>dev_vrf_id := v\<rparr>"]) simp
qed


lemma demo_site_facts:
  "get_device demo_site ''olt'' = Some (Device ''olt'' OLT)" "provision_error list_nx demo_site (Device ''olt'' OLT) = None"
  "demo_site = ensure_ipam_defaults demo_site" "dev_id (Device ''olt'' OLT) = ''olt''"
  "classify_prefix_role (dev_type (Device ''olt'' OLT)) = Some ''olt_mgmt''"
  "find_role_prefix demo_site ''olt_mgmt'' = Some (demo_prefix 2 ''10.0.0.0/30'' ''olt_mgmt'')"
  "next_free_ip_in_prefix no_v6 demo_site (demo_prefix 2 ''10.0.0.0/30'' ''olt_mgmt'') = Inr (Some (''10.0.0.1'', 30))"
  "addresses demo_site = []"
  by code_simp+

lemma demo_site_inv: "ipam_inv demo_site"
proof -
  have "net_text t" if "t \<in> px_prefix ` set (prefixes demo_site)" for t
  proof (rule net_textI)
    from that show "IPv4Network True t = Some (the (IPv4Network True t))" "str_net4 (the (IPv4Network True t)) = t"
      by (auto simp: demo_site_def demo_prefix_def) code_simp+
  qed
  then have "\<forall>p \<in> set (prefixes demo_site). net_text (px_prefix p)" by blast
  then show ?thesis by (auto simp: ipam_inv_def demo_site_facts(8)) (simp_all add: demo_site_def demo_prefix_def)
qed

theorem provisioning_assigns_address_witness:
  "\<exists>pw' t d'. provision_device demo_penv \<lparr>pw_world = demo_world\<lparr>w_db := demo_site\<rparr>, pw_records = []\<rparr> (Device ''olt'' OLT) = (pw', Inr d') \<and>
     t = w_db (pw_world pw') \<and> dev_provisioned d' \<and> map ia_ip (addrs_of t ''olt-mgmt0'') = [''10.0.0.1'']"
proof -
  let ?pw = "\<lparr>pw_world = demo_world\<lparr>w_db := demo_site\<rparr>, pw_records = []\<rparr>"
  have db: "w_db (pw_world ?pw) = demo_site" by simp
  have env: "pe_nx demo_penv = list_nx" "pe_v6 demo_penv = no_v6" by (simp_all add: demo_penv_def)
  have "\<not> taken_in_vrf demo_site v ip" "\<forall>a \<in> set (addresses demo_site). P a" for v ip P
    by (simp_all add: taken_in_vrf_def demo_site_facts(8))
  from provisioning_assigns_address [of ?pw "Device ''olt'' OLT" demo_penv demo_site, unfolded db env, OF demo_site_inv _ _ _ demo_site_facts(5-7) this]
  show ?thesis unfolding demo_site_facts(4) using demo_site_facts(1-3) by (auto simp: map_eq_Cons_conv)
qed

end
