(* ===== verification/Forwarding.thy ===== *)
theory Forwarding
  imports Ipam
begin

text \<open>
  Packet forwarding: the bridge of a switch (\<^verbatim>\<open>services/l2_service.py\<close>), the routing decision of a router
  (\<^verbatim>\<open>services/l3_service.py\<close>), the path of a flow (\<^verbatim>\<open>services/forwarding_service.py\<close>) and the static routes
  endpoint (\<^verbatim>\<open>api/endpoints/routing.py\<close>). A switch learns from every frame, so the path query passes the
  database along. The sessions the services open read the same database.
\<close>

section \<open>Bridges\<close>

datatype l2_result = L2Drop string | L2Forward ident | L2Flood "ident list"

definition BROADCAST_MAC :: string where
  "BROADCAST_MAC = ''ff:ff:ff:ff:ff:ff''"

definition default_bd_id :: "db \<Rightarrow> ident \<Rightarrow> int option" where
  "default_bd_id s d = map_option bd_id (find (\<lambda>b. bd_device_id b = d \<and> bd_name b = ''default'') (bridge_domains s))"

definition interfaces_in_bd :: "db \<Rightarrow> int \<Rightarrow> iface list" where
  "interfaces_in_bd s b = filter (\<lambda>i. if_bridge_domain_id i = Some b) (interfaces s)"

definition mac_key :: "int \<Rightarrow> string \<Rightarrow> mac_entry \<Rightarrow> bool" where
  "mac_key b m e \<longleftrightarrow> me_bridge_domain_id e = b \<and> me_mac_address e = m"

text \<open>The row found first is the one that is changed; the unique constraint of the table makes it the
  only one.\<close>

fun update_first :: "('a \<Rightarrow> bool) \<Rightarrow> ('a \<Rightarrow> 'a) \<Rightarrow> 'a list \<Rightarrow> 'a list" where
  "update_first P f [] = []"
| "update_first P f (x # xs) = (if P x then f x # xs else x # update_first P f xs)"

definition learn :: "db \<Rightarrow> int \<Rightarrow> string \<Rightarrow> ident \<Rightarrow> db" where
  "learn s b src ingress =
     (case find (mac_key b src) (mac_entries s) of
        Some e \<Rightarrow>
          (if me_interface_id e \<noteq> ingress
           then s\<lparr>mac_entries := update_first (mac_key b src) (\<lambda>e. e\<lparr>me_interface_id := ingress\<rparr>) (mac_entries s)\<rparr>
           else s)
      | None \<Rightarrow> s\<lparr>mac_entries := mac_entries s @ [\<lparr>me_mac_address = src, me_interface_id = ingress,
                  me_bridge_domain_id = b, me_type = MAC_DYNAMIC\<rparr>]\<rparr>)"

definition flood_egress :: "db \<Rightarrow> int \<Rightarrow> ident \<Rightarrow> ident list" where
  "flood_egress s b ingress = filter (\<lambda>i. i \<noteq> ingress) (map if_id (interfaces_in_bd s b))"

definition process_frame :: "db \<Rightarrow> ident \<Rightarrow> ident \<Rightarrow> string \<Rightarrow> string \<Rightarrow> db \<times> l2_result" where
  "process_frame s d ingress source destination =
     (let src = lower source; dst = lower destination
      in case default_bd_id s d of
           None \<Rightarrow> (s, L2Drop ''no_bridge_domain'')
         | Some b \<Rightarrow>
             (let s1 = learn s b src ingress
              in if dst = BROADCAST_MAC then (s1, L2Flood (flood_egress s1 b ingress))
                 else case find (mac_key b dst) (mac_entries s1) of
                        Some e \<Rightarrow> (s1, L2Forward (me_interface_id e))
                      | None \<Rightarrow> (s1, L2Flood (flood_egress s1 b ingress))))"

section \<open>Routes\<close>

record forward_decision =
  fd_action :: string
  fd_reason :: "string option"
  fd_egress_interface_id :: "ident option"
  fd_next_hop_mac :: "string option"

definition fd_drop :: "string \<Rightarrow> forward_decision" where
  "fd_drop r = \<lparr>fd_action = ''drop'', fd_reason = Some r, fd_egress_interface_id = None, fd_next_hop_mac = None\<rparr>"

fun lpm_loop :: "v6_text \<Rightarrow> ip_addr \<Rightarrow> (nat \<times> route) option \<Rightarrow> route list \<Rightarrow> (nat \<times> route) option" where
  "lpm_loop v6 target best [] = best"
| "lpm_loop v6 target best (r # rs) =
     lpm_loop v6 target
       (case ip_network v6 False (rt_prefix r) of
          None \<Rightarrow> best
        | Some net \<Rightarrow>
            if net_in target net \<and> (case best of None \<Rightarrow> True | Some (l, _) \<Rightarrow> prefixlen net > l)
            then Some (prefixlen net, r) else best) rs"

definition longest_prefix_match :: "v6_text \<Rightarrow> db \<Rightarrow> int \<Rightarrow> string \<Rightarrow> route option" where
  "longest_prefix_match v6 s v dst =
     (case ip_address v6 dst of
        None \<Rightarrow> None
      | Some target \<Rightarrow> map_option snd (lpm_loop v6 target None (filter (\<lambda>r. rt_vrf_id r = v) (routes s))))"

definition find_neighbor :: "db \<Rightarrow> ident \<Rightarrow> string \<Rightarrow> neighbor option" where
  "find_neighbor s i ip = find (\<lambda>n. nb_interface_id n = i \<and> nb_ip_address n = ip) (neighbors s)"

definition resolve_next_hop_mac :: "db \<Rightarrow> ident \<Rightarrow> string \<Rightarrow> string option" where
  "resolve_next_hop_mac s i ip = map_option nb_mac_address (find_neighbor s i ip)"

definition get_forwarding_decision :: "v6_text \<Rightarrow> db \<Rightarrow> ident \<Rightarrow> string option \<Rightarrow> forward_decision" where
  "get_forwarding_decision v6 s d dst =
     (if \<not> truthy dst then fd_drop ''invalid_packet''
      else case Option.bind (get_device s d) dev_vrf_id of
             None \<Rightarrow> fd_drop ''no_device_vrf''
           | Some v \<Rightarrow>
               (case longest_prefix_match v6 s v (the dst) of
                  None \<Rightarrow> fd_drop ''no_route_found''
                | Some r \<Rightarrow>
                    if truthy (rt_interface_id r) \<and> \<not> truthy (rt_next_hop r)
                    then \<lparr>fd_action = ''forward'', fd_reason = None, fd_egress_interface_id = rt_interface_id r,
                          fd_next_hop_mac = None\<rparr>
                    else if truthy (rt_interface_id r) \<and> truthy (rt_next_hop r)
                    then (let mac = resolve_next_hop_mac s (the (rt_interface_id r)) (the (rt_next_hop r))
                          in if \<not> truthy mac then fd_drop ''next_hop_unresolved''
                             else \<lparr>fd_action = ''forward'', fd_reason = None,
                                   fd_egress_interface_id = rt_interface_id r, fd_next_hop_mac = mac\<rparr>)
                    else if truthy (rt_next_hop r) \<and> \<not> truthy (rt_interface_id r)
                    then fd_drop ''egress_interface_unknown''
                    else fd_drop ''invalid_route''))"

section \<open>Flows\<close>

record flow =
  fl_source_ip :: string
  fl_destination_ip :: string
  fl_current_device_id :: ident
  fl_current_interface_id :: "ident option"

definition ROUTERS :: "DeviceType set" where
  "ROUTERS = {CORE_ROUTER, EDGE_ROUTER, BACKBONE_GATEWAY}"

definition placeholder_frame :: "db \<Rightarrow> device \<Rightarrow> ident option \<Rightarrow> db \<times> l2_result" where
  "placeholder_frame s dev i =
     process_frame s (dev_id dev) (case i of None \<Rightarrow> [] | Some x \<Rightarrow> x) ''00:00:00:00:00:00'' ''ff:ff:ff:ff:ff:ff''"

definition forward_flow :: "v6_text \<Rightarrow> db \<Rightarrow> flow \<Rightarrow> db \<times> flow" where
  "forward_flow v6 s f =
     (case get_device s (fl_current_device_id f) of
        None \<Rightarrow> (s, f)
      | Some dev \<Rightarrow>
          if dev_type dev \<in> ROUTERS
          then (let d = get_forwarding_decision v6 s (fl_current_device_id f) (Some (fl_destination_ip f))
                in if fd_action d \<noteq> ''forward'' \<or> \<not> truthy (fd_egress_interface_id d) then (s, f)
                   else (s, f\<lparr>fl_current_interface_id := fd_egress_interface_id d\<rparr>))
          else if dev_type dev = AON_SWITCH
          then (case placeholder_frame s dev (fl_current_interface_id f) of
                  (s1, L2Forward e) \<Rightarrow> (s1, f\<lparr>fl_current_interface_id := Some e\<rparr>)
                | (s1, _) \<Rightarrow> (s1, f))
          else (s, f))"

definition find_peer_interface :: "db \<Rightarrow> ident \<Rightarrow> (ident \<times> ident \<times> ident) option" where
  "find_peer_interface s e =
     (case find (\<lambda>l. ln_a_interface_id l = e \<or> ln_b_interface_id l = e) (links s) of
        None \<Rightarrow> None
      | Some l \<Rightarrow>
          if ln_status l \<noteq> UP then None
          else (let peer = (if ln_a_interface_id l = e then ln_b_interface_id l else ln_a_interface_id l)
                in map_option (\<lambda>i. (if_id i, if_device_id i, ln_id l)) (get_interface s peer)))"

record hop_step =
  hs_forward :: bool
  hs_egress :: "ident option"
  hs_reason :: "string option"
  hs_deliver :: bool
  hs_meta :: string

definition step_drop :: "string \<Rightarrow> string \<Rightarrow> hop_step" where
  "step_drop r m = \<lparr>hs_forward = False, hs_egress = None, hs_reason = Some r, hs_deliver = False, hs_meta = m\<rparr>"

definition step_forward :: "ident \<Rightarrow> bool \<Rightarrow> string \<Rightarrow> hop_step" where
  "step_forward e b m = \<lparr>hs_forward = True, hs_egress = Some e, hs_reason = None, hs_deliver = b, hs_meta = m\<rparr>"

text \<open>A route of the VRF may belong to another device: then the routes over the interfaces of this device
  are searched.\<close>

definition local_route_step :: "v6_text \<Rightarrow> db \<Rightarrow> device \<Rightarrow> string \<Rightarrow> hop_step" where
  "local_route_step v6 s dev dst =
     (let if_ids = map if_id (filter (\<lambda>i. if_device_id i = dev_id dev) (interfaces s));
          v = (case dev_vrf_id dev of None \<Rightarrow> -1 | Some k \<Rightarrow> if k = 0 then -1 else k);
          rs = filter (\<lambda>r. (case rt_interface_id r of None \<Rightarrow> [] | Some i \<Rightarrow> i) \<in> set if_ids)
                 (filter (\<lambda>r. rt_vrf_id r = v) (routes s))
      in case ip_address v6 dst of
           None \<Rightarrow> step_drop ''invalid_packet'' ''l3_drop''
         | Some target \<Rightarrow>
             (case lpm_loop v6 target None rs of
                None \<Rightarrow> step_drop ''no_route_found'' ''l3_drop''
              | Some (_, r) \<Rightarrow>
                  if \<not> truthy (rt_interface_id r) then step_drop ''egress_interface_unknown'' ''l3_drop''
                  else if truthy (rt_next_hop r)
                  then (if find_neighbor s (the (rt_interface_id r)) (the (rt_next_hop r)) = None
                        then step_drop ''next_hop_unresolved'' ''l3_drop''
                        else step_forward (the (rt_interface_id r)) False ''l3_route'')
                  else step_forward (the (rt_interface_id r)) True ''l3_route''))"

definition router_step :: "v6_text \<Rightarrow> db \<Rightarrow> device \<Rightarrow> flow \<Rightarrow> hop_step" where
  "router_step v6 s dev f =
     (let d = get_forwarding_decision v6 s (fl_current_device_id f) (Some (fl_destination_ip f))
      in if fd_action d \<noteq> ''forward''
         then step_drop (if truthy (fd_reason d) then the (fd_reason d) else ''l3_drop'') ''l3_drop''
         else if \<not> truthy (fd_egress_interface_id d) then step_drop ''no_egress_interface'' ''l3_drop''
         else (let e = the (fd_egress_interface_id d)
               in if (case get_interface s e of None \<Rightarrow> True | Some i \<Rightarrow> if_device_id i \<noteq> dev_id dev)
                  then local_route_step v6 s dev (fl_destination_ip f)
                  else step_forward e (fd_next_hop_mac d = None) ''l3_route''))"

definition switch_step :: "l2_result \<Rightarrow> hop_step" where
  "switch_step res =
     (case res of
        L2Forward e \<Rightarrow> if e \<noteq> [] then step_forward e False ''l2_forward'' else step_drop ''l2_no_egress'' ''l2_drop''
      | L2Flood es \<Rightarrow>
          (case es of [e] \<Rightarrow> step_forward e False ''l2_flood_single'' | _ \<Rightarrow> step_drop ''l2_ambiguous_flood'' ''l2_drop'')
      | L2Drop r \<Rightarrow> step_drop r ''l2_drop'')"

definition flow_step :: "v6_text \<Rightarrow> db \<Rightarrow> flow \<Rightarrow> db \<times> hop_step" where
  "flow_step v6 s f =
     (case get_device s (fl_current_device_id f) of
        None \<Rightarrow> (s, step_drop ''device_not_found'' ''error'')
      | Some dev \<Rightarrow>
          if dev_type dev \<in> ROUTERS then (s, router_step v6 s dev f)
          else if dev_type dev = AON_SWITCH
          then map_prod id switch_step (placeholder_frame s dev (fl_current_interface_id f))
          else (s, step_drop ''unsupported_device_type'' ''error''))"

record hop_meta =
  hm_device_id :: ident
  hm_device_type' :: string
  hm_action :: string
  hm_egress_interface_id :: "ident option"
  hm_deliver_here :: bool
  hm_reason :: "string option"
  hm_link_id_to_next :: "ident option"

record flow_result =
  fr_outcome :: string
  fr_reason :: "string option"
  fr_hops :: "flow list"
  fr_hop_metadata :: "hop_meta list"
  fr_final_device_id :: ident
  fr_final_interface_id :: "ident option"

definition hop_row :: "db \<Rightarrow> flow \<Rightarrow> hop_step \<Rightarrow> bool \<Rightarrow> string option \<Rightarrow> ident option \<Rightarrow> hop_meta" where
  "hop_row s f st deliver reason lid =
     \<lparr>hm_device_id = fl_current_device_id f,
      hm_device_type' = (case get_device s (fl_current_device_id f) of
                           Some d \<Rightarrow> DeviceType_name (dev_type d) | None \<Rightarrow> ''UNKNOWN''),
      hm_action = hs_meta st, hm_egress_interface_id = hs_egress st, hm_deliver_here = deliver,
      hm_reason = reason, hm_link_id_to_next = lid\<rparr>"

fun flow_loop :: "v6_text \<Rightarrow> flow \<Rightarrow> nat \<Rightarrow> db \<Rightarrow> flow list \<Rightarrow> hop_meta list \<Rightarrow> db \<times> flow_result" where
  "flow_loop v6 init 0 s hops meta =
     (s, \<lparr>fr_outcome = ''drop'', fr_reason = Some ''ttl_exceeded'', fr_hops = hops, fr_hop_metadata = meta,
          fr_final_device_id = fl_current_device_id (last hops),
          fr_final_interface_id = fl_current_interface_id (last hops)\<rparr>)"
| "flow_loop v6 init (Suc n) s hops meta =
     (let cur = last hops; (s1, st) = flow_step v6 s cur;
          reason = (if truthy (hs_reason st) then the (hs_reason st) else ''unknown'');
          delivered = (s1, \<lparr>fr_outcome = ''delivered'', fr_reason = None,
             fr_hops = hops @ [cur\<lparr>fl_current_interface_id := hs_egress st\<rparr>],
             fr_hop_metadata = meta @ [hop_row s cur st True None None],
             fr_final_device_id = fl_current_device_id cur, fr_final_interface_id = hs_egress st\<rparr>)
      in if \<not> hs_forward st \<or> \<not> truthy (hs_egress st)
         then (s1, \<lparr>fr_outcome = ''drop'', fr_reason = Some reason, fr_hops = hops,
                    fr_hop_metadata = meta @ [hop_row s cur st (hs_deliver st) (Some reason) None],
                    fr_final_device_id = fl_current_device_id cur,
                    fr_final_interface_id = fl_current_interface_id cur\<rparr>)
         else if hs_deliver st then delivered
         else case find_peer_interface s1 (the (hs_egress st)) of
                None \<Rightarrow> delivered
              | Some (pif, pdev, lid) \<Rightarrow>
                  if pif = [] \<or> pdev = [] then delivered
                  else flow_loop v6 init n s1
                         (hops @ [\<lparr>fl_source_ip = fl_source_ip init, fl_destination_ip = fl_destination_ip init,
                                   fl_current_device_id = pdev, fl_current_interface_id = Some pif\<rparr>])
                         (meta @ [hop_row s cur st False None (Some lid)]))"

definition resolve_flow_path :: "v6_text \<Rightarrow> db \<Rightarrow> flow \<Rightarrow> int \<Rightarrow> db \<times> flow_result" where
  "resolve_flow_path v6 s f ttl = flow_loop v6 f (nat (max 0 ttl)) s [f] []"

section \<open>Static routes\<close>

text \<open>The request body after validation: \<^verbatim>\<open>admin_distance\<close> is at least 1 and \<^verbatim>\<open>metric\<close> at least 0.\<close>

record route_in =
  ri_vrf_id :: int
  ri_prefix :: string
  ri_next_hop :: "string option"
  ri_interface_id :: "ident option"
  ri_admin_distance :: int
  ri_metric :: int

definition route_error :: "db \<Rightarrow> ident \<Rightarrow> int \<Rightarrow> route_in \<Rightarrow> http_exception option" where
  "route_error s d v p =
     (if ri_vrf_id p \<noteq> v then Some (http 400 ''VRF_ID_MISMATCH'')
      else if get_device s d = None then Some (http 404 ''DEVICE_NOT_FOUND'')
      else if get_vrf s v = None then Some (http 404 ''VRF_NOT_FOUND'')
      else if truthy (ri_interface_id p) \<and> get_interface s (the (ri_interface_id p)) = None
      then Some (http 404 ''INTERFACE_NOT_FOUND'')
      else if truthy (ri_interface_id p) \<and> if_device_id (the (get_interface s (the (ri_interface_id p)))) \<noteq> d
      then Some (http 400 ''INTERFACE_NOT_ON_DEVICE'')
      else if ri_prefix p = ''0.0.0.0/0'' \<and> \<not> truthy (ri_next_hop p)
      then Some (http 400 ''DEFAULT_ROUTE_REQUIRES_NEXT_HOP'')
      else if ri_prefix p = ''0.0.0.0/0'' \<and> \<not> truthy (ri_interface_id p)
      then Some (http 400 ''DEFAULT_ROUTE_REQUIRES_INTERFACE'')
      else if ri_next_hop p \<noteq> None \<and> ri_interface_id p \<noteq> None \<and>
              list_ex (\<lambda>r. rt_vrf_id r = v \<and> rt_prefix r = ri_prefix p \<and> rt_next_hop r = ri_next_hop p \<and>
                 rt_interface_id r = ri_interface_id p) (routes s)
      then Some (http 409 ''ROUTE_ALREADY_EXISTS'')
      else None)"

definition add_static_route ::
    "cenv \<Rightarrow> world \<Rightarrow> ident \<Rightarrow> int \<Rightarrow> route_in \<Rightarrow> (world \<times> (http_exception + route)) option" where
  "add_static_route env w d v p =
     (case route_error (w_db w) d v p of
        Some e \<Rightarrow> Some (w, Inl e)
      | None \<Rightarrow>
          (let row = \<lparr>rt_id = Some (next_row_id (List.map_filter rt_id (routes (w_db w)))), rt_vrf_id = v,
                      rt_prefix = ri_prefix p, rt_next_hop = ri_next_hop p, rt_interface_id = ri_interface_id p,
                      rt_admin_distance = ri_admin_distance p, rt_metric = ri_metric p\<rparr>
           in map_option (\<lambda>w'. (w', Inr row))
                (touch env ''routing'' (show_int v) (w\<lparr>w_db := (w_db w)\<lparr>routes := routes (w_db w) @ [row]\<rparr>\<rparr>))))"

definition list_routes :: "db \<Rightarrow> ident \<Rightarrow> int \<Rightarrow> http_exception + route list" where
  "list_routes s d v =
     (if get_device s d = None then Inl (http 404 ''DEVICE_NOT_FOUND'')
      else if get_vrf s v = None then Inl (http 404 ''VRF_NOT_FOUND'')
      else Inr (filter (\<lambda>r. rt_vrf_id r = v) (routes s)))"

definition delete_static_route ::
    "cenv \<Rightarrow> world \<Rightarrow> ident \<Rightarrow> int \<Rightarrow> int \<Rightarrow> (world \<times> http_exception option) option" where
  "delete_static_route env w d v k =
     (let s = w_db w
      in if get_device s d = None then Some (w, Some (http 404 ''DEVICE_NOT_FOUND''))
         else if get_vrf s v = None then Some (w, Some (http 404 ''VRF_NOT_FOUND''))
         else case find (\<lambda>r. rt_id r = Some k) (routes s) of
                None \<Rightarrow> Some (w, Some (http 404 ''ROUTE_NOT_FOUND''))
              | Some r \<Rightarrow>
                  if rt_vrf_id r \<noteq> v then Some (w, Some (http 404 ''ROUTE_NOT_FOUND''))
                  else map_option (\<lambda>w'. (w', None))
                         (touch env ''routing'' (show_int v)
                           (w\<lparr>w_db := s\<lparr>routes := filter (\<lambda>r. rt_id r \<noteq> Some k) (routes s)\<rparr>\<rparr>)))"

section \<open>Longest prefix match\<close>

text \<open>The length with which a route matches an address, and the reference definition: the first of the
  matching routes with the greatest length.\<close>

definition match_len :: "v6_text \<Rightarrow> ip_addr \<Rightarrow> route \<Rightarrow> nat option" where
  "match_len v6 a r =
     (case ip_network v6 False (rt_prefix r) of
        Some net \<Rightarrow> if net_in a net then Some (prefixlen net) else None | None \<Rightarrow> None)"

definition best_route :: "v6_text \<Rightarrow> ip_addr \<Rightarrow> route list \<Rightarrow> route \<Rightarrow> bool" where
  "best_route v6 a rs r \<longleftrightarrow>
     (\<exists>i l. i < length rs \<and> rs ! i = r \<and> match_len v6 a r = Some l \<and>
        (\<forall>j < length rs. \<forall>k. match_len v6 a (rs ! j) = Some k \<longrightarrow> k \<le> l \<and> (j < i \<longrightarrow> k < l)))"

lemma lpm_loop_step:
  "lpm_loop v6 a best (r # rs) = lpm_loop v6 a
     (case match_len v6 a r of
        None \<Rightarrow> best
      | Some l \<Rightarrow> if (case best of None \<Rightarrow> True | Some (k, _) \<Rightarrow> l > k) then Some (l, r) else best) rs"
  by (auto simp: match_len_def split: option.splits)

fun first_max :: "('a \<Rightarrow> nat option) \<Rightarrow> 'a list \<Rightarrow> (nat \<times> 'a) option" where
  "first_max f [] = None"
| "first_max f (x # xs) =
     (case (f x, first_max f xs) of
        (None, m) \<Rightarrow> m
      | (Some l, Some (k, y)) \<Rightarrow> if k > l then Some (k, y) else Some (l, x)
      | (Some l, None) \<Rightarrow> Some (l, x))"

lemma lpm_loop_first_max:
  "lpm_loop v6 a best rs =
     (case (best, first_max (match_len v6 a) rs) of
        (None, m) \<Rightarrow> m
      | (Some b, Some (k, y)) \<Rightarrow> if k > fst b then Some (k, y) else Some b
      | (Some b, None) \<Rightarrow> Some b)"
proof (induction rs arbitrary: best)
  case (Cons r rs)
  show ?case
    unfolding lpm_loop_step Cons.IH by (auto split: option.splits if_splits)
qed (simp split: option.splits)

lemma first_max_None: "first_max f xs = None \<longleftrightarrow> (\<forall>x \<in> set xs. f x = None)"
  by (induction xs) (auto split: option.splits)

lemma first_max_SomeD:
  "first_max f xs = Some (l, x) \<Longrightarrow>
     \<exists>i < length xs. xs ! i = x \<and> f x = Some l \<and>
       (\<forall>j < length xs. \<forall>k. f (xs ! j) = Some k \<longrightarrow> k \<le> l \<and> (j < i \<longrightarrow> k < l))"
proof (induction xs arbitrary: l x)
  case (Cons y ys)
  consider (tail) "first_max f ys = Some (l, x)" "\<forall>k. f y = Some k \<longrightarrow> k < l"
    | (head) "f y = Some l" "x = y" "\<forall>k z. first_max f ys = Some (k, z) \<longrightarrow> k \<le> l"
    using Cons.prems by (auto split: option.splits if_splits)
  then show ?case
  proof cases
    case tail
    from Cons.IH [OF tail(1)] obtain i where i: "i < length ys" "ys ! i = x" "f x = Some l"
      "\<forall>j < length ys. \<forall>k. f (ys ! j) = Some k \<longrightarrow> k \<le> l \<and> (j < i \<longrightarrow> k < l)" by blast
    with tail(2) show ?thesis
      by (intro exI [of _ "Suc i"]) (auto simp: nth_Cons less_imp_le split: nat.splits)
  next
    case head
    have "k \<le> l" if "j < length ys" "f (ys ! j) = Some k" for j k
    proof (cases "first_max f ys")
      case None
      then show ?thesis using that by (auto simp: first_max_None)
    next
      case (Some m)
      then obtain k' z where m: "first_max f ys = Some (k', z)" by (cases m) auto
      from Cons.IH [OF m] that head(3) m show ?thesis by fastforce
    qed
    with head show ?thesis
      by (intro exI [of _ 0]) (auto simp: nth_Cons split: nat.splits)
  qed
qed simp

lemma best_route_unique: "best_route v6 a rs r \<Longrightarrow> best_route v6 a rs q \<Longrightarrow> r = q"
  unfolding best_route_def by (metis nat_neq_iff not_less)

lemma lpm_loop_best:
  "map_option snd (lpm_loop v6 a None rs) = Some r \<longleftrightarrow> best_route v6 a rs r"
  "map_option snd (lpm_loop v6 a None rs) = None \<longleftrightarrow> (\<forall>r \<in> set rs. match_len v6 a r = None)"
proof -
  have fm: "lpm_loop v6 a None rs = first_max (match_len v6 a) rs" by (simp add: lpm_loop_first_max)
  have sound: "best_route v6 a rs q" if "first_max (match_len v6 a) rs = Some (l, q)" for l q
    using first_max_SomeD [OF that] unfolding best_route_def by blast
  show "map_option snd (lpm_loop v6 a None rs) = Some r \<longleftrightarrow> best_route v6 a rs r"
  proof
    assume best: "best_route v6 a rs r"
    then have "first_max (match_len v6 a) rs \<noteq> None"
      by (auto simp: best_route_def first_max_None simp del: not_None_eq)
    then obtain l q where lq: "first_max (match_len v6 a) rs = Some (l, q)" by auto
    from best_route_unique [OF sound [OF lq] best] lq show "map_option snd (lpm_loop v6 a None rs) = Some r"
      by (simp add: fm)
  qed (use sound fm in auto)
  show "map_option snd (lpm_loop v6 a None rs) = None \<longleftrightarrow> (\<forall>r \<in> set rs. match_len v6 a r = None)"
    by (simp add: fm first_max_None)
qed

text \<open>An IPv4 route matches exactly when its network and the address agree on the leading bits.\<close>

lemma match_len_V4:
  "match_len v6 (V4 a) r = Some l \<longleftrightarrow>
     (\<exists>n. IPv4Network False (rt_prefix r) = Some (n, l) \<and> l \<le> 32 \<and> drop_bit (32 - l) a = drop_bit (32 - l) n)"
proof -
  have "net_contains (n, p) a \<longleftrightarrow> p \<le> 32 \<and> drop_bit (32 - p) a = drop_bit (32 - p) n"
    if "IPv4Network False (rt_prefix r) = Some (n, p)" for n p
    using net_contains_iff [OF IPv4Network_wf [OF that], of a] IPv4Network_wf [OF that] by (simp add: wf_net_def)
  then show ?thesis
    by (auto simp: match_len_def ip_network_def split: option.splits)
qed

text \<open>C23: The routing decision takes, for an IPv4 destination, the first route of the VRF among those whose network
  agrees with the destination on all bits of the prefix and whose prefix is longest, and finds no route
  exactly when none agrees; routes whose prefix is no network are skipped.\<close>

theorem longest_prefix_match_correct:
  "(longest_prefix_match v6 s v (str_ip4 a) = Some r \<longleftrightarrow>
      best_route v6 (V4 a) (filter (\<lambda>r. rt_vrf_id r = v) (routes s)) r) \<and>
   (longest_prefix_match v6 s v (str_ip4 a) = None \<longleftrightarrow>
     \<not> (\<exists>r \<in> set (routes s). rt_vrf_id r = v \<and> (\<exists>n l. IPv4Network False (rt_prefix r) = Some (n, l) \<and>
          drop_bit (32 - l) a = drop_bit (32 - l) n)))"
proof
  show "longest_prefix_match v6 s v (str_ip4 a) = Some r \<longleftrightarrow>
      best_route v6 (V4 a) (filter (\<lambda>r. rt_vrf_id r = v) (routes s)) r"
    unfolding longest_prefix_match_def ip_address_str option.case by (rule lpm_loop_best(1))
  have le: "IPv4Network False t = Some (n, l) \<Longrightarrow> l \<le> 32" for t n l
    using IPv4Network_wf [of False t "(n, l)"] by (simp add: wf_net_def)
  have none: "match_len v6 (V4 a) r = None \<longleftrightarrow> \<not> (\<exists>n l. IPv4Network False (rt_prefix r) = Some (n, l) \<and>
          drop_bit (32 - l) a = drop_bit (32 - l) n)" for r
  proof -
    have "match_len v6 (V4 a) r = None \<longleftrightarrow> \<not> (\<exists>l. match_len v6 (V4 a) r = Some l)" by simp
    then show ?thesis unfolding match_len_V4 using le by blast
  qed
  show "longest_prefix_match v6 s v (str_ip4 a) = None \<longleftrightarrow>
     \<not> (\<exists>r \<in> set (routes s). rt_vrf_id r = v \<and> (\<exists>n l. IPv4Network False (rt_prefix r) = Some (n, l) \<and>
          drop_bit (32 - l) a = drop_bit (32 - l) n))"
    unfolding longest_prefix_match_def ip_address_str option.case lpm_loop_best(2) none by auto
qed

section \<open>A bridge is a map\<close>

definition mac_inv :: "db \<Rightarrow> bool" where
  "mac_inv s \<longleftrightarrow> distinct (map (\<lambda>e. (me_bridge_domain_id e, me_mac_address e)) (mac_entries s))"

text \<open>What a switch knows: the interface behind which an address of a bridge domain was last seen.\<close>

definition mac_table :: "db \<Rightarrow> int \<times> string \<Rightarrow> ident option" where
  "mac_table s = (\<lambda>(b, m). map_option me_interface_id (find (mac_key b m) (mac_entries s)))"

lemma update_first_keys: "(\<And>x. g (f x) = g x) \<Longrightarrow> map g (update_first P f xs) = map g xs"
  by (induction xs) auto

lemma find_update_same: "(\<And>x. P (f x) = P x) \<Longrightarrow> find P (update_first P f xs) = map_option f (find P xs)"
  by (induction xs) auto

lemma find_update_other:
  "(\<And>x. Q (f x) = Q x) \<Longrightarrow> (\<And>x. P x \<Longrightarrow> \<not> Q x) \<Longrightarrow> find Q (update_first P f xs) = find Q xs"
  by (induction xs) auto

lemma mac_table_learn: "mac_table (learn s b src i) = (mac_table s)((b, src) \<mapsto> i)"
proof (rule ext, clarify)
  fix b' m
  have key: "mac_key b m' (e\<lparr>me_interface_id := i\<rparr>) = mac_key b m' e" for b m' e
    by (simp add: mac_key_def)
  have same: "find (mac_key b src) (update_first (mac_key b src) (\<lambda>e. e\<lparr>me_interface_id := i\<rparr>) es) =
      map_option (\<lambda>e. e\<lparr>me_interface_id := i\<rparr>) (find (mac_key b src) es)" for es
    by (rule find_update_same) (rule key)
  have other: "find (mac_key b' m) (update_first (mac_key b src) (\<lambda>e. e\<lparr>me_interface_id := i\<rparr>) es) =
      find (mac_key b' m) es" if "(b', m) \<noteq> (b, src)" for es
    using that by (intro find_update_other key) (auto simp: mac_key_def)
  show "mac_table (learn s b src i) (b', m) = ((mac_table s)((b, src) \<mapsto> i)) (b', m)"
  proof (cases "find (mac_key b src) (mac_entries s)")
    case None
    then show ?thesis
      by (auto simp: mac_table_def learn_def find_append mac_key_def split: option.splits)
  next
    case (Some e)
    then show ?thesis
      using same [of "mac_entries s"] other [of "mac_entries s"]
      by (cases "(b', m) = (b, src)") (auto simp: mac_table_def learn_def)
  qed
qed

lemma learn_inv: "mac_inv s \<Longrightarrow> mac_inv (learn s b src i)"
  by (auto simp: mac_inv_def learn_def update_first_keys find_None_iff' mac_key_def split: option.splits)

lemma learn_frame: "learn s b src i = s\<lparr>mac_entries := mac_entries (learn s b src i)\<rparr>"
  by (simp add: learn_def split: option.splits)

text \<open>The decision of a switch on its table of addresses.\<close>

definition bridge_decision :: "(int \<times> string \<Rightarrow> ident option) \<Rightarrow> int \<Rightarrow> string \<Rightarrow> ident list \<Rightarrow> l2_result" where
  "bridge_decision tab b dst others =
     (if dst = BROADCAST_MAC then L2Flood others
      else case tab (b, dst) of Some i \<Rightarrow> L2Forward i | None \<Rightarrow> L2Flood others)"

text \<open>C24: Processing a frame refines a learning bridge: the table of addresses is updated at the source address with the
  ingress interface and nowhere else, whatever was known of the source before; the frame goes to the
  interface the updated table holds for the destination, or to all other interfaces of the bridge domain
  when the destination is unknown or broadcast; nothing else of the database changes and no address is
  stored twice in a bridge domain.\<close>

theorem process_frame_refines:
  assumes "default_bd_id s d = Some b"
  shows "let (t, res) = process_frame s d i src dst in
     mac_table t = (mac_table s)((b, lower src) \<mapsto> i) \<and>
     res = bridge_decision (mac_table t) b (lower dst)
             (filter (\<lambda>j. j \<noteq> i) (map if_id (filter (\<lambda>r. if_bridge_domain_id r = Some b) (interfaces s)))) \<and>
     t = s\<lparr>mac_entries := mac_entries t\<rparr> \<and> (mac_inv s \<longrightarrow> mac_inv t)"
proof -
  let ?t = "learn s b (lower src) i"
  have ifs: "interfaces ?t = interfaces s" by (subst learn_frame) simp
  have "process_frame s d i src dst = (?t, bridge_decision (mac_table ?t) b (lower dst) (flood_egress ?t b i))"
    using assms by (auto simp: process_frame_def bridge_decision_def mac_table_def Let_def split: option.splits)
  then show ?thesis
    using mac_table_learn [of s b "lower src" i] learn_inv [of s b "lower src" i] learn_frame [of s b "lower src" i]
    by (simp add: flood_egress_def interfaces_in_bd_def ifs)
qed

definition demo_bridge :: db where
  "demo_bridge = empty_db\<lparr>bridge_domains := [\<lparr>bd_id = 1, bd_name = ''default'', bd_device_id = ''sw''\<rparr>],
     interfaces := [(Interface ''sw-p1'' ''sw'' ''p1'')\<lparr>if_bridge_domain_id := Some 1\<rparr>,
       (Interface ''sw-p2'' ''sw'' ''p2'')\<lparr>if_bridge_domain_id := Some 1\<rparr>],
     mac_entries := [\<lparr>me_mac_address = ''aa'', me_interface_id = ''sw-p2'', me_bridge_domain_id = 1, me_type = MAC_DYNAMIC\<rparr>]\<rparr>"

theorem process_frame_refines_witness:
  "mac_table (fst (process_frame demo_bridge ''sw'' ''sw-p1'' ''AA'' ''bb'')) = (mac_table demo_bridge)((1, ''aa'') \<mapsto> ''sw-p1'') \<and>
   snd (process_frame demo_bridge ''sw'' ''sw-p1'' ''AA'' ''bb'') = L2Flood [''sw-p2'']"
proof
  have bd: "default_bd_id demo_bridge ''sw'' = Some 1" by code_simp
  have low: "lower ''AA'' = ''aa''" by code_simp
  show "mac_table (fst (process_frame demo_bridge ''sw'' ''sw-p1'' ''AA'' ''bb'')) = (mac_table demo_bridge)((1, ''aa'') \<mapsto> ''sw-p1'')"
    using process_frame_refines [OF bd, of "''sw-p1''" "''AA''" "''bb''"] by (simp add: case_prod_unfold Let_def low)
  show "snd (process_frame demo_bridge ''sw'' ''sw-p1'' ''AA'' ''bb'') = L2Flood [''sw-p2'']" by code_simp
qed

section \<open>The path of a flow\<close>

text \<open>A usable way out of the interface \<^verbatim>\<open>e\<close>: the first link in the table that ends at it is up, and the
  interface at its other end has a row, which names the next device.\<close>

definition joins_ends :: "link \<Rightarrow> ident \<Rightarrow> ident \<Rightarrow> bool" where
  "joins_ends l e i \<longleftrightarrow> ln_a_interface_id l = e \<and> ln_b_interface_id l = i \<or>
     ln_b_interface_id l = e \<and> ln_a_interface_id l = i \<and> ln_a_interface_id l \<noteq> e"

definition way_out :: "db \<Rightarrow> ident \<Rightarrow> ident \<Rightarrow> ident \<Rightarrow> ident \<Rightarrow> bool" where
  "way_out s e i d lid \<longleftrightarrow>
     (\<exists>l pre post row. links s = pre @ l # post \<and>
        (\<forall>l' \<in> set pre. ln_a_interface_id l' \<noteq> e \<and> ln_b_interface_id l' \<noteq> e) \<and>
        joins_ends l e i \<and> ln_status l = UP \<and> ln_id l = lid \<and>
        get_interface s i = Some row \<and> if_device_id row = d)"

lemma find_first_split:
  assumes "find P xs = Some x"
  shows "\<exists>pre post. xs = pre @ x # post \<and> P x \<and> (\<forall>y \<in> set pre. \<not> P y)"
  using assms
proof (induction xs)
  case (Cons y ys)
  show ?case
  proof (cases "P y")
    case True
    with Cons.prems show ?thesis by (intro exI [of _ "[]"] exI [of _ ys]) simp
  next
    case False
    with Cons obtain pre post where "ys = pre @ x # post" "P x" "\<forall>y \<in> set pre. \<not> P y" by auto
    with False show ?thesis by (intro exI [of _ "y # pre"] exI [of _ post]) simp
  qed
qed simp

lemma get_interface_key: "get_interface s k = Some i \<Longrightarrow> if_id i = k"
  unfolding get_interface_def using find_SomeD by fast

lemma find_peer_iff: "find_peer_interface s e = Some (i, d, lid) \<longleftrightarrow> way_out s e i d lid"
proof
  assume *: "find_peer_interface s e = Some (i, d, lid)"
  then obtain l where l: "find (\<lambda>l. ln_a_interface_id l = e \<or> ln_b_interface_id l = e) (links s) = Some l"
    by (auto simp: find_peer_interface_def split: option.splits)
  then obtain pre post where p: "links s = pre @ l # post" "ln_a_interface_id l = e \<or> ln_b_interface_id l = e"
    "\<forall>l' \<in> set pre. ln_a_interface_id l' \<noteq> e \<and> ln_b_interface_id l' \<noteq> e"
    using find_first_split [OF l] by auto
  let ?peer = "if ln_a_interface_id l = e then ln_b_interface_id l else ln_a_interface_id l"
  from * l obtain row where r: "get_interface s ?peer = Some row" "ln_status l = UP"
      "if_id row = i" "if_device_id row = d" "ln_id l = lid"
    by (auto simp: find_peer_interface_def Let_def split: if_splits)
  from get_interface_key [OF r(1)] r(3) have i: "i = ?peer" by simp
  with p(2) have "joins_ends l e i" by (auto simp: joins_ends_def)
  moreover have "get_interface s i = Some row" using r(1) i by simp
  ultimately show "way_out s e i d lid" unfolding way_out_def using p(1,3) r(2,4,5) by blast
next
  assume "way_out s e i d lid"
  then obtain l pre post row where
    w: "links s = pre @ l # post" "\<forall>l' \<in> set pre. ln_a_interface_id l' \<noteq> e \<and> ln_b_interface_id l' \<noteq> e"
       "joins_ends l e i" "ln_status l = UP" "ln_id l = lid" "get_interface s i = Some row" "if_device_id row = d"
    unfolding way_out_def by blast
  have none: "find (\<lambda>l. ln_a_interface_id l = e \<or> ln_b_interface_id l = e) pre = None"
    using w(2) by (auto simp: find_None_iff)
  have "find (\<lambda>l. ln_a_interface_id l = e \<or> ln_b_interface_id l = e) (links s) = Some l"
    using w(3) unfolding w(1) joins_ends_def by (auto simp: find_append none)
  with w(3-7) show "find_peer_interface s e = Some (i, d, lid)"
    by (auto simp: find_peer_interface_def joins_ends_def Let_def dest: get_interface_key)
qed

text \<open>Each hop but the last goes out of the interface that the device's own forwarding decision names, over a
  link that is up, and arrives at the interface at its other end.\<close>

definition same_but_macs :: "db \<Rightarrow> db \<Rightarrow> bool" where
  "same_but_macs s t \<longleftrightarrow> t = s\<lparr>mac_entries := mac_entries t\<rparr>"

definition hop_ok :: "v6_text \<Rightarrow> db \<Rightarrow> flow \<Rightarrow> flow \<Rightarrow> hop_meta \<Rightarrow> flow \<Rightarrow> bool" where
  "hop_ok v6 s init h m h' \<longleftrightarrow> hm_device_id m = fl_current_device_id h \<and> \<not> hm_deliver_here m \<and>
     fl_source_ip h' = fl_source_ip init \<and> fl_destination_ip h' = fl_destination_ip init \<and>
     (\<exists>e i lid. hm_egress_interface_id m = Some e \<and> fl_current_interface_id h' = Some i \<and> hm_link_id_to_next m = Some lid \<and>
        way_out s e i (fl_current_device_id h') lid \<and>
        (\<exists>u. same_but_macs s u \<and> hs_forward (snd (flow_step v6 u h)) \<and> \<not> hs_deliver (snd (flow_step v6 u h)) \<and>
           hs_egress (snd (flow_step v6 u h)) = Some e))"

definition flow_chain :: "v6_text \<Rightarrow> db \<Rightarrow> flow \<Rightarrow> flow list \<Rightarrow> hop_meta list \<Rightarrow> bool" where
  "flow_chain v6 s init hops meta \<longleftrightarrow> length hops = Suc (length meta) \<and> hd hops = init \<and>
     (\<forall>k < length meta. hop_ok v6 s init (hops ! k) (meta ! k) (hops ! Suc k))"

lemma same_but_macs_trans: "same_but_macs s t \<Longrightarrow> same_but_macs t u \<Longrightarrow> same_but_macs s u"
  unfolding same_but_macs_def by (metis db.surjective db.update_convs(11))

lemma find_peer_same: "same_but_macs s t \<Longrightarrow> find_peer_interface t e = find_peer_interface s e"
proof -
  assume "same_but_macs s t"
  then have l: "links t = links s" and i: "interfaces t = interfaces s"
    unfolding same_but_macs_def by (metis db.select_convs(2,3) db.surjective db.update_convs(11))+
  from i have g: "get_interface t = get_interface s" by (simp add: get_interface_def fun_eq_iff)
  show ?thesis unfolding find_peer_interface_def l g ..
qed

lemma process_frame_same: "same_but_macs s (fst (process_frame s d i src dst))"
proof (cases "default_bd_id s d")
  case None
  then show ?thesis by (simp add: process_frame_def same_but_macs_def)
next
  case (Some b)
  have "fst (process_frame s d i src dst) = learn s b (lower src) i"
    using Some by (auto simp: process_frame_def Let_def split: option.splits)
  then show ?thesis unfolding same_but_macs_def using learn_frame [of s b "lower src" i] by simp
qed

lemma flow_step_same: "same_but_macs s (fst (flow_step v6 s f))"
  using process_frame_same by (simp add: flow_step_def placeholder_frame_def same_but_macs_def split: option.splits)

lemma flow_chain_snoc:
  assumes "flow_chain v6 s init hops meta" and "hop_ok v6 s init (last hops) m h"
  shows "flow_chain v6 s init (hops @ [h]) (meta @ [m])"
proof -
  have ne: "hops \<noteq> []" and len: "length hops = Suc (length meta)" using assms(1) by (auto simp: flow_chain_def)
  then have "last hops = hops ! length meta" by (simp add: last_conv_nth)
  with assms ne len show ?thesis
    by (auto simp: flow_chain_def nth_append less_Suc_eq)
qed

text \<open>How a query ends.\<close>

datatype flow_end = TtlExceeded | Dropped string hop_meta | Delivered ident bool hop_meta

fun ends_with :: "flow_end \<Rightarrow> flow list \<Rightarrow> hop_meta list \<Rightarrow> flow_result \<Rightarrow> bool" where
  "ends_with TtlExceeded hops meta r \<longleftrightarrow> fr_outcome r = ''drop'' \<and> fr_reason r = Some ''ttl_exceeded'' \<and>
     fr_hops r = hops \<and> fr_hop_metadata r = meta"
| "ends_with (Dropped why m) hops meta r \<longleftrightarrow> fr_outcome r = ''drop'' \<and> fr_reason r = Some why \<and>
     fr_hops r = hops \<and> fr_hop_metadata r = meta @ [m]"
| "ends_with (Delivered e direct m) hops meta r \<longleftrightarrow> fr_outcome r = ''delivered'' \<and> fr_reason r = None \<and>
     fr_hops r = hops @ [(last hops)\<lparr>fl_current_interface_id := Some e\<rparr>] \<and> fr_hop_metadata r = meta @ [m] \<and>
     hm_egress_interface_id m = Some e \<and> hm_device_id m = fl_current_device_id (last hops)"

definition last_step :: "v6_text \<Rightarrow> db \<Rightarrow> flow \<Rightarrow> flow_end \<Rightarrow> bool" where
  "last_step v6 s cur fin \<longleftrightarrow>
     (\<exists>u. same_but_macs s u \<and>
       (let st = snd (flow_step v6 u cur)
        in case fin of
             TtlExceeded \<Rightarrow> True
           | Dropped why m \<Rightarrow> (\<not> hs_forward st \<or> \<not> truthy (hs_egress st)) \<and>
               why = (if truthy (hs_reason st) then the (hs_reason st) else ''unknown'')
           | Delivered e direct m \<Rightarrow> hs_forward st \<and> hs_egress st = Some e \<and> hs_deliver st = direct \<and>
               (direct \<or> (\<forall>i d lid. way_out s e i d lid \<longrightarrow> i = [] \<or> d = []))))"

lemma flow_loop_ends:
  assumes "flow_chain v6 s init hops meta" and "same_but_macs s u"
  shows "\<exists>hops' meta' fin. flow_chain v6 s init hops' meta' \<and> same_but_macs s (fst (flow_loop v6 init n u hops meta)) \<and>
     ends_with fin hops' meta' (snd (flow_loop v6 init n u hops meta)) \<and> last_step v6 s (last hops') fin \<and>
     length meta' \<le> length meta + n \<and> (fin = TtlExceeded \<longleftrightarrow> length meta' = length meta + n)"
  using assms
proof (induction n arbitrary: u hops meta)
  case 0
  then show ?case
    by (intro exI [of _ hops] exI [of _ meta] exI [of _ TtlExceeded]) (auto simp: last_step_def)
next
  case (Suc n)
  obtain u1 st where step: "flow_step v6 u (last hops) = (u1, st)" by fastforce
  have same: "same_but_macs s u1"
    using flow_step_same [of u v6 "last hops"] Suc.prems(2) by (simp add: step same_but_macs_trans)
  have ls: "last_step v6 s (last hops) fin" if
    "case fin of TtlExceeded \<Rightarrow> True
       | Dropped why m \<Rightarrow> (\<not> hs_forward st \<or> \<not> truthy (hs_egress st)) \<and>
           why = (if truthy (hs_reason st) then the (hs_reason st) else ''unknown'')
       | Delivered e direct m \<Rightarrow> hs_forward st \<and> hs_egress st = Some e \<and> hs_deliver st = direct \<and>
           (direct \<or> (\<forall>i d lid. way_out s e i d lid \<longrightarrow> i = [] \<or> d = []))" for fin
    unfolding last_step_def using Suc.prems(2) step that by (intro exI [of _ u]) (simp add: Let_def)
  show ?case
  proof (cases "\<not> hs_forward st \<or> \<not> truthy (hs_egress st)")
    case True
    define why where "why = (if truthy (hs_reason st) then the (hs_reason st) else ''unknown'')"
    with True show ?thesis
      using Suc.prems(1) same ls [of "Dropped why (hop_row u (last hops) st (hs_deliver st) (Some why) None)"]
      by (intro exI [of _ hops] exI [of _ meta] exI [of _ "Dropped why (hop_row u (last hops) st (hs_deliver st) (Some why) None)"])
         (simp add: step Let_def)
  next
    case False
    then obtain e where e: "hs_egress st = Some e" "e \<noteq> []" by (auto simp: truthy_iff)
    show ?thesis
    proof (cases "hs_deliver st \<or> (\<forall>i d lid. way_out s e i d lid \<longrightarrow> i = [] \<or> d = [])")
      case True
      let ?fin = "Delivered e (hs_deliver st) (hop_row u (last hops) st True None None)"
      have "ends_with ?fin hops meta (snd (flow_loop v6 init (Suc n) u hops meta))"
        "fst (flow_loop v6 init (Suc n) u hops meta) = u1"
        using True False e find_peer_same [OF same, of e]
        by (auto simp: step Let_def hop_row_def find_peer_iff [symmetric] split: option.splits)
      with Suc.prems(1) same True False e ls [of ?fin] show ?thesis
        by (intro exI [of _ hops] exI [of _ meta] exI [of _ ?fin]) auto
    next
      case move: False
      then obtain i d lid where w: "way_out s e i d lid" and p: "find_peer_interface s e = Some (i, d, lid)" "i \<noteq> []" "d \<noteq> []"
        using find_peer_iff by blast
      let ?h = "\<lparr>fl_source_ip = fl_source_ip init, fl_destination_ip = fl_destination_ip init,
        fl_current_device_id = d, fl_current_interface_id = Some i\<rparr>"
      let ?m = "hop_row u (last hops) st False None (Some lid)"
      have "hop_ok v6 s init (last hops) ?m ?h"
        using e w move False Suc.prems(2) step by (auto simp: hop_ok_def hop_row_def intro!: exI [of _ u])
      from flow_chain_snoc [OF Suc.prems(1) this] have ch: "flow_chain v6 s init (hops @ [?h]) (meta @ [?m])" .
      have "flow_loop v6 init (Suc n) u hops meta = flow_loop v6 init n u1 (hops @ [?h]) (meta @ [?m])"
        using move False e p find_peer_same [OF same, of e] by (simp add: step Let_def)
      with Suc.IH [OF ch same] show ?thesis by simp
    qed
  qed
qed

text \<open>C27: A path query ends after at most \<^verbatim>\<open>ttl\<close> hops. Its hops start with the flow it was given, keep its addresses, and
  each goes out of the interface that the device's own forwarding decision names, over the first link of that
  interface, which is up, to the interface at its other end and the device of that interface's row, recorded in
  the metadata with the link. It ends because all \<^verbatim>\<open>ttl\<close> hops are used, and only then with
  \<^verbatim>\<open>ttl_exceeded\<close>; because the last device drops the packet, with its reason; or because the last device
  sends it out of an interface, directly or with no usable peer behind it. Of the database only learned
  addresses change.\<close>

theorem flow_path_follows_links:
  assumes "resolve_flow_path v6 s f ttl = (t, r)"
  shows "\<exists>hops meta fin. flow_chain v6 s f hops meta \<and> length meta \<le> nat ttl \<and> ends_with fin hops meta r \<and>
     last_step v6 s (last hops) fin \<and> (fin = TtlExceeded \<longleftrightarrow> length meta = nat ttl) \<and> same_but_macs s t"
proof -
  have ch: "flow_chain v6 s f [f] []" by (simp add: flow_chain_def)
  have n: "nat (max 0 ttl) = nat ttl" by simp
  from flow_loop_ends [OF ch, of s "nat ttl"] assms show ?thesis
    by (fastforce simp: resolve_flow_path_def n same_but_macs_def)
qed

definition demo_net :: db where
  "demo_net = empty_db\<lparr>
     devices := [(Device ''r1'' EDGE_ROUTER)\<lparr>dev_vrf_id := Some 1\<rparr>, (Device ''r2'' CORE_ROUTER)\<lparr>dev_vrf_id := Some 2\<rparr>],
     interfaces := [Interface ''r1-u'' ''r1'' ''u'', Interface ''r2-d'' ''r2'' ''d'', Interface ''r2-lan'' ''r2'' ''lan''],
     links := [Link ''l1'' ''r1-u'' ''r2-d''],
     routes := [\<lparr>rt_id = Some 1, rt_vrf_id = 1, rt_prefix = ''0.0.0.0/0'', rt_next_hop = Some ''10.0.0.1'',
         rt_interface_id = Some ''r1-u'', rt_admin_distance = 1, rt_metric = 0\<rparr>,
       \<lparr>rt_id = Some 2, rt_vrf_id = 2, rt_prefix = ''10.9.0.0/16'', rt_next_hop = None,
         rt_interface_id = Some ''r2-lan'', rt_admin_distance = 1, rt_metric = 0\<rparr>],
     neighbors := [\<lparr>nb_interface_id = ''r1-u'', nb_ip_address = ''10.0.0.1'', nb_mac_address = ''02:00''\<rparr>]\<rparr>"

definition demo_flow :: flow where
  "demo_flow = \<lparr>fl_source_ip = ''10.1.0.1'', fl_destination_ip = ''10.9.3.4'', fl_current_device_id = ''r1'',
     fl_current_interface_id = None\<rparr>"

theorem flow_path_follows_links_witness:
  "fr_outcome (snd (resolve_flow_path no_v6 demo_net demo_flow 16)) = ''delivered'' \<and>
   fr_final_device_id (snd (resolve_flow_path no_v6 demo_net demo_flow 16)) = ''r2'' \<and>
   way_out demo_net ''r1-u'' ''r2-d'' ''r2'' ''l1'' \<and>
   (\<exists>hops meta fin. flow_chain no_v6 demo_net demo_flow hops meta \<and> length meta = 1 \<and>
      ends_with fin hops meta (snd (resolve_flow_path no_v6 demo_net demo_flow 16)) \<and> fin \<noteq> TtlExceeded)"
proof -
  let ?r = "snd (resolve_flow_path no_v6 demo_net demo_flow 16)"
  have out: "fr_outcome ?r = ''delivered''" by code_simp
  have fd: "fr_final_device_id ?r = ''r2''" by code_simp
  have len: "length (fr_hop_metadata ?r) = 2" by code_simp
  have m0: "hm_egress_interface_id (fr_hop_metadata ?r ! 0) = Some ''r1-u'' \<and>
      hm_link_id_to_next (fr_hop_metadata ?r ! 0) = Some ''l1''" by code_simp
  have h1: "fl_current_device_id (fr_hops ?r ! 1) = ''r2'' \<and>
      fl_current_interface_id (fr_hops ?r ! 1) = Some ''r2-d''" by code_simp
  obtain t where "resolve_flow_path no_v6 demo_net demo_flow 16 = (t, ?r)" by (metis prod.collapse)
  from flow_path_follows_links [OF this] obtain hops meta fin where
    ch: "flow_chain no_v6 demo_net demo_flow hops meta" and en: "ends_with fin hops meta ?r"
    and fin: "fin = TtlExceeded \<longleftrightarrow> length meta = nat 16" by blast
  from en out obtain e dir m where d: "fin = Delivered e dir m" by (cases fin) auto
  with en have meta: "fr_hop_metadata ?r = meta @ [m]"
    and hops: "fr_hops ?r = hops @ [(last hops)\<lparr>fl_current_interface_id := Some e\<rparr>]" by auto
  from meta len have one: "length meta = 1" by simp
  with ch have "hop_ok no_v6 demo_net demo_flow (hops ! 0) (meta ! 0) (hops ! 1)" and "length hops = 2"
    by (auto simp: flow_chain_def)
  with one meta hops m0 h1 have "way_out demo_net ''r1-u'' ''r2-d'' ''r2'' ''l1''"
    by (auto simp: hop_ok_def nth_append)
  with out fd ch one en d show ?thesis by blast
qed

text \<open>A packet that a device forwards to a next hop over an interface whose link is not up is reported as
  delivered, not as dropped.\<close>

theorem dead_link_counts_as_delivered:
  assumes "0 < ttl" and "hs_forward (snd (flow_step v6 s f))" and "hs_egress (snd (flow_step v6 s f)) = Some e" and "e \<noteq> []"
    and "\<not> hs_deliver (snd (flow_step v6 s f))"
    and "find (\<lambda>l. ln_a_interface_id l = e \<or> ln_b_interface_id l = e) (links s) = Some l" and "ln_status l \<noteq> UP"
  shows "fr_outcome (snd (resolve_flow_path v6 s f ttl)) = ''delivered'' \<and>
     fr_final_interface_id (snd (resolve_flow_path v6 s f ttl)) = Some e"
proof -
  obtain n where n: "nat (max 0 ttl) = Suc n" using assms(1) by (metis gr0_implies_Suc max.absorb2 zero_less_nat_eq less_imp_le)
  obtain u st where st: "flow_step v6 s f = (u, st)" by fastforce
  have "find_peer_interface s e = None" using assms(6,7) by (simp add: find_peer_interface_def)
  moreover have "same_but_macs s u" using flow_step_same [of s v6 f] by (simp add: st)
  ultimately have "find_peer_interface u e = None" using find_peer_same by simp
  with assms(2-5) st show ?thesis by (simp add: resolve_flow_path_def n Let_def)
qed

definition demo_cut :: db where
  "demo_cut = demo_net\<lparr>links := [(Link ''l1'' ''r1-u'' ''r2-d'')\<lparr>ln_status := DOWN\<rparr>]\<rparr>"

theorem dead_link_counts_as_delivered_witness:
  "fr_outcome (snd (resolve_flow_path no_v6 demo_cut demo_flow 16)) = ''delivered''"
proof -
  have "hs_forward (snd (flow_step no_v6 demo_cut demo_flow))"
    "hs_egress (snd (flow_step no_v6 demo_cut demo_flow)) = Some ''r1-u''"
    "\<not> hs_deliver (snd (flow_step no_v6 demo_cut demo_flow))"
    "find (\<lambda>l. ln_a_interface_id l = ''r1-u'' \<or> ln_b_interface_id l = ''r1-u'') (links demo_cut) =
       Some ((Link ''l1'' ''r1-u'' ''r2-d'')\<lparr>ln_status := DOWN\<rparr>)"
    by code_simp+
  from dead_link_counts_as_delivered [OF _ this(1,2) _ this(3,4), of 16] show ?thesis by simp
qed

end
