(* ===== verification/Traffic_Paths.thy ===== *)
theory Traffic_Paths
  imports Status Forwarding
begin

unbundle bit_operations_syntax

text \<open>
  Where the traffic of a subscriber goes: the deterministic random numbers (\<^verbatim>\<open>services/traffic/rand.py\<close>), the
  adjacency over links that are up (\<^verbatim>\<open>v2_graph.py\<close>), the gate on the upstream and the search for an anchor
  (\<^verbatim>\<open>v2_path.py\<close>), and the demand of the leaves along their paths (\<^verbatim>\<open>v2_tick.py\<close>). Timings that only feed the metrics
  of the process are left out. The fallback of the search asks the forwarding service, which may learn MAC
  addresses, so the database is passed along.
\<close>

section \<open>Random numbers\<close>

definition xorshift64star :: "64 word \<Rightarrow> 64 word" where
  "xorshift64star x0 =
     (let x1 = x0 XOR drop_bit 12 x0; x2 = x1 XOR push_bit 25 x1; x3 = x2 XOR drop_bit 27 x2
      in x3 * 0x2545F4914F6CDD1D)"

definition fnv1a :: "string \<Rightarrow> 64 word" where
  "fnv1a k = foldl (\<lambda>h c. (h XOR of_nat (of_char c)) * 0x100000001B3) 0xCBF29CE484222325 k"

definition deterministic_rand01 :: "int \<Rightarrow> int \<Rightarrow> ident \<Rightarrow> pyfloat" where
  "deterministic_rand01 seed tick k =
     (let y = xorshift64star (word_of_int seed XOR word_of_int tick XOR fnv1a k)
      in of_int (uint (drop_bit 11 y)) / 2 ^ 53)"

section \<open>Adjacency\<close>

text \<open>A row joins two devices by a link. \<^verbatim>\<open>device_neighbors\<close> is the set of devices joined to one,
  \<^verbatim>\<open>link_by_pair\<close> keeps the last link of a pair.\<close>

type_synonym adjacency = "(ident \<times> ident \<times> ident) list"

definition override_of :: "db \<Rightarrow> ident \<Rightarrow> Status option" where
  "override_of s k = (case find (\<lambda>d. dev_id d = k) (rev (devices s)) of None \<Rightarrow> None | Some d \<Rightarrow> dev_admin_override_status d)"

definition adjacency_status :: "db \<Rightarrow> link \<Rightarrow> Status" where
  "adjacency_status s l =
     (case ln_admin_override_status l of
        Some ov \<Rightarrow> ov
      | None \<Rightarrow>
          (let down = (\<lambda>i. truthy (if_to_dev s i) \<and> override_of s (the (if_to_dev s i)) = Some DOWN)
           in if down (ln_a_interface_id l) \<or> down (ln_b_interface_id l) then DOWN else ln_status l))"

definition build_adjacency :: "db \<Rightarrow> adjacency" where
  "build_adjacency s =
     concat (map (\<lambda>l.
        if is_link_passable s l \<and> adjacency_status s l = UP \<and>
           truthy (if_to_dev s (ln_a_interface_id l)) \<and> truthy (if_to_dev s (ln_b_interface_id l))
        then [(the (if_to_dev s (ln_a_interface_id l)), the (if_to_dev s (ln_b_interface_id l)), ln_id l)] else [])
      (links s))"

definition device_neighbors :: "adjacency \<Rightarrow> ident \<Rightarrow> ident set" where
  "device_neighbors adj x = set (concat (map (\<lambda>(a, b, _). (if a = x then [b] else []) @ (if b = x then [a] else [])) adj))"

definition link_by_pair :: "adjacency \<Rightarrow> ident \<Rightarrow> ident \<Rightarrow> ident option" where
  "link_by_pair adj x y = map_option (\<lambda>(_, _, l). l) (find (\<lambda>(a, b, _). {a, b} = {x, y}) (rev adj))"

section \<open>The upstream gate\<close>

definition has_upstream_ok :: "'g nx \<Rightarrow> db \<Rightarrow> device \<Rightarrow> bool \<Rightarrow> bool" where
  "has_upstream_ok nx s d backbone_present =
     (let res = upstream_result nx s d
      in if ul_ok res then True
         else if backbone_present then False
         else if ul_reasons res = [] then False
         else set (ul_reasons res) \<subseteq> {''no_router_path'', ''routers_no_l3''})"

text \<open>The code asks the memoised resolver; the gate with its tables passed along gives the same answer on tables
  that no tools request has filled first.\<close>

definition has_upstream_ok_memo :: "'g nx \<Rightarrow> bool \<Rightarrow> db \<Rightarrow> 'g dep_state \<Rightarrow> device \<Rightarrow> bool \<Rightarrow> ('g dep_state \<times> bool) option" where
  "has_upstream_ok_memo nx uc s st d backbone_present =
     map_option (\<lambda>(st', res). (st',
        if ul_ok res then True
        else if backbone_present then False
        else if ul_reasons res = [] then False
        else set (ul_reasons res) \<subseteq> {''no_router_path'', ''routers_no_l3''}))
      (has_upstream_l3_or_anchor nx uc s st d)"

lemma has_upstream_ok_refines:
  assumes "resolver_state nx s st" "get_device s (dev_id d) = Some d"
  shows "\<exists>st'. has_upstream_ok_memo nx uc s st d bp = Some (st', has_upstream_ok nx s d bp) \<and> resolver_state nx s st'"
  using resolver_query [OF assms, of uc] by (auto simp: has_upstream_ok_memo_def has_upstream_ok_def Let_def)

section \<open>The search for an anchor\<close>

text \<open>The first device of each kind the search meets.\<close>

record anchors =
  an_any :: "ident option"
  an_core :: "ident option"
  an_backbone :: "ident option"
  an_pop :: "ident option"

definition first_of :: "ident option \<Rightarrow> ident \<Rightarrow> ident option" where
  "first_of x k = (if truthy x then x else Some k)"

definition note_anchor :: "(ident \<Rightarrow> DeviceType option) \<Rightarrow> DeviceType set \<Rightarrow> ident \<Rightarrow> ident \<Rightarrow> anchors \<Rightarrow> anchors" where
  "note_anchor ty ats start cur an =
     (let an1 = (case ty cur of
                   Some t \<Rightarrow>
                     if cur \<noteq> start \<and> t \<in> ats
                     then (let an' = (if t = POP then an\<lparr>an_pop := first_of (an_pop an) cur\<rparr> else an);
                               an'' = (if t = BACKBONE_GATEWAY then an'\<lparr>an_backbone := first_of (an_backbone an') cur\<rparr> else an')
                           in an''\<lparr>an_any := first_of (an_any an'') cur\<rparr>)
                     else an
                 | None \<Rightarrow> an)
      in if cur \<noteq> start \<and> ty cur \<in> {Some CORE_SITE, Some CORE_ROUTER}
         then an1\<lparr>an_core := first_of (an_core an1) cur\<rparr> else an1)"

text \<open>The rows of \<open>ps\<close> are the entries of \<^verbatim>\<open>parents\<close>, the newest first.\<close>

function anchor_search ::
    "adjacency \<Rightarrow> ident set \<Rightarrow> (ident \<Rightarrow> DeviceType option) \<Rightarrow> DeviceType set \<Rightarrow> ident \<Rightarrow>
     ident list \<Rightarrow> (ident \<times> ident option) list \<Rightarrow> anchors \<Rightarrow> (ident \<times> ident option) list \<times> anchors" where
  "anchor_search adj al ty ats start [] ps an = (ps, an)"
| "anchor_search adj al ty ats start (cur # q) ps an =
     (let new = filter (\<lambda>nb. nb \<notin> fst ` set ps \<and> nb \<in> al) (sorted_list_of_set (device_neighbors adj cur))
      in anchor_search adj al ty ats start (q @ new) (rev (map (\<lambda>nb. (nb, Some cur)) new) @ ps)
           (note_anchor ty ats start cur an))"
  by pat_completeness auto
termination
proof (relation "measure (\<lambda>(adj, al, ty, ats, start, q, ps, an).
    card ((fst ` set adj \<union> (fst \<circ> snd) ` set adj) - fst ` set ps) + length q)", simp)
  fix adj :: adjacency and al ty ats start cur q and ps :: "(ident \<times> ident option) list" and an new
  assume new: "new = filter (\<lambda>nb. nb \<notin> fst ` set ps \<and> nb \<in> al) (sorted_list_of_set (device_neighbors adj cur))"
  let ?N = "fst ` set adj \<union> (fst \<circ> snd) ` set adj"
  have "device_neighbors adj cur \<subseteq> ?N" "finite (device_neighbors adj cur)" by (force simp: device_neighbors_def)+
  then have "distinct new" "set new \<subseteq> ?N - fst ` set ps" by (auto simp: new)
  from flood_decreases [OF _ this, of q cur]
  show "((adj, al, ty, ats, start, q @ new, rev (map (\<lambda>nb. (nb, Some cur)) new) @ ps, note_anchor ty ats start cur an),
      adj, al, ty, ats, start, cur # q, ps, an) \<in> measure (\<lambda>(adj, al, ty, ats, start, q, ps, an).
      card ((fst ` set adj \<union> (fst \<circ> snd) ` set adj) - fst ` set ps) + length q)"
    by (simp add: image_Un image_image Un_commute)
qed

text \<open>Following \<^verbatim>\<open>parents\<close> back to the start: a device is entered after its parent.\<close>

fun trail :: "(ident \<times> ident option) list \<Rightarrow> ident \<Rightarrow> ident list" where
  "trail [] x = [x]"
| "trail ((y, p) # ps) x =
     (if x = y then x # (case p of None \<Rightarrow> [] | Some z \<Rightarrow> trail ps z) else trail ps x)"

definition chosen_anchor :: "anchors \<Rightarrow> ident option" where
  "chosen_anchor an =
     (if truthy (an_backbone an) then an_backbone an else if truthy (an_core an) then an_core an
      else if truthy (an_pop an) then an_pop an else an_any an)"

fun path_pairs :: "ident list \<Rightarrow> (ident \<times> ident) list" where
  "path_pairs (x # y # p) = (x, y) # path_pairs (y # p)"
| "path_pairs p = []"

definition links_of_path :: "adjacency \<Rightarrow> ident list \<Rightarrow> ident list" where
  "links_of_path adj p =
     concat (map (\<lambda>(x, y). case link_by_pair adj x y of Some l \<Rightarrow> if l \<noteq> [] then [l] else [] | None \<Rightarrow> []) (path_pairs p))"

definition append_new :: "'a list \<Rightarrow> 'a \<Rightarrow> 'a list" where
  "append_new xs x = (if x \<in> set xs then xs else xs @ [x])"

definition anchor_path :: "adjacency \<Rightarrow> ident \<Rightarrow> (ident \<times> ident option) list \<Rightarrow> ident \<Rightarrow> ident list \<times> ident list" where
  "anchor_path adj start ps a =
     (let p = rev (trail ps a);
          p = (if p = [] \<or> hd p \<noteq> start then if p \<noteq> [] \<and> last p = start then rev p else [start] else p)
      in (p, links_of_path adj p))"

text \<open>The path of the forwarding service from the first interface of the leaf to a documentation address.\<close>

definition forwarding_fallback ::
    "v6_text \<Rightarrow> adjacency \<Rightarrow> ident set \<Rightarrow> (ident \<Rightarrow> DeviceType option) \<Rightarrow> DeviceType list \<Rightarrow> DeviceType set \<Rightarrow> db \<Rightarrow> ident
     \<Rightarrow> db \<times> ident list \<times> ident list" where
  "forwarding_fallback v6 adj al ty types ats s start =
     (let (s', res) = resolve_flow_path v6 s \<lparr>fl_source_ip = ''10.0.0.1'', fl_destination_ip = ''192.0.2.1'',
              fl_current_device_id = start, fl_current_interface_id = Some (start @ ''-if0'')\<rparr> 16;
          add = (\<lambda>p k. if k \<noteq> [] \<and> k \<in> al then append_new p k else p);
          p1 = foldl add [start] (map fl_current_device_id (fr_hops res));
          p2 = foldl add p1 (map hm_device_id (fr_hop_metadata res));
          ls = foldl append_new [] (filter (\<lambda>l. l \<noteq> []) (List.map_filter hm_link_id_to_next (fr_hop_metadata res)));
          true_anchor = list_ex (\<lambda>x. x \<noteq> start \<and> (\<exists>t \<in> ats. ty x = Some t)) p2;
          (p, ls) = (if true_anchor \<or> \<not> list_ex (\<lambda>t. t \<in> ats) types then (p2, ls) else ([start], []))
      in (s', p, foldl append_new ls (links_of_path adj p)))"

definition bfs_pick_anchor ::
    "v6_text \<Rightarrow> adjacency \<Rightarrow> ident set \<Rightarrow> (ident \<Rightarrow> DeviceType option) \<Rightarrow> DeviceType list \<Rightarrow> DeviceType set \<Rightarrow> db \<Rightarrow> ident
     \<Rightarrow> db \<times> ident list \<times> ident list" where
  "bfs_pick_anchor v6 adj al ty types ats s start =
     (let (ps, an) = anchor_search adj al ty ats start [start] [(start, None)]
              \<lparr>an_any = None, an_core = None, an_backbone = None, an_pop = None\<rparr>
      in if truthy (chosen_anchor an) then (s, anchor_path adj start ps (the (chosen_anchor an)))
         else forwarding_fallback v6 adj al ty types ats s start)"

section \<open>Demand of the leaves\<close>

record tariff =
  tf_id :: int
  tf_max_up_mbps :: pyfloat
  tf_max_down_mbps :: pyfloat

record 'g flow_env =
  fe_nx :: "'g nx"
  fe_v6 :: v6_text
  fe_adj :: adjacency
  fe_allowed :: "ident set"
  fe_devices :: "device list"
  fe_anchor_types :: "DeviceType set"
  fe_status :: "ident \<Rightarrow> Status option"
  fe_tariffs :: "tariff list"
  fe_seed :: int
  fe_tick :: int

definition fe_type :: "'g flow_env \<Rightarrow> ident \<Rightarrow> DeviceType option" where
  "fe_type fe k = map_option dev_type (find (\<lambda>d. dev_id d = k) (rev (fe_devices fe)))"

text \<open>One flow: the demand of a leaf in both directions and the path it takes.\<close>

record leaf_flow =
  lf_leaf :: ident
  lf_tariff :: tariff
  lf_up :: pyfloat
  lf_down :: pyfloat
  lf_nodes :: "ident list"
  lf_links :: "ident list"

type_synonym path_cache = "ident \<rightharpoonup> (ident list \<times> ident list)"

text \<open>The chain of the dependency resolver, when it reaches an anchor.\<close>

definition chain_fallback :: "'g flow_env \<Rightarrow> db \<Rightarrow> device \<Rightarrow> ident list \<times> ident list \<Rightarrow> ident list \<times> ident list" where
  "chain_fallback fe s d pl =
     (let res = upstream_result (fe_nx fe) s d
      in if ul_ok res \<and> length (ul_chain res) > 1
         then (let nodes = filter (\<lambda>x. x \<in> fe_allowed fe) (ul_chain res)
               in if list_ex (\<lambda>x. x \<noteq> dev_id d \<and> (\<exists>t \<in> fe_anchor_types fe. fe_type fe x = Some t)) nodes
                  then (nodes, foldl append_new [] (links_of_path (fe_adj fe) nodes)) else pl)
         else pl)"

definition leaf_path :: "'g flow_env \<Rightarrow> db \<Rightarrow> path_cache \<Rightarrow> device \<Rightarrow> db \<times> ident list \<times> ident list" where
  "leaf_path fe s cache d =
     (let (s', pl) = (case cache (dev_id d) of
                        Some pl \<Rightarrow> (s, pl)
                      | None \<Rightarrow> bfs_pick_anchor (fe_v6 fe) (fe_adj fe) (fe_allowed fe) (fe_type fe) (map dev_type (fe_devices fe))
                                  (fe_anchor_types fe) s (dev_id d))
      in (s', if length (fst pl) \<le> 1 then chain_fallback fe s' d pl else pl))"

definition leaf_tariff :: "'g flow_env \<Rightarrow> device \<Rightarrow> tariff option" where
  "leaf_tariff fe d = (case dev_tariff_id d of None \<Rightarrow> None | Some k \<Rightarrow> find (\<lambda>t. tf_id t = k) (rev (fe_tariffs fe)))"

definition demand :: "pyfloat \<Rightarrow> pyfloat \<Rightarrow> pyfloat" where
  "demand mbps r = max mbps 0 * 1000000 * r"

definition leaf_demand :: "'g flow_env \<Rightarrow> db \<Rightarrow> path_cache \<Rightarrow> device \<Rightarrow> db \<times> path_cache \<times> leaf_flow option" where
  "leaf_demand fe s cache d =
     (if fe_status fe (dev_id d) \<noteq> Some UP then (s, cache, None)
      else case leaf_tariff fe d of
             None \<Rightarrow> (s, cache, None)
           | Some t \<Rightarrow>
               (let r = deterministic_rand01 (fe_seed fe) (fe_tick fe) (dev_id d);
                    (s', nodes, ls) = leaf_path fe s cache d
                in if length nodes \<le> 1 then (s', cache, None)
                   else (s', cache(dev_id d \<mapsto> (nodes, ls)),
                         Some \<lparr>lf_leaf = dev_id d, lf_tariff = t, lf_up = demand (tf_max_up_mbps t) r,
                               lf_down = demand (tf_max_down_mbps t) r, lf_nodes = nodes, lf_links = ls\<rparr>)))"

text \<open>The totals are dictionaries in insertion order; \<open>dict_add\<close> is \<^verbatim>\<open>+=\<close> on a \<^verbatim>\<open>defaultdict(float)\<close>.\<close>

type_synonym totals = "(ident \<times> pyfloat) list"

fun dict_add :: "ident \<Rightarrow> pyfloat \<Rightarrow> totals \<Rightarrow> totals" where
  "dict_add k v [] = [(k, v)]"
| "dict_add k v ((k', v') # d) = (if k = k' then (k, v' + v) # d else (k', v') # dict_add k v d)"

record flow_totals =
  ft_db :: db
  ft_cache :: path_cache
  ft_dev_up :: totals
  ft_dev_down :: totals
  ft_link_up :: totals
  ft_link_down :: totals
  ft_leaves :: nat
  ft_generated :: "(ident \<times> leaf_flow) list"

definition add_flow :: "leaf_flow \<Rightarrow> flow_totals \<Rightarrow> flow_totals" where
  "add_flow f t =
     t\<lparr>ft_dev_up := fold (\<lambda>k. dict_add k (lf_up f)) (lf_nodes f) (ft_dev_up t),
       ft_dev_down := fold (\<lambda>k. dict_add k (lf_down f)) (lf_nodes f) (ft_dev_down t),
       ft_link_up := fold (\<lambda>k. dict_add k (lf_up f)) (lf_links f) (ft_link_up t),
       ft_link_down := fold (\<lambda>k. dict_add k (lf_down f)) (lf_links f) (ft_link_down t),
       ft_leaves := ft_leaves t + 1, ft_generated := dict_set (lf_leaf f) f (ft_generated t)\<rparr>"

definition leaf_step :: "'g flow_env \<Rightarrow> flow_totals \<Rightarrow> device \<Rightarrow> flow_totals" where
  "leaf_step fe t d =
     (let (s, c, f) = leaf_demand fe (ft_db t) (ft_cache t) d; t' = t\<lparr>ft_db := s, ft_cache := c\<rparr>
      in case f of None \<Rightarrow> t' | Some f \<Rightarrow> add_flow f t')"

definition generate_flows_for_leaves :: "'g flow_env \<Rightarrow> db \<Rightarrow> path_cache \<Rightarrow> device list \<Rightarrow> flow_totals" where
  "generate_flows_for_leaves fe s cache leaves =
     foldl (leaf_step fe) \<lparr>ft_db = s, ft_cache = cache, ft_dev_up = [], ft_dev_down = [], ft_link_up = [],
        ft_link_down = [], ft_leaves = 0, ft_generated = []\<rparr> leaves"

section \<open>Bounds of the random numbers\<close>

lemma rand01_bounds: "0 \<le> deterministic_rand01 seed tick k \<and> deterministic_rand01 seed tick k < 1"
proof -
  have "uint (drop_bit 11 y) < 2 ^ 53" for y :: "64 word"
  proof -
    have "uint y < 2 ^ 64" using uint_lt2p [of y] by simp
    then have "uint y div 2 ^ 11 < 2 ^ 53" by (simp add: div_less_iff_less_mult)
    then show ?thesis by (simp add: drop_bit_eq_div uint_div_distrib)
  qed
  then have "(of_int (uint (drop_bit 11 y)) :: rat) < 2 ^ 53" for y :: "64 word"
    by (metis of_int_less_iff of_int_numeral of_int_power)
  moreover have "0 \<le> (of_int (uint y) :: rat)" for y :: "64 word" unfolding of_int_0_le_iff by (rule uint_ge_0)
  ultimately show ?thesis
    unfolding deterministic_rand01_def Let_def by (intro conjI divide_nonneg_pos) (simp_all only: divide_less_eq_1_pos zero_less_power zero_less_numeral)
qed

lemma demand_bounds: "0 \<le> r \<Longrightarrow> r < 1 \<Longrightarrow> 0 \<le> demand m r \<and> demand m r \<le> max m 0 * 1000000"
  unfolding demand_def by (simp add: mult_left_le)

section \<open>The tree of the search\<close>

abbreviation hop :: "adjacency \<Rightarrow> ident set \<Rightarrow> ident \<Rightarrow> ident \<Rightarrow> bool" where
  "hop adj al x y \<equiv> y \<in> device_neighbors adj x \<and> y \<in> al"

definition leads :: "adjacency \<Rightarrow> ident set \<Rightarrow> ident \<Rightarrow> ident list \<Rightarrow> bool" where
  "leads adj al start w \<longleftrightarrow> w \<noteq> [] \<and> hd w = start \<and> successively (hop adj al) w"

fun search_tree :: "adjacency \<Rightarrow> ident set \<Rightarrow> ident \<Rightarrow> (ident \<times> ident option) list \<Rightarrow> bool" where
  "search_tree adj al start [] = False"
| "search_tree adj al start ((y, None) # ps) = (ps = [] \<and> y = start)"
| "search_tree adj al start ((y, Some z) # ps) =
     (search_tree adj al start ps \<and> y \<notin> fst ` set ps \<and> z \<in> fst ` set ps \<and> hop adj al z y)"

lemma leads_snoc: "leads adj al start w \<Longrightarrow> hop adj al (last w) y \<Longrightarrow> leads adj al start (w @ [y])"
  by (simp add: leads_def successively_append_iff)

lemma search_tree_trail:
  assumes "search_tree adj al start ps" "x \<in> fst ` set ps"
  shows "leads adj al start (rev (trail ps x)) \<and> last (rev (trail ps x)) = x \<and> set (trail ps x) \<subseteq> fst ` set ps \<and> distinct (trail ps x)"
  using assms
proof (induction adj al start ps arbitrary: x rule: search_tree.induct)
  case (3 adj al start y z ps)
  show ?case
  proof (cases "x = y")
    case True
    have IH: "leads adj al start (rev (trail ps z)) \<and> last (rev (trail ps z)) = z \<and> set (trail ps z) \<subseteq> fst ` set ps \<and> distinct (trail ps z)"
      using 3 by simp
    then show ?thesis using True 3(2) leads_snoc [of adj al start "rev (trail ps z)" y] by auto
  qed (use 3 in auto)
qed (auto simp: leads_def)

lemma trail_old: "x \<notin> fst ` set rows \<Longrightarrow> trail (rows @ ps) x = trail ps x"
  by (induction rows) auto

definition child_rows :: "ident \<Rightarrow> ident list \<Rightarrow> (ident \<times> ident option) list" where
  "child_rows cur new = rev (map (\<lambda>nb. (nb, Some cur)) new)"

lemma fst_child_rows [simp]: "fst ` set (child_rows cur new) = set new"
  by (auto simp: child_rows_def image_image)

lemma trail_new: "nb \<in> set new \<Longrightarrow> cur \<notin> set new \<Longrightarrow> trail (child_rows cur new @ ps) nb = nb # trail ps cur"
proof (induction new rule: rev_induct)
  case (snoc x xs)
  have "trail (child_rows cur xs @ ps) cur = trail ps cur" by (rule trail_old) (use snoc in auto)
  then show ?case using snoc by (auto simp: child_rows_def)
qed simp

lemma search_tree_grow:
  assumes "search_tree adj al start ps" "cur \<in> fst ` set ps" "distinct new" "set new \<inter> fst ` set ps = {}" "\<forall>nb \<in> set new. hop adj al cur nb"
  shows "search_tree adj al start (child_rows cur new @ ps)"
  using assms(3-5)
proof (induction new rule: rev_induct)
  case (snoc x xs)
  then have "search_tree adj al start (child_rows cur xs @ ps)" by auto
  moreover have "x \<notin> fst ` set (child_rows cur xs @ ps)" using snoc by (auto simp: image_Un)
  ultimately show ?case using snoc assms(2) by (simp add: child_rows_def image_Un)
qed (simp add: child_rows_def assms(1))


section \<open>The invariant of the search\<close>

abbreviation depth :: "(ident \<times> ident option) list \<Rightarrow> ident \<Rightarrow> nat" where
  "depth ps x \<equiv> length (trail ps x)"

definition bfs_inv :: "adjacency \<Rightarrow> ident set \<Rightarrow> ident \<Rightarrow> ident list \<Rightarrow> (ident \<times> ident option) list \<Rightarrow> bool" where
  "bfs_inv adj al start q ps \<longleftrightarrow>
     search_tree adj al start ps \<and> start \<in> fst ` set ps \<and> set q \<subseteq> fst ` set ps \<and>
     (\<forall>x \<in> fst ` set ps - set q. \<forall>y. hop adj al x y \<longrightarrow> y \<in> fst ` set ps) \<and>
     sorted (map (depth ps) q) \<and> (\<forall>x \<in> set q. depth ps x \<le> depth ps (hd q) + 1) \<and>
     (\<forall>w. leads adj al start w \<longrightarrow> last w \<in> fst ` set ps \<longrightarrow> depth ps (last w) \<le> length w)"

lemma bfs_inv_init: "bfs_inv adj al start [start] [(start, None)]"
  by (auto simp: bfs_inv_def leads_def Suc_le_eq)

lemma leads_butlast: "leads adj al start (w @ [y]) \<Longrightarrow> w \<noteq> [] \<Longrightarrow> leads adj al start w \<and> hop adj al (last w) y"
  by (simp add: leads_def successively_append_iff)

lemma finite_neighbors [simp]: "finite (device_neighbors adj x)"
  unfolding device_neighbors_def by (rule finite_set)

lemma bfs_invD:
  assumes "bfs_inv adj al start q ps"
  shows "search_tree adj al start ps" "start \<in> fst ` set ps" "set q \<subseteq> fst ` set ps"
    "x \<in> fst ` set ps \<Longrightarrow> x \<notin> set q \<Longrightarrow> hop adj al x y \<Longrightarrow> y \<in> fst ` set ps"
    "sorted (map (depth ps) q)" "x \<in> set q \<Longrightarrow> depth ps x \<le> depth ps (hd q) + 1"
    "leads adj al start w \<Longrightarrow> last w \<in> fst ` set ps \<Longrightarrow> depth ps (last w) \<le> length w"
  using assms unfolding bfs_inv_def by blast+

lemma bfs_inv_hd: "bfs_inv adj al start (cur # q) ps \<Longrightarrow> x \<in> set (cur # q) \<Longrightarrow> depth ps cur \<le> depth ps x"
  using bfs_invD(5) [of adj al start "cur # q" ps] by auto

text \<open>A walk to a device that has not been left yet is at least as long as the way to the head of the queue.\<close>

lemma frontier:
  assumes inv: "bfs_inv adj al start (cur # q) ps" and "leads adj al start w" "last w \<notin> fst ` set ps - set (cur # q)"
  shows "depth ps cur + (if last w \<in> fst ` set ps then 0 else 1) \<le> length w"
  using assms(2,3)
proof (induction w rule: rev_induct)
  case (snoc y w)
  note invD = bfs_invD [OF inv]
  show ?case
  proof (cases "y \<in> fst ` set ps")
    case True
    then have "y \<in> set (cur # q)" using snoc.prems(2) by auto
    then have "depth ps cur \<le> depth ps y" by (rule bfs_inv_hd [OF inv])
    also have "\<dots> \<le> length (w @ [y])" using invD(7) [OF snoc.prems(1)] True by simp
    finally show ?thesis using True by simp
  next
    case False
    have "w = [] \<Longrightarrow> y = start" using snoc.prems(1) by (simp add: leads_def)
    then have "w \<noteq> []" using False invD(2) by metis
    with leads_butlast [OF snoc.prems(1)] have w: "leads adj al start w" "hop adj al (last w) y" by auto
    then have "last w \<notin> fst ` set ps - set (cur # q)" using invD(4) [of "last w" y] False by blast
    from snoc.IH [OF w(1) this] show ?thesis using False by simp
  qed
qed (simp add: leads_def)

lemma bfs_inv_step:
  assumes inv: "bfs_inv adj al start (cur # q) ps"
    and new: "new = filter (\<lambda>nb. nb \<notin> fst ` set ps \<and> nb \<in> al) (sorted_list_of_set (device_neighbors adj cur))"
  shows "bfs_inv adj al start (q @ new) (child_rows cur new @ ps)"
proof -
  note invD = bfs_invD [OF inv]
  let ?ps = "child_rows cur new @ ps"
  have mem: "nb \<in> set new \<longleftrightarrow> hop adj al cur nb \<and> nb \<notin> fst ` set ps" for nb
    unfolding new set_filter set_sorted_list_of_set [OF finite_neighbors] by blast
  have "distinct new" by (simp add: new)
  have keys: "fst ` set ?ps = set new \<union> fst ` set ps" by (simp add: image_Un)
  have cur: "cur \<in> fst ` set ps" "cur \<notin> set new" using invD(3) mem by simp_all
  have old: "depth ?ps x = depth ps x" if "x \<in> fst ` set ps" for x
    using that mem by (subst trail_old) simp_all
  have fresh: "depth ?ps nb = depth ps cur + 1" if "nb \<in> set new" for nb
    using trail_new [OF that cur(2), of ps] by simp
  have qk: "x \<in> set q \<Longrightarrow> x \<in> fst ` set ps" for x using invD(3) by (simp add: subset_iff)
  then have dq: "map (depth ?ps) q = map (depth ps) q" using old by (intro map_cong refl) blast
  have bound: "depth ps x \<le> depth ps cur + 1" "depth ps cur \<le> depth ps x" if "x \<in> set q" for x
    using invD(6) [of x] bfs_inv_hd [OF inv, of x] that by simp_all
  have tree: "search_tree adj al start ?ps"
    by (rule search_tree_grow [OF invD(1) cur(1) \<open>distinct new\<close>]) (use mem in blast)+
  have flat: "depth ?ps y \<le> depth ps cur + 1" "depth ps cur \<le> depth ?ps y" if "y \<in> set (q @ new)" for y
    using that bound [of y] fresh [of y] old [OF qk, of y] by auto
  have sorted: "sorted (map (depth ?ps) (q @ new))"
  proof -
    have "sorted (map (depth ps) q)" using invD(5) by simp
    moreover have "map (depth ?ps) new = replicate (length new) (depth ps cur + 1)"
      using fresh by (intro replicate_eqI) auto
    ultimately show ?thesis unfolding map_append sorted_append dq using bound(1) by (auto simp: sorted_replicate)
  qed
  have level: "depth ?ps x \<le> depth ?ps (hd (q @ new)) + 1" if "x \<in> set (q @ new)" for x
  proof -
    have "hd (q @ new) \<in> set (q @ new)" using that by (intro hd_in_set) auto
    from flat(2) [OF this] flat(1) [OF that] show ?thesis by linarith
  qed
  have closed: "y \<in> fst ` set ?ps" if "x \<in> fst ` set ?ps - set (q @ new)" "hop adj al x y" for x y
    using that invD(4) [of x y] mem [of y] unfolding keys by (cases "x = cur") auto
  have least: "depth ?ps (last w) \<le> length w" if "leads adj al start w" "last w \<in> fst ` set ?ps" for w
  proof (cases "last w \<in> fst ` set ps")
    case True
    then show ?thesis using old [OF True] invD(7) [OF that(1) True] by simp
  next
    case False
    then have "last w \<in> set new" using that(2) unfolding keys by blast
    then show ?thesis using frontier [OF inv that(1)] False fresh by simp
  qed
  have "start \<in> fst ` set ?ps" "set (q @ new) \<subseteq> fst ` set ?ps" using invD(2) qk unfolding keys by auto
  with tree sorted level closed least show ?thesis unfolding bfs_inv_def by blast
qed


section \<open>The anchors the search finds\<close>

text \<open>A slot holds the first device of its kind: it is filled as soon as one has been left, and nothing of the kind is nearer.\<close>

definition slot_inv ::
    "adjacency \<Rightarrow> ident set \<Rightarrow> ident \<Rightarrow> (ident \<Rightarrow> bool) \<Rightarrow> ident option \<Rightarrow> ident list \<Rightarrow> (ident \<times> ident option) list \<Rightarrow> bool" where
  "slot_inv adj al start C v q ps \<longleftrightarrow>
     (\<forall>a. v = Some a \<longrightarrow> a \<noteq> [] \<and> a \<in> fst ` set ps \<and> C a \<and> (\<forall>w. leads adj al start w \<longrightarrow> C (last w) \<longrightarrow> depth ps a \<le> length w)) \<and>
     (v = None \<longrightarrow> (\<forall>x \<in> fst ` set ps - set q. \<not> C x))"

definition note_slot :: "(ident \<Rightarrow> bool) \<Rightarrow> ident \<Rightarrow> ident option \<Rightarrow> ident option" where
  "note_slot C cur v = (if C cur then first_of v cur else v)"

lemma slot_step:
  assumes inv: "bfs_inv adj al start (cur # q) ps" and slot: "slot_inv adj al start C v (cur # q) ps"
    and ne: "\<And>x. x \<in> fst ` set ps \<Longrightarrow> C x \<Longrightarrow> x \<noteq> []" and new: "set new \<inter> fst ` set ps = {}"
  shows "slot_inv adj al start C (note_slot C cur v) (q @ new) (child_rows cur new @ ps)"
proof -
  let ?ps = "child_rows cur new @ ps"
  have keys: "fst ` set ?ps = set new \<union> fst ` set ps" by (simp add: image_Un)
  have old: "depth ?ps x = depth ps x" if "x \<in> fst ` set ps" for x using that new by (subst trail_old) auto
  have cur: "cur \<in> fst ` set ps" using bfs_invD(3) [OF inv] by simp
  show ?thesis
  proof (cases v)
    case (Some a)
    then have a: "a \<noteq> []" "a \<in> fst ` set ps" "C a" "\<And>w. leads adj al start w \<Longrightarrow> C (last w) \<Longrightarrow> depth ps a \<le> length w"
      using slot by (simp_all add: slot_inv_def)
    then have "note_slot C cur v = Some a" by (simp add: note_slot_def first_of_def Some)
    with a show ?thesis unfolding slot_inv_def keys by (simp add: old [OF a(2)])
  next
    case None
    then have none: "\<not> C x" if "x \<in> fst ` set ps - set (cur # q)" for x using slot that by (simp add: slot_inv_def)
    show ?thesis
    proof (cases "C cur")
      case True
      have "depth ps cur \<le> length w" if "leads adj al start w" "C (last w)" for w
      proof -
        have "last w \<notin> fst ` set ps - set (cur # q)" using none that(2) by blast
        from frontier [OF inv that(1) this] show ?thesis by simp
      qed
      then show ?thesis
        using True ne [OF cur True] cur unfolding slot_inv_def keys note_slot_def None first_of_def by (simp add: old [OF cur])
    next
      case False
      then have "\<not> C x" if "x \<in> fst ` set ?ps - set (q @ new)" for x
        using none [of x] that unfolding keys by (cases "x = cur") auto
      then show ?thesis using False by (simp add: slot_inv_def note_slot_def None)
    qed
  qed
qed

definition kind_any :: "(ident \<Rightarrow> DeviceType option) \<Rightarrow> DeviceType set \<Rightarrow> ident \<Rightarrow> ident \<Rightarrow> bool" where
  "kind_any ty ats start x \<longleftrightarrow> x \<noteq> start \<and> (\<exists>t \<in> ats. ty x = Some t)"

definition kind_core :: "(ident \<Rightarrow> DeviceType option) \<Rightarrow> ident \<Rightarrow> ident \<Rightarrow> bool" where
  "kind_core ty start x \<longleftrightarrow> x \<noteq> start \<and> ty x \<in> {Some CORE_SITE, Some CORE_ROUTER}"

definition kind_of :: "(ident \<Rightarrow> DeviceType option) \<Rightarrow> DeviceType set \<Rightarrow> ident \<Rightarrow> DeviceType \<Rightarrow> ident \<Rightarrow> bool" where
  "kind_of ty ats start t x \<longleftrightarrow> x \<noteq> start \<and> t \<in> ats \<and> ty x = Some t"

lemmas kind_defs = kind_any_def kind_core_def kind_of_def

lemma note_anchor_slots:
  "an_any (note_anchor ty ats start cur an) = note_slot (kind_any ty ats start) cur (an_any an)"
  "an_core (note_anchor ty ats start cur an) = note_slot (kind_core ty start) cur (an_core an)"
  "an_backbone (note_anchor ty ats start cur an) = note_slot (kind_of ty ats start BACKBONE_GATEWAY) cur (an_backbone an)"
  "an_pop (note_anchor ty ats start cur an) = note_slot (kind_of ty ats start POP) cur (an_pop an)"
  by (cases "ty cur"; auto simp: note_anchor_def note_slot_def kind_defs Let_def)+

definition slots_inv ::
    "adjacency \<Rightarrow> ident set \<Rightarrow> (ident \<Rightarrow> DeviceType option) \<Rightarrow> DeviceType set \<Rightarrow> ident \<Rightarrow> anchors \<Rightarrow> ident list \<Rightarrow> (ident \<times> ident option) list \<Rightarrow> bool" where
  "slots_inv adj al ty ats start an q ps \<longleftrightarrow>
     slot_inv adj al start (kind_any ty ats start) (an_any an) q ps \<and> slot_inv adj al start (kind_core ty start) (an_core an) q ps \<and>
     slot_inv adj al start (kind_of ty ats start BACKBONE_GATEWAY) (an_backbone an) q ps \<and>
     slot_inv adj al start (kind_of ty ats start POP) (an_pop an) q ps"

text \<open>No device of the adjacency has an empty name.\<close>

definition named_rows :: "adjacency \<Rightarrow> bool" where
  "named_rows adj \<longleftrightarrow> (\<forall>x. [] \<notin> device_neighbors adj x)"

lemma search_tree_named:
  "search_tree adj al start ps \<Longrightarrow> named_rows adj \<Longrightarrow> x \<in> fst ` set ps \<Longrightarrow> x = start \<or> x \<noteq> []"
  by (induction adj al start ps rule: search_tree.induct) (auto simp: named_rows_def)

lemma anchor_search_result:
  assumes "named_rows adj" "bfs_inv adj al start q ps" "slots_inv adj al ty ats start an q ps"
    and "anchor_search adj al ty ats start q ps an = (ps', an')"
  shows "bfs_inv adj al start [] ps' \<and> slots_inv adj al ty ats start an' [] ps'"
  using assms
proof (induction adj al ty ats start q ps an rule: anchor_search.induct)
  case (2 adj al ty ats start cur q ps an)
  define new where "new = filter (\<lambda>nb. nb \<notin> fst ` set ps \<and> nb \<in> al) (sorted_list_of_set (device_neighbors adj cur))"
  have disj: "set new \<inter> fst ` set ps = {}" by (auto simp: new_def)
  have ne: "x \<noteq> []" if "x \<in> fst ` set ps" "x \<noteq> start" for x
    using search_tree_named [OF bfs_invD(1) [OF 2(3)] 2(2) that(1)] that(2) by blast
  note step = slot_step [OF 2(3) _ _ disj]
  have "slots_inv adj al ty ats start (note_anchor ty ats start cur an) (q @ new) (child_rows cur new @ ps)"
    using 2(4) unfolding slots_inv_def note_anchor_slots
    by (elim conjE, intro conjI) (rule step, assumption, use ne in \<open>auto simp: kind_defs\<close>)+
  moreover have "anchor_search adj al ty ats start (q @ new) (child_rows cur new @ ps) (note_anchor ty ats start cur an) = (ps', an')"
    using 2(5) by (simp add: Let_def new_def child_rows_def)
  ultimately show ?case
    using 2(1) [OF new_def] bfs_inv_step [OF 2(3) new_def] 2(2) by (simp add: child_rows_def)
qed simp


section \<open>The chosen path\<close>

definition preferred_kind ::
    "adjacency \<Rightarrow> ident set \<Rightarrow> (ident \<Rightarrow> DeviceType option) \<Rightarrow> DeviceType set \<Rightarrow> ident \<Rightarrow> ident \<Rightarrow> bool" where
  "preferred_kind adj al ty ats start =
     (let reachable = (\<lambda>C. \<exists>w. leads adj al start w \<and> C (last w))
      in if reachable (kind_of ty ats start BACKBONE_GATEWAY) then kind_of ty ats start BACKBONE_GATEWAY
         else if reachable (kind_core ty start) then kind_core ty start
         else if reachable (kind_of ty ats start POP) then kind_of ty ats start POP
         else kind_any ty ats start)"

lemma bfs_inv_reach:
  assumes "bfs_inv adj al start [] ps"
  shows "x \<in> fst ` set ps \<longleftrightarrow> (\<exists>w. leads adj al start w \<and> last w = x)"
proof
  assume "x \<in> fst ` set ps"
  from search_tree_trail [OF bfs_invD(1) [OF assms] this] show "\<exists>w. leads adj al start w \<and> last w = x" by blast
next
  have "leads adj al start w \<Longrightarrow> last w \<in> fst ` set ps" for w
  proof (induction w rule: rev_induct)
    case (snoc y w)
    show ?case
    proof (cases "w = []")
      case True
      then show ?thesis using snoc.prems bfs_invD(2) [OF assms] by (simp add: leads_def)
    next
      case False
      with leads_butlast [OF snoc.prems] have w: "leads adj al start w" "hop adj al (last w) y" by auto
      then show ?thesis using bfs_invD(4) [OF assms, of "last w" y] snoc.IH by simp
    qed
  qed (simp add: leads_def)
  then show "\<exists>w. leads adj al start w \<and> last w = x \<Longrightarrow> x \<in> fst ` set ps" by blast
qed

text \<open>At the end a slot is filled exactly when a device of its kind can be reached, by a nearest one.\<close>

lemma slot_final:
  assumes "bfs_inv adj al start [] ps" "slot_inv adj al start C v [] ps"
  shows "truthy v \<longleftrightarrow> (\<exists>w. leads adj al start w \<and> C (last w))"
    and "truthy v \<Longrightarrow> the v \<in> fst ` set ps \<and> C (the v) \<and> (\<forall>w. leads adj al start w \<longrightarrow> C (last w) \<longrightarrow> depth ps (the v) \<le> length w)"
proof -
  note reach = bfs_inv_reach [OF assms(1)]
  have some: "v = Some a \<Longrightarrow> a \<noteq> [] \<and> a \<in> fst ` set ps \<and> C a \<and> (\<forall>w. leads adj al start w \<longrightarrow> C (last w) \<longrightarrow> depth ps a \<le> length w)" for a
    using assms(2) by (simp add: slot_inv_def)
  have none: "v = None \<Longrightarrow> x \<in> fst ` set ps \<Longrightarrow> \<not> C x" for x
    using assms(2) unfolding slot_inv_def list.set(1) Diff_empty by blast
  show "truthy v \<longleftrightarrow> (\<exists>w. leads adj al start w \<and> C (last w))"
  proof (cases v)
    case None
    then show ?thesis using none [OF None] reach by (auto simp: None)
  next
    case (Some a)
    then show ?thesis using some [OF Some] reach [of a] by auto
  qed
  assume "truthy v"
  then obtain a where "v = Some a" by (auto simp: truthy_iff)
  then show "the v \<in> fst ` set ps \<and> C (the v) \<and> (\<forall>w. leads adj al start w \<longrightarrow> C (last w) \<longrightarrow> depth ps (the v) \<le> length w)"
    using some by simp
qed

lemma build_adjacency_row:
  "(a, b, l) \<in> set (build_adjacency s) \<longleftrightarrow> (\<exists>k \<in> set (links s). ln_id k = l \<and> is_link_passable s k \<and> adjacency_status s k = UP \<and>
     if_to_dev s (ln_a_interface_id k) = Some a \<and> if_to_dev s (ln_b_interface_id k) = Some b \<and> a \<noteq> [] \<and> b \<noteq> [])"
  unfolding build_adjacency_def in_set_concat_map by (rule bex_cong [OF refl]) (auto simp: truthy_iff)

lemma device_neighbors_iff: "y \<in> device_neighbors adj x \<longleftrightarrow> (\<exists>l. (x, y, l) \<in> set adj \<or> (y, x, l) \<in> set adj)"
  unfolding device_neighbors_def loop_rows list.set insert_iff empty_iff by blast

lemma named_build_adjacency: "named_rows (build_adjacency s)"
  by (auto simp: named_rows_def device_neighbors_iff build_adjacency_row)

lemma link_by_pair_hop:
  assumes "y \<in> device_neighbors adj x"
  shows "\<exists>l. link_by_pair adj x y = Some l \<and> ((x, y, l) \<in> set adj \<or> (y, x, l) \<in> set adj)"
proof -
  from assms obtain l where "(x, y, l) \<in> set adj \<or> (y, x, l) \<in> set adj" by (auto simp: device_neighbors_iff)
  then have "find (\<lambda>(a, b, _). {a, b} = {x, y}) (rev adj) \<noteq> None"
    unfolding find_None_iff' by force
  then obtain a b m where f: "find (\<lambda>(a, b, _). {a, b} = {x, y}) (rev adj) = Some (a, b, m)" by auto
  have "link_by_pair adj x y = Some m" unfolding link_by_pair_def f by simp
  moreover have "(x, y, m) \<in> set adj \<or> (y, x, m) \<in> set adj" using find_SomeD [OF f] by (auto simp: doubleton_eq_iff)
  ultimately show ?thesis by blast
qed


lemma path_pairs_hop: "successively P p \<Longrightarrow> (x, y) \<in> set (path_pairs p) \<Longrightarrow> P x y"
  by (induction p rule: path_pairs.induct) auto

lemma anchor_path_trail:
  assumes "search_tree adj al start ps" "a \<in> fst ` set ps"
  shows "anchor_path adj start ps a = (rev (trail ps a), links_of_path adj (rev (trail ps a)))"
  using search_tree_trail [OF assms] by (simp add: anchor_path_def leads_def Let_def)

lemma chosen_anchor_preferred:
  assumes inv: "bfs_inv adj al start [] ps" and slots: "slots_inv adj al ty ats start an [] ps"
  shows "truthy (chosen_anchor an) \<longleftrightarrow> (\<exists>w. leads adj al start w \<and> (kind_any ty ats start (last w) \<or> kind_core ty start (last w)))"
    and "truthy (chosen_anchor an) \<Longrightarrow> the (chosen_anchor an) \<in> fst ` set ps \<and> preferred_kind adj al ty ats start (the (chosen_anchor an)) \<and>
      (\<forall>w. leads adj al start w \<longrightarrow> preferred_kind adj al ty ats start (last w) \<longrightarrow> depth ps (the (chosen_anchor an)) \<le> length w)"
proof -
  note any = slot_final [OF inv slots [unfolded slots_inv_def, THEN conjunct1]]
  note core = slot_final [OF inv slots [unfolded slots_inv_def, THEN conjunct2, THEN conjunct1]]
  note bb = slot_final [OF inv slots [unfolded slots_inv_def, THEN conjunct2, THEN conjunct2, THEN conjunct1]]
  note pop = slot_final [OF inv slots [unfolded slots_inv_def, THEN conjunct2, THEN conjunct2, THEN conjunct2]]
  have sub: "kind_of ty ats start t x \<Longrightarrow> kind_any ty ats start x" for t x by (auto simp: kind_defs)
  show "truthy (chosen_anchor an) \<longleftrightarrow> (\<exists>w. leads adj al start w \<and> (kind_any ty ats start (last w) \<or> kind_core ty start (last w)))"
    unfolding chosen_anchor_def using any(1) core(1) bb(1) pop(1) sub by auto
  assume *: "truthy (chosen_anchor an)"
  show "the (chosen_anchor an) \<in> fst ` set ps \<and> preferred_kind adj al ty ats start (the (chosen_anchor an)) \<and>
      (\<forall>w. leads adj al start w \<longrightarrow> preferred_kind adj al ty ats start (last w) \<longrightarrow> depth ps (the (chosen_anchor an)) \<le> length w)"
    using * any(2) core(2) bb(2) pop(2)
    unfolding chosen_anchor_def preferred_kind_def Let_def any(1) [symmetric] core(1) [symmetric] bb(1) [symmetric] pop(1) [symmetric]
    by (cases "truthy (an_backbone an)"; cases "truthy (an_core an)"; cases "truthy (an_pop an)") simp_all
qed

text \<open>C15: The path of a subscriber's traffic: if an anchor, a core site or a core router can be reached over links that are up through
  devices that are not forced down, the search returns a path without repetition from the leaf to a device of the preferred kind (backbone
  gateway before core before POP before any other anchor), no shorter path to a device of that kind exists, and consecutive devices are joined by
  a passable link whose effective status is up. Otherwise the forwarding service is asked.\<close>

theorem anchor_path_nearest:
  assumes "adj = build_adjacency s"
    and "anchored = (\<exists>w. leads adj al start w \<and> (kind_any ty ats start (last w) \<or> kind_core ty start (last w)))"
  shows "(anchored \<longrightarrow> (\<exists>p. bfs_pick_anchor v6 adj al ty types ats s start = (s, p, links_of_path adj p) \<and>
      leads adj al start p \<and> distinct p \<and> preferred_kind adj al ty ats start (last p) \<and>
      (\<forall>w. leads adj al start w \<longrightarrow> preferred_kind adj al ty ats start (last w) \<longrightarrow> length p \<le> length w) \<and>
      (\<forall>x y. (x, y) \<in> set (path_pairs p) \<longrightarrow> (\<exists>k \<in> set (links s). link_by_pair adj x y = Some (ln_id k) \<and> is_link_passable s k \<and>
         adjacency_status s k = UP \<and> {if_to_dev s (ln_a_interface_id k), if_to_dev s (ln_b_interface_id k)} = {Some x, Some y})))) \<and>
    (\<not> anchored \<longrightarrow> bfs_pick_anchor v6 adj al ty types ats s start = forwarding_fallback v6 adj al ty types ats s start)"
proof -
  obtain ps an where run: "anchor_search adj al ty ats start [start] [(start, None)]
      \<lparr>an_any = None, an_core = None, an_backbone = None, an_pop = None\<rparr> = (ps, an)" by fastforce
  have "slots_inv adj al ty ats start \<lparr>an_any = None, an_core = None, an_backbone = None, an_pop = None\<rparr> [start] [(start, None)]"
    by (simp add: slots_inv_def slot_inv_def)
  from anchor_search_result [OF named_build_adjacency [of s, folded assms(1)] bfs_inv_init this run]
  have inv: "bfs_inv adj al start [] ps" "slots_inv adj al ty ats start an [] ps" by auto
  have anch: "truthy (chosen_anchor an) \<longleftrightarrow> anchored" unfolding assms(2) by (rule chosen_anchor_preferred(1) [OF inv])
  have pick: "bfs_pick_anchor v6 adj al ty types ats s start = (if anchored then (s, anchor_path adj start ps (the (chosen_anchor an)))
      else forwarding_fallback v6 adj al ty types ats s start)" unfolding bfs_pick_anchor_def run by (simp add: anch)
  show ?thesis
  proof (cases anchored)
    case True
    let ?a = "the (chosen_anchor an)" and ?p = "rev (trail ps (the (chosen_anchor an)))"
    note a = chosen_anchor_preferred(2) [OF inv, unfolded anch, OF True]
    note tr = search_tree_trail [OF bfs_invD(1) [OF inv(1)] a [THEN conjunct1]]
    have joined: "\<exists>k \<in> set (links s). link_by_pair adj x y = Some (ln_id k) \<and> is_link_passable s k \<and> adjacency_status s k = UP \<and>
        {if_to_dev s (ln_a_interface_id k), if_to_dev s (ln_b_interface_id k)} = {Some x, Some y}" if "(x, y) \<in> set (path_pairs ?p)" for x y
    proof -
      have "successively (hop adj al) ?p" using tr by (simp add: leads_def)
      then have "y \<in> device_neighbors adj x" using path_pairs_hop [OF _ that] by blast
      from link_by_pair_hop [OF this] obtain l where l: "link_by_pair adj x y = Some l" "(x, y, l) \<in> set adj \<or> (y, x, l) \<in> set adj" by blast
      then show ?thesis unfolding assms(1) build_adjacency_row by (elim disjE bexE conjE) (auto intro!: bexI)
    qed
    have "bfs_pick_anchor v6 adj al ty types ats s start = (s, ?p, links_of_path adj ?p)"
      using True a by (simp add: pick anchor_path_trail [OF bfs_invD(1) [OF inv(1)]])
    moreover have "preferred_kind adj al ty ats start (last ?p)"
      "\<And>w. leads adj al start w \<Longrightarrow> preferred_kind adj al ty ats start (last w) \<Longrightarrow> length ?p \<le> length w" using a tr by auto
    ultimately show ?thesis using True tr joined by (intro conjI impI exI [of _ ?p]) auto
  qed (simp add: pick)
qed


definition demo_access :: db where
  "demo_access = empty_db\<lparr>
     devices := [(Device ''ont'' ONT)\<lparr>dev_tariff_id := Some 1\<rparr>, Device ''olt'' OLT, Device ''core'' CORE_ROUTER, Device ''bb'' BACKBONE_GATEWAY],
     interfaces := [Interface ''ont-if0'' ''ont'' ''if0'', Interface ''olt-if0'' ''olt'' ''if0'', Interface ''olt-if1'' ''olt'' ''if1'',
       Interface ''core-if0'' ''core'' ''if0'', Interface ''core-if1'' ''core'' ''if1'', Interface ''bb-if0'' ''bb'' ''if0''],
     links := [Link ''l1'' ''ont-if0'' ''olt-if0'', Link ''l2'' ''olt-if1'' ''core-if0'', Link ''l3'' ''core-if1'' ''bb-if0'']\<rparr>"

definition demo_types :: "ident \<Rightarrow> DeviceType option" where
  "demo_types k = map_option dev_type (find (\<lambda>d. dev_id d = k) (devices demo_access))"

theorem anchor_path_nearest_witness:
  "\<exists>p. bfs_pick_anchor no_v6 (build_adjacency demo_access) (dev_id ` set (devices demo_access)) demo_types [] {BACKBONE_GATEWAY, POP} demo_access ''ont''
      = (demo_access, p, links_of_path (build_adjacency demo_access) p) \<and>
     preferred_kind (build_adjacency demo_access) (dev_id ` set (devices demo_access)) demo_types {BACKBONE_GATEWAY, POP} ''ont'' (last p)"
proof -
  let ?adj = "build_adjacency demo_access" and ?al = "dev_id ` set (devices demo_access)"
  have adj: "?adj = [(''ont'', ''olt'', ''l1''), (''olt'', ''core'', ''l2''), (''core'', ''bb'', ''l3'')]" by code_simp
  have "leads ?adj ?al ''ont'' [''ont'', ''olt'', ''core'', ''bb'']"
    unfolding leads_def adj by (simp add: device_neighbors_iff demo_access_def row_defs)
  moreover have "demo_types ''bb'' = Some BACKBONE_GATEWAY" by code_simp
  then have "kind_any demo_types {BACKBONE_GATEWAY, POP} ''ont'' (last [''ont'', ''olt'', ''core'', ''bb''])" by (simp add: kind_any_def)
  ultimately have "\<exists>w. leads ?adj ?al ''ont'' w \<and> (kind_any demo_types {BACKBONE_GATEWAY, POP} ''ont'' (last w) \<or> kind_core demo_types ''ont'' (last w))"
    by blast
  with anchor_path_nearest [OF refl refl, of demo_access ?al "''ont''" demo_types "{BACKBONE_GATEWAY, POP}" no_v6 "[]"] show ?thesis by blast
qed

section \<open>Conservation\<close>

text \<open>The flows of a tick, without the totals.\<close>

fun flows_of :: "'g flow_env \<Rightarrow> db \<Rightarrow> path_cache \<Rightarrow> device list \<Rightarrow> leaf_flow list" where
  "flows_of fe s c [] = []"
| "flows_of fe s c (d # ds) =
     (let (s', c', f) = leaf_demand fe s c d in (case f of None \<Rightarrow> [] | Some f \<Rightarrow> [f]) @ flows_of fe s' c' ds)"

definition total :: "totals \<Rightarrow> ident \<Rightarrow> pyfloat" where
  "total d k = (case map_of d k of None \<Rightarrow> 0 | Some v \<Rightarrow> v)"

lemma total_dict_add: "total (dict_add k v d) x = total d x + (if x = k then v else 0)"
  by (induction k v d rule: dict_add.induct) (auto simp: total_def)

lemma total_fold: "total (fold (\<lambda>k. dict_add k v) ks d) x = total d x + of_nat (count_list ks x) * v"
  by (induction ks arbitrary: d) (auto simp: total_dict_add algebra_simps)

lemma keys_dict_add: "fst ` set (dict_add k v d) = insert k (fst ` set d)"
  by (induction k v d rule: dict_add.induct) auto

lemma keys_fold: "fst ` set (fold (\<lambda>k. dict_add k v) ks d) = set ks \<union> fst ` set d"
  by (induction ks arbitrary: d) (auto simp: keys_dict_add)

definition share :: "(leaf_flow \<Rightarrow> ident list) \<Rightarrow> (leaf_flow \<Rightarrow> pyfloat) \<Rightarrow> leaf_flow list \<Rightarrow> ident \<Rightarrow> pyfloat" where
  "share places amount fs x = (\<Sum>f \<leftarrow> fs. of_nat (count_list (places f) x) * amount f)"

lemma add_flow_totals:
  "total (ft_dev_up (add_flow f t)) x = total (ft_dev_up t) x + of_nat (count_list (lf_nodes f) x) * lf_up f"
  "total (ft_dev_down (add_flow f t)) x = total (ft_dev_down t) x + of_nat (count_list (lf_nodes f) x) * lf_down f"
  "total (ft_link_up (add_flow f t)) x = total (ft_link_up t) x + of_nat (count_list (lf_links f) x) * lf_up f"
  "total (ft_link_down (add_flow f t)) x = total (ft_link_down t) x + of_nat (count_list (lf_links f) x) * lf_down f"
  by (simp_all add: add_flow_def total_fold)

lemma generate_totals:
  "let t' = foldl (leaf_step fe) t ds; fs = flows_of fe (ft_db t) (ft_cache t) ds
   in total (ft_dev_up t') x = total (ft_dev_up t) x + share lf_nodes lf_up fs x \<and>
      total (ft_dev_down t') x = total (ft_dev_down t) x + share lf_nodes lf_down fs x \<and>
      total (ft_link_up t') x = total (ft_link_up t) x + share lf_links lf_up fs x \<and>
      total (ft_link_down t') x = total (ft_link_down t) x + share lf_links lf_down fs x \<and>
      ft_leaves t' = ft_leaves t + length fs \<and> fst ` set (ft_dev_up t') = fst ` set (ft_dev_up t) \<union> (\<Union>f \<in> set fs. set (lf_nodes f))"
proof (induction ds arbitrary: t)
  case (Cons d ds)
  obtain s c f where d: "leaf_demand fe (ft_db t) (ft_cache t) d = (s, c, f)" by (metis prod_cases3)
  let ?t = "t\<lparr>ft_db := s, ft_cache := c\<rparr>"
  show ?case
  proof (cases f)
    case None
    then show ?thesis using Cons.IH [of ?t] by (simp add: leaf_step_def d Let_def)
  next
    case (Some g)
    have st: "ft_db (add_flow g ?t) = s" "ft_cache (add_flow g ?t) = c" "ft_leaves (add_flow g ?t) = ft_leaves t + 1"
      "fst ` set (ft_dev_up (add_flow g ?t)) = set (lf_nodes g) \<union> fst ` set (ft_dev_up t)"
      by (simp_all add: add_flow_def keys_fold)
    have fs: "flows_of fe (ft_db t) (ft_cache t) (d # ds) = g # flows_of fe s c ds"
      and fd: "foldl (leaf_step fe) t (d # ds) = foldl (leaf_step fe) (add_flow g ?t) ds"
      by (simp_all add: d Some leaf_step_def Let_def)
    from Cons.IH [of "add_flow g ?t"] show ?thesis
      unfolding fs fd Let_def st add_flow_totals by (auto simp: share_def)
  qed
qed (simp add: share_def Let_def)

lemma leaf_demand_flow:
  assumes "leaf_demand fe s c d = (s', c', Some f)"
  shows "lf_leaf f = dev_id d \<and> fe_status fe (dev_id d) = Some UP \<and> 1 < length (lf_nodes f) \<and> leaf_tariff fe d = Some (lf_tariff f) \<and>
    0 \<le> lf_up f \<and> lf_up f \<le> max (tf_max_up_mbps (lf_tariff f)) 0 * 1000000 \<and>
    0 \<le> lf_down f \<and> lf_down f \<le> max (tf_max_down_mbps (lf_tariff f)) 0 * 1000000"
proof -
  have b: "0 \<le> demand m (deterministic_rand01 a b k) \<and> demand m (deterministic_rand01 a b k) \<le> max m 0 * 1000000" for m a b k
    using demand_bounds rand01_bounds by blast
  show ?thesis
    using assms b by (auto simp: leaf_demand_def Let_def split: if_splits option.splits prod.splits)
qed

lemma flows_of_leaf:
  "f \<in> set (flows_of fe s c ds) \<Longrightarrow> \<exists>d \<in> set ds. \<exists>s c s' c'. leaf_demand fe s c d = (s', c', Some f)"
proof (induction ds arbitrary: s c)
  case (Cons d ds)
  obtain s' c' g where d: "leaf_demand fe s c d = (s', c', g)" by (metis prod_cases3)
  show ?case
  proof (cases "g = Some f")
    case False
    then have "f \<in> set (flows_of fe s' c' ds)" using Cons.prems by (auto simp: d Let_def split: option.splits)
    from Cons.IH [OF this] show ?thesis by auto
  qed (use d in auto)
qed simp


text \<open>C16: Traffic is conserved: the total of a device or a link, in either direction, is the sum of the demands of the flows that pass it,
  exactly the devices on some path have a total, every flow belongs to a leaf that is up and has a tariff, leads beyond the leaf, and
  its demand is not negative and at most what the tariff allows.\<close>

theorem traffic_conserved:
  assumes "t = generate_flows_for_leaves fe s cache leaves" and "fs = flows_of fe s cache leaves"
  shows "total (ft_dev_up t) x = share lf_nodes lf_up fs x \<and> total (ft_dev_down t) x = share lf_nodes lf_down fs x \<and>
    total (ft_link_up t) x = share lf_links lf_up fs x \<and> total (ft_link_down t) x = share lf_links lf_down fs x \<and>
    ft_leaves t = length fs \<and> fst ` set (ft_dev_up t) = (\<Union>f \<in> set fs. set (lf_nodes f)) \<and>
    (\<forall>f \<in> set fs. \<exists>d \<in> set leaves. lf_leaf f = dev_id d \<and> fe_status fe (dev_id d) = Some UP \<and> leaf_tariff fe d = Some (lf_tariff f) \<and>
       1 < length (lf_nodes f) \<and> 0 \<le> lf_up f \<and> lf_up f \<le> max (tf_max_up_mbps (lf_tariff f)) 0 * 1000000 \<and>
       0 \<le> lf_down f \<and> lf_down f \<le> max (tf_max_down_mbps (lf_tariff f)) 0 * 1000000)"
proof -
  let ?t0 = "\<lparr>ft_db = s, ft_cache = cache, ft_dev_up = [], ft_dev_down = [], ft_link_up = [], ft_link_down = [], ft_leaves = 0, ft_generated = []\<rparr>"
  have none: "total [] y = 0" for y by (simp add: total_def)
  have "\<exists>d \<in> set leaves. lf_leaf f = dev_id d \<and> fe_status fe (dev_id d) = Some UP \<and> leaf_tariff fe d = Some (lf_tariff f) \<and>
       1 < length (lf_nodes f) \<and> 0 \<le> lf_up f \<and> lf_up f \<le> max (tf_max_up_mbps (lf_tariff f)) 0 * 1000000 \<and>
       0 \<le> lf_down f \<and> lf_down f \<le> max (tf_max_down_mbps (lf_tariff f)) 0 * 1000000" if "f \<in> set fs" for f
    using flows_of_leaf [OF that [unfolded assms(2)]] leaf_demand_flow by blast
  then show ?thesis
    using generate_totals [of fe ?t0 leaves x]
    unfolding assms generate_flows_for_leaves_def Let_def by (simp add: none)
qed

definition demo_fe :: "list_graph flow_env" where
  "demo_fe = \<lparr>fe_nx = list_nx, fe_v6 = no_v6, fe_adj = build_adjacency demo_access, fe_allowed = dev_id ` set (devices demo_access),
     fe_devices = devices demo_access, fe_anchor_types = {BACKBONE_GATEWAY, POP}, fe_status = (\<lambda>k. Some UP),
     fe_tariffs = [\<lparr>tf_id = 1, tf_max_up_mbps = 100, tf_max_down_mbps = 500\<rparr>], fe_seed = 7, fe_tick = 0\<rparr>"

theorem traffic_conserved_witness:
  "\<exists>f. flows_of demo_fe demo_access Map.empty [hd (devices demo_access)] = [f] \<and> lf_nodes f = [''ont'', ''olt'', ''core'', ''bb''] \<and>
     total (ft_link_up (generate_flows_for_leaves demo_fe demo_access Map.empty [hd (devices demo_access)])) ''l2'' = lf_up f \<and>
     0 \<le> lf_up f \<and> lf_up f \<le> 100000000"
proof -
  have path: "leaf_path demo_fe demo_access Map.empty (hd (devices demo_access)) =
      (demo_access, [''ont'', ''olt'', ''core'', ''bb''], [''l1'', ''l2'', ''l3''])" by code_simp
  have tariff: "leaf_tariff demo_fe (hd (devices demo_access)) = Some \<lparr>tf_id = 1, tf_max_up_mbps = 100, tf_max_down_mbps = 500\<rparr>" by code_simp
  have up: "fe_status demo_fe k = Some UP" for k by (simp add: demo_fe_def)
  obtain f where f: "flows_of demo_fe demo_access Map.empty [hd (devices demo_access)] = [f]" "lf_nodes f = [''ont'', ''olt'', ''core'', ''bb'']"
    "lf_links f = [''l1'', ''l2'', ''l3'']" "lf_tariff f = \<lparr>tf_id = 1, tf_max_up_mbps = 100, tf_max_down_mbps = 500\<rparr>"
    by (simp add: leaf_demand_def up tariff path Let_def)
  from traffic_conserved [OF refl refl, of demo_fe demo_access Map.empty "[hd (devices demo_access)]" "''l2''", unfolded f(1)] f(2-4)
  show ?thesis unfolding f(1) by (simp add: share_def)
qed

end
