(* ===== verification/Traffic_Engine.thy ===== *)
theory Traffic_Engine
  imports Traffic_Paths
begin

text \<open>
  The tick of the traffic engine: utilization of devices, links and ports (\<^verbatim>\<open>services/traffic/v2_aggregation.py\<close>), congestion with
  hysteresis (\<^verbatim>\<open>v2_congestion.py\<close>), shaping of PON segments (\<^verbatim>\<open>v2_segments.py\<close>), the caches (\<^verbatim>\<open>v2_caches.py\<close>), zeroing of what became
  inactive (\<^verbatim>\<open>v2_phases.py\<close>), the snapshot (\<^verbatim>\<open>v2_snapshot.py\<close>), the dirty sets (\<^verbatim>\<open>v2_dirty.py\<close>) and \<^verbatim>\<open>run_tick\<close> of \<^verbatim>\<open>v2_engine.py\<close>. The events of a tick
  are values of the datatype \<open>traffic_event\<close> in the order in which they are handed to \<^verbatim>\<open>events.publish\<close>; the order in which Python walks a
  set is the parameter \<open>so\<close>. Timings and logging are left out.
\<close>

section \<open>Utilization\<close>

datatype util = Util pyfloat | Inf

fun util_ge :: "util \<Rightarrow> pyfloat \<Rightarrow> bool" where
  "util_ge (Util u) x = (x \<le> u)"
| "util_ge Inf x = True"

text \<open>In a snapshot infinity is written as \<^verbatim>\<open>1e9\<close>.\<close>

fun util_number :: "util \<Rightarrow> pyfloat" where
  "util_number (Util u) = u"
| "util_number Inf = 1000000000"

definition utilization :: "pyfloat \<Rightarrow> int option \<Rightarrow> util" where
  "utilization bps cap_mbps =
     (case cap_mbps of
        Some c \<Rightarrow> if c \<le> 0 then if bps \<le> 0 then Util 0 else Inf else Util (bps / (of_int c * 1000000))
      | None \<Rightarrow> if bps \<le> 0 then Util 0 else Inf)"

record metric =
  mt_id :: ident
  mt_bps :: pyfloat
  mt_util :: util
  mt_upstream_bps :: pyfloat
  mt_downstream_bps :: pyfloat

record link_metric =
  lm_id :: ident
  lm_bps :: pyfloat
  lm_util :: util

definition dict_get :: "('k \<times> 'v) list \<Rightarrow> 'k \<Rightarrow> 'v \<Rightarrow> 'v" where
  "dict_get d k v = (case map_of d k of None \<Rightarrow> v | Some x \<Rightarrow> x)"

definition compute_device_changes :: "db \<Rightarrow> totals \<Rightarrow> totals \<Rightarrow> metric list" where
  "compute_device_changes s up down =
     map (\<lambda>(k, bps).
        let allow = (case get_device s k of None \<Rightarrow> True | Some d \<Rightarrow> dev_admin_override_status d \<noteq> Some DOWN);
            eff = (if allow then bps else 0);
            cap = (case find (\<lambda>d. dev_id d = k) (rev (devices s)) of None \<Rightarrow> None | Some d \<Rightarrow> get_effective_device_capacity_mbps s d)
        in \<lparr>mt_id = k, mt_bps = eff, mt_util = utilization eff cap,
            mt_upstream_bps = (if allow then dict_get up k 0 else 0), mt_downstream_bps = (if allow then dict_get down k 0 else 0)\<rparr>) up"

definition interface_capacity :: "db \<Rightarrow> ident \<Rightarrow> int option" where
  "interface_capacity s i =
     (case find (\<lambda>r. if_id r = i) (rev (interfaces s)) of None \<Rightarrow> None | Some r \<Rightarrow> get_effective_interface_capacity_mbps s r)"

definition link_endpoints :: "db \<Rightarrow> ident \<Rightarrow> ident \<times> ident" where
  "link_endpoints s l =
     (case find (\<lambda>r. ln_id r = l) (rev (links s)) of None \<Rightarrow> ([], []) | Some r \<Rightarrow> (ln_a_interface_id r, ln_b_interface_id r))"

definition link_capacity_mbps :: "db \<Rightarrow> ident \<Rightarrow> pyfloat" where
  "link_capacity_mbps s l =
     (let (a, b) = link_endpoints s l;
          caps = concat (map (\<lambda>c. case c of Some x \<Rightarrow> if x > 0 then [x] else [] | None \<Rightarrow> []) [interface_capacity s a, interface_capacity s b])
      in if caps \<noteq> [] then of_int (Min (set caps)) else 1000)"

record port_metric =
  pt_bps :: pyfloat
  pt_utilization :: pyfloat

definition port_totals :: "db \<Rightarrow> totals \<Rightarrow> totals \<Rightarrow> totals" where
  "port_totals s up down =
     foldl (\<lambda>d (l, bps).
        let (a, b) = link_endpoints s l; tot = bps + dict_get down l 0;
            d1 = (if a \<noteq> [] then dict_add a tot d else d)
        in if b \<noteq> [] then dict_add b tot d1 else d1) [] up"

definition is_uplink_port :: "db \<Rightarrow> ident \<Rightarrow> bool" where
  "is_uplink_port s i =
     (case find (\<lambda>r. if_id r = i) (rev (interfaces s)) of None \<Rightarrow> False | Some r \<Rightarrow> if_role r = Some ROLE_P2P_UPLINK)"

definition compute_ports_map :: "db \<Rightarrow> totals \<Rightarrow> (ident \<times> (ident \<times> port_metric) list) list" where
  "compute_ports_map s ports =
     foldl (\<lambda>m (i, bps).
        case if_to_dev s i of
          None \<Rightarrow> m
        | Some k \<Rightarrow>
            if k = [] then m
            else dict_set k (dict_set i \<lparr>pt_bps = bps, pt_utilization = util_number (utilization bps (interface_capacity s i))\<rparr> (dict_get m k [])) m)
      [] (sort_key (\<lambda>(i, _). if is_uplink_port s i then 0 else 1 :: nat) ports)"

definition compute_link_changes ::
    "db \<Rightarrow> totals \<Rightarrow> totals \<Rightarrow> link_metric list \<times> (ident \<times> (ident \<times> port_metric) list) list" where
  "compute_link_changes s up down =
     (if up = [] then ([], [])
      else (map (\<lambda>(l, bps). \<lparr>lm_id = l, lm_bps = bps,
                   lm_util = Util (if link_capacity_mbps s l \<le> 0 \<and> bps \<le> 0 then 0 else bps / (link_capacity_mbps s l * 1000000))\<rparr>) up,
            compute_ports_map s (port_totals s up down)))"

section \<open>Events\<close>

datatype entity = DeviceEntity | LinkEntity

datatype traffic_event =
    StatusRecomputeScheduled
  | DeviceMetricsUpdated "metric list" int
  | LinkMetricsUpdated "link_metric list" int
  | CongestionDetected entity ident pyfloat pyfloat util int
  | CongestionCleared entity ident pyfloat pyfloat int
  | SegmentDetected ident ident ident ident pyfloat pyfloat pyfloat pyfloat int
  | SegmentCleared ident ident ident ident int

section \<open>Congestion\<close>

text \<open>What the two handlers read of a change.\<close>

type_synonym load = "ident \<times> pyfloat \<times> util"

definition capacity_of :: "pyfloat \<Rightarrow> util \<Rightarrow> pyfloat" where
  "capacity_of bps u = (case u of Inf \<Rightarrow> 0 | Util x \<Rightarrow> if x > 0 then bps / x else bps)"

definition overload :: "util \<Rightarrow> util" where
  "overload u = (case u of Inf \<Rightarrow> Inf | Util x \<Rightarrow> Util ((x - 1) * 100))"

definition congestion_scan ::
    "entity \<Rightarrow> pyfloat \<Rightarrow> pyfloat \<Rightarrow> int \<Rightarrow> ident set \<Rightarrow> load list \<Rightarrow> ident set \<times> traffic_event list" where
  "congestion_scan ent detect clear tick prev changes =
     foldl (\<lambda>(cur, evs) (k, bps, u).
        if k \<in> prev then (if util_ge u clear then insert k cur else cur, evs)
        else if util_ge u detect
        then (insert k cur, evs @ [CongestionDetected ent k bps (capacity_of bps u) (overload u) tick])
        else (cur, evs)) ({}, []) changes"

definition cleared_event :: "entity \<Rightarrow> int \<Rightarrow> load list \<Rightarrow> ident \<Rightarrow> traffic_event" where
  "cleared_event ent tick changes k =
     (case find (\<lambda>x. fst x = k) changes of
        Some (_, bps, u) \<Rightarrow> CongestionCleared ent k bps (capacity_of bps u) tick
      | None \<Rightarrow> CongestionCleared ent k 0 0 tick)"

definition handle_congestion ::
    "(ident set \<Rightarrow> ident list) \<Rightarrow> entity \<Rightarrow> ident set \<Rightarrow> load list \<Rightarrow> pyfloat \<Rightarrow> pyfloat \<Rightarrow> int \<Rightarrow> ident set \<times> traffic_event list" where
  "handle_congestion so ent prev changes detect clear tick =
     (let (cur, evs) = congestion_scan ent detect clear tick prev changes
      in (cur, evs @ map (cleared_event ent tick changes) (filter (\<lambda>k. k \<notin> cur) (so prev))))"

definition handle_device_congestion ::
    "(ident set \<Rightarrow> ident list) \<Rightarrow> ident set \<Rightarrow> metric list \<Rightarrow> pyfloat \<Rightarrow> pyfloat \<Rightarrow> int \<Rightarrow> ident set \<times> traffic_event list" where
  "handle_device_congestion so prev changes = handle_congestion so DeviceEntity prev (map (\<lambda>m. (mt_id m, mt_bps m, mt_util m)) changes)"

definition handle_link_congestion ::
    "(ident set \<Rightarrow> ident list) \<Rightarrow> ident set \<Rightarrow> link_metric list \<Rightarrow> pyfloat \<Rightarrow> pyfloat \<Rightarrow> int \<Rightarrow> ident set \<times> traffic_event list" where
  "handle_link_congestion so prev changes = handle_congestion so LinkEntity prev (map (\<lambda>m. (lm_id m, lm_bps m, lm_util m)) changes)"


section \<open>Segments\<close>

text \<open>The caches of the topology, rebuilt when the version of the pathfinding store changes. A cached \<^verbatim>\<open>None\<close> of the optical paths reads
  like a missing entry.\<close>

record topo_caches =
  tc_version :: "int option"
  tc_iface_by_id :: "ident \<rightharpoonup> iface"
  tc_dev_by_iface :: "ident \<rightharpoonup> ident"
  tc_neigh_by_if :: "ident \<Rightarrow> ident set"
  tc_olt_pon_ifaces :: "ident \<rightharpoonup> iface list"
  tc_dev_type :: "ident \<rightharpoonup> DeviceType"
  tc_hw_model :: "ident \<rightharpoonup> int"
  tc_optical_paths :: "ident \<rightharpoonup> optical_path_result"

definition row_of :: "('r \<Rightarrow> ident) \<Rightarrow> 'r list \<Rightarrow> ident \<rightharpoonup> 'r" where
  "row_of key rows k = find (\<lambda>r. key r = k) (rev rows)"

definition neighbors_by_interface :: "db \<Rightarrow> ident \<Rightarrow> ident set" where
  "neighbors_by_interface s i =
     set (concat (map (\<lambda>l.
        let a = if_to_dev s (ln_a_interface_id l); b = if_to_dev s (ln_b_interface_id l)
        in if truthy a \<and> truthy b
           then (if ln_a_interface_id l = i then [the b] else []) @ (if ln_b_interface_id l = i then [the a] else []) else [])
      (links s)))"

definition pon_interfaces :: "db \<Rightarrow> (ident \<rightharpoonup> DeviceType) \<Rightarrow> ident \<rightharpoonup> iface list" where
  "pon_interfaces s ty k =
     (let rows = filter (\<lambda>i. if_port_role i = Some PORT_PON \<and> if_device_id i = k) (interfaces s)
      in if k \<noteq> [] \<and> ty k = Some OLT \<and> rows \<noteq> [] then Some (sort_key if_name rows) else None)"

definition ensure_topology_caches :: "db \<Rightarrow> 'g pathfinding_store \<Rightarrow> topo_caches \<Rightarrow> topo_caches" where
  "ensure_topology_caches s st c =
     (if tc_version c = Some (topo_version st) then c
      else (let ty = (\<lambda>k. map_option dev_type (row_of dev_id (devices s) k))
            in \<lparr>tc_version = Some (topo_version st), tc_iface_by_id = row_of if_id (interfaces s), tc_dev_by_iface = if_to_dev s,
                tc_neigh_by_if = neighbors_by_interface s, tc_olt_pon_ifaces = pon_interfaces s ty, tc_dev_type = ty,
                tc_hw_model = (\<lambda>k. case row_of dev_id (devices s) k of None \<Rightarrow> None | Some d \<Rightarrow> dev_hardware_model_id d),
                tc_optical_paths = (\<lambda>_. None)\<rparr>))"

type_synonym profile_cache = "(int \<Rightarrow> port_profile list) option"

definition ensure_profiles_cache :: "db \<Rightarrow> profile_cache \<Rightarrow> profile_cache" where
  "ensure_profiles_cache s c =
     (case c of
        Some _ \<Rightarrow> c
      | None \<Rightarrow> Some (\<lambda>m. if m = 0 then [] else sort_key pp_name (filter (\<lambda>p. pp_hardware_model_id p = m) (port_profiles s))))"

fun occurs_in :: "string \<Rightarrow> string \<Rightarrow> bool" where
  "occurs_in p [] = (p = [])"
| "occurs_in p (c # t) = (startswith (c # t) p \<or> occurs_in p t)"

definition pon_profile :: "port_profile list \<Rightarrow> iface \<Rightarrow> port_profile option" where
  "pon_profile profs i =
     (let pname = strip (case if_profile_name i of None \<Rightarrow> [] | Some n \<Rightarrow> n)
      in case find (\<lambda>p. strip (pp_name p) = pname) profs of
           Some p \<Rightarrow> Some p
         | None \<Rightarrow> find (\<lambda>p. pp_port_role p = Some PORT_PON) profs)"

text \<open>The downstream and the upstream rate and the number of subscribers of a PON port.\<close>

definition pon_caps :: "topo_caches \<Rightarrow> profile_cache \<Rightarrow> ident \<Rightarrow> iface \<Rightarrow> pyfloat \<times> pyfloat \<times> int option" where
  "pon_caps c pc olt i =
     (let profs = (case (tc_hw_model c olt, pc) of (Some hw, Some by_model) \<Rightarrow> if hw \<noteq> 0 then by_model hw else [] | _ \<Rightarrow> [])
      in case pon_profile profs i of
           None \<Rightarrow> (2500000000, 1250000000, None)
         | Some p \<Rightarrow>
             (let med = lower (case pp_media p of None \<Rightarrow> [] | Some m \<Rightarrow> m); nm = lower (pp_name p)
              in case pp_speed_gbps p of
                   None \<Rightarrow> (2500000000, 1250000000, pp_max_subscribers p)
                 | Some sp \<Rightarrow>
                     if occurs_in ''xgs'' med \<or> occurs_in ''xgs'' nm then (sp * 1000000000, sp * 1000000000, pp_max_subscribers p)
                     else if occurs_in ''xg'' med \<or> occurs_in ''xgpon'' nm then (sp * 1000000000, 2500000000, pp_max_subscribers p)
                     else (sp * 1000000000, 1250000000, pp_max_subscribers p)))"

record segment =
  sg_id :: ident
  sg_olt_id :: ident
  sg_pon_port_id :: ident
  sg_odf_id :: ident
  sg_subscribers_count :: nat
  sg_subscribers_max :: "int option"
  sg_capacity_down :: pyfloat
  sg_capacity_up :: pyfloat
  sg_demand_down :: pyfloat
  sg_demand_up :: pyfloat
  sg_used_down :: pyfloat
  sg_used_up :: pyfloat
  sg_headroom_down :: pyfloat
  sg_headroom_up :: pyfloat
  sg_congested :: bool

definition odf_on_path :: "ident \<Rightarrow> path_segment list \<Rightarrow> ident option" where
  "odf_on_path olt segs =
     (case find (\<lambda>g. (ps_src g = olt \<and> ps_dst g \<noteq> []) \<or> (ps_dst g = olt \<and> ps_src g \<noteq> [])) segs of
        None \<Rightarrow> None
      | Some g \<Rightarrow> Some (if ps_src g = olt \<and> ps_dst g \<noteq> [] then ps_dst g else ps_src g))"

text \<open>The OLT, the PON port and the device next to it that serve an ONT.\<close>

definition segment_of_path :: "topo_caches \<Rightarrow> optical_path_result \<Rightarrow> (ident \<times> ident \<times> ident) option" where
  "segment_of_path c r =
     (let olt = opr_olt_id r
      in if olt = [] then None
         else case tc_olt_pon_ifaces c olt of
                None \<Rightarrow> None
              | Some pis \<Rightarrow>
                  (let cands = (\<Union>i \<in> set pis. tc_neigh_by_if c (if_id i));
                       odf = (case odf_on_path olt (opr_segments r) of
                                Some x \<Rightarrow> Some x
                              | None \<Rightarrow> if cands = {} then None else Some (Min cands))
                   in case odf of
                        None \<Rightarrow> None
                      | Some x \<Rightarrow>
                          (case find (\<lambda>i. x \<in> tc_neigh_by_if c (if_id i)) pis of
                             Some i \<Rightarrow> Some (olt, if_id i, x)
                           | None \<Rightarrow> (case pis of [] \<Rightarrow> None | i # _ \<Rightarrow> Some (olt, if_id i, x)))))"

definition new_segment :: "ident \<Rightarrow> ident \<Rightarrow> ident \<Rightarrow> segment" where
  "new_segment olt pon odf = \<lparr>sg_id = pon @ ''::'' @ odf, sg_olt_id = olt, sg_pon_port_id = pon, sg_odf_id = odf, sg_subscribers_count = 0,
     sg_subscribers_max = None, sg_capacity_down = 0, sg_capacity_up = 0, sg_demand_down = 0, sg_demand_up = 0, sg_used_down = 0,
     sg_used_up = 0, sg_headroom_down = 0, sg_headroom_up = 0, sg_congested = False\<rparr>"

definition add_subscriber ::
    "topo_caches \<Rightarrow> profile_cache \<Rightarrow> pyfloat \<Rightarrow> pyfloat \<Rightarrow> ident \<times> ident \<times> ident \<Rightarrow> (ident \<times> segment) list \<Rightarrow> (ident \<times> segment) list" where
  "add_subscriber c pc up down place m =
     (case place of (olt, pon, odf) \<Rightarrow>
        let k = pon @ ''::'' @ odf; e = dict_get m k (new_segment olt pon odf);
            e1 = e\<lparr>sg_subscribers_count := sg_subscribers_count e + 1, sg_demand_up := sg_demand_up e + up,
                   sg_demand_down := sg_demand_down e + down\<rparr>;
            e2 = (if sg_capacity_down e1 = 0 \<and> sg_capacity_up e1 = 0
                  then (case tc_iface_by_id c pon of
                          None \<Rightarrow> e1
                        | Some i \<Rightarrow>
                            (let (d, u, n) = pon_caps c pc olt i
                             in e1\<lparr>sg_capacity_down := d, sg_capacity_up := u,
                                   sg_subscribers_max := (if n = None then sg_subscribers_max e1 else n)\<rparr>))
                  else e1)
        in dict_set k e2 m)"

text \<open>One ONT: its optical path from the cache or the resolver, then its share of the segment.\<close>

definition cached_optical_path ::
    "'g nx \<Rightarrow> db \<Rightarrow> ident \<Rightarrow> topo_caches \<times> 'g pathfinding_store \<Rightarrow> (topo_caches \<times> 'g pathfinding_store) \<times> optical_path_result option" where
  "cached_optical_path nx s ont = (\<lambda>(c, st).
     case tc_optical_paths c ont of
       Some r \<Rightarrow> ((c, st), Some r)
     | None \<Rightarrow> (let (st', r) = resolve_optical_path nx s st ont
                in ((c\<lparr>tc_optical_paths := (tc_optical_paths c)(ont := r)\<rparr>, st'), r)))"

definition segment_step ::
    "'g nx \<Rightarrow> db \<Rightarrow> profile_cache \<Rightarrow> totals \<Rightarrow> totals \<Rightarrow> (topo_caches \<times> 'g pathfinding_store) \<times> (ident \<times> segment) list \<Rightarrow> ident
     \<Rightarrow> (topo_caches \<times> 'g pathfinding_store) \<times> (ident \<times> segment) list" where
  "segment_step nx s pc up down = (\<lambda>(cst, m) ont.
     let (cst', r) = cached_optical_path nx s ont cst
     in case r of
          None \<Rightarrow> (cst', m)
        | Some r \<Rightarrow>
            (case segment_of_path (fst cst') r of
               None \<Rightarrow> (cst', m)
             | Some place \<Rightarrow> (cst', add_subscriber (fst cst') pc (dict_get up ont 0) (dict_get down ont 0) place m)))"

definition segment_util :: "segment \<Rightarrow> pyfloat" where
  "segment_util e =
     (let cd = max (sg_capacity_down e) 0; cu = max (sg_capacity_up e) 0
      in max (if cd > 0 then max (sg_demand_down e) 0 / cd else 0) (if cu > 0 then max (sg_demand_up e) 0 / cu else 0))"

definition shape :: "segment \<Rightarrow> segment" where
  "shape e =
     (let cd = max (sg_capacity_down e) 0; cu = max (sg_capacity_up e) 0; dd = max (sg_demand_down e) 0; du = max (sg_demand_up e) 0;
          ud = (if cd > 0 then min dd cd else dd); uu = (if cu > 0 then min du cu else du)
      in e\<lparr>sg_used_down := ud, sg_used_up := uu, sg_headroom_down := max (cd - ud) 0, sg_headroom_up := max (cu - uu) 0\<rparr>)"

definition finish_segment ::
    "pyfloat \<Rightarrow> pyfloat \<Rightarrow> int \<Rightarrow> ident set \<Rightarrow> ident \<times> segment \<Rightarrow> (ident \<times> segment) \<times> traffic_event list" where
  "finish_segment detect clear tick prev = (\<lambda>(k, e).
     let e' = shape e; u = segment_util e
     in if k \<in> prev
        then if u \<ge> clear then ((k, e'\<lparr>sg_congested := True\<rparr>), [])
             else ((k, e'\<lparr>sg_congested := False\<rparr>), [SegmentCleared k (sg_olt_id e) (sg_pon_port_id e) (sg_odf_id e) tick])
        else if u \<ge> detect
             then ((k, e'\<lparr>sg_congested := True\<rparr>),
                   [SegmentDetected k (sg_olt_id e) (sg_pon_port_id e) (sg_odf_id e) (max (sg_demand_down e) 0) (max (sg_demand_up e) 0)
                      (max (sg_capacity_down e) 0) (max (sg_capacity_up e) 0) tick])
             else ((k, e'\<lparr>sg_congested := False\<rparr>), []))"

definition demand_onts :: "topo_caches \<Rightarrow> totals \<Rightarrow> ident list" where
  "demand_onts c up = filter (\<lambda>k. tc_dev_type c k \<in> {Some ONT, Some BUSINESS_ONT}) (sort (map fst up))"

definition compute_segments_map ::
    "'g nx \<Rightarrow> db \<Rightarrow> profile_cache \<Rightarrow> pyfloat \<Rightarrow> pyfloat \<Rightarrow> ident set \<Rightarrow> totals \<Rightarrow> totals \<Rightarrow> int \<Rightarrow> topo_caches \<times> 'g pathfinding_store
     \<Rightarrow> (topo_caches \<times> 'g pathfinding_store) \<times> ident set \<times> (ident \<times> segment) list \<times> traffic_event list" where
  "compute_segments_map nx s pc detect clear prev up down tick cst =
     (let (cst', m) = foldl (segment_step nx s pc up down) (cst, []) (demand_onts (fst cst) up);
         rows = map (finish_segment detect clear tick prev) m
      in (cst', set (map fst (filter (\<lambda>(k, e). sg_congested e) (map fst rows))), map fst rows, concat (map snd rows)))"


section \<open>Snapshots\<close>

text \<open>The field \<^verbatim>\<open>version\<close> of an entry is always 0 and left out.\<close>

record device_entry =
  de_bps :: pyfloat
  de_utilization :: pyfloat
  de_upstream_bps :: pyfloat
  de_downstream_bps :: pyfloat

record link_entry =
  le_bps :: pyfloat
  le_utilization :: pyfloat

definition zero_device :: device_entry where
  "zero_device = \<lparr>de_bps = 0, de_utilization = 0, de_upstream_bps = 0, de_downstream_bps = 0\<rparr>"

definition zero_link :: link_entry where
  "zero_link = \<lparr>le_bps = 0, le_utilization = 0\<rparr>"

definition build_snapshot_maps :: "metric list \<Rightarrow> link_metric list \<Rightarrow> (ident \<times> device_entry) list \<times> (ident \<times> link_entry) list" where
  "build_snapshot_maps dcs lcs =
     (foldl (\<lambda>m x. dict_set (mt_id x) \<lparr>de_bps = mt_bps x, de_utilization = util_number (mt_util x),
                de_upstream_bps = mt_upstream_bps x, de_downstream_bps = mt_downstream_bps x\<rparr> m) [] dcs,
      foldl (\<lambda>m x. dict_set (lm_id x) \<lparr>le_bps = lm_bps x, le_utilization = util_number (lm_util x)\<rparr> m) [] lcs)"

record tick_snapshot =
  sn_last_tick :: int
  sn_devices :: "(ident \<times> device_entry) list"
  sn_links :: "(ident \<times> link_entry) list"
  sn_ports :: "(ident \<times> (ident \<times> port_metric) list) list"
  sn_segments :: "(ident \<times> segment) list"

section \<open>The engine\<close>

record engine =
  en_tick_seq :: int
  en_random_seed :: int
  en_device_detect :: pyfloat
  en_device_clear :: pyfloat
  en_link_detect :: pyfloat
  en_link_clear :: pyfloat
  en_segment_detect :: pyfloat
  en_segment_clear :: pyfloat
  en_prev_device_congested :: "ident set"
  en_prev_link_congested :: "ident set"
  en_prev_segment_congested :: "ident set"
  en_prev_active_devices :: "ident set"
  en_prev_active_links :: "ident set"
  en_last :: tick_snapshot
  en_caches :: topo_caches
  en_profiles :: profile_cache
  en_path_cache :: path_cache
  en_path_cache_version :: "int option"
  en_adjacency :: "(int \<times> adjacency) option"
  en_adjacency_hits :: nat
  en_adjacency_misses :: nat
  en_generated :: "(ident \<times> leaf_flow) list"

text \<open>\<^verbatim>\<open>en_adjacency\<close> holds the adjacency with the version it was built for; \<^verbatim>\<open>_adjacency_cache_valid\<close> is set together with it and never
  cleared.\<close>

definition TrafficEngine :: engine where
  "TrafficEngine = \<lparr>en_tick_seq = 0, en_random_seed = 0xAA55AA55, en_device_detect = 1, en_device_clear = 95 / 100, en_link_detect = 1,
     en_link_clear = 95 / 100, en_segment_detect = 95 / 100, en_segment_clear = 85 / 100, en_prev_device_congested = {},
     en_prev_link_congested = {}, en_prev_segment_congested = {}, en_prev_active_devices = {}, en_prev_active_links = {},
     en_last = \<lparr>sn_last_tick = 0, sn_devices = [], sn_links = [], sn_ports = [], sn_segments = []\<rparr>,
     en_caches = \<lparr>tc_version = None, tc_iface_by_id = (\<lambda>_. None), tc_dev_by_iface = (\<lambda>_. None), tc_neigh_by_if = (\<lambda>_. {}),
       tc_olt_pon_ifaces = (\<lambda>_. None), tc_dev_type = (\<lambda>_. None), tc_hw_model = (\<lambda>_. None), tc_optical_paths = (\<lambda>_. None)\<rparr>,
     en_profiles = None, en_path_cache = (\<lambda>_. None), en_path_cache_version = None, en_adjacency = None, en_adjacency_hits = 0,
     en_adjacency_misses = 0, en_generated = []\<rparr>"

definition zero_metric :: "ident \<Rightarrow> metric" where
  "zero_metric k = \<lparr>mt_id = k, mt_bps = 0, mt_util = Util 0, mt_upstream_bps = 0, mt_downstream_bps = 0\<rparr>"

definition zero_link_metric :: "ident \<Rightarrow> link_metric" where
  "zero_link_metric k = \<lparr>lm_id = k, lm_bps = 0, lm_util = Util 0\<rparr>"

definition emit_zero_metrics ::
    "engine \<Rightarrow> metric list \<Rightarrow> link_metric list \<Rightarrow> int \<Rightarrow> engine \<times> ident list \<times> ident list \<times> traffic_event list" where
  "emit_zero_metrics en dcs lcs tick =
     (let da = mt_id ` set dcs; zs = sorted_list_of_set (en_prev_active_devices en - da);
          la = lm_id ` set lcs; zl = sorted_list_of_set (en_prev_active_links en - la);
          sn = en_last en
      in (en\<lparr>en_prev_active_devices := da, en_prev_active_links := la,
             en_last := sn\<lparr>sn_devices := fold (\<lambda>k. dict_set k zero_device) zs (sn_devices sn),
                           sn_links := fold (\<lambda>k. dict_set k zero_link) zl (sn_links sn)\<rparr>\<rparr>,
          zs, zl,
          (if zs \<noteq> [] then [DeviceMetricsUpdated (map zero_metric zs) tick] else []) @
          (if zl \<noteq> [] then [LinkMetricsUpdated (map zero_link_metric zl) tick] else [])))"

text \<open>What a tick reads besides the database: the graph library, the order of sets, the addresses the forwarding service parses, the
  tariffs, and whether a recompute is scheduled (not in tests and not when \<^verbatim>\<open>UNOC_DISABLE_ASYNC_STATUS\<close> is set).\<close>

record 'g tick_env =
  te_nx :: "'g nx"
  te_so :: "ident set \<Rightarrow> ident list"
  te_v6 :: v6_text
  te_tariffs :: "tariff list"
  te_async_status :: bool

record 'g traffic_world =
  tw_db :: db
  tw_store :: "'g pathfinding_store"
  tw_engine :: engine
  tw_latest :: "tick_snapshot option"
  tw_last_nonempty :: "tick_snapshot option"

definition LEAF_TYPES :: "DeviceType set" where
  "LEAF_TYPES = {ONT, BUSINESS_ONT, AON_CPE}"

definition ANCHOR_TYPES :: "DeviceType set" where
  "ANCHOR_TYPES = {BACKBONE_GATEWAY, POP}"

definition cached_adjacency :: "db \<Rightarrow> int \<Rightarrow> engine \<Rightarrow> adjacency \<times> engine" where
  "cached_adjacency s v en =
     (let miss = (let adj = build_adjacency s
                  in (adj, en\<lparr>en_adjacency := Some (v, adj), en_adjacency_misses := en_adjacency_misses en + 1\<rparr>))
      in case en_adjacency en of
           Some (v', adj) \<Rightarrow> if v' = v then (adj, en\<lparr>en_adjacency_hits := en_adjacency_hits en + 1\<rparr>) else miss
         | None \<Rightarrow> miss)"

definition gated_leaves :: "'g nx \<Rightarrow> db \<Rightarrow> device list" where
  "gated_leaves nx s =
     filter (\<lambda>d. has_upstream_ok nx s d (list_ex (\<lambda>d. dev_type d = BACKBONE_GATEWAY) (devices s)))
       (filter (\<lambda>d. dev_type d \<in> LEAF_TYPES \<and> dev_tariff_id d \<noteq> None) (devices s))"

text \<open>The loop over the leaves with the tables of the resolver passed along.\<close>

fun gate_loop :: "'g nx \<Rightarrow> bool \<Rightarrow> db \<Rightarrow> bool \<Rightarrow> 'g dep_state \<Rightarrow> device list \<Rightarrow> ('g dep_state \<times> device list) option" where
  "gate_loop nx uc s bp st [] = Some (st, [])"
| "gate_loop nx uc s bp st (d # ds) =
     (case has_upstream_ok_memo nx uc s st d bp of
        None \<Rightarrow> None
      | Some (st', ok) \<Rightarrow> map_option (\<lambda>(st'', leaves). (st'', if ok then d # leaves else leaves)) (gate_loop nx uc s bp st' ds))"

definition gated_leaves_memo :: "'g nx \<Rightarrow> bool \<Rightarrow> db \<Rightarrow> 'g dep_state \<Rightarrow> ('g dep_state \<times> device list) option" where
  "gated_leaves_memo nx uc s st =
     gate_loop nx uc s (list_ex (\<lambda>d. dev_type d = BACKBONE_GATEWAY) (devices s)) st
       (filter (\<lambda>d. dev_type d \<in> LEAF_TYPES \<and> dev_tariff_id d \<noteq> None) (devices s))"

lemma gate_loop_refines:
  assumes "resolver_state nx s st" "\<And>d. d \<in> set ds \<Longrightarrow> get_device s (dev_id d) = Some d"
  shows "\<exists>st'. gate_loop nx uc s bp st ds = Some (st', filter (\<lambda>d. has_upstream_ok nx s d bp) ds) \<and> resolver_state nx s st'"
  using assms
proof (induction ds arbitrary: st)
  case (Cons d ds)
  obtain st1 where st1: "has_upstream_ok_memo nx uc s st d bp = Some (st1, has_upstream_ok nx s d bp)" "resolver_state nx s st1"
    using has_upstream_ok_refines [OF Cons.prems(1), of d uc bp] Cons.prems(2) by auto
  from Cons.IH [OF st1(2)] Cons.prems(2) st1(1) show ?case by fastforce
qed simp

text \<open>On tables that no tools request has filled first, the memoised gate lets the same leaves through.\<close>

lemma gated_leaves_refines:
  assumes "wf_db s" "resolver_state nx s st"
  shows "\<exists>st'. gated_leaves_memo nx uc s st = Some (st', gated_leaves nx s) \<and> resolver_state nx s st'"
  unfolding gated_leaves_memo_def gated_leaves_def
  by (rule gate_loop_refines [OF assms(2)]) (use assms(1) in \<open>simp add: wf_db_get_device\<close>)

definition tick_flow_env :: "'g tick_env \<Rightarrow> db \<Rightarrow> adjacency \<Rightarrow> engine \<Rightarrow> int \<Rightarrow> 'g flow_env" where
  "tick_flow_env te s adj en tick =
     \<lparr>fe_nx = te_nx te, fe_v6 = te_v6 te, fe_adj = adj,
      fe_allowed = set (map dev_id (filter (\<lambda>d. dev_admin_override_status d \<noteq> Some DOWN) (devices s))),
      fe_devices = devices s, fe_anchor_types = ANCHOR_TYPES,
      fe_status = (\<lambda>k. map_option (evaluate_device_status (te_nx te) (te_so te) s None) (row_of dev_id (devices s) k)),
      fe_tariffs = te_tariffs te, fe_seed = en_random_seed en, fe_tick = tick\<rparr>"

text \<open>The first phase: adjacency and path caches, demand of the leaves, caches of the topology.\<close>

definition generate_phase :: "'g tick_env \<Rightarrow> int \<Rightarrow> 'g traffic_world \<Rightarrow> 'g traffic_world \<times> flow_totals" where
  "generate_phase te tick w =
     (let s = tw_db w; v = topo_version (tw_store w);
          (adj, en1) = cached_adjacency s v (tw_engine w);
          en2 = (if en_path_cache_version en1 \<noteq> Some v then en1\<lparr>en_path_cache := (\<lambda>_. None), en_path_cache_version := Some v\<rparr> else en1);
          t = generate_flows_for_leaves (tick_flow_env te s adj en2 tick) s (en_path_cache en2) (gated_leaves (te_nx te) s);
          en3 = en2\<lparr>en_path_cache := ft_cache t, en_generated := fold (\<lambda>(k, f). dict_set k f) (ft_generated t) (en_generated en2),
                    en_caches := ensure_topology_caches (ft_db t) (tw_store w) (en_caches en2)\<rparr>
      in (w\<lparr>tw_db := ft_db t, tw_engine := en3\<rparr>, t))"

definition segments_phase :: "'g tick_env \<Rightarrow> int \<Rightarrow> flow_totals \<Rightarrow> 'g traffic_world \<Rightarrow> 'g traffic_world \<times> (ident \<times> segment) list \<times> traffic_event list" where
  "segments_phase te tick t w =
     (let en = tw_engine w; pc = ensure_profiles_cache (tw_db w) (en_profiles en);
          ((c, st), prev, m, evs) = compute_segments_map (te_nx te) (tw_db w) pc (en_segment_detect en) (en_segment_clear en)
             (en_prev_segment_congested en) (ft_dev_up t) (ft_dev_down t) tick (en_caches en, tw_store w)
      in (w\<lparr>tw_store := st, tw_engine := en\<lparr>en_profiles := pc, en_caches := c, en_prev_segment_congested := prev\<rparr>\<rparr>, m, evs))"

text \<open>The last phase: zeroing, congestion and the snapshot.\<close>

definition merge_zeros :: "'v \<Rightarrow> ident list \<Rightarrow> (ident \<times> 'v) list \<Rightarrow> (ident \<times> 'v) list" where
  "merge_zeros z ks m = fold (\<lambda>k m. if k \<noteq> [] then dict_set k z m else m) ks m"

definition publish_snapshot :: "tick_snapshot \<Rightarrow> 'g traffic_world \<Rightarrow> 'g traffic_world" where
  "publish_snapshot sn w =
     w\<lparr>tw_latest := Some sn, tw_last_nonempty := (if sn_devices sn \<noteq> [] \<or> sn_links sn \<noteq> [] then Some sn else tw_last_nonempty w)\<rparr>"

definition snapshot_phase ::
    "'g tick_env \<Rightarrow> int \<Rightarrow> metric list \<Rightarrow> link_metric list \<Rightarrow> (ident \<times> (ident \<times> port_metric) list) list \<Rightarrow> (ident \<times> segment) list \<Rightarrow>
     'g traffic_world \<Rightarrow> 'g traffic_world \<times> traffic_event list" where
  "snapshot_phase te tick dcs lcs ports segs w =
     (let (en1, zs, zl, zevs) = emit_zero_metrics (tw_engine w) dcs lcs tick;
          (dc, devs) = handle_device_congestion (te_so te) (en_prev_device_congested en1) dcs (en_device_detect en1) (en_device_clear en1) tick;
          (lc, levs) = handle_link_congestion (te_so te) (en_prev_link_congested en1) lcs (en_link_detect en1) (en_link_clear en1) tick;
          (dm, lm) = build_snapshot_maps dcs lcs;
          sn = \<lparr>sn_last_tick = tick, sn_devices = merge_zeros zero_device zs dm, sn_links = merge_zeros zero_link zl lm,
                sn_ports = ports, sn_segments = segs\<rparr>
      in (publish_snapshot sn (w\<lparr>tw_engine := en1\<lparr>en_prev_device_congested := dc, en_prev_link_congested := lc, en_last := sn\<rparr>\<rparr>),
          zevs @ devs @ levs))"

definition run_tick :: "'g tick_env \<Rightarrow> 'g traffic_world \<Rightarrow> 'g traffic_world \<times> traffic_event list" where
  "run_tick te w =
     (let tick = en_tick_seq (tw_engine w);
          w0 = w\<lparr>tw_engine := (tw_engine w)\<lparr>en_tick_seq := tick + 1\<rparr>\<rparr>;
          (w1, t) = generate_phase te tick w0;
          dcs = compute_device_changes (tw_db w1) (ft_dev_up t) (ft_dev_down t);
          (lcs, ports) = compute_link_changes (tw_db w1) (ft_link_up t) (ft_link_down t);
          (w2, segs, sevs) = segments_phase te tick t w1;
          (w3, evs) = snapshot_phase te tick dcs lcs ports segs w2
      in (w3, (if te_async_status te then [StatusRecomputeScheduled] else []) @
              (if dcs \<noteq> [] then [DeviceMetricsUpdated dcs tick] else []) @ sevs @
              (if lcs \<noteq> [] then [LinkMetricsUpdated lcs tick] else []) @ evs))"

definition get_snapshot :: "engine \<Rightarrow> tick_snapshot" where
  "get_snapshot en = en_last en"

text \<open>The facade: the latest snapshot, else the last one that was not empty, else that of the background runner.\<close>

definition get_v2_snapshot :: "'g traffic_world \<Rightarrow> tick_snapshot option \<Rightarrow> tick_snapshot option" where
  "get_v2_snapshot w runner =
     (let busy = (\<lambda>sn. sn_devices sn \<noteq> [] \<or> sn_links sn \<noteq> [])
      in case tw_latest w of
           Some sn \<Rightarrow> Some sn
         | None \<Rightarrow>
             (case tw_last_nonempty w of
                Some sn \<Rightarrow> if busy sn then Some sn else (case runner of Some r \<Rightarrow> if busy r then Some r else None | None \<Rightarrow> None)
              | None \<Rightarrow> (case runner of Some r \<Rightarrow> if busy r then Some r else None | None \<Rightarrow> None)))"

section \<open>Dirty sets\<close>

record prepared_dirty =
  pd_region_id :: "ident option"
  pd_device_ids :: "ident list"
  pd_link_ids :: "ident list"
  pd_tariffs_changed :: bool
  pd_capacities_changed :: bool

definition sorted_unique :: "ident list \<Rightarrow> ident list" where
  "sorted_unique ids = sorted_list_of_set (set (filter (\<lambda>i. i \<noteq> []) ids))"

definition prepare_dirty :: "db \<Rightarrow> ident list \<Rightarrow> ident list \<Rightarrow> ident option \<Rightarrow> prepared_dirty" where
  "prepare_dirty s devs lns region =
     (let ls = set (filter (\<lambda>l. l \<noteq> []) lns);
          rows = filter (\<lambda>r. ln_id r \<in> ls) (links s);
          ifs = set (filter (\<lambda>i. i \<noteq> []) (map ln_a_interface_id rows @ map ln_b_interface_id rows));
          owners = filter (\<lambda>d. d \<noteq> []) (map if_device_id (filter (\<lambda>i. if_id i \<in> ifs) (interfaces s)))
      in \<lparr>pd_region_id = region, pd_device_ids = sorted_unique (devs @ owners), pd_link_ids = sorted_unique lns,
          pd_tariffs_changed = False, pd_capacities_changed = False\<rparr>)"

definition aggregate_dirty :: "db \<Rightarrow> prepared_dirty \<Rightarrow> bool \<Rightarrow> ident list \<times> ident list" where
  "aggregate_dirty s p incremental =
     (if incremental then (pd_device_ids p, pd_link_ids p)
      else (sorted_unique (map dev_id (devices s)), sorted_unique (map ln_id (links s))))"

end
