(* ===== verification/Traffic_Tick.thy ===== *)
theory Traffic_Tick
  imports Traffic_Engine
begin

text \<open>
  What the ticks of the traffic engine report. The locale \<open>alarm_source\<close> is the contract of a component that raises and clears alarms
  with hysteresis; the congestion of devices and of links are its two interpretations on \<open>run_tick\<close>. Then the snapshot of a tick: what it
  lists, and that it explains the alarms.
\<close>

section \<open>Alarms\<close>

text \<open>A source of alarms takes inputs one after the other and reports events. \<open>signal\<close> reads from an event that the alarm of an id was
  raised or cleared. The law: a step reports an alarm exactly when it changes it.\<close>

definition signals :: "('e \<Rightarrow> (ident \<times> bool) option) \<Rightarrow> ident \<Rightarrow> 'e list \<Rightarrow> bool list" where
  "signals signal k evs = concat (map (\<lambda>e. case signal e of Some (k', b) \<Rightarrow> if k' = k then [b] else [] | None \<Rightarrow> []) evs)"

lemma signals_append: "signals f k (xs @ ys) = signals f k xs @ signals f k ys"
  by (simp add: signals_def)

lemma signals_Nil: "signals f k [] = []"
  by (simp add: signals_def)

lemma signals_none: "(\<And>e. e \<in> set xs \<Longrightarrow> f e = None) \<Longrightarrow> signals f k xs = []"
  by (simp add: signals_def)

fun alternates :: "bool \<Rightarrow> bool list \<Rightarrow> bool" where
  "alternates b [] = True"
| "alternates b (x # xs) = (x = (\<not> b) \<and> alternates x xs)"

fun run_steps :: "('i \<Rightarrow> 's \<Rightarrow> 's \<times> 'e list) \<Rightarrow> 'i list \<Rightarrow> 's \<Rightarrow> 's \<times> 'e list" where
  "run_steps f [] s = (s, [])"
| "run_steps f (i # is) s = (let (s', evs) = f i s; (s'', evs') = run_steps f is s' in (s'', evs @ evs'))"

locale alarm_source =
  fixes ok :: "'i \<Rightarrow> bool" and inv :: "'s \<Rightarrow> bool" and on :: "'s \<Rightarrow> ident \<Rightarrow> bool"
    and run :: "'i \<Rightarrow> 's \<Rightarrow> 's \<times> 'e list" and signal :: "'e \<Rightarrow> (ident \<times> bool) option"
  assumes inv_step: "ok i \<Longrightarrow> inv s \<Longrightarrow> inv (fst (run i s))"
    and signals_step: "ok i \<Longrightarrow> inv s \<Longrightarrow>
      signals signal k (snd (run i s)) = (if on (fst (run i s)) k = on s k then [] else [on (fst (run i s)) k])"
begin

lemma inv_run: "\<forall>i \<in> set is. ok i \<Longrightarrow> inv s \<Longrightarrow> inv (fst (run_steps run is s))"
proof (induction "is" arbitrary: s)
  case (Cons i "is")
  from Cons.IH [of "fst (run i s)"] Cons.prems inv_step [of i s] show ?case by (auto simp: Let_def split: prod.splits)
qed simp

lemma alternates_run:
  "\<forall>i \<in> set is. ok i \<Longrightarrow> inv s \<Longrightarrow>
   alternates (on s k) (signals signal k (snd (run_steps run is s))) \<and>
   on (fst (run_steps run is s)) k = last (on s k # signals signal k (snd (run_steps run is s)))"
proof (induction "is" arbitrary: s)
  case (Cons i "is")
  obtain s' evs where st: "run i s = (s', evs)" by fastforce
  obtain s'' evs' where rn: "run_steps run is s' = (s'', evs')" by fastforce
  have "inv s'" using inv_step [of i s] Cons.prems st by simp
  from Cons.IH [OF _ this] Cons.prems
  have IH: "alternates (on s' k) (signals signal k evs') \<and> on s'' k = last (on s' k # signals signal k evs')" by (simp add: rn)
  have "signals signal k evs = (if on s' k = on s k then [] else [on s' k])"
    using signals_step [of i s k] Cons.prems st by simp
  with IH show ?case by (auto simp: st rn signals_append)
qed (simp add: signals_Nil)

end

section \<open>Congestion with hysteresis\<close>

definition congestion_signal :: "entity \<Rightarrow> traffic_event \<Rightarrow> (ident \<times> bool) option" where
  "congestion_signal ent e =
     (case e of
        CongestionDetected ent' k _ _ _ _ \<Rightarrow> if ent' = ent then Some (k, True) else None
      | CongestionCleared ent' k _ _ _ \<Rightarrow> if ent' = ent then Some (k, False) else None
      | _ \<Rightarrow> None)"

abbreviation over :: "pyfloat \<Rightarrow> pyfloat \<Rightarrow> ident set \<Rightarrow> load \<Rightarrow> bool" where
  "over detect clear prev x \<equiv> util_ge (snd (snd x)) (if fst x \<in> prev then clear else detect)"

definition detected_event :: "entity \<Rightarrow> int \<Rightarrow> load \<Rightarrow> traffic_event" where
  "detected_event ent tick = (\<lambda>(k, bps, u). CongestionDetected ent k bps (capacity_of bps u) (overload u) tick)"

lemma congestion_scan_eq:
  "congestion_scan ent detect clear tick prev changes =
     (fst ` set (filter (over detect clear prev) changes),
      map (detected_event ent tick) (filter (\<lambda>x. fst x \<notin> prev \<and> over detect clear prev x) changes))"
proof -
  have "foldl (\<lambda>(cur, evs) (k, bps, u).
        if k \<in> prev then (if util_ge u clear then insert k cur else cur, evs)
        else if util_ge u detect
        then (insert k cur, evs @ [CongestionDetected ent k bps (capacity_of bps u) (overload u) tick])
        else (cur, evs)) (c, es) changes =
     (c \<union> fst ` set (filter (over detect clear prev) changes),
      es @ map (detected_event ent tick) (filter (\<lambda>x. fst x \<notin> prev \<and> over detect clear prev x) changes))" for c es
    by (induction changes arbitrary: c es) (auto simp: detected_event_def)
  from this [of "{}" "[]"] show ?thesis by (simp add: congestion_scan_def)
qed

lemma signals_keyed:
  assumes "distinct (map key xs)" and "\<And>x. x \<in> set xs \<Longrightarrow> signal (g x) = Some (key x, b)"
  shows "signals signal k (map g xs) = (if k \<in> key ` set xs then [b] else [])"
  using assms by (induction xs) (auto simp: signals_def)

lemma cleared_signal: "congestion_signal ent (cleared_event ent tick changes k) = Some (k, False)"
  by (simp add: cleared_event_def congestion_signal_def split: option.split prod.split)

lemma detected_signal: "congestion_signal ent (detected_event ent tick x) = Some (fst x, True)"
  by (simp add: detected_event_def congestion_signal_def split: prod.split)

definition set_order :: "(ident set \<Rightarrow> ident list) \<Rightarrow> bool" where
  "set_order so \<longleftrightarrow> (\<forall>A. finite A \<longrightarrow> set (so A) = A \<and> distinct (so A))"

lemma handle_congestion_set:
  "fst (handle_congestion so ent prev changes detect clear tick) = fst ` set (filter (over detect clear prev) changes)"
  by (simp add: handle_congestion_def congestion_scan_eq)

lemma handle_congestion_signals:
  assumes "distinct (map fst changes)" "set_order so" "finite prev"
  shows "signals (congestion_signal ent) k (snd (handle_congestion so ent prev changes detect clear tick)) =
    (let now = k \<in> fst (handle_congestion so ent prev changes detect clear tick) in if now = (k \<in> prev) then [] else [now])"
proof -
  let ?cur = "fst ` set (filter (over detect clear prev) changes)"
  let ?new = "filter (\<lambda>x. fst x \<notin> prev \<and> over detect clear prev x) changes"
  have so: "set (so prev) = prev" "distinct (so prev)" using assms(2,3) by (auto simp: set_order_def)
  have "signals (congestion_signal ent) k (map (detected_event ent tick) ?new) = (if k \<in> fst ` set ?new then [True] else [])"
    by (rule signals_keyed) (rule distinct_map_filter [OF assms(1)], rule detected_signal)
  moreover have "k \<in> fst ` set ?new \<longleftrightarrow> k \<in> ?cur \<and> k \<notin> prev" by auto
  moreover have "signals (congestion_signal ent) k (map (cleared_event ent tick changes) (filter (\<lambda>k. k \<notin> ?cur) (so prev))) =
      (if k \<in> (\<lambda>x. x) ` set (filter (\<lambda>k. k \<notin> ?cur) (so prev)) then [False] else [])"
    by (rule signals_keyed) (use so in \<open>simp_all add: cleared_signal\<close>)
  moreover have "k \<in> (\<lambda>x. x) ` set (filter (\<lambda>k. k \<notin> ?cur) (so prev)) \<longleftrightarrow> k \<in> prev \<and> k \<notin> ?cur" using so by auto
  ultimately show ?thesis
    by (auto simp: handle_congestion_def congestion_scan_eq signals_append Let_def)
qed


section \<open>What a tick does to the engine\<close>

lemma dict_add_distinct: "distinct (map fst d) \<Longrightarrow> distinct (map fst (dict_add k v d))"
  by (induction k v d rule: dict_add.induct) (auto simp: keys_dict_add [unfolded image_def] image_def)

lemma fold_dict_add_distinct: "distinct (map fst d) \<Longrightarrow> distinct (map fst (fold (\<lambda>k. dict_add k v) ks d))"
  by (induction ks arbitrary: d) (simp_all add: dict_add_distinct)

lemma leaf_step_distinct:
  assumes "distinct (map fst (ft_dev_up t)) \<and> distinct (map fst (ft_link_up t))"
  shows "distinct (map fst (ft_dev_up (leaf_step fe t d))) \<and> distinct (map fst (ft_link_up (leaf_step fe t d)))"
  using assms by (simp add: leaf_step_def add_flow_def Let_def fold_dict_add_distinct split: prod.split option.split)

lemma generate_distinct:
  "distinct (map fst (ft_dev_up (generate_flows_for_leaves fe s c ds))) \<and> distinct (map fst (ft_link_up (generate_flows_for_leaves fe s c ds)))"
proof -
  have "distinct (map fst (ft_dev_up t)) \<and> distinct (map fst (ft_link_up t)) \<Longrightarrow>
    distinct (map fst (ft_dev_up (foldl (leaf_step fe) t ds))) \<and> distinct (map fst (ft_link_up (foldl (leaf_step fe) t ds)))" for t
    by (induction ds arbitrary: t) (use leaf_step_distinct in auto)
  then show ?thesis by (simp add: generate_flows_for_leaves_def)
qed

text \<open>The world after the first phase of a tick, and the metrics of its devices and links.\<close>

definition tick_start :: "'g tick_env \<Rightarrow> 'g traffic_world \<Rightarrow> 'g traffic_world \<times> flow_totals" where
  "tick_start te w =
     generate_phase te (en_tick_seq (tw_engine w)) (w\<lparr>tw_engine := (tw_engine w)\<lparr>en_tick_seq := en_tick_seq (tw_engine w) + 1\<rparr>\<rparr>)"

definition tick_devices :: "'g tick_env \<Rightarrow> 'g traffic_world \<Rightarrow> metric list" where
  "tick_devices te w = compute_device_changes (tw_db (fst (tick_start te w))) (ft_dev_up (snd (tick_start te w))) (ft_dev_down (snd (tick_start te w)))"

definition tick_links :: "'g tick_env \<Rightarrow> 'g traffic_world \<Rightarrow> link_metric list" where
  "tick_links te w = fst (compute_link_changes (tw_db (fst (tick_start te w))) (ft_link_up (snd (tick_start te w))) (ft_link_down (snd (tick_start te w))))"

lemma tick_distinct: "distinct (map mt_id (tick_devices te w))" "distinct (map lm_id (tick_links te w))"
proof -
  have dev: "map mt_id (compute_device_changes s up down) = map fst up" for s up down
    by (simp add: compute_device_changes_def Let_def comp_def case_prod_beta)
  have lnk: "map lm_id (fst (compute_link_changes s up down)) = map fst up" for s up down
    by (simp add: compute_link_changes_def comp_def case_prod_beta)
  have "distinct (map fst (ft_dev_up (snd (tick_start te w)))) \<and> distinct (map fst (ft_link_up (snd (tick_start te w))))"
    unfolding tick_start_def generate_phase_def Let_def by (simp add: generate_distinct split: prod.split)
  then show "distinct (map mt_id (tick_devices te w))" "distinct (map lm_id (tick_links te w))"
    unfolding tick_devices_def tick_links_def dev lnk by blast+
qed

text \<open>What stays of the engine in the first two phases.\<close>

definition alarm_state :: "engine \<Rightarrow> ident set \<times> ident set \<times> pyfloat \<times> pyfloat \<times> pyfloat \<times> pyfloat \<times> ident set \<times> ident set" where
  "alarm_state en = (en_prev_device_congested en, en_prev_link_congested en, en_device_detect en, en_device_clear en, en_link_detect en,
     en_link_clear en, en_prev_active_devices en, en_prev_active_links en)"

lemma cached_adjacency_state: "alarm_state (snd (cached_adjacency s v en)) = alarm_state en"
  unfolding cached_adjacency_def Let_def by (simp add: alarm_state_def split: option.split prod.split)

lemma tick_start_state: "alarm_state (tw_engine (fst (tick_start te w))) = alarm_state (tw_engine w)"
proof -
  have upd: "alarm_state (en\<lparr>en_path_cache := a, en_generated := b, en_caches := c\<rparr>) = alarm_state en"
    "alarm_state (en\<lparr>en_path_cache := a, en_path_cache_version := d\<rparr>) = alarm_state en"
    "alarm_state (en\<lparr>en_tick_seq := i\<rparr>) = alarm_state en" for en a b c d i
    by (simp_all add: alarm_state_def)
  show ?thesis
    unfolding tick_start_def generate_phase_def Let_def
    using cached_adjacency_state [of "tw_db w" "topo_version (tw_store w)" "(tw_engine w)\<lparr>en_tick_seq := en_tick_seq (tw_engine w) + 1\<rparr>"]
    by (auto simp: upd split: prod.split)
qed

lemma segments_phase_state: "alarm_state (tw_engine (fst (segments_phase te tick t w))) = alarm_state (tw_engine w)"
  by (simp add: segments_phase_def alarm_state_def Let_def split: prod.split)

lemma segments_phase_signals: "signals (congestion_signal ent) k (snd (snd (segments_phase te tick t w))) = []"
proof -
  have "congestion_signal ent e = None" if "e \<in> set (snd (finish_segment a b tick prev x))" for e a b prev x
    using that by (auto simp: finish_segment_def congestion_signal_def Let_def split: if_splits prod.splits)
  then have "congestion_signal ent e = None" if "e \<in> set (snd (snd (segments_phase te tick t w)))" for e
    using that by (auto simp: segments_phase_def compute_segments_map_def Let_def split: prod.splits)
  then show ?thesis by (rule signals_none)
qed


lemma device_congestion_loads:
  "handle_device_congestion so prev ms = handle_congestion so DeviceEntity prev (map (\<lambda>m. (mt_id m, mt_bps m, mt_util m)) ms)"
  "handle_link_congestion so prev ls = handle_congestion so LinkEntity prev (map (\<lambda>m. (lm_id m, lm_bps m, lm_util m)) ls)"
  by (simp_all add: handle_device_congestion_def handle_link_congestion_def)

lemma handle_congestion_other:
  assumes "ent' \<noteq> ent"
  shows "signals (congestion_signal ent) k (snd (handle_congestion so ent' prev changes detect clear tick)) = []"
proof (rule signals_none)
  fix e assume "e \<in> set (snd (handle_congestion so ent' prev changes detect clear tick))"
  then have "e \<in> range (detected_event ent' tick) \<union> range (cleared_event ent' tick changes)"
    by (auto simp: handle_congestion_def congestion_scan_eq)
  then show "congestion_signal ent e = None"
    using assms by (auto simp: detected_event_def cleared_event_def congestion_signal_def split: option.splits prod.splits)
qed

lemma emit_zero_signals: "signals (congestion_signal ent) k (snd (snd (snd (emit_zero_metrics en dcs lcs tick)))) = []"
  by (rule signals_none) (auto simp: emit_zero_metrics_def congestion_signal_def Let_def split: if_splits)

lemma emit_zero_state:
  "en_prev_device_congested (fst (emit_zero_metrics en dcs lcs tick)) = en_prev_device_congested en"
  "en_prev_link_congested (fst (emit_zero_metrics en dcs lcs tick)) = en_prev_link_congested en"
  "en_device_detect (fst (emit_zero_metrics en dcs lcs tick)) = en_device_detect en"
  "en_device_clear (fst (emit_zero_metrics en dcs lcs tick)) = en_device_clear en"
  "en_link_detect (fst (emit_zero_metrics en dcs lcs tick)) = en_link_detect en"
  "en_link_clear (fst (emit_zero_metrics en dcs lcs tick)) = en_link_clear en"
  by (simp_all add: emit_zero_metrics_def Let_def)

text \<open>The two handlers of a tick on the state of the engine.\<close>

definition tick_device_alarms :: "'g tick_env \<Rightarrow> 'g traffic_world \<Rightarrow> ident set \<times> traffic_event list" where
  "tick_device_alarms te w = handle_device_congestion (te_so te) (en_prev_device_congested (tw_engine w)) (tick_devices te w)
     (en_device_detect (tw_engine w)) (en_device_clear (tw_engine w)) (en_tick_seq (tw_engine w))"

definition tick_link_alarms :: "'g tick_env \<Rightarrow> 'g traffic_world \<Rightarrow> ident set \<times> traffic_event list" where
  "tick_link_alarms te w = handle_link_congestion (te_so te) (en_prev_link_congested (tw_engine w)) (tick_links te w)
     (en_link_detect (tw_engine w)) (en_link_clear (tw_engine w)) (en_tick_seq (tw_engine w))"

lemma tick_alarm_other:
  "signals (congestion_signal LinkEntity) k (snd (tick_device_alarms te w)) = []"
  "signals (congestion_signal DeviceEntity) k (snd (tick_link_alarms te w)) = []"
  unfolding tick_device_alarms_def tick_link_alarms_def device_congestion_loads by (rule handle_congestion_other, rule entity.distinct)+

lemma run_tick_split:
  assumes "tick_start te w = (w1, t)" "segments_phase te (en_tick_seq (tw_engine w)) t w1 = (w2, segs, sevs)"
    "compute_link_changes (tw_db w1) (ft_link_up t) (ft_link_down t) = (lcs, ports)"
    "snapshot_phase te (en_tick_seq (tw_engine w)) (tick_devices te w) lcs ports segs w2 = (w3, evs)"
  shows "run_tick te w = (w3, (if te_async_status te then [StatusRecomputeScheduled] else []) @
      (if tick_devices te w \<noteq> [] then [DeviceMetricsUpdated (tick_devices te w) (en_tick_seq (tw_engine w))] else []) @ sevs @
      (if lcs \<noteq> [] then [LinkMetricsUpdated lcs (en_tick_seq (tw_engine w))] else []) @ evs)"
    and "tick_links te w = lcs" and "alarm_state (tw_engine w2) = alarm_state (tw_engine w)"
    and "signals (congestion_signal ent) k sevs = []"
proof -
  have d: "tick_devices te w = compute_device_changes (tw_db w1) (ft_dev_up t) (ft_dev_down t)" by (simp add: tick_devices_def assms(1))
  show "run_tick te w = (w3, (if te_async_status te then [StatusRecomputeScheduled] else []) @
      (if tick_devices te w \<noteq> [] then [DeviceMetricsUpdated (tick_devices te w) (en_tick_seq (tw_engine w))] else []) @ sevs @
      (if lcs \<noteq> [] then [LinkMetricsUpdated lcs (en_tick_seq (tw_engine w))] else []) @ evs)"
    using assms(1,2,4) unfolding run_tick_def Let_def tick_start_def d by (simp add: assms(3))
  show "tick_links te w = lcs" by (simp add: tick_links_def assms(1,3))
  show "alarm_state (tw_engine w2) = alarm_state (tw_engine w)"
    using segments_phase_state [of te "en_tick_seq (tw_engine w)" t w1] tick_start_state [of te w] assms(1,2) by simp
  show "signals (congestion_signal ent) k sevs = []"
    using segments_phase_signals [of ent k te "en_tick_seq (tw_engine w)" t w1] assms(2) by simp
qed

lemma run_tick_alarms:
  "en_prev_device_congested (tw_engine (fst (run_tick te w))) = fst (tick_device_alarms te w)"
  "en_prev_link_congested (tw_engine (fst (run_tick te w))) = fst (tick_link_alarms te w)"
  "signals (congestion_signal DeviceEntity) k (snd (run_tick te w)) = signals (congestion_signal DeviceEntity) k (snd (tick_device_alarms te w))"
  "signals (congestion_signal LinkEntity) k (snd (run_tick te w)) = signals (congestion_signal LinkEntity) k (snd (tick_link_alarms te w))"
proof -
  obtain w1 t where 1: "tick_start te w = (w1, t)" by fastforce
  obtain w2 segs sevs where 2: "segments_phase te (en_tick_seq (tw_engine w)) t w1 = (w2, segs, sevs)" by (metis prod_cases3)
  obtain lcs ports where 3: "compute_link_changes (tw_db w1) (ft_link_up t) (ft_link_down t) = (lcs, ports)" by fastforce
  obtain w3 evs where 4: "snapshot_phase te (en_tick_seq (tw_engine w)) (tick_devices te w) lcs ports segs w2 = (w3, evs)" by fastforce
  note r = run_tick_split [OF 1 2 3 4]
  obtain en zs zl zevs where z: "emit_zero_metrics (tw_engine w2) (tick_devices te w) lcs (en_tick_seq (tw_engine w)) = (en, zs, zl, zevs)"
    by (metis prod_cases4)
  have st: "en_prev_device_congested (tw_engine w2) = en_prev_device_congested (tw_engine w)"
    "en_prev_link_congested (tw_engine w2) = en_prev_link_congested (tw_engine w)"
    "en_device_detect (tw_engine w2) = en_device_detect (tw_engine w)" "en_device_clear (tw_engine w2) = en_device_clear (tw_engine w)"
    "en_link_detect (tw_engine w2) = en_link_detect (tw_engine w)" "en_link_clear (tw_engine w2) = en_link_clear (tw_engine w)"
    using r(3) by (simp_all add: alarm_state_def)
  note en = emit_zero_state [of "tw_engine w2" "tick_devices te w" lcs "en_tick_seq (tw_engine w)", unfolded z fst_conv st]
  obtain dc devs where d: "tick_device_alarms te w = (dc, devs)" by fastforce
  obtain lc levs where l: "tick_link_alarms te w = (lc, levs)" by fastforce
  have w3: "en_prev_device_congested (tw_engine w3) = dc" "en_prev_link_congested (tw_engine w3) = lc" "evs = zevs @ devs @ levs"
    using 4 d l unfolding snapshot_phase_def z Let_def prod.case en tick_device_alarms_def tick_link_alarms_def r(2)
    by (auto simp: publish_snapshot_def split: prod.splits)
  have zs: "signals (congestion_signal ent) j zevs = []" for ent j
    using emit_zero_signals [of ent j "tw_engine w2" "tick_devices te w" lcs "en_tick_seq (tw_engine w)"] z by simp
  have other: "signals (congestion_signal LinkEntity) j devs = []" "signals (congestion_signal DeviceEntity) j levs = []" for j
    using tick_alarm_other [where te = te and w = w, unfolded d l snd_conv] by blast+
  have plain: "signals (congestion_signal ent) j (if b then [StatusRecomputeScheduled] else []) = []"
    "signals (congestion_signal ent) j (if c then [DeviceMetricsUpdated x n] else []) = []"
    "signals (congestion_signal ent) j (if e then [LinkMetricsUpdated y n] else []) = []" for ent j b c e x y n
    by (simp_all add: signals_def congestion_signal_def)
  show "en_prev_device_congested (tw_engine (fst (run_tick te w))) = fst (tick_device_alarms te w)"
    "en_prev_link_congested (tw_engine (fst (run_tick te w))) = fst (tick_link_alarms te w)"
    unfolding r(1) d l by (simp_all add: w3)
  show "signals (congestion_signal DeviceEntity) k (snd (run_tick te w)) = signals (congestion_signal DeviceEntity) k (snd (tick_device_alarms te w))"
    "signals (congestion_signal LinkEntity) k (snd (run_tick te w)) = signals (congestion_signal LinkEntity) k (snd (tick_link_alarms te w))"
    unfolding r(1) snd_conv d l signals_append plain r(4) w3(3) zs other by simp_all
qed


section \<open>Any sequence of ticks\<close>

text \<open>Between two ticks the rest of the system may change the database and the pathfinding store in any way.\<close>

definition tick_on :: "'g tick_env \<times> db \<times> 'g pathfinding_store \<Rightarrow> 'g traffic_world \<Rightarrow> 'g traffic_world \<times> traffic_event list" where
  "tick_on = (\<lambda>(te, s, st) w. run_tick te (w\<lparr>tw_db := s, tw_store := st\<rparr>))"

lemma tick_alarm_sets:
  "fst (tick_device_alarms te w) \<subseteq> mt_id ` set (tick_devices te w)" "fst (tick_link_alarms te w) \<subseteq> lm_id ` set (tick_links te w)"
  by (auto simp: tick_device_alarms_def tick_link_alarms_def device_congestion_loads handle_congestion_set)

lemma tick_alarm_signals:
  assumes "set_order (te_so te)"
  shows "finite (en_prev_device_congested (tw_engine w)) \<Longrightarrow>
      signals (congestion_signal DeviceEntity) k (snd (tick_device_alarms te w)) =
      (let now = k \<in> fst (tick_device_alarms te w) in if now = (k \<in> en_prev_device_congested (tw_engine w)) then [] else [now])"
    and "finite (en_prev_link_congested (tw_engine w)) \<Longrightarrow>
      signals (congestion_signal LinkEntity) k (snd (tick_link_alarms te w)) =
      (let now = k \<in> fst (tick_link_alarms te w) in if now = (k \<in> en_prev_link_congested (tw_engine w)) then [] else [now])"
  unfolding tick_device_alarms_def tick_link_alarms_def device_congestion_loads
  by (simp_all add: handle_congestion_signals assms tick_distinct comp_def)

interpretation devs: alarm_source "\<lambda>(te, s, st). set_order (te_so te)"
    "\<lambda>w. finite (en_prev_device_congested (tw_engine w))" "\<lambda>w k. k \<in> en_prev_device_congested (tw_engine w)"
    tick_on "congestion_signal DeviceEntity"
proof (unfold_locales, goal_cases)
  case (1 i w)
  then show ?case by (auto simp: tick_on_def run_tick_alarms split: prod.split intro: finite_subset [OF tick_alarm_sets(1)])
next
  case (2 i w k)
  then show ?case by (simp add: tick_on_def run_tick_alarms tick_alarm_signals Let_def split: prod.split_asm prod.split)
qed

interpretation lnks: alarm_source "\<lambda>(te, s, st). set_order (te_so te)"
    "\<lambda>w. finite (en_prev_link_congested (tw_engine w))" "\<lambda>w k. k \<in> en_prev_link_congested (tw_engine w)"
    tick_on "congestion_signal LinkEntity"
proof (unfold_locales, goal_cases)
  case (1 i w)
  then show ?case by (auto simp: tick_on_def run_tick_alarms split: prod.split intro: finite_subset [OF tick_alarm_sets(2)])
next
  case (2 i w k)
  then show ?case by (simp add: tick_on_def run_tick_alarms tick_alarm_signals Let_def split: prod.split_asm prod.split)
qed

lemma fresh_alarms: "en_prev_device_congested TrafficEngine = {}" "en_prev_link_congested TrafficEngine = {}"
  by (simp_all add: TrafficEngine_def)

text \<open>C17: Over any sequence of ticks of a new engine, whatever else changes the database and the topology in between, the congestion events
  of a device or a link alternate, the first one reports the detection, and the last one tells whether it is congested now.\<close>

theorem congestion_events_alternate:
  assumes "\<forall>(te, s, st) \<in> set is. set_order (te_so te)" and "tw_engine w = TrafficEngine"
    and "run_steps tick_on is w = (w', evs)"
  shows "alternates False (signals (congestion_signal DeviceEntity) k evs) \<and> alternates False (signals (congestion_signal LinkEntity) k evs) \<and>
    (k \<in> en_prev_device_congested (tw_engine w') \<longleftrightarrow> last (False # signals (congestion_signal DeviceEntity) k evs)) \<and>
    (k \<in> en_prev_link_congested (tw_engine w') \<longleftrightarrow> last (False # signals (congestion_signal LinkEntity) k evs))"
proof -
  have fresh: "(k \<in> en_prev_device_congested (tw_engine w)) = False" "(k \<in> en_prev_link_congested (tw_engine w)) = False"
    "finite (en_prev_device_congested (tw_engine w))" "finite (en_prev_link_congested (tw_engine w))"
    unfolding assms(2) fresh_alarms by simp_all
  note d = devs.alternates_run [OF assms(1) fresh(3), of k, unfolded assms(3) fst_conv snd_conv fresh(1)]
  note l = lnks.alternates_run [OF assms(1) fresh(4), of k, unfolded assms(3) fst_conv snd_conv fresh(2)]
  from d l show ?thesis by blast
qed

section \<open>The snapshot\<close>

lemma map_of_dict_set: "map_of (dict_set k v d) x = (if x = k then Some v else map_of d x)"
  by (induction k v d rule: dict_set.induct) auto

lemma map_of_foldl_dict_set:
  "map_of (foldl (\<lambda>m x. dict_set (key x) (f x) m) m xs) k =
     (case find (\<lambda>x. key x = k) (rev xs) of Some x \<Rightarrow> Some (f x) | None \<Rightarrow> map_of m k)"
  by (induction xs arbitrary: m) (auto simp: find_append map_of_dict_set split: option.split)

lemma map_of_merge_zeros: "map_of (merge_zeros z ks m) k = (if k \<in> set ks \<and> k \<noteq> [] then Some z else map_of m k)"
  by (induction ks arbitrary: m) (auto simp: merge_zeros_def map_of_dict_set)

definition entry_of :: "metric \<Rightarrow> device_entry" where
  "entry_of m = \<lparr>de_bps = mt_bps m, de_utilization = util_number (mt_util m), de_upstream_bps = mt_upstream_bps m,
     de_downstream_bps = mt_downstream_bps m\<rparr>"

definition link_entry_of :: "link_metric \<Rightarrow> link_entry" where
  "link_entry_of m = \<lparr>le_bps = lm_bps m, le_utilization = util_number (lm_util m)\<rparr>"

text \<open>What a dictionary of metrics shows for a key after the zeros are merged into it.\<close>

definition shown :: "('m \<Rightarrow> ident) \<Rightarrow> ('m \<Rightarrow> 'e) \<Rightarrow> 'e \<Rightarrow> ident set \<Rightarrow> 'm list \<Rightarrow> ident \<Rightarrow> 'e option" where
  "shown key entry z prev ms k =
     (case find (\<lambda>m. key m = k) ms of Some m \<Rightarrow> Some (entry m) | None \<Rightarrow> if k \<in> prev \<and> k \<noteq> [] then Some z else None)"

lemma snapshot_shown:
  assumes "distinct (map key ms)" "finite prev"
  shows "map_of (merge_zeros z (sorted_list_of_set (prev - key ` set ms)) (foldl (\<lambda>m x. dict_set (key x) (entry x) m) [] ms)) =
    shown key entry z prev ms"
proof
  fix k
  have "find (\<lambda>m. key m = k) ms = None \<longleftrightarrow> k \<notin> key ` set ms" by (auto simp: find_None_iff')
  then show "map_of (merge_zeros z (sorted_list_of_set (prev - key ` set ms)) (foldl (\<lambda>m x. dict_set (key x) (entry x) m) [] ms)) k =
      shown key entry z prev ms k"
    using assms by (auto simp: shown_def map_of_merge_zeros map_of_foldl_dict_set find_rev_distinct split: option.split)
qed


lemma run_tick_snapshot:
  assumes "finite (en_prev_active_devices (tw_engine w))" "finite (en_prev_active_links (tw_engine w))"
  shows "\<exists>sn. tw_latest (fst (run_tick te w)) = Some sn \<and> en_last (tw_engine (fst (run_tick te w))) = sn \<and>
    sn_last_tick sn = en_tick_seq (tw_engine w) \<and>
    map_of (sn_devices sn) = shown mt_id entry_of zero_device (en_prev_active_devices (tw_engine w)) (tick_devices te w) \<and>
    map_of (sn_links sn) = shown lm_id link_entry_of zero_link (en_prev_active_links (tw_engine w)) (tick_links te w) \<and>
    en_prev_active_devices (tw_engine (fst (run_tick te w))) = mt_id ` set (tick_devices te w) \<and>
    en_prev_active_links (tw_engine (fst (run_tick te w))) = lm_id ` set (tick_links te w)"
proof -
  let ?tick = "en_tick_seq (tw_engine w)"
  obtain w1 t where 1: "tick_start te w = (w1, t)" by fastforce
  obtain w2 segs sevs where 2: "segments_phase te ?tick t w1 = (w2, segs, sevs)" by (metis prod_cases3)
  obtain lcs ports where 3: "compute_link_changes (tw_db w1) (ft_link_up t) (ft_link_down t) = (lcs, ports)" by fastforce
  obtain w3 evs where 4: "snapshot_phase te ?tick (tick_devices te w) lcs ports segs w2 = (w3, evs)" by fastforce
  note r = run_tick_split [OF 1 2 3 4]
  have st: "en_prev_active_devices (tw_engine w2) = en_prev_active_devices (tw_engine w)"
    "en_prev_active_links (tw_engine w2) = en_prev_active_links (tw_engine w)"
    using r(3) by (simp_all add: alarm_state_def)
  have dm: "foldl (\<lambda>m x. dict_set (mt_id x) \<lparr>de_bps = mt_bps x, de_utilization = util_number (mt_util x),
      de_upstream_bps = mt_upstream_bps x, de_downstream_bps = mt_downstream_bps x\<rparr> m) [] ms =
      foldl (\<lambda>m x. dict_set (mt_id x) (entry_of x) m) [] ms" for ms by (simp add: entry_of_def)
  have lm: "foldl (\<lambda>m x. dict_set (lm_id x) \<lparr>le_bps = lm_bps x, le_utilization = util_number (lm_util x)\<rparr> m) [] ms =
      foldl (\<lambda>m x. dict_set (lm_id x) (link_entry_of x) m) [] ms" for ms by (simp add: link_entry_of_def)
  note d = snapshot_shown [OF tick_distinct(1) assms(1)] and l = snapshot_shown [OF tick_distinct(2) [of te w] assms(2), unfolded r(2)]
  define sn where "sn = \<lparr>sn_last_tick = ?tick,
      sn_devices = merge_zeros zero_device (sorted_list_of_set (en_prev_active_devices (tw_engine w) - mt_id ` set (tick_devices te w)))
        (foldl (\<lambda>m x. dict_set (mt_id x) (entry_of x) m) [] (tick_devices te w)),
      sn_links = merge_zeros zero_link (sorted_list_of_set (en_prev_active_links (tw_engine w) - lm_id ` set lcs))
        (foldl (\<lambda>m x. dict_set (lm_id x) (link_entry_of x) m) [] lcs), sn_ports = ports, sn_segments = segs\<rparr>"
  have "tw_latest w3 = Some sn" "en_last (tw_engine w3) = sn" "en_prev_active_devices (tw_engine w3) = mt_id ` set (tick_devices te w)"
    "en_prev_active_links (tw_engine w3) = lm_id ` set lcs"
    using 4 unfolding snapshot_phase_def emit_zero_metrics_def build_snapshot_maps_def dm lm Let_def st prod.case sn_def
    by (auto simp: publish_snapshot_def split: prod.splits)
  moreover have "map_of (sn_devices sn) = shown mt_id entry_of zero_device (en_prev_active_devices (tw_engine w)) (tick_devices te w)"
    "map_of (sn_links sn) = shown lm_id link_entry_of zero_link (en_prev_active_links (tw_engine w)) lcs" "sn_last_tick sn = ?tick"
    by (simp_all add: sn_def d l)
  ultimately show ?thesis unfolding r(1,2) fst_conv by blast
qed

lemma run_tick_inv:
  "finite (en_prev_active_devices (tw_engine w)) \<Longrightarrow> finite (en_prev_active_links (tw_engine w)) \<Longrightarrow>
   finite (en_prev_active_devices (tw_engine (fst (run_tick te w)))) \<and> finite (en_prev_active_links (tw_engine (fst (run_tick te w))))"
  using run_tick_snapshot [of w te] by (auto simp del: not_None_eq)

lemma util_number_ge: "x \<le> 1000000000 \<Longrightarrow> x \<le> util_number u \<longleftrightarrow> util_ge u x"
  by (cases u) auto

lemma shown_over:
  assumes "distinct (map key ms)" "\<And>x. x \<le> 1000000000 \<Longrightarrow> \<forall>m. x \<le> util (entry m) \<longleftrightarrow> util_ge (load m) x"
    "util z = 0" "0 < clear" "0 < detect" "clear \<le> 1000000000" "detect \<le> 1000000000"
  shows "k \<in> key ` {m \<in> set ms. util_ge (load m) (if key m \<in> prev then clear else detect)} \<longleftrightarrow>
    (\<exists>e. shown key entry z old ms k = Some e \<and> (if k \<in> prev then clear else detect) \<le> util e)"
proof (cases "find (\<lambda>m. key m = k) ms")
  case None
  then have no: "k \<notin> key ` set ms" by (auto simp: find_None_iff')
  have "shown key entry z old ms k = (if k \<in> old \<and> k \<noteq> [] then Some z else None)" unfolding shown_def None by simp
  moreover from no have "k \<notin> key ` {m \<in> set ms. util_ge (load m) (if key m \<in> prev then clear else detect)}" by blast
  ultimately show ?thesis using assms(3-5) by simp
next
  case (Some m)
  then have m: "m \<in> set ms" "key m = k" by (auto dest: find_SomeD)
  then have one: "m' = m" if "m' \<in> set ms" "key m' = k" for m' using assms(1) that by (auto simp: distinct_map inj_on_def)
  have "k \<in> key ` {m \<in> set ms. util_ge (load m) (thr (key m))} \<longleftrightarrow> util_ge (load m) (thr k)" for thr :: "ident \<Rightarrow> pyfloat"
    using m one by blast
  from this [of "\<lambda>x. if x \<in> prev then clear else detect"]
  have "k \<in> key ` {m \<in> set ms. util_ge (load m) (if key m \<in> prev then clear else detect)} \<longleftrightarrow>
      util_ge (load m) (if k \<in> prev then clear else detect)" .
  also have "\<dots> \<longleftrightarrow> (if k \<in> prev then clear else detect) \<le> util (entry m)" using assms(2,6,7) by auto
  also have "\<dots> \<longleftrightarrow> (\<exists>e. shown key entry z old ms k = Some e \<and> (if k \<in> prev then clear else detect) \<le> util e)"
    unfolding shown_def Some by (simp only: option.case option.inject ex_simps simp_thms)
  finally show ?thesis .
qed

lemma shown_dom: "dom (shown key entry z old ms) = key ` set ms \<union> (old - {[]})"
proof (rule set_eqI)
  fix k
  have "find (\<lambda>m. key m = k) ms = None \<longleftrightarrow> k \<notin> key ` set ms" by (auto simp: find_None_iff')
  then show "k \<in> dom (shown key entry z old ms) \<longleftrightarrow> k \<in> key ` set ms \<union> (old - {[]})"
    by (cases "find (\<lambda>m. key m = k) ms") (simp_all add: shown_def domIff)
qed

lemma shown_hit: "distinct (map key ms) \<Longrightarrow> m \<in> set ms \<Longrightarrow> shown key entry z old ms (key m) = Some (entry m)"
  by (simp add: shown_def find_key_iff [THEN iffD2])

lemma shown_idle: "k \<in> old \<Longrightarrow> k \<notin> key ` set ms \<Longrightarrow> k \<noteq> [] \<Longrightarrow> shown key entry z old ms k = Some z"
  by (auto simp: shown_def dest: find_SomeD split: option.split)

text \<open>After a tick the facade serves the snapshot of that tick. It lists the devices and links that carried traffic in this tick with
  their metrics; one that carried traffic in the tick before and none now is listed with zeros, so that clients see it go idle; nothing
  else is listed.\<close>

theorem snapshot_exact:
  assumes "finite (en_prev_active_devices (tw_engine w))" "finite (en_prev_active_links (tw_engine w))" and "w' = fst (run_tick te w)"
  shows "\<exists>sn. get_v2_snapshot w' runner = Some sn \<and> get_snapshot (tw_engine w') = sn \<and> sn_last_tick sn = en_tick_seq (tw_engine w) \<and>
    fst ` set (sn_devices sn) = en_prev_active_devices (tw_engine w') \<union> (en_prev_active_devices (tw_engine w) - {[]}) \<and>
    fst ` set (sn_links sn) = en_prev_active_links (tw_engine w') \<union> (en_prev_active_links (tw_engine w) - {[]}) \<and>
    (\<forall>m \<in> set (tick_devices te w). map_of (sn_devices sn) (mt_id m) = Some (entry_of m)) \<and>
    (\<forall>m \<in> set (tick_links te w). map_of (sn_links sn) (lm_id m) = Some (link_entry_of m)) \<and>
    (\<forall>k \<in> en_prev_active_devices (tw_engine w) - en_prev_active_devices (tw_engine w') - {[]}. map_of (sn_devices sn) k = Some zero_device) \<and>
    (\<forall>k \<in> en_prev_active_links (tw_engine w) - en_prev_active_links (tw_engine w') - {[]}. map_of (sn_links sn) k = Some zero_link)"
proof -
  from run_tick_snapshot [OF assms(1,2), of te] obtain sn where sn: "tw_latest w' = Some sn" "en_last (tw_engine w') = sn"
    "sn_last_tick sn = en_tick_seq (tw_engine w)"
    "map_of (sn_devices sn) = shown mt_id entry_of zero_device (en_prev_active_devices (tw_engine w)) (tick_devices te w)"
    "map_of (sn_links sn) = shown lm_id link_entry_of zero_link (en_prev_active_links (tw_engine w)) (tick_links te w)"
    "en_prev_active_devices (tw_engine w') = mt_id ` set (tick_devices te w)"
    "en_prev_active_links (tw_engine w') = lm_id ` set (tick_links te w)"
    unfolding assms(3) by blast
  have "get_v2_snapshot w' runner = Some sn" "get_snapshot (tw_engine w') = sn" by (simp_all add: get_v2_snapshot_def get_snapshot_def sn(1,2))
  moreover have "fst ` set (sn_devices sn) = en_prev_active_devices (tw_engine w') \<union> (en_prev_active_devices (tw_engine w) - {[]})"
    "fst ` set (sn_links sn) = en_prev_active_links (tw_engine w') \<union> (en_prev_active_links (tw_engine w) - {[]})"
    unfolding dom_map_of_conv_image_fst [symmetric] sn(4-7) shown_dom by (rule refl)+
  moreover have "\<forall>m \<in> set (tick_devices te w). map_of (sn_devices sn) (mt_id m) = Some (entry_of m)"
    "\<forall>m \<in> set (tick_links te w). map_of (sn_links sn) (lm_id m) = Some (link_entry_of m)"
    unfolding sn(4,5) by (simp_all add: shown_hit tick_distinct)
  moreover have "\<forall>k \<in> en_prev_active_devices (tw_engine w) - en_prev_active_devices (tw_engine w') - {[]}. map_of (sn_devices sn) k = Some zero_device"
    "\<forall>k \<in> en_prev_active_links (tw_engine w) - en_prev_active_links (tw_engine w') - {[]}. map_of (sn_links sn) k = Some zero_link"
    unfolding sn(4-7) by (simp_all add: shown_idle)
  ultimately show ?thesis using sn(3) by (intro exI [of _ sn] conjI)
qed


text \<open>C18: The snapshot explains the alarms: after a tick a device or link is congested exactly when its utilization in the snapshot of that
  tick reaches the threshold that applies to it, the lower one if it was congested before and the higher one if it was not, for thresholds
  above 0 and at most \<^verbatim>\<open>1e9\<close>, which is how the snapshot shows the infinite utilization of traffic without a capacity. A device or link that
  was congested therefore still is at exactly the lower threshold, and one with traffic but without capacity is congested; the documents say
  that congestion clears at 95 \<^verbatim>\<open>%\<close> or less and that the utilization is null without a capacity.\<close>

theorem snapshot_explains_congestion:
  assumes "finite (en_prev_active_devices (tw_engine w))" "finite (en_prev_active_links (tw_engine w))"
    and "{en_device_clear (tw_engine w), en_device_detect (tw_engine w), en_link_clear (tw_engine w), en_link_detect (tw_engine w)} \<subseteq> {0 <.. 1000000000}"
    and "w' = fst (run_tick te w)" "sn = get_snapshot (tw_engine w')"
  shows "(k \<in> en_prev_device_congested (tw_engine w') \<longleftrightarrow>
      (\<exists>e. map_of (sn_devices sn) k = Some e \<and>
        (if k \<in> en_prev_device_congested (tw_engine w) then en_device_clear (tw_engine w) else en_device_detect (tw_engine w)) \<le> de_utilization e)) \<and>
    (k \<in> en_prev_link_congested (tw_engine w') \<longleftrightarrow>
      (\<exists>e. map_of (sn_links sn) k = Some e \<and>
        (if k \<in> en_prev_link_congested (tw_engine w) then en_link_clear (tw_engine w) else en_link_detect (tw_engine w)) \<le> le_utilization e))"
proof -
  have sn: "map_of (sn_devices sn) = shown mt_id entry_of zero_device (en_prev_active_devices (tw_engine w)) (tick_devices te w)"
    "map_of (sn_links sn) = shown lm_id link_entry_of zero_link (en_prev_active_links (tw_engine w)) (tick_links te w)"
    using run_tick_snapshot [OF assms(1,2), of te] unfolding assms(4,5) get_snapshot_def by blast+
  have sets: "en_prev_device_congested (tw_engine w') = mt_id ` {m \<in> set (tick_devices te w). util_ge (mt_util m)
      (if mt_id m \<in> en_prev_device_congested (tw_engine w) then en_device_clear (tw_engine w) else en_device_detect (tw_engine w))}"
    "en_prev_link_congested (tw_engine w') = lm_id ` {m \<in> set (tick_links te w). util_ge (lm_util m)
      (if lm_id m \<in> en_prev_link_congested (tw_engine w) then en_link_clear (tw_engine w) else en_link_detect (tw_engine w))}"
    unfolding assms(4) run_tick_alarms tick_device_alarms_def tick_link_alarms_def device_congestion_loads handle_congestion_set
      filter_map set_map image_image set_filter comp_def fst_conv snd_conv by (rule refl)+
  have z: "de_utilization zero_device = 0" "le_utilization zero_link = 0" by (simp_all add: zero_device_def zero_link_def)
  have e: "\<And>x. x \<le> 1000000000 \<Longrightarrow> \<forall>m. x \<le> de_utilization (entry_of m) \<longleftrightarrow> util_ge (mt_util m) x"
    "\<And>x. x \<le> 1000000000 \<Longrightarrow> \<forall>m. x \<le> le_utilization (link_entry_of m) \<longleftrightarrow> util_ge (lm_util m) x"
    by (simp_all add: entry_of_def link_entry_of_def util_number_ge)
  show ?thesis unfolding sn sets
    by (intro conjI shown_over tick_distinct e z) (use assms(3) in auto)
qed

section \<open>A congested uplink\<close>

text \<open>A subscriber device behind a backbone gateway, with a tariff of 4 Gbit/s and a capacity of 1 Gbit/s. The first tick of a new engine
  runs on it, the second after everything has been deleted.\<close>

definition demo_env :: "list_graph tick_env" where
  "demo_env = \<lparr>te_nx = list_nx, te_so = sorted_list_of_set, te_v6 = no_v6,
     te_tariffs = [\<lparr>tf_id = 1, tf_max_up_mbps = 4000, tf_max_down_mbps = 4000\<rparr>], te_async_status = True\<rparr>"

definition demo_live :: db where
  "demo_live = empty_db\<lparr>
     devices := [(Device ''cpe'' AON_CPE)\<lparr>dev_tariff_id := Some 1, dev_provisioned := True\<rparr>, Device ''bb'' BACKBONE_GATEWAY],
     interfaces := [Interface ''i'' ''cpe'' ''i'', Interface ''j'' ''bb'' ''j''], links := [Link ''l1'' ''i'' ''j'']\<rparr>"

definition demo_world :: "list_graph traffic_world" where
  "demo_world = \<lparr>tw_db = demo_live, tw_store = PathfindingStore, tw_engine = TrafficEngine, tw_latest = None, tw_last_nonempty = None\<rparr>"

definition demo_ticks :: "(list_graph tick_env \<times> db \<times> list_graph pathfinding_store) list" where
  "demo_ticks = [(demo_env, demo_live, PathfindingStore), (demo_env, empty_db, PathfindingStore)]"

lemma set_order_sorted: "set_order sorted_list_of_set"
  by (simp add: set_order_def)

theorem congestion_events_alternate_witness:
  "signals (congestion_signal DeviceEntity) ''cpe'' (snd (run_steps tick_on demo_ticks demo_world)) = [True, False] \<and>
   alternates False (signals (congestion_signal LinkEntity) ''l1'' (snd (run_steps tick_on demo_ticks demo_world))) \<and>
   ''cpe'' \<notin> en_prev_device_congested (tw_engine (fst (run_steps tick_on demo_ticks demo_world)))"
proof -
  have ticks: "\<forall>(te, s, st) \<in> set demo_ticks. set_order (te_so te)" by (simp add: demo_ticks_def demo_env_def set_order_sorted)
  have new: "tw_engine demo_world = TrafficEngine" by (simp add: demo_world_def)
  have "signals (congestion_signal DeviceEntity) ''cpe'' (snd (run_steps tick_on demo_ticks demo_world)) = [True, False]" by code_simp
  with congestion_events_alternate [OF ticks new surjective_pairing, of "''cpe''"]
    congestion_events_alternate [OF ticks new surjective_pairing, of "''l1''"] show ?thesis by simp
qed

definition demo_busy :: "list_graph traffic_world" where
  "demo_busy = demo_world\<lparr>tw_db := empty_db, tw_engine := TrafficEngine\<lparr>en_prev_active_devices := {''ont'', ''olt''},
     en_prev_device_congested := {''ont''}\<rparr>\<rparr>"

theorem snapshot_exact_witness:
  "\<exists>sn. get_v2_snapshot (fst (run_tick demo_env demo_busy)) None = Some sn \<and> fst ` set (sn_devices sn) = {''ont'', ''olt''} \<and>
     map_of (sn_devices sn) ''olt'' = Some zero_device"
proof -
  have busy: "en_prev_active_devices (tw_engine demo_busy) = {''ont'', ''olt''}" "en_prev_active_links (tw_engine demo_busy) = {}"
    by (simp_all add: demo_busy_def TrafficEngine_def)
  have idle: "en_prev_active_devices (tw_engine (fst (run_tick demo_env demo_busy))) = {}" by code_simp
  have "finite (en_prev_active_devices (tw_engine demo_busy))" "finite (en_prev_active_links (tw_engine demo_busy))" by (simp_all add: busy)
  from snapshot_exact [OF this refl, of demo_env None] show ?thesis unfolding busy idle by auto
qed

text \<open>A congested ONT without traffic is not congested any more; the CPE, whose demand exceeds its capacity, is congested after the first
  tick.\<close>

theorem snapshot_explains_congestion_witness:
  "''ont'' \<notin> en_prev_device_congested (tw_engine (fst (run_tick demo_env demo_busy))) \<and>
   \<not> (\<exists>e. map_of (sn_devices (get_snapshot (tw_engine (fst (run_tick demo_env demo_busy))))) ''ont'' = Some e \<and> 95 / 100 \<le> de_utilization e) \<and>
   ''cpe'' \<in> en_prev_device_congested (tw_engine (fst (run_tick demo_env demo_world))) \<and>
   (\<exists>e. map_of (sn_devices (get_snapshot (tw_engine (fst (run_tick demo_env demo_world))))) ''cpe'' = Some e \<and> 1 \<le> de_utilization e)"
proof -
  have busy: "en_prev_active_devices (tw_engine demo_busy) = {''ont'', ''olt''}" "en_prev_active_links (tw_engine demo_busy) = {}"
    "en_device_clear (tw_engine demo_busy) = 95 / 100" "en_device_detect (tw_engine demo_busy) = 1" "en_link_clear (tw_engine demo_busy) = 95 / 100"
    "en_link_detect (tw_engine demo_busy) = 1" "en_prev_device_congested (tw_engine demo_busy) = {''ont''}"
    by (simp_all add: demo_busy_def TrafficEngine_def)
  have alive: "tw_engine demo_world = TrafficEngine" by (simp add: demo_world_def)
  have idle: "''ont'' \<notin> en_prev_device_congested (tw_engine (fst (run_tick demo_env demo_busy)))" by code_simp
  have hot: "''cpe'' \<in> en_prev_device_congested (tw_engine (fst (run_tick demo_env demo_world)))" by code_simp
  have "finite (en_prev_active_devices (tw_engine demo_busy))" "finite (en_prev_active_links (tw_engine demo_busy))"
    "{en_device_clear (tw_engine demo_busy), en_device_detect (tw_engine demo_busy), en_link_clear (tw_engine demo_busy), en_link_detect (tw_engine demo_busy)}
      \<subseteq> {0 <.. 1000000000}" by (simp_all add: busy)
  note cold = snapshot_explains_congestion [OF this refl refl, of "''ont''" demo_env]
  have "finite (en_prev_active_devices (tw_engine demo_world))" "finite (en_prev_active_links (tw_engine demo_world))"
    "{en_device_clear (tw_engine demo_world), en_device_detect (tw_engine demo_world), en_link_clear (tw_engine demo_world), en_link_detect (tw_engine demo_world)}
      \<subseteq> {0 <.. 1000000000}" by (simp_all add: alive TrafficEngine_def)
  note warm = snapshot_explains_congestion [OF this refl refl, of "''cpe''" demo_env, THEN conjunct1, THEN iffD1, OF hot]
  have prev: "en_prev_device_congested (tw_engine demo_world) = {}" "en_device_detect (tw_engine demo_world) = 1" by (simp_all add: alive TrafficEngine_def)
  have up: "\<exists>e. map_of (sn_devices (get_snapshot (tw_engine (fst (run_tick demo_env demo_world))))) ''cpe'' = Some e \<and> 1 \<le> de_utilization e"
    using warm unfolding prev by simp
  show ?thesis using cold idle hot up unfolding busy(3,7) by simp
qed

end
