(* ===== verification/Traffic_Segments.thy ===== *)
theory Traffic_Segments
  imports Traffic_Tick
begin

text \<open>
  The PON segments of a tick: the entries account for the ONTs placed on them, shaping stays within demand and capacity, and what becomes of
  the alarm of a segment without demand. Then the dirty sets of an update.
\<close>

section \<open>PON segments\<close>

text \<open>The ONTs a tick places on a segment, with the OLT, the port and the neighbour that serve them.\<close>

fun placements ::
    "'g nx \<Rightarrow> db \<Rightarrow> topo_caches \<times> 'g pathfinding_store \<Rightarrow> ident list \<Rightarrow> (ident \<times> ident \<times> ident \<times> ident) list" where
  "placements nx s cst [] = []"
| "placements nx s cst (ont # onts) =
     (let (cst', r) = cached_optical_path nx s ont cst
      in (case r of None \<Rightarrow> [] | Some r \<Rightarrow> (case segment_of_path (fst cst') r of None \<Rightarrow> [] | Some place \<Rightarrow> [(ont, place)])) @
         placements nx s cst' onts)"

definition segment_key :: "ident \<times> ident \<times> ident \<times> ident \<Rightarrow> ident" where
  "segment_key x = (case x of (ont, olt, pon, odf) \<Rightarrow> pon @ ''::'' @ odf)"

text \<open>What the entries of the dictionary hold of the ONTs placed so far.\<close>

definition accounts :: "totals \<Rightarrow> totals \<Rightarrow> (ident \<times> ident \<times> ident \<times> ident) list \<Rightarrow> (ident \<times> segment) list \<Rightarrow> bool" where
  "accounts up down ps m \<longleftrightarrow>
     distinct (map fst m) \<and> fst ` set m = segment_key ` set ps \<and>
     (\<forall>(k, e) \<in> set m. let mine = filter (\<lambda>x. segment_key x = k) ps
        in sg_id e = k \<and> sg_subscribers_count e = length mine \<and>
           sg_demand_up e = (\<Sum>x \<leftarrow> mine. dict_get up (fst x) 0) \<and> sg_demand_down e = (\<Sum>x \<leftarrow> mine. dict_get down (fst x) 0))"

lemma dict_set_distinct: "distinct (map fst d) \<Longrightarrow> distinct (map fst (dict_set k v d))"
  by (induction k v d rule: dict_set.induct) (auto simp: dict_set_keys [unfolded image_def] image_def)

lemma dict_set_cases:
  "distinct (map fst d) \<Longrightarrow> (a, b) \<in> set (dict_set k v d) \<longleftrightarrow> (if a = k then b = v else (a, b) \<in> set d)"
  by (induction k v d rule: dict_set.induct) (auto simp: image_iff)

lemma add_subscriber_entry:
  assumes "add_subscriber c pc u d (olt, pon, odf) m = m'"
  shows "\<exists>e. m' = dict_set (pon @ ''::'' @ odf) e m \<and>
    (let e0 = dict_get m (pon @ ''::'' @ odf) (new_segment olt pon odf)
     in sg_id e = sg_id e0 \<and> sg_subscribers_count e = sg_subscribers_count e0 + 1 \<and> sg_demand_up e = sg_demand_up e0 + u \<and>
        sg_demand_down e = sg_demand_down e0 + d)"
  using assms unfolding add_subscriber_def Let_def by (auto split: option.split prod.split)

lemma accounts_add:
  assumes "accounts up down ps m"
  shows "accounts up down (ps @ [(ont, place)]) (add_subscriber c pc (dict_get up ont 0) (dict_get down ont 0) place m)"
proof -
  obtain olt pon odf where place: "place = (olt, pon, odf)" by (cases place)
  let ?k = "pon @ ''::'' @ odf" and ?x = "(ont, place)"
  have key: "segment_key ?x = ?k" by (simp add: segment_key_def place)
  obtain e where m': "add_subscriber c pc (dict_get up ont 0) (dict_get down ont 0) place m = dict_set ?k e m"
    and e: "let e0 = dict_get m ?k (new_segment olt pon odf)
     in sg_id e = sg_id e0 \<and> sg_subscribers_count e = sg_subscribers_count e0 + 1 \<and> sg_demand_up e = sg_demand_up e0 + dict_get up ont 0 \<and>
        sg_demand_down e = sg_demand_down e0 + dict_get down ont 0"
    using add_subscriber_entry [OF refl, of c pc "dict_get up ont 0" "dict_get down ont 0" olt pon odf m] unfolding place by blast
  have d: "distinct (map fst m)" and ks: "fst ` set m = segment_key ` set ps" using assms by (auto simp: accounts_def)
  define mine where "mine = filter (\<lambda>x. segment_key x = ?k) ps"
  define e0 where "e0 = dict_get m ?k (new_segment olt pon odf)"
  have old: "sg_id e0 = ?k \<and> sg_subscribers_count e0 = length mine \<and> sg_demand_up e0 = (\<Sum>x \<leftarrow> mine. dict_get up (fst x) 0) \<and>
      sg_demand_down e0 = (\<Sum>x \<leftarrow> mine. dict_get down (fst x) 0)"
  proof (cases "map_of m ?k")
    case None
    then have "?k \<notin> segment_key ` set ps" unfolding ks [symmetric] by (simp add: map_of_eq_None_iff)
    then have "mine = []" unfolding mine_def filter_empty_conv by force
    then show ?thesis unfolding e0_def dict_get_def None new_segment_def by simp
  next
    case (Some e1)
    then have "(?k, e1) \<in> set m" by (rule map_of_SomeD)
    then show ?thesis using assms unfolding accounts_def Let_def e0_def dict_get_def Some mine_def by force
  qed
  have new: "sg_id e = ?k \<and> sg_subscribers_count e = length (mine @ [?x]) \<and> sg_demand_up e = (\<Sum>x \<leftarrow> mine @ [?x]. dict_get up (fst x) 0) \<and>
      sg_demand_down e = (\<Sum>x \<leftarrow> mine @ [?x]. dict_get down (fst x) 0)"
    using e old by (simp add: e0_def Let_def)
  have "case y of (k, b) \<Rightarrow> let own = filter (\<lambda>x. segment_key x = k) (ps @ [?x])
        in sg_id b = k \<and> sg_subscribers_count b = length own \<and>
           sg_demand_up b = (\<Sum>x \<leftarrow> own. dict_get up (fst x) 0) \<and> sg_demand_down b = (\<Sum>x \<leftarrow> own. dict_get down (fst x) 0)"
    if y: "y \<in> set (dict_set ?k e m)" for y
  proof (cases y)
    case (Pair k b)
    show ?thesis
    proof (cases "k = ?k")
      case True
      then have "b = e" using y unfolding Pair dict_set_cases [OF d] by simp
      then show ?thesis using new unfolding Pair True Let_def mine_def by (simp add: key)
    next
      case False
      then have "(k, b) \<in> set m" using y unfolding Pair dict_set_cases [OF d] by simp
      then show ?thesis using assms False unfolding accounts_def Pair Let_def by (force simp: key)
    qed
  qed
  then show ?thesis
    unfolding accounts_def m' using dict_set_distinct [OF d] by (simp add: dict_set_keys ks key)
qed

lemma accounts_fold:
  "accounts up down ps m \<Longrightarrow> accounts up down (ps @ placements nx s cst onts) (snd (foldl (segment_step nx s pc up down) (cst, m) onts))"
proof (induction onts arbitrary: cst ps m)
  case (Cons ont onts)
  obtain cst' r where r: "cached_optical_path nx s ont cst = (cst', r)" by fastforce
  show ?case
  proof (cases "case r of None \<Rightarrow> None | Some r \<Rightarrow> segment_of_path (fst cst') r")
    case None
    then have "segment_step nx s pc up down (cst, m) ont = (cst', m)" "placements nx s cst (ont # onts) = placements nx s cst' onts"
      by (auto simp: segment_step_def r split: option.splits)
    then show ?thesis using Cons.IH [OF Cons.prems, of cst'] by simp
  next
    case (Some place)
    then have "segment_step nx s pc up down (cst, m) ont = (cst', add_subscriber (fst cst') pc (dict_get up ont 0) (dict_get down ont 0) place m)"
      "placements nx s cst (ont # onts) = (ont, place) # placements nx s cst' onts"
      by (auto simp: segment_step_def r split: option.splits)
    then show ?thesis using Cons.IH [OF accounts_add [OF Cons.prems, where ont = ont and place = place and c = "fst cst'" and pc = pc], of cst'] by simp
  qed
qed simp

definition finished :: "pyfloat \<Rightarrow> pyfloat \<Rightarrow> ident set \<Rightarrow> ident \<times> segment \<Rightarrow> ident \<times> segment" where
  "finished detect clear prev x =
     (fst x, (shape (snd x))\<lparr>sg_congested := ((if fst x \<in> prev then clear else detect) \<le> segment_util (snd x))\<rparr>)"

lemma finish_segment_eq: "fst (finish_segment detect clear tick prev x) = finished detect clear prev x"
  by (cases x) (simp add: finish_segment_def finished_def Let_def)

lemma finish_segment_signals:
  "e \<in> set (snd (finish_segment detect clear tick prev x)) \<Longrightarrow>
   (\<exists>a b c d u cd cu. e = SegmentCleared (fst x) a b c tick \<or> e = SegmentDetected (fst x) a b c d u cd cu tick)"
  by (cases x) (auto simp: finish_segment_def Let_def split: if_splits)

lemma shape_fields:
  "sg_id (shape e) = sg_id e" "sg_subscribers_count (shape e) = sg_subscribers_count e" "sg_demand_up (shape e) = sg_demand_up e"
  "sg_demand_down (shape e) = sg_demand_down e" "sg_capacity_up (shape e) = sg_capacity_up e" "sg_capacity_down (shape e) = sg_capacity_down e"
  by (simp_all add: shape_def Let_def)

lemma compute_segments_eq:
  assumes "compute_segments_map nx s pc detect clear prev up down tick cst = (cst', cur, m, evs)"
  obtains c1 m1 where "foldl (segment_step nx s pc up down) (cst, []) (demand_onts (fst cst) up) = (c1, m1)"
    "accounts up down (placements nx s cst (demand_onts (fst cst) up)) m1" "m = map (finished detect clear prev) m1"
    "cur = fst ` set (filter (\<lambda>x. sg_congested (snd x)) m)" "evs = concat (map (\<lambda>x. snd (finish_segment detect clear tick prev x)) m1)"
proof -
  obtain c1 m1 where f: "foldl (segment_step nx s pc up down) (cst, []) (demand_onts (fst cst) up) = (c1, m1)" by fastforce
  have "accounts up down [] []" by (simp add: accounts_def)
  from accounts_fold [OF this, of nx s cst "demand_onts (fst cst) up" pc]
  have acc: "accounts up down (placements nx s cst (demand_onts (fst cst) up)) m1" by (simp add: f)
  have rows: "map fst (map (finish_segment detect clear tick prev) m1) = map (finished detect clear prev) m1"
    "map snd (map (finish_segment detect clear tick prev) m1) = map (\<lambda>x. snd (finish_segment detect clear tick prev x)) m1"
    by (simp_all add: comp_def finish_segment_eq)
  have res: "cur = set (map fst (filter (\<lambda>(k, e). sg_congested e) (map fst (map (finish_segment detect clear tick prev) m1))))"
    "m = map fst (map (finish_segment detect clear tick prev) m1)" "evs = concat (map snd (map (finish_segment detect clear tick prev) m1))"
    using assms unfolding compute_segments_map_def f Let_def prod.case by blast+
  show ?thesis
    by (rule that [OF f acc]) (simp_all only: res rows case_prod_beta' set_map)
qed

lemma segment_util_shape: "segment_util ((shape e)\<lparr>sg_congested := b\<rparr>) = segment_util e"
  by (simp add: segment_util_def shape_fields Let_def)

definition shaped :: "pyfloat \<Rightarrow> pyfloat \<Rightarrow> pyfloat \<Rightarrow> pyfloat \<Rightarrow> bool" where
  "shaped dem cap used headroom \<longleftrightarrow>
     used \<le> max dem 0 \<and> 0 \<le> headroom \<and> (0 < cap \<longrightarrow> used \<le> cap \<and> used + headroom = cap \<and> (used < max dem 0 \<longrightarrow> headroom = 0)) \<and>
     (cap \<le> 0 \<longrightarrow> used = max dem 0 \<and> headroom = 0)"

lemma shape_shaped:
  "shaped (sg_demand_up e) (sg_capacity_up e) (sg_used_up (shape e)) (sg_headroom_up (shape e))"
  "shaped (sg_demand_down e) (sg_capacity_down e) (sg_used_down (shape e)) (sg_headroom_down (shape e))"
  by (auto simp: shaped_def shape_def Let_def max_def min_def)

text \<open>C19: The segments of a tick account for every ONT that is placed on one: an entry counts its ONTs and its demand is the sum of theirs
  in each direction. When the capacity of its port is positive, what it uses is at most the demand and the capacity, together with the headroom
  makes up the capacity, and traffic is cut only when no headroom is left; when the capacity is 0 it uses the whole demand and has no
  headroom. The entry is congested exactly when its utilization reaches the threshold that applies, the lower one if it was congested before,
  which is also what the engine remembers; at exactly the lower threshold, where the documents say it clears, it stays congested.\<close>

theorem segments_account:
  assumes "compute_segments_map nx s pc detect clear prev up down tick cst = (cst', cur, m, evs)"
    and "ps = placements nx s cst (demand_onts (fst cst) up)"
  shows "fst ` set m = segment_key ` set ps \<and> distinct (map fst m) \<and>
    (\<forall>(k, e) \<in> set m. let mine = filter (\<lambda>x. segment_key x = k) ps
       in sg_subscribers_count e = length mine \<and>
          sg_demand_up e = (\<Sum>x \<leftarrow> mine. dict_get up (fst x) 0) \<and> sg_demand_down e = (\<Sum>x \<leftarrow> mine. dict_get down (fst x) 0) \<and>
          shaped (sg_demand_up e) (sg_capacity_up e) (sg_used_up e) (sg_headroom_up e) \<and>
          shaped (sg_demand_down e) (sg_capacity_down e) (sg_used_down e) (sg_headroom_down e) \<and>
          (k \<in> cur \<longleftrightarrow> sg_congested e) \<and> (sg_congested e \<longleftrightarrow> (if k \<in> prev then clear else detect) \<le> segment_util e))"
proof -
  obtain m1 where acc: "accounts up down ps m1" and m: "m = map (finished detect clear prev) m1"
    and cur: "cur = fst ` set (filter (\<lambda>x. sg_congested (snd x)) m)" using compute_segments_eq [OF assms(1)] assms(2) by metis
  have "map fst m = map fst m1" by (simp add: m finished_def comp_def)
  moreover have "distinct (map fst m1)" "set (map fst m1) = segment_key ` set ps" using acc by (simp_all add: accounts_def)
  ultimately have keys: "fst ` set m = segment_key ` set ps" "distinct (map fst m)" by (metis set_map)+
  have "let mine = filter (\<lambda>x. segment_key x = k) ps
       in sg_subscribers_count e = length mine \<and>
          sg_demand_up e = (\<Sum>x \<leftarrow> mine. dict_get up (fst x) 0) \<and> sg_demand_down e = (\<Sum>x \<leftarrow> mine. dict_get down (fst x) 0) \<and>
          shaped (sg_demand_up e) (sg_capacity_up e) (sg_used_up e) (sg_headroom_up e) \<and>
          shaped (sg_demand_down e) (sg_capacity_down e) (sg_used_down e) (sg_headroom_down e) \<and>
          (k \<in> cur \<longleftrightarrow> sg_congested e) \<and> (sg_congested e \<longleftrightarrow> (if k \<in> prev then clear else detect) \<le> segment_util e)"
    if ke: "(k, e) \<in> set m" for k e
  proof -
    from ke obtain e0 where e0: "(k, e0) \<in> set m1"
      and e: "e = (shape e0)\<lparr>sg_congested := ((if k \<in> prev then clear else detect) \<le> segment_util e0)\<rparr>"
      unfolding m by (auto simp: finished_def)
    have own: "sg_subscribers_count e0 = length (filter (\<lambda>x. segment_key x = k) ps) \<and>
        sg_demand_up e0 = (\<Sum>x \<leftarrow> filter (\<lambda>x. segment_key x = k) ps. dict_get up (fst x) 0) \<and>
        sg_demand_down e0 = (\<Sum>x \<leftarrow> filter (\<lambda>x. segment_key x = k) ps. dict_get down (fst x) 0)"
      using acc e0 unfolding accounts_def Let_def by fastforce
    have "k \<in> cur \<longleftrightarrow> sg_congested e"
      unfolding cur using ke keys(2) by (auto simp: image_iff dest: eq_key_imp_eq_value)
    moreover have "segment_util e = segment_util e0" unfolding e by (rule segment_util_shape)
    moreover have "sg_congested e \<longleftrightarrow> (if k \<in> prev then clear else detect) \<le> segment_util e0" by (simp add: e)
    moreover have "sg_subscribers_count e = sg_subscribers_count e0" "sg_demand_up e = sg_demand_up e0" "sg_demand_down e = sg_demand_down e0"
      "shaped (sg_demand_up e) (sg_capacity_up e) (sg_used_up e) (sg_headroom_up e)"
      "shaped (sg_demand_down e) (sg_capacity_down e) (sg_used_down e) (sg_headroom_down e)"
      using shape_shaped [of e0] by (simp_all add: e shape_fields)
    ultimately show ?thesis using own unfolding Let_def by metis
  qed
  then show ?thesis using keys by blast
qed

definition segment_signal :: "traffic_event \<Rightarrow> (ident \<times> bool) option" where
  "segment_signal e =
     (case e of SegmentDetected k _ _ _ _ _ _ _ _ \<Rightarrow> Some (k, True) | SegmentCleared k _ _ _ _ \<Rightarrow> Some (k, False) | _ \<Rightarrow> None)"

text \<open>C38: The alarm of a segment is lost when no ONT is placed on it in a tick, because none of its ONTs is in the totals of the tick or has an
  optical path through it: a segment that was congested is no longer congested then, but no event reports that it was cleared, unlike the
  alarms of devices and links. (A segment whose ONTs are in the totals with a demand of 0 does get its cleared event.)\<close>

theorem segment_alarm_lost:
  assumes "compute_segments_map nx s pc detect clear prev up down tick cst = (cst', cur, m, evs)"
    and "k \<in> prev" "k \<notin> segment_key ` set (placements nx s cst (demand_onts (fst cst) up))"
  shows "k \<notin> cur \<and> signals segment_signal k evs = []"
proof -
  obtain m1 where acc: "accounts up down (placements nx s cst (demand_onts (fst cst) up)) m1" and m: "m = map (finished detect clear prev) m1"
    and cur: "cur = fst ` set (filter (\<lambda>x. sg_congested (snd x)) m)"
    and evs: "evs = concat (map (\<lambda>x. snd (finish_segment detect clear tick prev x)) m1)" using compute_segments_eq [OF assms(1)] by metis
  have "fst ` set m1 = segment_key ` set (placements nx s cst (demand_onts (fst cst) up))" using acc by (simp add: accounts_def)
  then have k: "k \<notin> fst ` set m1" using assms(3) by simp
  have "segment_signal e \<noteq> Some (k, b)" if ev: "e \<in> set evs" for e b
  proof -
    from ev obtain x where x: "x \<in> set m1" "e \<in> set (snd (finish_segment detect clear tick prev x))" unfolding evs by auto
    then have "fst x \<noteq> k" using k by auto
    with finish_segment_signals [OF x(2)] show ?thesis by (auto simp: segment_signal_def)
  qed
  then have "signals segment_signal k evs = []" by (auto simp: signals_def split: option.splits)
  moreover have "k \<notin> cur" using k unfolding cur m by (auto simp: finished_def image_iff)
  ultimately show ?thesis by blast
qed

section \<open>A full PON port\<close>

text \<open>An ONT behind a splitter on the only PON port of an OLT, which has no profile and carries the default of 1.25 Gbit/s upstream.\<close>

definition demo_pon :: db where
  "demo_pon = demo_optical\<lparr>interfaces := map (\<lambda>i. if if_id i = ''olt-if0'' then i\<lparr>if_port_role := Some PORT_PON\<rparr> else i) (interfaces demo_optical)\<rparr>"

definition demo_caches :: "topo_caches \<times> list_graph pathfinding_store" where
  "demo_caches = (ensure_topology_caches demo_pon (PathfindingStore :: list_graph pathfinding_store) (en_caches TrafficEngine), PathfindingStore)"

theorem segments_account_witness:
  "case compute_segments_map list_nx demo_pon (Some (\<lambda>_. [])) (95 / 100) (85 / 100) {} [(''ont'', 2000000000)] [(''ont'', 1000000000)] 7 demo_caches of
     (cst', cur, m, evs) \<Rightarrow> fst ` set m = {''olt-if0::sp''} \<and>
       (\<forall>(k, e) \<in> set m. sg_subscribers_count e = 1 \<and> sg_demand_up e = 2000000000 \<and>
          shaped (sg_demand_up e) (sg_capacity_up e) (sg_used_up e) (sg_headroom_up e) \<and> (k \<in> cur \<longleftrightarrow> 95 / 100 \<le> segment_util e))"
proof -
  let ?up = "[(''ont'', 2000000000)] :: totals" and ?down = "[(''ont'', 1000000000)] :: totals"
  have ps: "placements list_nx demo_pon demo_caches (demand_onts (fst demo_caches) ?up) = [(''ont'', ''olt'', ''olt-if0'', ''sp'')]" by code_simp
  obtain cst' cur m evs where r:
    "compute_segments_map list_nx demo_pon (Some (\<lambda>_. [])) (95 / 100) (85 / 100) {} ?up ?down 7 demo_caches = (cst', cur, m, evs)"
    by (metis prod_cases4)
  note acc = segments_account [OF r ps [symmetric]]
  have one: "filter (\<lambda>x. segment_key x = ''olt-if0::sp'') [(''ont'', ''olt'', ''olt-if0'', ''sp'')] = [(''ont'', ''olt'', ''olt-if0'', ''sp'')]"
    by (simp add: segment_key_def)
  have keys: "fst ` set m = {''olt-if0::sp''}" using conjunct1 [OF acc] by (simp add: segment_key_def)
  have "sg_subscribers_count e = 1 \<and> sg_demand_up e = 2000000000 \<and>
      shaped (sg_demand_up e) (sg_capacity_up e) (sg_used_up e) (sg_headroom_up e) \<and> (k \<in> cur \<longleftrightarrow> 95 / 100 \<le> segment_util e)"
    if ke: "(k, e) \<in> set m" for k e
  proof -
    have "k = ''olt-if0::sp''" using ke keys by force
    with bspec [OF conjunct2 [OF conjunct2 [OF acc]] ke] show ?thesis
      unfolding prod.case Let_def empty_iff if_False by (simp only: one) (auto simp: dict_get_def)
  qed
  then show ?thesis unfolding r prod.case using keys by blast
qed

text \<open>The ONT is not in the totals: nothing is reported. It is in the totals with a demand of 0: the segment is cleared.\<close>

theorem segment_alarm_lost_witness:
  "(case compute_segments_map list_nx demo_pon (Some (\<lambda>_. [])) (95 / 100) (85 / 100) {''olt-if0::sp''} [] [] 8 demo_caches of
     (cst', cur, m, evs) \<Rightarrow> ''olt-if0::sp'' \<notin> cur \<and> signals segment_signal ''olt-if0::sp'' evs = []) \<and>
   (case compute_segments_map list_nx demo_pon (Some (\<lambda>_. [])) (95 / 100) (85 / 100) {''olt-if0::sp''} [(''ont'', 0)] [(''ont'', 0)] 8 demo_caches of
     (cst', cur, m, evs) \<Rightarrow> ''olt-if0::sp'' \<notin> cur \<and> signals segment_signal ''olt-if0::sp'' evs = [False])"
proof
  obtain cst' cur m evs where r:
    "compute_segments_map list_nx demo_pon (Some (\<lambda>_. [])) (95 / 100) (85 / 100) {''olt-if0::sp''} [] [] 8 demo_caches = (cst', cur, m, evs)"
    by (metis prod_cases4)
  have "placements list_nx demo_pon demo_caches (demand_onts (fst demo_caches) []) = []" by (simp add: demand_onts_def)
  with segment_alarm_lost [OF r, of "''olt-if0::sp''"]
  show "case compute_segments_map list_nx demo_pon (Some (\<lambda>_. [])) (95 / 100) (85 / 100) {''olt-if0::sp''} [] [] 8 demo_caches of
     (cst', cur, m, evs) \<Rightarrow> ''olt-if0::sp'' \<notin> cur \<and> signals segment_signal ''olt-if0::sp'' evs = []" unfolding r by simp
  show "case compute_segments_map list_nx demo_pon (Some (\<lambda>_. [])) (95 / 100) (85 / 100) {''olt-if0::sp''} [(''ont'', 0)] [(''ont'', 0)] 8 demo_caches of
     (cst', cur, m, evs) \<Rightarrow> ''olt-if0::sp'' \<notin> cur \<and> signals segment_signal ''olt-if0::sp'' evs = [False]" by code_simp
qed

section \<open>Exactness of the dirty sets\<close>

text \<open>A device is dirty when it is named, or when it owns an interface of a dirty link.\<close>

lemma sorted_unique_iff: "x \<in> set (sorted_unique ids) \<longleftrightarrow> x \<in> set ids \<and> x \<noteq> []"
  by (auto simp: sorted_unique_def)

lemma prepare_dirty_devices:
  "d \<in> set (pd_device_ids (prepare_dirty s devs lns region)) \<longleftrightarrow>
     d \<noteq> [] \<and> (d \<in> set devs \<or>
       (\<exists>l \<in> set (links s). ln_id l \<in> set lns \<and> ln_id l \<noteq> [] \<and>
          (\<exists>i \<in> set (interfaces s). if_id i \<noteq> [] \<and> if_id i \<in> {ln_a_interface_id l, ln_b_interface_id l} \<and> if_device_id i = d)))"
  unfolding prepare_dirty_def Let_def by (auto simp: sorted_unique_iff)

text \<open>The incremental set of an update is part of the full set: when the devices and links an update names exist and no interface is
  orphaned, what the incremental aggregation covers, the named devices, the named links and the devices at their ends, is contained in
  what the full aggregation covers, and both are sorted without duplicates.\<close>

theorem incremental_within_full:
  assumes "set devs \<subseteq> dev_id ` set (devices s)" "set lns \<subseteq> ln_id ` set (links s)" "if_device_id ` set (interfaces s) \<subseteq> dev_id ` set (devices s)"
    and "aggregate_dirty s (prepare_dirty s devs lns region) True = (ds, ls)" "aggregate_dirty s (prepare_dirty s devs lns region) False = (fds, fls)"
  shows "set ds \<subseteq> set fds \<and> set ls \<subseteq> set fls \<and> sorted_wrt (<) ds \<and> sorted_wrt (<) ls \<and> sorted_wrt (<) fds \<and> sorted_wrt (<) fls"
proof -
  have r: "ds = pd_device_ids (prepare_dirty s devs lns region)" "ls = sorted_unique lns" "fds = sorted_unique (map dev_id (devices s))"
    "fls = sorted_unique (map ln_id (links s))" using assms(4,5) by (auto simp: aggregate_dirty_def prepare_dirty_def Let_def)
  have st: "sorted_wrt (<) (sorted_unique ids)" for ids by (simp add: sorted_unique_def)
  have "x \<in> set fds" if "x \<in> set ds" for x
    using that assms(1,3) unfolding r prepare_dirty_devices sorted_unique_iff set_map by blast
  moreover have "set ls \<subseteq> set fls" unfolding r using assms(2) by (auto simp: sorted_unique_iff)
  moreover have "sorted_wrt (<) ds" unfolding r prepare_dirty_def Let_def by (simp add: st)
  ultimately show ?thesis by (auto simp: st r)
qed

theorem incremental_within_full_witness:
  "set (fst (aggregate_dirty demo_access (prepare_dirty demo_access [] [''l2''] None) True)) \<subseteq>
   set (fst (aggregate_dirty demo_access (prepare_dirty demo_access [] [''l2''] None) False)) \<and>
   fst (aggregate_dirty demo_access (prepare_dirty demo_access [] [''l2''] None) True) = [''core'', ''olt'']"
proof -
  have "set [] \<subseteq> dev_id ` set (devices demo_access)" "set [''l2''] \<subseteq> ln_id ` set (links demo_access)"
    "if_device_id ` set (interfaces demo_access) \<subseteq> dev_id ` set (devices demo_access)" by (simp_all add: demo_access_def row_defs)
  from incremental_within_full [OF this surjective_pairing surjective_pairing]
  have "set (fst (aggregate_dirty demo_access (prepare_dirty demo_access [] [''l2''] None) True)) \<subseteq>
    set (fst (aggregate_dirty demo_access (prepare_dirty demo_access [] [''l2''] None) False))" by blast
  moreover have "fst (aggregate_dirty demo_access (prepare_dirty demo_access [] [''l2''] None) True) = [''core'', ''olt'']" by code_simp
  ultimately show ?thesis by blast
qed

end
