(* ===== verification/Devices.thy ===== *)
theory Devices
  imports Uplinks Mac_Allocator Traffic_Engine
begin

text \<open>
  The life of a device: creating, updating, deleting and overriding it (\<^verbatim>\<open>devices_helpers_mutation_core.py\<close>, \<^verbatim>\<open>devices_helpers_delete.py\<close>,
  \<^verbatim>\<open>devices_helpers_override.py\<close>), the default tariffs (\<^verbatim>\<open>seed_helpers/catalog.py\<close>) and the management address of a backbone gateway
  (\<^verbatim>\<open>seed_service.py\<close>). A handler returns \<open>None\<close> when the MAC allocator or the coalescer does not return, else the new world
  with the error or the answer; an error leaves what was committed before it. The database is SQLite without enforced
  foreign keys, the default of \<^verbatim>\<open>db.py\<close>; a violated unique or not-null constraint is \<open>IntegrityError\<close>.
\<close>

section \<open>State\<close>

datatype TariffTechnology = GPON | AON

record tariff_row = tariff +
  tr_name :: string
  tr_technology :: "TariffTechnology option"

record dworld =
  dw_world :: world
  dw_records :: "prov_record list"
  dw_tariffs :: "tariff_row list"
  dw_mac :: mac_state

text \<open>\<open>de_mac\<close> says how the allocator's own session behaves for an interface, the flags are the settings of the process.\<close>

record 'g denv =
  de_cenv :: cenv
  de_nx :: "'g nx"
  de_so :: "ident set \<Rightarrow> ident list"
  de_v6 :: v6_text
  de_mac :: "ident \<Rightarrow> mac_env"
  de_single_backbone :: bool
  de_backbone_mgmt :: bool
  de_auto_assign :: bool

datatype device_error =
    ConflictError string | UnprocessableError string | LookupError | OverrideError | NoFieldError | HashError | AddressError | IntegrityError | StoreError string

definition device_http :: "device_error \<Rightarrow> http_exception" where
  "device_http e =
     (case e of
        ConflictError m \<Rightarrow> http 409 m
      | UnprocessableError m \<Rightarrow> http (if occurs_in ''parent'' (lower m) then 400 else 422) m
      | LookupError \<Rightarrow> http 404 ''Not found''
      | OverrideError \<Rightarrow> http 400 ''Invalid override status''
      | _ \<Rightarrow> http 500 ''Internal Server Error'')"

text \<open>The answer: the row and the status evaluated for it.\<close>

record device_out =
  do_device :: device
  do_status :: Status

definition device_status :: "'g denv \<Rightarrow> db \<Rightarrow> device \<Rightarrow> Status" where
  "device_status env s d = evaluate_device_status (de_nx env) (de_so env) s None d"

definition device_answer :: "'g denv \<Rightarrow> db \<Rightarrow> device \<Rightarrow> device_out" where
  "device_answer env s d = \<lparr>do_device = d, do_status = device_status env s d\<rparr>"

section \<open>Tariffs\<close>

definition DEFAULT_TARIFFS :: "tariff_row list" where
  "DEFAULT_TARIFFS =
     [\<lparr>tf_id = 0, tf_max_up_mbps = 20, tf_max_down_mbps = 100, tr_name = ''Basic 100/20'', tr_technology = Some GPON\<rparr>,
      \<lparr>tf_id = 0, tf_max_up_mbps = 300, tf_max_down_mbps = 1000, tr_name = ''Pro 1000/300'', tr_technology = Some GPON\<rparr>,
      \<lparr>tf_id = 0, tf_max_up_mbps = 300, tf_max_down_mbps = 300, tr_name = ''AON 300/300'', tr_technology = Some AON\<rparr>,
      \<lparr>tf_id = 0, tf_max_up_mbps = 1000, tf_max_down_mbps = 1000, tr_name = ''AON 1000/1000'', tr_technology = Some AON\<rparr>]"

definition ensure_default_tariffs :: "tariff_row list \<Rightarrow> tariff_row list" where
  "ensure_default_tariffs ts =
     foldl (\<lambda>us d. if tr_name d \<in> tr_name ` set ts then us else us @ [d\<lparr>tf_id := next_row_id (map tf_id us)\<rparr>]) ts DEFAULT_TARIFFS"

definition required_technology :: "DeviceType \<Rightarrow> TariffTechnology option" where
  "required_technology t = (if t \<in> {ONT, BUSINESS_ONT} then Some GPON else if t = AON_CPE then Some AON else None)"

definition assign_tariff :: "tariff_row list \<Rightarrow> device \<Rightarrow> device" where
  "assign_tariff ts d =
     (case required_technology (dev_type d) of
        None \<Rightarrow> d
      | Some tech \<Rightarrow>
          if dev_tariff_id d \<noteq> None then d
          else (case sort_key tr_name (filter (\<lambda>t. tr_technology t = Some tech) ts) of [] \<Rightarrow> d | t # _ \<Rightarrow> d\<lparr>dev_tariff_id := Some (tf_id t)\<rparr>))"

section \<open>Hardware\<close>

definition hardware_error :: "db \<Rightarrow> DeviceType \<Rightarrow> int \<Rightarrow> device_error option" where
  "hardware_error s t k =
     (case get_hardware_model s k of
        None \<Rightarrow> Some (UnprocessableError ''INVALID_HARDWARE_MODEL'')
      | Some m \<Rightarrow> if hm_device_type m \<noteq> t then Some (UnprocessableError ''HARDWARE_TYPE_MISMATCH'') else None)"

definition default_hardware :: "db \<Rightarrow> DeviceType \<Rightarrow> int option" where
  "default_hardware s t =
     (let rows = sort_key (\<lambda>m. (hm_vendor m, hm_model m, hm_version m)) (filter (\<lambda>m. hm_device_type m = t) (hardware_models s))
      in case find (\<lambda>m. hm_meta_source m = Some ''default'') rows of
           Some m \<Rightarrow> Some (hm_id m)
         | None \<Rightarrow> (case rows of [] \<Rightarrow> None | m # _ \<Rightarrow> Some (hm_id m)))"

definition catalog_insertion_loss :: "db \<Rightarrow> device \<Rightarrow> device" where
  "catalog_insertion_loss s d =
     (if dev_type d \<in> {SPLITTER, HOP, NVT, ODF}
      then (case get_model s d of
              Some m \<Rightarrow> (case hm_insertion_loss_db m of Some x \<Rightarrow> d\<lparr>dev_insertion_loss_db := Some x\<rparr> | None \<Rightarrow> d)
            | None \<Rightarrow> d)
      else d)"

text \<open>The names of the ports of a profile.\<close>

definition profile_base :: "port_profile \<Rightarrow> string" where
  "profile_base p = (let b = strip (if pp_name p = [] then ''port'' else pp_name p) in if b = [] then ''port'' else b)"

definition port_names :: "port_profile \<Rightarrow> string list" where
  "port_names p =
     (let base = profile_base p; n = nat (pp_count p)
      in if n = 1 \<and> base \<in> {''mgmt0'', ''if0'', ''mgmt'', ''uplink''}
         then [if endswith base ''0'' then base else base @ ''0'']
         else map (\<lambda>k. base @ show_nat k) [1..<n + 1])"

definition profile_port :: "device \<Rightarrow> port_profile \<Rightarrow> string \<Rightarrow> string \<Rightarrow> iface" where
  "profile_port d p name mac =
     (Interface (dev_id d @ ''-'' @ name) (dev_id d) name)
       \<lparr>if_role := (if lower (case pp_role p of None \<Rightarrow> [] | Some r \<Rightarrow> r) = ''management'' then Some ROLE_MANAGEMENT else None),
        if_capacity := map_option (\<lambda>g. int_of_float (g * 1000)) (pp_speed_gbps p), if_profile_name := Some (profile_base p),
        if_port_role := pp_port_role p, if_mac_address := Some mac\<rparr>"

text \<open>Inserting rows: the primary key and the two unique constraints of the table; a null address never conflicts.\<close>

definition interface_conflict :: "db \<Rightarrow> iface \<Rightarrow> bool" where
  "interface_conflict s r \<longleftrightarrow>
     list_ex (\<lambda>x. if_id x = if_id r \<or> if_device_id x = if_device_id r \<and> if_name x = if_name r \<or>
                  if_mac_address r \<noteq> None \<and> if_mac_address x = if_mac_address r) (interfaces s)"

fun insert_interfaces :: "db \<Rightarrow> iface list \<Rightarrow> db option" where
  "insert_interfaces s [] = Some s"
| "insert_interfaces s (r # rs) =
     (if interface_conflict s r then None else insert_interfaces (s\<lparr>interfaces := interfaces s @ [r]\<rparr>) rs)"

text \<open>The rows the loop over the profiles adds: a name whose identifier exists is skipped, the others take an address each.\<close>

fun profile_ports :: "(ident \<Rightarrow> mac_env) \<Rightarrow> db \<Rightarrow> device \<Rightarrow> (port_profile \<times> string) list \<Rightarrow> iface list \<Rightarrow> mac_state \<Rightarrow> (iface list \<times> mac_state) option" where
  "profile_ports me s d [] new ms = Some (new, ms)"
| "profile_ports me s d ((p, name) # rest) new ms =
     (let k = dev_id d @ ''-'' @ name
      in if get_interface s k \<noteq> None \<or> k \<in> if_id ` set new then profile_ports me s d rest new ms
         else case next_mac (me k) ms of
                None \<Rightarrow> None
              | Some (mac, ms') \<Rightarrow> profile_ports me s d rest (new @ [profile_port d p name mac]) ms')"

definition wanted_ports :: "db \<Rightarrow> device \<Rightarrow> (port_profile \<times> string) list" where
  "wanted_ports s d =
     concat (map (\<lambda>p. map (Pair p) (port_names p)) (filter (\<lambda>p. dev_hardware_model_id d = Some (pp_hardware_model_id p)) (port_profiles s)))"

section \<open>Bridge domains\<close>

definition default_bridge_domain :: "db \<Rightarrow> ident \<Rightarrow> bridge_domain option" where
  "default_bridge_domain s k = find (\<lambda>b. bd_device_id b = k \<and> bd_name b = ''default'') (bridge_domains s)"

definition ensure_bridge_domain :: "db \<Rightarrow> device \<Rightarrow> db" where
  "ensure_bridge_domain s d =
     (if dev_type d \<in> {AON_SWITCH, EDGE_ROUTER} \<and> default_bridge_domain s (dev_id d) = None
      then s\<lparr>bridge_domains := bridge_domains s @ [\<lparr>bd_id = next_row_id (map bd_id (bridge_domains s)), bd_name = ''default'', bd_device_id = dev_id d\<rparr>]\<rparr>
      else s)"

definition join_bridge_domain :: "db \<Rightarrow> device \<Rightarrow> db" where
  "join_bridge_domain s d =
     (case default_bridge_domain s (dev_id d) of
        Some b \<Rightarrow>
          if dev_type d \<in> {AON_SWITCH, EDGE_ROUTER}
          then s\<lparr>interfaces := map (\<lambda>i. if if_device_id i = dev_id d \<and> if_bridge_domain_id i = None then i\<lparr>if_bridge_domain_id := Some (bd_id b)\<rparr> else i) (interfaces s)\<rparr>
          else s
      | None \<Rightarrow> s)"

section \<open>Management address\<close>

definition mgmt_prefix :: "db \<Rightarrow> (vrf \<times> ip_prefix) option" where
  "mgmt_prefix s =
     (case find_vrf s ''mgmt'' of
        None \<Rightarrow> None
      | Some v \<Rightarrow> map_option (Pair v) (find (\<lambda>p. px_vrf_id p = vrf_id v \<and> px_description p = Some ''core_mgmt'') (prefixes s)))"

text \<open>The rows added and the new database; the address is a host of the prefix that the prefix does not hold yet.\<close>

definition allocate_backbone_mgmt :: "v6_text \<Rightarrow> db \<Rightarrow> device \<Rightarrow> device_error + (iface list \<times> db)" where
  "allocate_backbone_mgmt v6 s d =
     (let s1 = ensure_ipam_defaults s; k = dev_id d @ ''-mgmt0''
      in case mgmt_prefix s1 of
           None \<Rightarrow> Inr ([], s1)
         | Some (v, p) \<Rightarrow>
             if list_ex (\<lambda>a. ia_interface_id a = k) (addresses s1) then Inr ([], s1)
             else
               (let new = (if get_interface s1 k = None then [(Interface k (dev_id d) ''mgmt0'')\<lparr>if_role := Some ROLE_MANAGEMENT\<rparr>] else []);
                    s2 = s1\<lparr>interfaces := map (\<lambda>i. if if_id i = k then i\<lparr>if_role := Some ROLE_MANAGEMENT\<rparr> else i) (interfaces s1)\<rparr>
                in case insert_interfaces s2 new of
                     None \<Rightarrow> Inl IntegrityError
                   | Some s3 \<Rightarrow>
                       (case next_free_ip_in_prefix v6 s3 p of
                          Inl _ \<Rightarrow> Inl AddressError
                        | Inr None \<Rightarrow> Inr (new, s3)
                        | Inr (Some (ip, len)) \<Rightarrow>
                            if address_conflict s3 ip (Some (vrf_id v)) (Some (px_id p)) then Inl IntegrityError
                            else Inr (new, s3\<lparr>addresses := addresses s3 @ [\<lparr>ia_id = next_row_id (map ia_id (addresses s3)), ia_interface_id = k,
                                   ia_ip = ip, ia_prefix_len = int len, ia_vrf_id = Some (vrf_id v), ia_prefix_id = Some (px_id p)\<rparr>]\<rparr>))))"

section \<open>Steps the handlers share\<close>

abbreviation dw_db :: "dworld \<Rightarrow> db" where
  "dw_db dw \<equiv> w_db (dw_world dw)"

abbreviation dw_store :: "dworld \<Rightarrow> event_record list" where
  "dw_store dw \<equiv> bus_store (w_bus (dw_world dw))"

definition set_db :: "db \<Rightarrow> dworld \<Rightarrow> dworld" where
  "set_db s dw = dw\<lparr>dw_world := (dw_world dw)\<lparr>w_db := s\<rparr>\<rparr>"

definition commit :: "db \<Rightarrow> event_record list \<Rightarrow> dworld \<Rightarrow> dworld" where
  "commit s st dw = dw\<lparr>dw_world := (dw_world dw)\<lparr>w_db := s, w_bus := (w_bus (dw_world dw))\<lparr>bus_store := st\<rparr>\<rparr>\<rparr>"

text \<open>\<^verbatim>\<open>_append_pending_port_events\<close> and the commit that follows it.\<close>

definition commit_ports :: "'g denv \<Rightarrow> db \<Rightarrow> iface list \<Rightarrow> dworld \<Rightarrow> dworld \<times> device_error option" where
  "commit_ports env s new dw =
     (case append_ports (de_cenv env) (dw_store dw) (ce_pending (de_cenv env) new) of
        Inl m \<Rightarrow> (dw, Some (StoreError m))
      | Inr st \<Rightarrow> (commit s st dw, None))"

definition add_ports :: "'g denv \<Rightarrow> iface list \<Rightarrow> dworld \<Rightarrow> dworld \<times> device_error option" where
  "add_ports env new dw =
     (case insert_interfaces (dw_db dw) new of None \<Rightarrow> (dw, Some IntegrityError) | Some s \<Rightarrow> commit_ports env s new dw)"

text \<open>The ports of the hardware model, then the default bridge domain of a switch for the ports without one.\<close>

definition hardware_ports :: "'g denv \<Rightarrow> device \<Rightarrow> dworld \<Rightarrow> (dworld \<times> device_error option) option" where
  "hardware_ports env d dw =
     (case profile_ports (de_mac env) (dw_db dw) d (wanted_ports (dw_db dw) d) [] (dw_mac dw) of
        None \<Rightarrow> None
      | Some (new, ms) \<Rightarrow>
          (let dw1 = dw\<lparr>dw_mac := ms\<rparr>; (dw2, e) = (if new = [] then (dw1, None) else add_ports env new dw1)
           in Some (case e of Some _ \<Rightarrow> (dw2, e) | None \<Rightarrow> (set_db (join_bridge_domain (dw_db dw2) d) dw2, None))))"

definition default_ports :: "'g denv \<Rightarrow> device \<Rightarrow> dworld \<Rightarrow> (dworld \<times> device_error option) option" where
  "default_ports env d dw =
     (let k = dev_id d @ ''-if0''
      in if dev_type d = SPLITTER
         then (let new = drop (length (interfaces (dw_db dw))) (interfaces (ensure_default_ports_for_splitter (dw_db dw) d (Some DEFAULT_SPLIT_RATIO)))
               in Some (add_ports env new dw))
         else if get_interface (dw_db dw) k \<noteq> None then Some (dw, None)
         else (case next_mac (de_mac env k) (dw_mac dw) of
                 None \<Rightarrow> None
               | Some (mac, ms) \<Rightarrow>
                   Some (add_ports env [(Interface k (dev_id d) ''if0'')\<lparr>if_mac_address := Some mac\<rparr>] (dw\<lparr>dw_mac := ms\<rparr>))))"

definition backbone_mgmt :: "'g denv \<Rightarrow> device \<Rightarrow> dworld \<Rightarrow> dworld \<times> device_error option" where
  "backbone_mgmt env d dw =
     (if dev_type d = BACKBONE_GATEWAY \<and> de_backbone_mgmt env
      then (case allocate_backbone_mgmt (de_v6 env) (dw_db dw) d of
              Inl e \<Rightarrow> (dw, Some e)
            | Inr (new, s) \<Rightarrow> commit_ports env s new dw)
      else (dw, None))"

definition go :: "'g denv \<Rightarrow> go_client \<Rightarrow> go_call \<Rightarrow> dworld \<Rightarrow> dworld" where
  "go env cl c dw = (case go_call (de_cenv env) cl c (dw_world dw) of None \<Rightarrow> dw | Some w \<Rightarrow> dw\<lparr>dw_world := w\<rparr>)"

definition bump :: "dworld \<Rightarrow> int \<times> dworld" where
  "bump dw = (let (tv, w) = Links.bump_version (dw_world dw) in (tv, dw\<lparr>dw_world := w\<rparr>))"

section \<open>Creating a device\<close>

record device_create =
  dc_id :: ident
  dc_name :: string
  dc_type :: DeviceType
  dc_status :: Status
  dc_parent_container_id :: "ident option"
  dc_hardware_model_id :: "int option"

definition placement_error :: "db \<Rightarrow> DeviceType \<Rightarrow> ident option \<Rightarrow> device_error option" where
  "placement_error s t k =
     (let (ok, e) = validate_parent_child s t k
      in if ok then None else Some (UnprocessableError (if truthy e then the e else ''INVALID_PARENT'')))"

definition create_error :: "'g denv \<Rightarrow> db \<Rightarrow> device_create \<Rightarrow> device_error option" where
  "create_error env s p =
     (if get_device s (dc_id p) \<noteq> None then Some (ConflictError ''Device ID already exists'')
      else if dc_type p = BACKBONE_GATEWAY \<and> de_single_backbone env \<and> list_ex (\<lambda>d. dev_type d = BACKBONE_GATEWAY) (devices s)
      then Some (ConflictError ''Backbone gateway already exists (single mode)'')
      else case placement_error s (dc_type p) (dc_parent_container_id p) of
             Some e \<Rightarrow> Some e
           | None \<Rightarrow> Option.bind (dc_hardware_model_id p) (hardware_error s (dc_type p)))"

definition new_device :: "'g denv \<Rightarrow> db \<Rightarrow> device_create \<Rightarrow> device" where
  "new_device env s p =
     catalog_insertion_loss s
       ((Device (dc_id p) (dc_type p))
          \<lparr>dev_name := dc_name p, dev_status := dc_status p, dev_parent_container_id := dc_parent_container_id p,
           dev_hardware_model_id :=
             (if dc_hardware_model_id p = None \<and> de_auto_assign env then default_hardware s (dc_type p) else dc_hardware_model_id p)\<rparr>)"

text \<open>After the row is committed: tariff, bridge domain, ports, management address. The first error ends the request.\<close>

definition equip_device :: "'g denv \<Rightarrow> device \<Rightarrow> dworld \<Rightarrow> (dworld \<times> device_error option) option" where
  "equip_device env d dw =
     (let dw1 = set_db (ensure_bridge_domain (Provisioning.update_device (dw_db dw) d) d) dw
      in case (if dev_hardware_model_id d \<noteq> None then hardware_ports env d dw1 else default_ports env d dw1) of
           None \<Rightarrow> None
         | Some (dw2, Some e) \<Rightarrow> Some (dw2, Some e)
         | Some (dw2, None) \<Rightarrow> Some (backbone_mgmt env d dw2))"

definition insert_device :: "device \<Rightarrow> db \<Rightarrow> db" where
  "insert_device d s = s\<lparr>devices := devices s @ [d]\<rparr>"

definition create_device_impl :: "'g denv \<Rightarrow> dworld \<Rightarrow> device_create \<Rightarrow> (dworld \<times> (device_error + device_out)) option" where
  "create_device_impl env dw p =
     (let s = dw_db dw; ts = ensure_default_tariffs (dw_tariffs dw)
      in case create_error env s p of
           Some e \<Rightarrow> Some (dw, Inl e)
         | None \<Rightarrow>
             (let d = new_device env s p
              in case append_domain_event (dw_store dw) ''DEVICE_CREATED'' (dev_id d)
                        [(''device_type'', JStr (DeviceType_name (dev_type d))), (''name'', JStr (dev_name d)),
                         (''status'', JStr (Status_str (dev_status d)))] None (ce_now (de_cenv env)) of
                   Inl m \<Rightarrow> Some (dw, Inl (StoreError m))
                 | Inr st \<Rightarrow>
                     (let dw1 = snd (bump (commit (insert_device d s) st (dw\<lparr>dw_tariffs := ts\<rparr>)));
                          d1 = assign_tariff ts d
                      in case equip_device env d1 dw1 of
                           None \<Rightarrow> None
                         | Some (dw2, Some e) \<Rightarrow> Some (dw2, Inl e)
                         | Some (dw2, None) \<Rightarrow>
                             (let dw3 = go env (ce_status (de_cenv env)) (PropagateStatus [dev_id d1] []) dw2
                              in Some (dw3, Inr (device_answer env (dw_db dw3) d1))))))"

section \<open>Updating a device\<close>

text \<open>A field is \<open>None\<close> when the request leaves it out and \<open>Some None\<close> when it sends null.\<close>

record device_update =
  du_name :: "string option option"
  du_status :: "Status option option"
  du_parent_container_id :: "ident option option"
  du_slot_id :: "string option option"
  du_properties :: bool
  du_admin_override_status :: "Status option option"
  du_tx_power_dbm :: "pyfloat option option"
  du_sensitivity_min_dbm :: "pyfloat option option"
  du_insertion_loss_db :: "pyfloat option option"
  du_tariff_id :: "int option option"
  du_hardware_model_id :: "int option option"

definition tariff_error :: "tariff_row list \<Rightarrow> DeviceType \<Rightarrow> int \<Rightarrow> device_error option" where
  "tariff_error ts t k =
     (case find (\<lambda>x. tf_id x = k) ts of
        None \<Rightarrow> Some (UnprocessableError ''TARIFF_NOT_FOUND'')
      | Some x \<Rightarrow>
          if required_technology t \<noteq> None \<and> tr_technology x \<noteq> None \<and> tr_technology x \<noteq> required_technology t
          then Some (UnprocessableError ''TARIFF_TECH_MISMATCH'') else None)"

definition first_error :: "device_error option list \<Rightarrow> device_error option" where
  "first_error es = Option.bind (find (\<lambda>e. e \<noteq> None) es) id"

definition update_error :: "dworld \<Rightarrow> device \<Rightarrow> device_update \<Rightarrow> device_error option" where
  "update_error dw d u =
     first_error
       [Option.bind (Option.bind (du_hardware_model_id u) id) (hardware_error (dw_db dw) (dev_type d)),
        Option.bind (du_parent_container_id u) (placement_error (dw_db dw) (dev_type d)),
        Option.bind (Option.bind (du_tariff_id u) id) (tariff_error (dw_tariffs dw) (dev_type d))]"

definition normalise_slot :: "device \<Rightarrow> device_update \<Rightarrow> device_update" where
  "normalise_slot d u =
     (let u = (if du_parent_container_id u = Some None then u\<lparr>du_slot_id := Some None\<rparr> else u)
      in if Option.bind (du_slot_id u) id \<noteq> None \<and> Option.bind (du_parent_container_id u) id = None \<and> dev_parent_container_id d = None
         then u\<lparr>du_slot_id := Some None\<rparr> else u)"

definition changed_fields :: "device_update \<Rightarrow> string list" where
  "changed_fields u =
     (if du_admin_override_status u \<noteq> None then [''admin_override_status''] else []) @
     (if du_hardware_model_id u \<noteq> None then [''hardware_model_id''] else []) @
     (if du_insertion_loss_db u \<noteq> None then [''insertion_loss_db''] else []) @
     (if du_name u \<noteq> None then [''name''] else []) @
     (if du_parent_container_id u \<noteq> None then [''parent_container_id''] else []) @
     (if du_properties u then [''properties''] else []) @
     (if du_sensitivity_min_dbm u \<noteq> None then [''sensitivity_min_dbm''] else []) @
     (if du_slot_id u \<noteq> None then [''slot_id''] else []) @
     (if du_status u \<noteq> None then [''status''] else []) @
     (if du_tariff_id u \<noteq> None then [''tariff_id''] else []) @
     (if du_tx_power_dbm u \<noteq> None then [''tx_power_dbm''] else [])"

text \<open>\<^verbatim>\<open>setattr\<close> for every field sent: \<open>properties\<close> is no field of the model and raises, a null name or status violates the
  column when the row is written.\<close>

definition put :: "'a option \<Rightarrow> 'a \<Rightarrow> 'a" where
  "put x y = (case x of None \<Rightarrow> y | Some v \<Rightarrow> v)"

definition apply_fields :: "device_update \<Rightarrow> device \<Rightarrow> device_error + device" where
  "apply_fields u d =
     (if du_properties u then Inl NoFieldError
      else if du_name u = Some None \<or> du_status u = Some None then Inl IntegrityError
      else Inr (d\<lparr>dev_name := the (put (du_name u) (Some (dev_name d))), dev_status := the (put (du_status u) (Some (dev_status d))),
             dev_parent_container_id := put (du_parent_container_id u) (dev_parent_container_id d),
             dev_slot_id := put (du_slot_id u) (dev_slot_id d),
             dev_admin_override_status := put (du_admin_override_status u) (dev_admin_override_status d),
             dev_tx_power_dbm := put (du_tx_power_dbm u) (dev_tx_power_dbm d),
             dev_sensitivity_min_dbm := put (du_sensitivity_min_dbm u) (dev_sensitivity_min_dbm d),
             dev_insertion_loss_db := put (du_insertion_loss_db u) (dev_insertion_loss_db d),
             dev_tariff_id := put (du_tariff_id u) (dev_tariff_id d),
             dev_hardware_model_id := put (du_hardware_model_id u) (dev_hardware_model_id d)\<rparr>))"

definition status_changed_event :: "'g denv \<Rightarrow> device \<Rightarrow> Status \<Rightarrow> int \<Rightarrow> dworld \<Rightarrow> dworld" where
  "status_changed_event env d st tv dw =
     dw\<lparr>dw_world := emit (de_cenv env) (dw_world dw) ''device.status.changed''
       [(''id'', JStr (dev_id d)), (''status'', JStr (Status_str st)), (''effective_status'', JStr (Status_str st)),
        (''admin_override_status'', jopt (JStr \<circ> Status_str) (dev_admin_override_status d))] tv\<rparr>"

text \<open>After the row is written: ports of a hardware model that was sent, then what the change sets off.\<close>

definition update_ports :: "'g denv \<Rightarrow> device_update \<Rightarrow> device \<Rightarrow> dworld \<Rightarrow> (dworld \<times> device_error option) option" where
  "update_ports env u d dw =
     (if du_hardware_model_id u \<noteq> None \<and> dev_hardware_model_id d \<noteq> None
      then hardware_ports env d (set_db (ensure_bridge_domain (dw_db dw) d) dw)
      else Some (dw, None))"

definition update_effects :: "'g denv \<Rightarrow> device \<Rightarrow> device_out \<Rightarrow> int \<Rightarrow> dworld \<Rightarrow> dworld" where
  "update_effects env before after tv dw =
     (let d = do_device after;
          dw1 = (if dev_status before \<noteq> do_status after \<or> dev_admin_override_status before \<noteq> dev_admin_override_status d
                 then go env (ce_status (de_cenv env)) (PropagateStatus [dev_id d] []) (status_changed_event env d (do_status after) tv dw)
                 else dw)
      in if dev_tx_power_dbm before \<noteq> dev_tx_power_dbm d \<or> dev_sensitivity_min_dbm before \<noteq> dev_sensitivity_min_dbm d \<or>
            dev_insertion_loss_db before \<noteq> dev_insertion_loss_db d
         then go env (ce_optical (de_cenv env)) (RecomputePaths [dev_id d]) dw1 else dw1)"

definition update_device_impl :: "'g denv \<Rightarrow> dworld \<Rightarrow> ident \<Rightarrow> device_update \<Rightarrow> (dworld \<times> (device_error + device_out)) option" where
  "update_device_impl env dw k u =
     (case get_device (dw_db dw) k of
        None \<Rightarrow> Some (dw, Inl LookupError)
      | Some d \<Rightarrow>
          (case update_error dw d u of
             Some e \<Rightarrow> Some (dw, Inl e)
           | None \<Rightarrow>
               (let u = normalise_slot d u
                in case append_domain_event (dw_store dw) ''DEVICE_UPDATED'' (dev_id d)
                          [(''device_type'', JStr (DeviceType_name (dev_type d))),
                           (''changed_fields'', JList (map JStr (changed_fields u)))] None (ce_now (de_cenv env)) of
                     Inl m \<Rightarrow> Some (dw, Inl (StoreError m))
                   | Inr st \<Rightarrow>
                       (case apply_fields u d of
                          Inl e \<Rightarrow> Some (dw, Inl e)
                        | Inr d1 \<Rightarrow>
                            (let (tv, dw1) = bump (commit (Provisioning.update_device (dw_db dw) d1) st dw)
                             in case update_ports env u d1 dw1 of
                                  None \<Rightarrow> None
                                | Some (dw2, Some e) \<Rightarrow> Some (dw2, Inl e)
                                | Some (dw2, None) \<Rightarrow>
                                    (let after = device_answer env (dw_db dw2) d1
                                     in Some (update_effects env d after tv dw2, Inr after)))))))"

section \<open>Deleting a device\<close>

definition links_at :: "db \<Rightarrow> ident \<Rightarrow> ident list" where
  "links_at s i = map ln_id (filter (\<lambda>l. ln_a_interface_id l = i) (links s) @ filter (\<lambda>l. ln_b_interface_id l = i) (links s))"

definition device_ifaces :: "db \<Rightarrow> ident \<Rightarrow> ident list" where
  "device_ifaces s k = map if_id (filter (\<lambda>i. if_device_id i = k) (interfaces s))"

text \<open>One event per link in the order the loop meets it first.\<close>

fun append_deletions :: "string \<Rightarrow> ident \<Rightarrow> event_record list \<Rightarrow> ident list \<Rightarrow> string + event_record list" where
  "append_deletions now k st [] = Inr st"
| "append_deletions now k st (l # ls) =
     (case append_domain_event st ''LINK_DELETED'' l [(''deleted_by_device_id'', JStr k)] None now of
        Inl m \<Rightarrow> Inl m
      | Inr st' \<Rightarrow> append_deletions now k st' ls)"

definition deleted_links :: "db \<Rightarrow> ident \<Rightarrow> ident list" where
  "deleted_links s k = rev (remdups (rev (concat (map (links_at s) (device_ifaces s k)))))"

definition delete_device_rows :: "db \<Rightarrow> ident \<Rightarrow> db" where
  "delete_device_rows s k =
     (let gone = set (device_ifaces s k)
      in s\<lparr>devices := filter (\<lambda>d. dev_id d \<noteq> k) (devices s), interfaces := filter (\<lambda>i. if_id i \<notin> gone) (interfaces s),
           links := filter (\<lambda>l. ln_a_interface_id l \<notin> gone \<and> ln_b_interface_id l \<notin> gone) (links s),
           addresses := filter (\<lambda>a. ia_interface_id a \<notin> gone) (addresses s),
           mac_entries := filter (\<lambda>m. me_interface_id m \<notin> gone) (mac_entries s),
           neighbors := filter (\<lambda>n. nb_interface_id n \<notin> gone) (neighbors s),
           routes := filter (\<lambda>r. case rt_interface_id r of None \<Rightarrow> True | Some i \<Rightarrow> i \<notin> gone) (routes s),
           bridge_domains := filter (\<lambda>b. bd_device_id b \<noteq> k) (bridge_domains s)\<rparr>)"

definition delete_device_records :: "db \<Rightarrow> ident \<Rightarrow> prov_record list \<Rightarrow> prov_record list" where
  "delete_device_records s k rs =
     (let gone = device_ifaces s k
      in if gone = [] then rs else filter (\<lambda>r. pv_device_id r \<noteq> k \<and> pv_interface_id r \<notin> set gone) rs)"

definition delete_device_impl :: "'g denv \<Rightarrow> dworld \<Rightarrow> ident \<Rightarrow> dworld \<times> device_error option" where
  "delete_device_impl env dw k =
     (let s = dw_db dw; now = ce_now (de_cenv env)
      in case get_device s k of
           None \<Rightarrow> (dw, Some LookupError)
         | Some d \<Rightarrow>
             (case append_domain_event (dw_store dw) ''DEVICE_DELETED'' k
                     [(''device_type'', JStr (DeviceType_name (dev_type d))), (''interface_count'', JInt (int (length (device_ifaces s k))))] None now of
                Inl m \<Rightarrow> (dw, Some (StoreError m))
              | Inr st \<Rightarrow>
                  (case append_deletions now k st (deleted_links s k) of
                     Inl m \<Rightarrow> (dw, Some (StoreError m))
                   | Inr st' \<Rightarrow>
                       (snd (bump (commit (delete_device_rows s k) st' (dw\<lparr>dw_records := delete_device_records s k (dw_records dw)\<rparr>))), None))))"

section \<open>Overriding the status of a device\<close>

definition override_value :: "json \<Rightarrow> device_error + Status option" where
  "override_value v =
     (case v of
        JNull \<Rightarrow> Inr None
      | JStr x \<Rightarrow> (case find (\<lambda>st. Status_value st = x) [UP, DOWN, DEGRADED] of None \<Rightarrow> Inl OverrideError | Some st \<Rightarrow> Inr (Some st))
      | JList _ \<Rightarrow> Inl HashError
      | _ \<Rightarrow> Inl OverrideError)"

definition set_device_override_impl :: "'g denv \<Rightarrow> dworld \<Rightarrow> ident \<Rightarrow> json \<Rightarrow> (dworld \<times> (device_error + device_out)) option" where
  "set_device_override_impl env dw k v =
     (case get_device (dw_db dw) k of
        None \<Rightarrow> Some (dw, Inl LookupError)
      | Some d \<Rightarrow>
          (let before = device_status env (dw_db dw) d
           in case override_value v of
                Inl e \<Rightarrow> Some (dw, Inl e)
              | Inr x \<Rightarrow>
                  (case append_domain_event (dw_store dw) ''DEVICE_UPDATED'' (dev_id d)
                          [(''field'', JStr ''admin_override_status''), (''admin_override_status'', v)] None (ce_now (de_cenv env)) of
                     Inl m \<Rightarrow> Some (dw, Inl (StoreError m))
                   | Inr st \<Rightarrow>
                       (let d1 = d\<lparr>dev_admin_override_status := x\<rparr>;
                            (tv, dw1) = bump (commit (Provisioning.update_device (dw_db dw) d1) st dw);
                            after = device_status env (dw_db dw1) d1;
                            dw2 = (if before \<noteq> after then status_changed_event env d1 after tv dw1 else dw1)
                        in case schedule (ce_timer_ok (de_cenv env)) ''devices'' (Some (dev_id d1)) (w_coal (dw_world dw2)) of
                             None \<Rightarrow> None
                           | Some c \<Rightarrow> Some (dw2\<lparr>dw_world := (dw_world dw2)\<lparr>w_coal := c\<rparr>\<rparr>, Inr (device_answer env (dw_db dw2) d1))))))"

section \<open>What keeps the topology well-formed\<close>

text \<open>Links may go, devices and interfaces may come and go, as long as the links that stay see the same end devices.\<close>

definition same_type :: "db \<Rightarrow> db \<Rightarrow> ident \<Rightarrow> bool" where
  "same_type s t k \<longleftrightarrow> get_device s k = None \<or> dtype t k = dtype s k"

definition keeps :: "db \<Rightarrow> db \<Rightarrow> bool" where
  "keeps s t \<longleftrightarrow> wf_db t \<and> (\<exists>Q. links t = filter Q (links s)) \<and>
     (\<forall>l \<in> set (links t). link_ends t l = link_ends s l) \<and>
     (\<forall>l \<in> set (links t). \<forall>x y. link_ends s l = Some (x, y) \<longrightarrow> same_type s t x \<and> same_type s t y) \<and>
     (\<forall>d \<in> set (devices t). get_device s (dev_id d) = None \<or> dtype s (dev_id d) = Some (dev_type d))"

lemma pair_ok_cong: "dev_type a = dev_type a' \<Longrightarrow> dev_type b = dev_type b' \<Longrightarrow> pair_ok a b \<longleftrightarrow> pair_ok a' b'"
proof -
  assume t: "dev_type a = dev_type a'" "dev_type b = dev_type b'"
  have "classify a b = classify a' b'" unfolding classify_def by (intro first_rule_cong matcher_types t) auto
  with t show ?thesis by (simp add: pair_ok_def)
qed

lemma link_ok_ends:
  "link_ok s l \<longleftrightarrow> ln_a_interface_id l < ln_b_interface_id l \<and>
     (\<exists>x y a b. link_ends s l = Some (x, y) \<and> get_device s x = Some a \<and> get_device s y = Some b \<and> pair_ok a b)"
  unfolding link_ok_def owner_def link_ends_def by (auto split: option.splits)

lemma keeps_link:
  assumes "keeps s t" "l \<in> set (links t)" "link_ok s l"
  shows "link_ok t l" "is_upstream_link t d l = is_upstream_link s d l" "odf_link t d l = odf_link s d l"
proof -
  from assms(3) obtain x y a b where e: "link_ends s l = Some (x, y)" "get_device s x = Some a" "get_device s y = Some b" "pair_ok a b"
    "ln_a_interface_id l < ln_b_interface_id l" by (auto simp: link_ok_ends)
  have le: "link_ends t l = Some (x, y)" and dt: "dtype t x = dtype s x" "dtype t y = dtype s y"
    using assms(1,2) e(1-3) unfolding keeps_def same_type_def by auto
  from dt e(2,3) obtain a' b' where "get_device t x = Some a'" "get_device t y = Some b'" "dev_type a' = dev_type a" "dev_type b' = dev_type b"
    by (auto simp: dtype_def)
  with e(4,5) le pair_ok_cong [of a' a b' b] show "link_ok t l" by (auto simp: link_ok_ends)
  show u: "is_upstream_link t d l = is_upstream_link s d l"
    unfolding is_upstream_link_def le e(1) using dt by simp
  show "odf_link t d l = odf_link s d l" unfolding odf_link_def u le e(1) using dt by simp
qed

lemma length_filter_filter: "length (filter P (filter Q xs)) \<le> length (filter P xs)"
  by (induction xs) auto

lemma upstream_end:
  "is_upstream_link s d l \<Longrightarrow> \<exists>x y. link_ends s l = Some (x, y) \<and> dev_id d \<in> {x, y}"
  by (auto simp: is_upstream_link_def split: option.splits)

lemma keeps_inv:
  assumes "keeps s t" "topology_inv s"
  shows "topology_inv t"
proof -
  obtain Q where Q: "links t = filter Q (links s)" using assms(1) by (auto simp: keeps_def)
  have ok: "link_ok s l" if "l \<in> set (links t)" for l using assms(2) that Q by (auto simp: topology_inv_def)
  note kl = keeps_link [OF assms(1) _ ok]
  have up: "filter (is_upstream_link t d) (links t) = filter (is_upstream_link s d) (links t)"
    "filter (odf_link t d) (links t) = filter (odf_link s d) (links t)" for d
    using kl(2,3) by (auto intro!: filter_cong)
  have single: "(dev_type d = ODF \<longrightarrow> length (filter (is_upstream_link s d) (links t)) \<le> 1) \<and>
      (dev_type d \<in> ONT_CLASS \<longrightarrow> length (filter (odf_link s d) (links t)) \<le> 1)" if "d \<in> set (devices t)" for d
  proof (cases "get_device s (dev_id d)")
    case None
    have "\<not> is_upstream_link s d l" if "l \<in> set (links t)" for l
      using ok [OF that] None upstream_end [of s d l] by (auto simp: link_ok_ends)
    then have "filter (is_upstream_link s d) (links t) = []" "filter (odf_link s d) (links t) = []"
      by (auto simp: filter_empty_conv odf_link_def)
    then show ?thesis by simp
  next
    case (Some d')
    with assms(1) that have d': "dev_type d' = dev_type d" "dev_id d' = dev_id d" "d' \<in> set (devices s)"
      by (auto simp: keeps_def dtype_def dest: dev.get_SomeD)
    then have eq1: "is_upstream_link s d = is_upstream_link s d'" by (intro ext) (simp only: is_upstream_link_def)
    have eq: "is_upstream_link s d = is_upstream_link s d'" "odf_link s d = odf_link s d'"
      by (intro ext, simp only: odf_link_def eq1 d')+
    have "(dev_type d' = ODF \<longrightarrow> length (filter (is_upstream_link s d') (links s)) \<le> 1) \<and>
      (dev_type d' \<in> ONT_CLASS \<longrightarrow> length (filter (odf_link s d') (links s)) \<le> 1)"
      using assms(2) d'(3) unfolding topology_inv_def single_upstream_def count_upstream_links_def by blast
    then show ?thesis unfolding eq Q d'(1) using length_filter_filter order_trans by blast
  qed
  have "single_upstream t" unfolding single_upstream_def count_upstream_links_def up using single by blast
  moreover have "wf_db t" using assms(1) by (simp add: keeps_def)
  moreover have "distinct (map (\<lambda>l. (ln_a_interface_id l, ln_b_interface_id l)) (links t))"
    using assms(2) Q by (simp add: topology_inv_def distinct_map_filter)
  ultimately show ?thesis using kl(1) by (simp add: topology_inv_def)
qed


text \<open>References without foreign keys: the owner of an interface and of a bridge domain exists, and so does the interface of an address.\<close>

definition refs_ok :: "db \<Rightarrow> bool" where
  "refs_ok s \<longleftrightarrow> if_device_id ` set (interfaces s) \<subseteq> dev_id ` set (devices s) \<and>
     bd_device_id ` set (bridge_domains s) \<subseteq> dev_id ` set (devices s) \<and>
     ia_interface_id ` set (addresses s) \<subseteq> if_id ` set (interfaces s)"

definition device_inv :: "db \<Rightarrow> bool" where
  "device_inv s \<longleftrightarrow> topology_inv s \<and> refs_ok s"

definition ready :: "device \<Rightarrow> db \<Rightarrow> bool" where
  "ready d s \<longleftrightarrow> device_inv s \<and> dtype s (dev_id d) = Some (dev_type d)"

lemma inv_wf: "device_inv s \<Longrightarrow> wf_db s"
  by (simp add: device_inv_def topology_inv_def)

lemma keeps_device_inv: "device_inv s \<Longrightarrow> keeps s t \<Longrightarrow> refs_ok t \<Longrightarrow> device_inv t"
  by (simp add: device_inv_def keeps_inv)

lemma wf_dtype: "wf_db s \<Longrightarrow> d \<in> set (devices s) \<Longrightarrow> dtype s (dev_id d) = Some (dev_type d)"
  by (simp add: dtype_def wf_db_get_device)

lemma same_topology_keeps:
  assumes "wf_db s" "devices t = devices s" "interfaces t = interfaces s" "links t = links s"
  shows "keeps s t"
proof -
  have "get_device t = get_device s" "get_interface t = get_interface s" using assms by (simp_all add: get_defs fun_eq_iff)
  then have "dtype t = dtype s" "link_ends t = link_ends s" by (simp_all add: dtype_def link_ends_def fun_eq_iff)
  then show ?thesis using assms unfolding keeps_def same_type_def by (auto simp: wf_dtype wf_db_def intro!: exI [of _ "\<lambda>_. True"])
qed

lemma insert_device_keeps:
  assumes "wf_db s" "get_device s (dev_id d) = None"
  shows "keeps s (insert_device d s)"
proof -
  let ?t = "insert_device d s"
  have ifs: "get_interface ?t = get_interface s" by (simp add: insert_device_def get_defs fun_eq_iff)
  have le: "link_ends ?t = link_ends s" by (intro ext) (simp only: link_ends_def ifs)
  have dt: "same_type s ?t x" for x
    by (cases "get_device s x") (simp_all add: same_type_def dtype_def insert_device_def get_device_def find_append)
  have "wf_db ?t" using assms by (auto simp: wf_db_def insert_device_def dev.get_None_iff)
  moreover have "links ?t = filter (\<lambda>_. True) (links s)" by (simp add: insert_device_def)
  moreover have "\<forall>x \<in> set (devices ?t). get_device s (dev_id x) = None \<or> dtype s (dev_id x) = Some (dev_type x)"
    using assms by (auto simp: insert_device_def wf_dtype)
  ultimately show ?thesis unfolding keeps_def le using dt by blast
qed

text \<open>Columns of devices and of interfaces.\<close>

lemma device_columns_keep:
  assumes "\<And>x. x \<in> set (devices s) \<Longrightarrow> dev_id (u x) = dev_id x \<and> dev_type (u x) = dev_type x" "wf_db s"
  shows "keeps s (s\<lparr>devices := map u (devices s)\<rparr>)"
proof -
  let ?t = "s\<lparr>devices := map u (devices s)\<rparr>"
  have ids: "map (dev_id \<circ> u) (devices s) = map dev_id (devices s)" using assms(1) by auto
  have "find (\<lambda>r. dev_id r = k) (map u xs) = map_option u (find (\<lambda>r. dev_id r = k) xs)" if "set xs \<subseteq> set (devices s)" for k xs
    using that by (induction xs) (auto simp: assms(1))
  then have get: "get_device ?t k = map_option u (get_device s k)" for k by (simp add: get_device_def)
  have dt: "dtype ?t = dtype s"
    using assms(1) by (auto simp: fun_eq_iff dtype_def get option.map_comp dest!: dev.get_SomeD intro!: map_option_cong)
  have "get_interface ?t = get_interface s" by (simp add: get_defs fun_eq_iff)
  then have le: "link_ends ?t = link_ends s" by (intro ext) (simp only: link_ends_def)
  have "wf_db ?t" using assms(2) by (simp add: wf_db_def ids)
  moreover have "\<forall>x \<in> set (devices ?t). dtype s (dev_id x) = Some (dev_type x)"
    using assms wf_dtype by auto
  moreover have "links ?t = filter (\<lambda>_. True) (links s)" by simp
  ultimately show ?thesis unfolding keeps_def le same_type_def dt by blast
qed

lemma interface_columns_keep:
  assumes "\<And>x. if_id (f x) = if_id x \<and> if_device_id (f x) = if_device_id x" "wf_db s"
  shows "keeps s (s\<lparr>interfaces := map f (interfaces s)\<rparr>)"
proof -
  let ?t = "s\<lparr>interfaces := map f (interfaces s)\<rparr>"
  have "get_interface ?t k = map_option f (get_interface s k)" for k
    by (simp add: get_interface_def find_map comp_def assms(1))
  then have le: "link_ends ?t l = link_ends s l" for l
    unfolding link_ends_def by (simp add: assms(1) split: option.splits)
  have "get_device ?t = get_device s" by (simp add: get_defs fun_eq_iff)
  then have dt: "dtype ?t = dtype s" by (intro ext) (simp only: dtype_def)
  have "if_id \<circ> f = if_id" using assms(1) by (simp add: fun_eq_iff)
  then have "wf_db ?t" using assms(2) by (simp add: wf_db_def)
  moreover have "\<forall>x \<in> set (devices ?t). dtype s (dev_id x) = Some (dev_type x)" using assms wf_dtype by auto
  moreover have "links ?t = filter (\<lambda>_. True) (links s)" by simp
  ultimately show ?thesis unfolding keeps_def le same_type_def dt by blast
qed


lemma insert_interfaces_SomeD:
  "insert_interfaces s rs = Some t \<Longrightarrow> t = s\<lparr>interfaces := interfaces s @ rs\<rparr> \<and>
     (distinct (map if_id (interfaces s)) \<longrightarrow> distinct (map if_id (interfaces s @ rs)))"
proof (induction rs arbitrary: s)
  case (Cons r rs)
  then have fresh: "if_id r \<notin> if_id ` set (interfaces s)"
    by (auto simp: interface_conflict_def list_ex_iff split: if_splits)
  show ?case using Cons.IH [of "s\<lparr>interfaces := interfaces s @ [r]\<rparr>"] Cons.prems fresh by (auto split: if_splits)
qed simp

lemma insert_interfaces_keeps:
  assumes "insert_interfaces s rs = Some t" "device_inv s"
  shows "keeps s t"
proof -
  note t = insert_interfaces_SomeD [OF assms(1)]
  have wf: "wf_db s" using assms(2) by (rule inv_wf)
  have t': "t = s\<lparr>interfaces := interfaces s @ rs\<rparr>" using t by blast
  have "get_interface t k = get_interface s k" if "get_interface s k \<noteq> None" for k
    using that by (auto simp: t' get_interface_def find_append)
  then have le: "link_ends t l = link_ends s l" if "l \<in> set (links t)" for l
  proof -
    have "link_ok s l" using assms(2) that by (simp add: device_inv_def topology_inv_def t')
    then have "get_interface s (ln_a_interface_id l) \<noteq> None" "get_interface s (ln_b_interface_id l) \<noteq> None"
      by (auto simp: link_ok_def owner_def split: option.splits)
    with \<open>\<And>k. get_interface s k \<noteq> None \<Longrightarrow> get_interface t k = get_interface s k\<close> show ?thesis by (simp add: link_ends_def)
  qed
  have "get_device t = get_device s" by (simp add: t' get_defs fun_eq_iff)
  then have dt: "dtype t = dtype s" by (intro ext) (simp only: dtype_def)
  have "wf_db t" using wf t by (auto simp: wf_db_def)
  moreover have "\<forall>x \<in> set (devices t). dtype s (dev_id x) = Some (dev_type x)" using wf wf_dtype by (auto simp: t')
  moreover have "links t = filter (\<lambda>_. True) (links s)" by (simp add: t')
  ultimately show ?thesis unfolding keeps_def same_type_def dt using le by blast
qed

lemma find_filter_same: "(\<And>x. P x \<Longrightarrow> Q x) \<Longrightarrow> find P (filter Q xs) = find P xs"
  by (induction xs) auto

lemma delete_device_keeps:
  assumes "device_inv s"
  shows "keeps s (delete_device_rows s k)"
proof -
  let ?t = "delete_device_rows s k" and ?gone = "set (device_ifaces s k)"
  note wf = inv_wf [OF assms]
  have gi: "get_interface ?t i = get_interface s i" if "i \<notin> ?gone" for i
    using that unfolding get_interface_def delete_device_rows_def Let_def by (simp, intro find_filter_same) blast
  have gd: "get_device ?t x = get_device s x" if "x \<noteq> k" for x
    using that unfolding get_device_def delete_device_rows_def Let_def by (simp, intro find_filter_same) blast
  have gone: "if_device_id r \<noteq> k" if "get_interface s i = Some r" "i \<notin> ?gone" for i r
    using that ifc.get_SomeD [OF that(1)] by (auto simp: device_ifaces_def)
  have ends: "link_ends ?t l = link_ends s l \<and> (\<forall>x y. link_ends s l = Some (x, y) \<longrightarrow> x \<noteq> k \<and> y \<noteq> k)" if "l \<in> set (links ?t)" for l
  proof -
    have "ln_a_interface_id l \<notin> ?gone" "ln_b_interface_id l \<notin> ?gone"
      using that by (auto simp: delete_device_rows_def Let_def)
    then show ?thesis using gone unfolding link_ends_def by (auto simp: gi split: option.splits)
  qed
  have "same_type s ?t x" if "x \<noteq> k" for x using gd [OF that] by (simp add: same_type_def dtype_def)
  with ends have "\<forall>l \<in> set (links ?t). \<forall>x y. link_ends s l = Some (x, y) \<longrightarrow> same_type s ?t x \<and> same_type s ?t y" by blast
  moreover have "wf_db ?t" using wf by (simp add: wf_db_def delete_device_rows_def Let_def distinct_map_filter)
  moreover have "\<exists>Q. links ?t = filter Q (links s)" by (auto simp: delete_device_rows_def Let_def)
  moreover have "\<forall>x \<in> set (devices ?t). dtype s (dev_id x) = Some (dev_type x)"
    using wf wf_dtype by (auto simp: delete_device_rows_def Let_def)
  ultimately show ?thesis unfolding keeps_def using ends by blast
qed


section \<open>The steps keep the invariant\<close>

named_theorems ready_steps \<open>steps that keep the invariant and the device\<close>

lemma ready_keeps:
  "ready d s \<Longrightarrow> keeps s t \<Longrightarrow> refs_ok t \<Longrightarrow> dtype t (dev_id d) = dtype s (dev_id d) \<Longrightarrow> ready d t"
  unfolding ready_def by (metis keeps_device_inv)

lemma dtype_cong: "devices t = devices s \<Longrightarrow> dtype t k = dtype s k"
  by (simp add: dtype_def get_device_def)

lemma dtype_member: "dtype s k = Some t \<Longrightarrow> k \<in> dev_id ` set (devices s)"
  by (auto simp: dtype_def dest: dev.get_SomeD)

lemma ready_inv: "ready d s \<Longrightarrow> device_inv s"
  by (simp add: ready_def)

lemma ready_refs: "ready d s \<Longrightarrow> refs_ok s \<and> wf_db s"
  by (simp add: ready_def device_inv_def topology_inv_def)

lemma ready_device_columns:
  assumes "\<And>x. x \<in> set (devices s) \<Longrightarrow> dev_id (u x) = dev_id x \<and> dev_type (u x) = dev_type x" "ready d s"
  shows "ready d (s\<lparr>devices := map u (devices s)\<rparr>)"
proof (rule ready_keeps [OF assms(2) device_columns_keep [OF assms(1)]])
  have ids: "dev_id ` u ` set (devices s) = dev_id ` set (devices s)" using assms(1) by (auto simp: image_iff)
  have "find (\<lambda>r. dev_id r = k) (map u xs) = map_option u (find (\<lambda>r. dev_id r = k) xs)" if "set xs \<subseteq> set (devices s)" for k xs
    using that by (induction xs) (auto simp: assms(1))
  then show "dtype (s\<lparr>devices := map u (devices s)\<rparr>) (dev_id d) = dtype s (dev_id d)"
    using assms(1) by (auto simp: dtype_def get_device_def option.map_comp dest!: find_SomeD intro!: map_option_cong)
  show "refs_ok (s\<lparr>devices := map u (devices s)\<rparr>)" using ready_refs [OF assms(2)] by (simp add: refs_ok_def ids)
qed (use ready_refs [OF assms(2)] in auto)

lemma ready_interface_columns:
  assumes "\<And>x. if_id (f x) = if_id x \<and> if_device_id (f x) = if_device_id x" "ready d s"
  shows "ready d (s\<lparr>interfaces := map f (interfaces s)\<rparr>)"
proof (rule ready_keeps [OF assms(2) interface_columns_keep [OF assms(1)]])
  have "if_id ` f ` A = if_id ` A" "if_device_id ` f ` A = if_device_id ` A" for A using assms(1) by (auto simp: image_iff)
  then show "refs_ok (s\<lparr>interfaces := map f (interfaces s)\<rparr>)" using ready_refs [OF assms(2)] by (simp add: refs_ok_def)
  show "dtype (s\<lparr>interfaces := map f (interfaces s)\<rparr>) (dev_id d) = dtype s (dev_id d)" by (rule dtype_cong) simp
qed (use ready_refs [OF assms(2)] in auto)

lemma ready_same_topology:
  assumes "ready d s" "devices t = devices s" "interfaces t = interfaces s" "links t = links s" "refs_ok t"
  shows "ready d t"
  using ready_keeps [OF assms(1) same_topology_keeps [OF _ assms(2-4)] assms(5)] ready_refs [OF assms(1)] dtype_cong [OF assms(2)] by simp

lemma ready_update [ready_steps]:
  assumes "ready d s" "dtype s (dev_id d1) = Some (dev_type d1)"
  shows "ready d (Provisioning.update_device s d1)"
  unfolding Provisioning.update_device_def
proof (rule ready_device_columns [OF _ assms(1)])
  fix x assume "x \<in> set (devices s)"
  with assms(2) ready_refs [OF assms(1)] wf_dtype [of s x]
  show "dev_id (if dev_id x = dev_id d1 then d1 else x) = dev_id x \<and> dev_type (if dev_id x = dev_id d1 then d1 else x) = dev_type x" by auto
qed

lemma ready_bridge [ready_steps]: "ready d s \<Longrightarrow> ready d (ensure_bridge_domain s d)"
  using ready_refs [of d s]
  by (auto simp: ensure_bridge_domain_def refs_ok_def intro!: ready_same_topology [of d s]) (auto simp: ready_def intro: dtype_member)

lemma ready_join [ready_steps]: "ready d s \<Longrightarrow> ready d (join_bridge_domain s d)"
  by (auto simp: join_bridge_domain_def split: option.splits intro!: ready_interface_columns)

lemma ready_insert_interfaces:
  assumes "insert_interfaces s rs = Some t" "ready d s" "\<forall>r \<in> set rs. if_device_id r = dev_id d"
  shows "ready d t"
proof -
  have t: "t = s\<lparr>interfaces := interfaces s @ rs\<rparr>" using insert_interfaces_SomeD [OF assms(1)] by blast
  have "refs_ok t" using ready_refs [OF assms(2)] assms(2,3) by (auto simp: t refs_ok_def ready_def intro: dtype_member)
  moreover have "dtype t (dev_id d) = dtype s (dev_id d)" unfolding t by (rule dtype_cong) simp
  ultimately show ?thesis using ready_keeps [OF assms(2) insert_interfaces_keeps [OF assms(1) ready_inv [OF assms(2)]]] by blast
qed

lemma profile_ports_device:
  assumes "profile_ports me s d xs new ms = Some (rs, ms')" "\<forall>r \<in> set new. if_device_id r = dev_id d"
  shows "\<forall>r \<in> set rs. if_device_id r = dev_id d"
  using assms
proof (induction me s d xs new ms rule: profile_ports.induct)
  case (2 me s d p name rest new ms)
  then show ?case by (auto simp: Let_def profile_port_def Interface_def split: if_splits option.splits)
qed simp

lemma commit_dw [simp]: "dw_db (commit s st dw) = s" "dw_mac (commit s st dw) = dw_mac dw" "dw_tariffs (commit s st dw) = dw_tariffs dw"
  by (simp_all add: commit_def)

lemma set_db_dw [simp]: "dw_db (set_db s dw) = s" "dw_mac (set_db s dw) = dw_mac dw" "dw_store (set_db s dw) = dw_store dw"
  by (simp_all add: set_db_def)

lemma bump_dw [simp]: "dw_db (snd (bump dw)) = dw_db dw" "dw_mac (snd (bump dw)) = dw_mac dw"
  by (simp_all add: bump_def Links.bump_version_def)

lemma commit_ports_ready:
  "commit_ports env s new dw = (dw', e) \<Longrightarrow> ready d (dw_db dw) \<Longrightarrow> ready d s \<Longrightarrow> ready d (dw_db dw')"
  by (auto simp: commit_ports_def split: sum.splits)

lemma add_ports_ready:
  assumes "add_ports env new dw = (dw', e)" "ready d (dw_db dw)" "\<forall>r \<in> set new. if_device_id r = dev_id d"
  shows "ready d (dw_db dw')"
  using assms ready_insert_interfaces commit_ports_ready by (auto simp: add_ports_def split: option.splits) blast

lemma hardware_ports_ready:
  assumes "hardware_ports env d dw = Some (dw', e)" "ready d (dw_db dw)"
  shows "ready d (dw_db dw')"
proof -
  from assms(1) obtain new ms where p: "profile_ports (de_mac env) (dw_db dw) d (wanted_ports (dw_db dw) d) [] (dw_mac dw) = Some (new, ms)"
    by (auto simp: hardware_ports_def split: option.splits)
  have new: "\<forall>r \<in> set new. if_device_id r = dev_id d" using profile_ports_device [OF p] by simp
  obtain dw2 e2 where a: "(if new = [] then (dw\<lparr>dw_mac := ms\<rparr>, None) else add_ports env new (dw\<lparr>dw_mac := ms\<rparr>)) = (dw2, e2)" by fastforce
  then have "ready d (dw_db dw2)" using assms(2) add_ports_ready [OF _ _ new, of env "dw\<lparr>dw_mac := ms\<rparr>"] by (auto split: if_splits)
  with assms(1) show ?thesis unfolding hardware_ports_def p option.case prod.case Let_def a by (auto simp: ready_join split: option.splits)
qed


lemma default_ports_ready:
  assumes "default_ports env d dw = Some (dw', e)" "ready d (dw_db dw)"
  shows "ready d (dw_db dw')"
proof (cases "dev_type d = SPLITTER")
  case True
  let ?new = "drop (length (interfaces (dw_db dw))) (interfaces (ensure_default_ports_for_splitter (dw_db dw) d (Some DEFAULT_SPLIT_RATIO)))"
  have "\<forall>r \<in> set ?new. if_device_id r = dev_id d"
    by (auto simp: ensure_default_ports_for_splitter_def Let_def Interface_def True)
  from add_ports_ready [OF _ assms(2) this] assms(1) True show ?thesis by (simp add: default_ports_def)
next
  case False
  with assms show ?thesis
    by (auto simp: default_ports_def Let_def Interface_def split: if_splits option.splits dest!: add_ports_ready [where d = d])
qed

lemma ensure_prefix_tables:
  "devices (ensure_prefix m s x) = devices s" "interfaces (ensure_prefix m s x) = interfaces s" "links (ensure_prefix m s x) = links s"
  "addresses (ensure_prefix m s x) = addresses s" "bridge_domains (ensure_prefix m s x) = bridge_domains s"
  by (cases x, simp add: ensure_prefix_def add_prefix_def Let_def split: option.splits)+

lemma ensure_prefixes_tables:
  "devices (foldl (ensure_prefix m) s xs) = devices s" "interfaces (foldl (ensure_prefix m) s xs) = interfaces s"
  "links (foldl (ensure_prefix m) s xs) = links s" "addresses (foldl (ensure_prefix m) s xs) = addresses s"
  "bridge_domains (foldl (ensure_prefix m) s xs) = bridge_domains s"
  by (induction xs arbitrary: s) (simp_all add: ensure_prefix_tables)

lemma ensure_vrf_frame:
  "devices (ensure_vrf s n) = devices s" "interfaces (ensure_vrf s n) = interfaces s" "links (ensure_vrf s n) = links s"
  "addresses (ensure_vrf s n) = addresses s" "bridge_domains (ensure_vrf s n) = bridge_domains s"
  by (simp_all add: ensure_vrf_def add_vrf_def)

lemma ready_ipam_defaults: "ready d s \<Longrightarrow> ready d (ensure_ipam_defaults s)"
  using ready_refs [of d s]
  by (auto simp: ensure_ipam_defaults_def Let_def ensure_prefixes_tables ensure_vrf_frame refs_ok_def intro!: ready_same_topology [of d s])

lemma allocate_backbone_mgmt_ready:
  assumes "allocate_backbone_mgmt v6 s d = Inr (new, t)" "ready d s"
  shows "ready d t"
proof -
  define s1 where "s1 = ensure_ipam_defaults s"
  define k where "k = dev_id d @ ''-mgmt0''"
  define new' where "new' = (if get_interface s1 k = None then [(Interface k (dev_id d) ''mgmt0'')\<lparr>if_role := Some ROLE_MANAGEMENT\<rparr>] else [])"
  define s2 where "s2 = s1\<lparr>interfaces := map (\<lambda>i. if if_id i = k then i\<lparr>if_role := Some ROLE_MANAGEMENT\<rparr> else i) (interfaces s1)\<rparr>"
  have r1: "ready d s1" unfolding s1_def using assms(2) by (rule ready_ipam_defaults)
  have r2: "ready d s2" unfolding s2_def by (rule ready_interface_columns [OF _ r1]) simp
  have own: "\<forall>r \<in> set new'. if_device_id r = dev_id d" by (simp add: new'_def Interface_def)
  from assms(1) consider "t = s1"
    | s3 where "insert_interfaces s2 new' = Some s3" "t = s3"
    | s3 a where "insert_interfaces s2 new' = Some s3" "t = s3\<lparr>addresses := addresses s3 @ [a]\<rparr>" "ia_interface_id a = k"
    unfolding allocate_backbone_mgmt_def s1_def [symmetric] k_def [symmetric] new'_def [symmetric] s2_def [symmetric] Let_def
    by (auto split: option.splits if_splits sum.splits)
  then show ?thesis
  proof cases
    case 1
    with r1 show ?thesis by simp
  next
    case 2
    then show ?thesis using ready_insert_interfaces [OF _ r2 own] by simp
  next
    case (3 s3 a)
    have r3: "ready d s3" using ready_insert_interfaces [OF 3(1) r2 own] .
    have ifs: "interfaces s3 = interfaces s2 @ new'" using insert_interfaces_SomeD [OF 3(1)] by simp
    have ids: "map if_id (interfaces s2) = map if_id (interfaces s1)" by (simp add: s2_def)
    have "k \<in> set (map if_id (interfaces s3))"
    proof (cases "get_interface s1 k")
      case None
      then show ?thesis by (simp add: ifs new'_def Interface_def)
    next
      case (Some r)
      then have "k \<in> set (map if_id (interfaces s1))" by (auto dest: ifc.get_SomeD)
      then show ?thesis unfolding ifs map_append ids by simp
    qed
    then have "refs_ok t" using ready_refs [OF r3] 3(2,3) by (auto simp: refs_ok_def)
    then show ?thesis using ready_same_topology [OF r3, of t] 3(2) by simp
  qed
qed

lemma backbone_mgmt_ready:
  assumes "backbone_mgmt env d dw = (dw', e)" "ready d (dw_db dw)"
  shows "ready d (dw_db dw')"
  using assms by (auto simp: backbone_mgmt_def split: if_splits sum.splits prod.splits dest: commit_ports_ready allocate_backbone_mgmt_ready)

lemma equip_device_ready:
  assumes "equip_device env d dw = Some (dw', e)" "ready d (dw_db dw)"
  shows "ready d (dw_db dw')"
proof -
  let ?dw1 = "set_db (ensure_bridge_domain (Provisioning.update_device (dw_db dw) d) d) dw"
  have "dtype (dw_db dw) (dev_id d) = Some (dev_type d)" using assms(2) by (simp add: ready_def)
  then have r1: "ready d (dw_db ?dw1)" using ready_steps assms(2) by simp
  from assms(1) obtain dw2 e2 where p: "(if dev_hardware_model_id d \<noteq> None then hardware_ports env d ?dw1 else default_ports env d ?dw1) = Some (dw2, e2)"
    and rest: "Some (dw', e) = (case e2 of Some e \<Rightarrow> Some (dw2, Some e) | None \<Rightarrow> Some (backbone_mgmt env d dw2))"
    by (auto simp: equip_device_def Let_def split: option.splits)
  then have "hardware_ports env d ?dw1 = Some (dw2, e2) \<or> default_ports env d ?dw1 = Some (dw2, e2)" by metis
  then have r2: "ready d (dw_db dw2)" using hardware_ports_ready [OF _ r1] default_ports_ready [OF _ r1] by blast
  with rest show ?thesis by (auto split: option.splits dest: backbone_mgmt_ready [OF sym])
qed


lemma go_ready:
  assumes "go_frame (ce_go (de_cenv env))" "ready d (dw_db dw)"
  shows "ready d (dw_db (go env cl c dw))"
proof -
  have "ready d (ce_go (de_cenv env) c s)" if r: "ready d s" for s
  proof -
    from assms(1) obtain u where "\<forall>x. dev_id (u x) = dev_id x \<and> dev_type (u x) = dev_type x"
      "ce_go (de_cenv env) c s = s\<lparr>devices := map u (devices s)\<rparr>" unfolding go_frame_def by blast
    with ready_device_columns [OF _ r, of u] show ?thesis by simp
  qed
  then show ?thesis using assms(2) by (auto simp: go_def go_call_def split: go_client.splits)
qed

lemma catalog_loss_id [simp]: "dev_id (catalog_insertion_loss s d) = dev_id d" "dev_type (catalog_insertion_loss s d) = dev_type d"
  by (auto simp: catalog_insertion_loss_def split: option.splits)

lemma new_device_id [simp]: "dev_id (new_device env s p) = dc_id p" "dev_type (new_device env s p) = dc_type p"
  by (simp_all add: new_device_def Device_def)

lemma assign_tariff_id [simp]: "dev_id (assign_tariff ts d) = dev_id d" "dev_type (assign_tariff ts d) = dev_type d"
  by (auto simp: assign_tariff_def split: option.splits list.splits)

lemma insert_device_ready:
  assumes "device_inv s" "get_device s (dev_id d) = None" "dev_id d1 = dev_id d" "dev_type d1 = dev_type d"
  shows "ready d1 (insert_device d s)"
proof -
  have dt: "dtype (insert_device d s) (dev_id d1) = Some (dev_type d1)"
    using assms(2,3,4) by (simp add: dtype_def insert_device_def get_device_def find_append)
  have "refs_ok (insert_device d s)" using assms(1) by (auto simp: device_inv_def refs_ok_def insert_device_def)
  with keeps_device_inv [OF assms(1) insert_device_keeps [OF inv_wf [OF assms(1)] assms(2)]] dt
  show ?thesis by (simp add: ready_def)
qed

lemma create_device_inv:
  assumes "create_device_impl env dw p = Some (dw', r)" "device_inv (dw_db dw)" "go_frame (ce_go (de_cenv env))"
  shows "device_inv (dw_db dw')"
proof (cases "create_error env (dw_db dw) p")
  case (Some e)
  with assms show ?thesis by (simp add: create_device_impl_def)
next
  case None
  then have fresh: "get_device (dw_db dw) (dev_id (new_device env (dw_db dw) p)) = None"
    by (auto simp: create_error_def split: if_splits)
  define d where "d = new_device env (dw_db dw) p"
  define d1 where "d1 = assign_tariff (ensure_default_tariffs (dw_tariffs dw)) d"
  have eq: "dev_id d1 = dev_id d" "dev_type d1 = dev_type d" by (simp_all add: d1_def)
  show ?thesis
  proof (cases "append_domain_event (dw_store dw) ''DEVICE_CREATED'' (dev_id d)
                        [(''device_type'', JStr (DeviceType_name (dev_type d))), (''name'', JStr (dev_name d)),
                         (''status'', JStr (Status_str (dev_status d)))] None (ce_now (de_cenv env))")
    case (Inl m)
    with assms None show ?thesis by (simp add: create_device_impl_def d_def [symmetric] Let_def)
  next
    case (Inr st)
    define dw1 where "dw1 = snd (bump (commit (insert_device d (dw_db dw)) st (dw\<lparr>dw_tariffs := ensure_default_tariffs (dw_tariffs dw)\<rparr>)))"
    have db1: "dw_db dw1 = insert_device d (dw_db dw)" by (simp add: dw1_def)
    have r1: "ready d1 (dw_db dw1)" unfolding db1 by (rule insert_device_ready [OF assms(2) fresh [folded d_def] eq])
    from assms(1) obtain dw2 e where eq2: "equip_device env d1 dw1 = Some (dw2, e)"
      and dw': "dw' = (case e of None \<Rightarrow> go env (ce_status (de_cenv env)) (PropagateStatus [dev_id d1] []) dw2 | Some _ \<Rightarrow> dw2)"
      unfolding create_device_impl_def Let_def None option.case d_def [symmetric] Inr sum.case dw1_def [symmetric] d1_def [symmetric]
      by (auto split: option.splits)
    have "ready d1 (dw_db dw2)" using equip_device_ready [OF eq2 r1] .
    then have "ready d1 (dw_db dw')" using go_ready [OF assms(3)] by (auto simp: dw' split: option.splits)
    then show ?thesis by (rule ready_inv)
  qed
qed


lemma apply_fields_id: "apply_fields u d = Inr d1 \<Longrightarrow> dev_id d1 = dev_id d \<and> dev_type d1 = dev_type d"
  by (auto simp: apply_fields_def split: if_splits)

lemma status_changed_dw [simp]: "dw_db (status_changed_event env d st tv dw) = dw_db dw"
  by (simp add: status_changed_event_def)

lemma update_effects_ready:
  "go_frame (ce_go (de_cenv env)) \<Longrightarrow> ready d (dw_db dw) \<Longrightarrow> ready d (dw_db (update_effects env before after tv dw))"
  by (simp add: update_effects_def Let_def go_ready)

lemma update_ports_ready:
  assumes "update_ports env u d dw = Some (dw', e)" "ready d (dw_db dw)"
  shows "ready d (dw_db dw')"
proof (cases "du_hardware_model_id u \<noteq> None \<and> dev_hardware_model_id d \<noteq> None")
  case True
  have "ready d (dw_db (set_db (ensure_bridge_domain (dw_db dw) d) dw))" using assms(2) by (simp add: ready_bridge)
  from hardware_ports_ready [OF _ this] assms(1) True show ?thesis unfolding update_ports_def by (metis (full_types))
next
  case False
  with assms show ?thesis unfolding update_ports_def by auto
qed

lemma written_ready:
  assumes "device_inv (dw_db dw)" "get_device (dw_db dw) k = Some d" "dev_id d1 = dev_id d" "dev_type d1 = dev_type d"
    "bump (commit (Provisioning.update_device (dw_db dw) d1) st dw) = (tv, dw1)"
  shows "ready d1 (dw_db dw1)"
proof -
  have db: "dw_db dw1 = Provisioning.update_device (dw_db dw) d1"
    using bump_dw(1) [of "commit (Provisioning.update_device (dw_db dw) d1) st dw"] by (simp add: assms(5))
  have d: "d \<in> set (devices (dw_db dw))" using assms(2) by (auto dest: dev.get_SomeD)
  have dt: "dtype (dw_db dw) (dev_id d1) = Some (dev_type d1)" using wf_dtype [OF inv_wf [OF assms(1)] d] assms(3,4) by simp
  have "ready d1 (dw_db dw)" using assms(1) dt by (simp add: ready_def)
  from ready_update [OF this dt] show ?thesis by (simp add: db)
qed

lemma update_device_inv:
  assumes "update_device_impl env dw k u = Some (dw', r)" "device_inv (dw_db dw)" "go_frame (ce_go (de_cenv env))"
  shows "device_inv (dw_db dw')"
proof -
  consider "dw' = dw"
    | d u' st d1 e tv dw1 where "get_device (dw_db dw) k = Some d" "apply_fields u' d = Inr d1"
      "bump (commit (Provisioning.update_device (dw_db dw) d1) st dw) = (tv, dw1)" "update_ports env u' d1 dw1 = Some (dw', e)"
    | d u' st d1 e tv dw1 dw2 after where "get_device (dw_db dw) k = Some d" "apply_fields u' d = Inr d1"
      "bump (commit (Provisioning.update_device (dw_db dw) d1) st dw) = (tv, dw1)" "update_ports env u' d1 dw1 = Some (dw2, e)"
      "dw' = update_effects env d after tv dw2"
    using assms(1) unfolding update_device_impl_def Let_def
    by (auto split: option.splits sum.splits prod.splits)
  then show ?thesis
  proof cases
    case 1
    with assms(2) show ?thesis by simp
  next
    case (2 d u' st d1 e tv dw1)
    then show ?thesis
      using update_ports_ready [OF 2(4) written_ready [OF assms(2) 2(1) _ _ 2(3)]] apply_fields_id [OF 2(2)] by (simp add: ready_def)
  next
    case (3 d u' st d1 e tv dw1 dw2 after)
    have "ready d1 (dw_db dw2)"
      using update_ports_ready [OF 3(4) written_ready [OF assms(2) 3(1) _ _ 3(3)]] apply_fields_id [OF 3(2)] by simp
    from update_effects_ready [OF assms(3) this] show ?thesis unfolding 3(5) by (rule ready_inv)
  qed
qed

lemma override_device_inv:
  assumes "set_device_override_impl env dw k v = Some (dw', r)" "device_inv (dw_db dw)"
  shows "device_inv (dw_db dw')"
proof -
  consider "dw' = dw"
    | d x st tv dw1 where "get_device (dw_db dw) k = Some d"
      "bump (commit (Provisioning.update_device (dw_db dw) (d\<lparr>dev_admin_override_status := x\<rparr>)) st dw) = (tv, dw1)" "dw_db dw' = dw_db dw1"
    using assms(1) unfolding set_device_override_impl_def Let_def
    by (auto split: option.splits sum.splits prod.splits if_splits)
  then show ?thesis
  proof cases
    case (2 d x st tv dw1)
    from written_ready [OF assms(2) 2(1) _ _ 2(2)] 2(3) show ?thesis by (simp add: ready_def)
  qed (use assms(2) in simp)
qed

lemma delete_rows_inv:
  assumes "device_inv s"
  shows "device_inv (delete_device_rows s k)"
proof (rule keeps_device_inv [OF assms delete_device_keeps [OF assms]])
  have "refs_ok s" using assms by (simp add: device_inv_def)
  then show "refs_ok (delete_device_rows s k)"
    by (auto simp: refs_ok_def delete_device_rows_def Let_def device_ifaces_def image_subset_iff) blast+
qed

lemma delete_device_inv:
  assumes "delete_device_impl env dw k = (dw', e)" "device_inv (dw_db dw)"
  shows "device_inv (dw_db dw')"
  using assms delete_rows_inv by (auto simp: delete_device_impl_def Let_def split: option.splits sum.splits)


section \<open>Links\<close>

lemma refs_add_interface:
  "refs_ok s \<Longrightarrow> get_device s (if_device_id r) \<noteq> None \<Longrightarrow> refs_ok (s\<lparr>interfaces := interfaces s @ [r]\<rparr>)"
  unfolding refs_ok_def dev.get_None_iff by auto

lemma default_interface_refs:
  "ensure_default_interface s i mac = (x, t) \<Longrightarrow> refs_ok s \<Longrightarrow> refs_ok t"
  unfolding ensure_default_interface_def Let_def
  by (auto split: option.splits if_splits intro!: refs_add_interface) (simp add: Interface_def dev.get_key)

lemma medium_refs: "refs_ok (add_medium s m) = refs_ok s"
  by (simp add: add_medium_def refs_ok_def split: prod.splits)

lemma media_refs: "refs_ok (ensure_physical_media s) = refs_ok s"
  by (simp add: ensure_physical_media_def desired_media_def medium_refs)

lemma pick_default_refs:
  "pick_default_physical_medium_id md5 s k a b = (x, t) \<Longrightarrow> refs_ok t = refs_ok s"
  by (auto simp: pick_default_physical_medium_id_def Let_def media_refs split: if_splits prod.splits)

lemma prepare_link_refs:
  assumes "prepare_link env s p a b = Inr pr" "refs_ok s"
  shows "refs_ok (pr_db pr)"
proof -
  obtain a_if s1 where e1: "ensure_default_interface s (lc_a_interface_id p) (ce_mac_a env) = (a_if, s1)" by fastforce
  obtain b_if s2 where e2: "ensure_default_interface s1 (lc_b_interface_id p) (ce_mac_b env) = (b_if, s2)" by fastforce
  obtain x y c u where ids: "link_ids (lc_a_interface_id p) (lc_b_interface_id p) = (x, y, c, u)" by (metis prod_cases4)
  obtain sel s3 where pick: "(if lc_physical_medium_id p = None
      then pick_default_physical_medium_id (ce_md5 env) s2 (lc_id p) a b else (None, s2)) = (sel, s3)" by fastforce
  have "refs_ok s2" using default_interface_refs [OF e2 default_interface_refs [OF e1 assms(2)]] .
  then have "refs_ok s3" using pick pick_default_refs by (auto split: if_splits)
  moreover from assms(1) have "\<exists>row. pr_db pr = add_link s3 row"
    unfolding prepare_link_def e1 e2 ids pick Let_def prod.case by (auto split: option.splits if_splits)
  moreover have "refs_ok (add_link s3 row) = refs_ok s3" for row by (simp add: add_link_def refs_ok_def)
  ultimately show ?thesis by metis
qed

lemma go_refs: "go_frame g \<Longrightarrow> refs_ok s \<Longrightarrow> refs_ok (g c s)"
proof -
  assume g: "go_frame g" and s: "refs_ok s"
  from g obtain u where u: "\<forall>x. dev_id (u x) = dev_id x" "g c s = s\<lparr>devices := map u (devices s)\<rparr>" unfolding go_frame_def by blast
  have "dev_id ` u ` A = dev_id ` A" for A using u(1) by (auto simp: image_iff)
  with s show ?thesis by (simp add: u(2) refs_ok_def)
qed

lemma go_call_refs:
  "go_frame (ce_go env) \<Longrightarrow> go_call env cl c w = Some w' \<Longrightarrow> refs_ok (w_db w) \<longrightarrow> refs_ok (w_db w')"
  by (auto simp: go_call_def go_refs split: go_client.splits)

lemma create_link_refs:
  assumes "create_link_impl env w p = Some (w', r)" "refs_ok (w_db w)" "go_frame (ce_go env)"
  shows "refs_ok (w_db w')"
proof (cases "validate_link env (w_db w) p")
  case (Inl e)
  with assms show ?thesis by (simp add: create_link_impl_def)
next
  case (Inr pr)
  then have "\<exists>a b. prepare_link env (w_db w) p a b = Inr pr"
    by (auto simp: validate_link_def split: if_splits option.splits)
  then have "refs_ok (pr_db pr)" using prepare_link_refs assms(2) by blast
  with assms Inr show ?thesis
    by (auto simp: create_link_impl_def bump_version_def notify_go_def optical_updated_def Let_def split: sum.splits option.splits if_splits
        dest!: go_call_refs [OF assms(3)])
qed

lemma delete_link_refs:
  assumes "delete_link_impl env w k = Some (w', r)" "refs_ok (w_db w)" "go_frame (ce_go env)"
  shows "refs_ok (w_db w')"
proof -
  have row: "refs_ok (delete_row s k) = refs_ok s" for s by (simp add: delete_row_def refs_ok_def)
  show ?thesis using assms(1,2)
    by (auto simp: delete_link_impl_def row bump_version_def Let_def split: sum.splits option.splits if_splits
        dest!: go_call_refs [OF assms(3)])
qed


section \<open>Properties\<close>

text \<open>Requests on devices and links, in any order.\<close>

inductive device_run :: "'g denv list \<Rightarrow> dworld \<Rightarrow> dworld \<Rightarrow> bool" where
  idle: "device_run [] dw dw"
| create: "device_run es dw dw1 \<Longrightarrow> create_device_impl env dw1 p = Some (dw2, r) \<Longrightarrow> device_run (es @ [env]) dw dw2"
| update: "device_run es dw dw1 \<Longrightarrow> update_device_impl env dw1 k u = Some (dw2, r) \<Longrightarrow> device_run (es @ [env]) dw dw2"
| override: "device_run es dw dw1 \<Longrightarrow> set_device_override_impl env dw1 k v = Some (dw2, r) \<Longrightarrow> device_run (es @ [env]) dw dw2"
| delete: "device_run es dw dw1 \<Longrightarrow> delete_device_impl env dw1 k = (dw2, e) \<Longrightarrow> device_run (es @ [env]) dw dw2"
| link: "device_run es dw dw1 \<Longrightarrow> create_link_impl (de_cenv env) (dw_world dw1) lp = Some (w, lr) \<Longrightarrow>
    device_run (es @ [env]) dw (dw1\<lparr>dw_world := w\<rparr>)"
| unlink: "device_run es dw dw1 \<Longrightarrow> delete_link_impl (de_cenv env) (dw_world dw1) k = Some (w, le) \<Longrightarrow>
    device_run (es @ [env]) dw (dw1\<lparr>dw_world := w\<rparr>)"

text \<open>C1: Requests on devices keep the network well-formed. From a database whose topology is well-formed and whose references resolve, after
  any sequence of requests that create, update, override or delete devices and create or delete links, accepted, rejected or
  failing halfway, with Go services that only write device columns, the topology is well-formed again (unique keys, every link
  between two existing devices that may be linked, one upstream per ODF and ONT), and no interface or bridge domain names a
  device that is gone, no address an interface that is gone, although the database does not enforce foreign keys.\<close>

theorem device_requests_keep_references:
  assumes "device_run es dw dw'" "topology_inv (dw_db dw)" "refs_ok (dw_db dw)" "\<forall>env \<in> set es. go_frame (ce_go (de_cenv env))"
  shows "topology_inv (dw_db dw') \<and> refs_ok (dw_db dw')"
proof -
  have "device_inv (dw_db dw)" using assms(2,3) by (simp add: device_inv_def)
  with assms(1,4) have "device_inv (dw_db dw')"
  proof (induction rule: device_run.induct)
    case (link es dw dw1 env lp w lr)
    then show ?case using create_link_inv [OF _ _ link(2)] create_link_refs [OF link(2)] by (simp add: device_inv_def)
  next
    case (unlink es dw dw1 env k w le)
    then show ?case using delete_link_inv [OF _ _ unlink(2)] delete_link_refs [OF unlink(2)] by (simp add: device_inv_def)
  qed (auto intro: create_device_inv update_device_inv override_device_inv delete_device_inv)
  then show ?thesis by (simp add: device_inv_def)
qed


abbreviation dw_history :: "dworld \<Rightarrow> event list" where
  "dw_history dw \<equiv> bus_history (w_bus (dw_world dw))"

lemma publish_history: "bus_history (publish b e now) = bus_history b @ [e]"
  by (simp add: publish_def record_event_def broadcaster_publish_def Let_def)

lemma status_changed_history:
  "\<exists>e. dw_history (status_changed_event env d st tv dw) = dw_history dw @ [e] \<and> ev_type e = ''device.status.changed'' \<and>
     map_of (ev_payload e) ''id'' = Some (JStr (dev_id d)) \<and> map_of (ev_payload e) ''status'' = Some (JStr (Status_str st))"
  by (simp add: status_changed_event_def emit_def publish_history)

lemma device_event_accepted:
  "ty \<in> DOMAIN_EVENT_TYPES \<Longrightarrow> \<exists>e. append_domain_event st ty k p c now = Inr (st @ [e]) \<and> er_event_type e = ty"
  by (simp add: append_domain_event_def)

lemma schedule_returns: "\<not> co_lock c \<Longrightarrow> \<exists>c'. schedule True sc key c = Some c' \<and> \<not> co_lock c'"
  by (auto simp: coal_defs Let_def split: option.splits)

lemma override_accepted:
  assumes d: "get_device (dw_db dw) k = Some d" and x: "override_value v = Inr x"
    and c: "\<not> co_lock (w_coal (dw_world dw))" "ce_timer_ok (de_cenv env)"
  defines "d1 \<equiv> d\<lparr>dev_admin_override_status := x\<rparr>"
  shows "\<exists>dw' es. set_device_override_impl env dw k v = Some (dw', Inr (device_answer env (dw_db dw') d1)) \<and>
     dw_db dw' = Provisioning.update_device (dw_db dw) d1 \<and> dw_history dw' = dw_history dw @ es \<and>
     map ev_type es = (if device_status env (dw_db dw) d = device_status env (dw_db dw') d1 then [] else [''device.status.changed'']) \<and>
     \<not> co_lock (w_coal (dw_world dw'))"
proof -
  obtain st where st: "append_domain_event (dw_store dw) ''DEVICE_UPDATED'' (dev_id d)
      [(''field'', JStr ''admin_override_status''), (''admin_override_status'', v)] None (ce_now (de_cenv env)) = Inr st"
    by (simp add: append_domain_event_def DOMAIN_EVENT_TYPES_def)
  define s1 where "s1 = Provisioning.update_device (dw_db dw) d1"
  obtain tv dw1 where b: "bump (commit s1 st dw) = (tv, dw1)" by fastforce
  then have dw1: "dw_db dw1 = s1" "dw_history dw1 = dw_history dw" "w_coal (dw_world dw1) = w_coal (dw_world dw)"
    by (auto simp: bump_def commit_def Links.bump_version_def)
  define after where "after = device_status env s1 d1"
  define dw2 where "dw2 = (if device_status env (dw_db dw) d \<noteq> after then status_changed_event env d1 after tv dw1 else dw1)"
  have coal: "w_coal (dw_world dw2) = w_coal (dw_world dw)" and db: "dw_db dw2 = s1"
    by (simp_all add: dw2_def dw1 status_changed_event_def)
  obtain c' where c': "schedule (ce_timer_ok (de_cenv env)) ''devices'' (Some (dev_id d1)) (w_coal (dw_world dw2)) = Some c'" "\<not> co_lock c'"
    using schedule_returns [OF c(1), of "''devices''" "Some (dev_id d1)"] c(2) coal by auto
  obtain e where e: "dw_history (status_changed_event env d1 after tv dw1) = dw_history dw @ [e]" "ev_type e = ''device.status.changed''"
    using status_changed_history [of env d1 after tv dw1] dw1(2) by auto
  define es where "es = (if device_status env (dw_db dw) d = after then [] else [e])"
  have es: "dw_history dw2 = dw_history dw @ es"
    "map ev_type es = (if device_status env (dw_db dw) d = after then [] else [''device.status.changed''])"
    using e dw1(2) by (simp_all add: dw2_def es_def)
  have "set_device_override_impl env dw k v =
      Some (dw2\<lparr>dw_world := (dw_world dw2)\<lparr>w_coal := c'\<rparr>\<rparr>, Inr (device_answer env (dw_db dw2) d1))"
    unfolding set_device_override_impl_def d option.case Let_def x sum.case st d1_def [symmetric] s1_def [symmetric] b prod.case
      dw1(1) after_def [symmetric] dw2_def [symmetric] c'(1) ..
  with es c'(2) db show ?thesis
    by (intro exI [of _ "dw2\<lparr>dw_world := (dw_world dw2)\<lparr>w_coal := c'\<rparr>\<rparr>"] exI [of _ es]) (simp add: s1_def after_def)
qed


lemma update_twice:
  assumes "wf_db s" "d \<in> set (devices s)" "dev_id d1 = dev_id d"
  shows "Provisioning.update_device (Provisioning.update_device s d1) d = s"
proof -
  have "d = x" if "x \<in> set (devices s)" "dev_id x = dev_id d" for x
    using that assms(1,2) wf_db_get_device by (metis option.inject)
  then have "map (\<lambda>x. if dev_id x = dev_id d then d else x) (map (\<lambda>x. if dev_id x = dev_id d1 then d1 else x) (devices s)) = devices s"
    using assms(3) unfolding map_map by (intro map_idI) auto
  then show ?thesis by (simp add: Provisioning.update_device_def)
qed

lemma updated_lookup:
  assumes "get_device s k = Some d" "dev_id d1 = dev_id d"
  shows "get_device (Provisioning.update_device s d1) k = Some d1"
proof -
  have k: "dev_id d1 = k" using assms by (simp add: dev.get_key)
  have "(\<lambda>r. dev_id r = k) \<circ> (\<lambda>x. if dev_id x = k then d1 else x) = (\<lambda>r. dev_id r = k)" using k by (auto simp: fun_eq_iff)
  with assms(1) k show ?thesis by (auto simp: Provisioning.update_device_def get_device_def find_map dest: find_SomeD)
qed



definition no_update :: device_update where
  "no_update = \<lparr>du_name = None, du_status = None, du_parent_container_id = None, du_slot_id = None, du_properties = False,
     du_admin_override_status = None, du_tx_power_dbm = None, du_sensitivity_min_dbm = None, du_insertion_loss_db = None,
     du_tariff_id = None, du_hardware_model_id = None\<rparr>"

lemma go_history [simp]: "dw_history (go env cl c dw) = dw_history dw"
  by (auto simp: go_def go_call_def split: go_client.splits)

text \<open>C39: Renaming a device announces a status change that did not happen. The handler compares the stored status before the update with the
  evaluated status after it. An active device that is not provisioned evaluates to DOWN whatever is stored, and a new device is
  stored as UP, so an update that sends only a name publishes \<^verbatim>\<open>device.status.changed\<close> with status DOWN although the device was DOWN before
  and its stored status stays.\<close>

theorem rename_announces_status:
  assumes "get_device (dw_db dw) k = Some d" "derive_role d = ACTIVE" "\<not> dev_provisioned d" "dev_admin_override_status d = None"
    "dev_status d \<noteq> DOWN"
  shows "\<exists>dw' out e. update_device_impl env dw k (no_update\<lparr>du_name := Some (Some n)\<rparr>) = Some (dw', Inr out) \<and>
     device_status env (dw_db dw) d = DOWN \<and> do_status out = DOWN \<and> do_device out = d\<lparr>dev_name := n\<rparr> \<and>
     dw_history dw' = dw_history dw @ [e] \<and> ev_type e = ''device.status.changed'' \<and> map_of (ev_payload e) ''status'' = Some (JStr (Status_str DOWN))"
proof -
  define u where "u = no_update\<lparr>du_name := Some (Some n)\<rparr>"
  define d1 where "d1 = d\<lparr>dev_name := n\<rparr>"
  have u: "update_error dw d u = None" "normalise_slot d u = u" "apply_fields u d = Inr d1" "du_hardware_model_id u = None"
    by (simp_all add: u_def d1_def no_update_def update_error_def first_error_def normalise_slot_def Let_def apply_fields_def put_def)
  obtain st where st: "append_domain_event (dw_store dw) ''DEVICE_UPDATED'' (dev_id d)
      [(''device_type'', JStr (DeviceType_name (dev_type d))), (''changed_fields'', JList (map JStr (changed_fields u)))]
      None (ce_now (de_cenv env)) = Inr st"
    by (simp add: append_domain_event_def DOMAIN_EVENT_TYPES_def)
  obtain tv dw1 where b: "bump (commit (Provisioning.update_device (dw_db dw) d1) st dw) = (tv, dw1)" by fastforce
  then have hist: "dw_history dw1 = dw_history dw" by (auto simp: bump_def commit_def Links.bump_version_def)
  have down: "device_status env s x = DOWN" if "derive_role x = ACTIVE" "\<not> dev_provisioned x" "dev_admin_override_status x = None" for s x
    using that by (simp add: device_status_def evaluate_device_status_def)
  have "derive_role d1 = derive_role d" by (simp add: d1_def derive_role_def)
  then have d1: "derive_role d1 = ACTIVE" "\<not> dev_provisioned d1" "dev_admin_override_status d1 = None"
    using assms(2-4) by (simp_all add: d1_def)
  define after where "after = device_answer env (dw_db dw1) d1"
  have after: "do_status after = DOWN" "do_device after = d1" using down [OF d1] by (simp_all add: after_def device_answer_def)
  have run: "update_device_impl env dw k u = Some (update_effects env d after tv dw1, Inr after)"
    unfolding update_device_impl_def assms(1) option.case u Let_def st sum.case b prod.case update_ports_def after_def by simp
  obtain e where e: "dw_history (status_changed_event env d1 DOWN tv dw1) = dw_history dw @ [e]" "ev_type e = ''device.status.changed''"
    "map_of (ev_payload e) ''status'' = Some (JStr (Status_str DOWN))"
    using status_changed_history [of env d1 DOWN tv dw1] hist by auto
  have "dw_history (update_effects env d after tv dw1) = dw_history dw @ [e]"
    using assms(5) e(1) by (simp add: update_effects_def after Let_def d1_def)
  with run e(2,3) after down [OF assms(2-4)] show ?thesis unfolding u_def d1_def by blast
qed

text \<open>What is announced: every link at an interface of the device, once.\<close>

lemma deleted_links_set: "set (deleted_links s k) = ln_id ` {l \<in> set (links s). ln_a_interface_id l \<in> set (device_ifaces s k) \<or> ln_b_interface_id l \<in> set (device_ifaces s k)}"
  by (auto simp: deleted_links_def links_at_def)

lemma append_deletions_accepted:
  "\<exists>es. append_deletions now k st ls = Inr (st @ es) \<and> map er_event_type es = replicate (length ls) ''LINK_DELETED'' \<and>
     map (\<lambda>e. map_of (er_payload e) ''entity_id'') es = map (Some \<circ> JStr) ls"
proof (induction ls arbitrary: st)
  case (Cons l ls)
  define e where "e = \<lparr>er_sequence = next_sequence st, er_event_type = ''LINK_DELETED'',
    er_payload = setdefault ''timestamp'' (JStr now) (setdefault ''entity_id'' (JStr l) [(''deleted_by_device_id'', JStr k)]),
    er_source = ''WRITE_PATH'', er_created_at = now, er_correlation_id = None\<rparr>"
  have a: "append_domain_event st ''LINK_DELETED'' l [(''deleted_by_device_id'', JStr k)] None now = Inr (st @ [e])"
    by (simp add: append_domain_event_def DOMAIN_EVENT_TYPES_def e_def)
  obtain es where es: "append_deletions now k (st @ [e]) ls = Inr ((st @ [e]) @ es)" "map er_event_type es = replicate (length ls) ''LINK_DELETED''"
    "map (\<lambda>e. map_of (er_payload e) ''entity_id'') es = map (Some \<circ> JStr) ls" using Cons.IH by blast
  have "map_of (er_payload e) ''entity_id'' = Some (JStr l)" "er_event_type e = ''LINK_DELETED''" by (simp_all add: e_def setdefault_def)
  with a es show ?case by (intro exI [of _ "e # es"]) simp
qed simp


lemma delete_gone:
  assumes "t = delete_device_rows s k" "i \<in> set (device_ifaces s k)"
  shows "get_interface t i = None" "\<forall>a \<in> set (addresses t). ia_interface_id a \<noteq> i" "\<forall>m \<in> set (mac_entries t). me_interface_id m \<noteq> i"
    "\<forall>n \<in> set (neighbors t). nb_interface_id n \<noteq> i" "\<forall>r \<in> set (routes t). rt_interface_id r \<noteq> Some i"
  using assms(2) unfolding ifc.get_None_iff assms(1) delete_device_rows_def Let_def by auto

lemma delete_gone_records:
  assumes "rs' = delete_device_records s k rs" "i \<in> set (device_ifaces s k)"
  shows "\<forall>r \<in> set rs'. pv_interface_id r \<noteq> i"
  using assms by (auto simp: delete_device_records_def Let_def split: if_splits)



text \<open>C40: Deleting a container leaves its children behind. A device placed in the deleted container keeps its \<^verbatim>\<open>parent_container_id\<close>, which then
  names a device that does not exist. The handler clears no child, and only a database that enforces foreign keys would stop it.
  Sending the unchanged parent back with an update of an OLT is then refused as \<^verbatim>\<open>Parent device not found\<close>.\<close>

theorem deleted_container_leaves_children:
  assumes "get_device (dw_db dw) k = Some c" "get_device (dw_db dw) j = Some d" "dev_parent_container_id d = Some k" "j \<noteq> k"
    "delete_device_impl env dw k = (dw', e)"
  shows "e = None \<and> get_device (dw_db dw') k = None \<and> get_device (dw_db dw') j = Some d \<and> dev_parent_container_id d = Some k \<and>
     (dev_type d = OLT \<and> k \<noteq> [] \<longrightarrow> update_device_impl env dw' j (no_update\<lparr>du_parent_container_id := Some (dev_parent_container_id d)\<rparr>) =
        Some (dw', Inl (UnprocessableError ''Parent device not found'')))"
proof -
  from assms(5,1) have e: "e = None" and db: "dw_db dw' = delete_device_rows (dw_db dw) k"
    using append_deletions_accepted [of "ce_now (de_cenv env)" k] device_event_accepted [of "''DEVICE_DELETED''"]
    by (auto simp: delete_device_impl_def Let_def DOMAIN_EVENT_TYPES_def append_domain_event_def split: sum.splits)
      (metis Inl_Inr_False)+
  have k: "get_device (dw_db dw') k = None" unfolding dev.get_None_iff db by (auto simp: delete_device_rows_def Let_def)
  have j: "get_device (dw_db dw') j = Some d"
    unfolding db get_device_def delete_device_rows_def Let_def using assms(2,4)
    by (simp add: get_device_def) (subst find_filter_same, blast, assumption)
  have "update_device_impl env dw' j (no_update\<lparr>du_parent_container_id := Some (Some k)\<rparr>) =
      Some (dw', Inl (UnprocessableError ''Parent device not found''))" if "dev_type d = OLT" "k \<noteq> []"
    using that j k
    by (simp add: update_device_impl_def update_error_def first_error_def no_update_def placement_error_def validate_parent_child_def
        Let_def)
  with e j k assms(3) show ?thesis by simp
qed


section \<open>What a new device has\<close>

definition expected_names :: "db \<Rightarrow> device \<Rightarrow> string set" where
  "expected_names s d =
     (if dev_hardware_model_id d \<noteq> None then snd ` set (wanted_ports s d)
      else if dev_type d = SPLITTER then set (''in'' # map (\<lambda>k. ''out'' @ nat_digits k) [1..<DEFAULT_SPLIT_RATIO + 1])
      else {''if0''})"

text \<open>The device \<open>k\<close> has an interface of its own for every name, except where the identifier of the interface was
  already taken in \<open>s0\<close>.\<close>

definition has_ports :: "db \<Rightarrow> db \<Rightarrow> ident \<Rightarrow> string set \<Rightarrow> bool" where
  "has_ports s0 s k ns \<longleftrightarrow> (\<forall>n \<in> ns.
     (\<exists>i \<in> set (interfaces s). if_id i = k @ ''-'' @ n \<and> if_device_id i = k \<and> if_name i = n) \<or>
     (\<exists>i \<in> set (interfaces s0). if_id i = k @ ''-'' @ n))"

definition port_key :: "iface \<Rightarrow> ident \<times> ident \<times> string" where
  "port_key i = (if_id i, if_device_id i, if_name i)"

lemma has_ports_iff:
  "has_ports s0 s k ns \<longleftrightarrow> (\<forall>n \<in> ns. (k @ ''-'' @ n, k, n) \<in> port_key ` set (interfaces s) \<or> k @ ''-'' @ n \<in> if_id ` set (interfaces s0))"
  unfolding has_ports_def port_key_def image_iff by auto metis+

lemma has_ports_mono: "has_ports s0 s k ns \<Longrightarrow> port_key ` set (interfaces s) \<subseteq> port_key ` set (interfaces t) \<Longrightarrow> has_ports s0 t k ns"
  unfolding has_ports_iff by blast

lemma profile_ports_cover:
  assumes "profile_ports me s d xs new ms = Some (rs, ms')" "\<forall>i \<in> set new. \<exists>n. port_key i = (dev_id d @ ''-'' @ n, dev_id d, n)"
  shows "port_key ` set new \<subseteq> port_key ` set rs \<and>
    (\<forall>x \<in> set xs. get_interface s (dev_id d @ ''-'' @ snd x) \<noteq> None \<or> (dev_id d @ ''-'' @ snd x, dev_id d, snd x) \<in> port_key ` set rs)"
  using assms
proof (induction me s d xs new ms rule: profile_ports.induct)
  case (2 me s d p name rest new ms)
  show ?case
  proof (cases "get_interface s (dev_id d @ ''-'' @ name) \<noteq> None \<or> dev_id d @ ''-'' @ name \<in> if_id ` set new")
    case True
    have key: "(dev_id d @ ''-'' @ name, dev_id d, name) \<in> port_key ` set new" if new: "dev_id d @ ''-'' @ name \<in> if_id ` set new"
    proof -
      from new obtain i where i: "i \<in> set new" "if_id i = dev_id d @ ''-'' @ name" by auto
      with 2(4) obtain n where n: "port_key i = (dev_id d @ ''-'' @ n, dev_id d, n)" by blast
      with i(2) have "n = name" by (simp add: port_key_def)
      with n i(1) show ?thesis by (metis imageI)
    qed
    from True 2(3) have rest: "profile_ports me s d rest new ms = Some (rs, ms')" by (simp add: Let_def)
    with 2(1) [OF refl True] 2(4) have ih: "port_key ` set new \<subseteq> port_key ` set rs"
      "\<forall>x \<in> set rest. get_interface s (dev_id d @ ''-'' @ snd x) \<noteq> None \<or> (dev_id d @ ''-'' @ snd x, dev_id d, snd x) \<in> port_key ` set rs"
      by blast+
    with True key show ?thesis by (simp, blast)
  next
    case False
    then obtain mac ms1 where m: "next_mac (me (dev_id d @ ''-'' @ name)) ms = Some (mac, ms1)"
      using 2(3) by (auto simp: Let_def split: option.splits)
    let ?i = "profile_port d p name mac"
    have k: "port_key ?i = (dev_id d @ ''-'' @ name, dev_id d, name)" by (simp add: port_key_def profile_port_def Interface_def)
    have "profile_ports me s d rest (new @ [?i]) ms1 = Some (rs, ms')" using 2(3) False m by (simp add: Let_def)
    moreover have "\<forall>i \<in> set (new @ [?i]). \<exists>n. port_key i = (dev_id d @ ''-'' @ n, dev_id d, n)" using 2(4) k by auto
    ultimately have ih: "port_key ` set (new @ [?i]) \<subseteq> port_key ` set rs"
      "\<forall>x \<in> set rest. get_interface s (dev_id d @ ''-'' @ snd x) \<noteq> None \<or> (dev_id d @ ''-'' @ snd x, dev_id d, snd x) \<in> port_key ` set rs"
      using 2(2) [OF refl False m refl] by blast+
    then have "port_key ?i \<in> port_key ` set rs" by auto
    with ih k show ?thesis by auto
  qed
qed simp

lemma commit_ports_db: "commit_ports env s new dw = (dw', None) \<Longrightarrow> dw_db dw' = s"
  by (auto simp: commit_ports_def split: sum.splits)

lemma add_ports_db:
  "add_ports env new dw = (dw', None) \<Longrightarrow> interfaces (dw_db dw') = interfaces (dw_db dw) @ new"
  by (auto simp: add_ports_def split: option.splits dest!: commit_ports_db insert_interfaces_SomeD)

lemma join_keys: "port_key ` set (interfaces (join_bridge_domain s d)) = port_key ` set (interfaces s)"
proof -
  have "map port_key (interfaces (join_bridge_domain s d)) = map port_key (interfaces s)"
    by (simp add: join_bridge_domain_def port_key_def split: option.splits)
  then show ?thesis by (metis set_map)
qed

lemma hardware_ports_cover:
  assumes "hardware_ports env d dw = Some (dw', None)"
  shows "has_ports (dw_db dw) (dw_db dw') (dev_id d) (snd ` set (wanted_ports (dw_db dw) d))"
proof -
  from assms obtain new ms where p: "profile_ports (de_mac env) (dw_db dw) d (wanted_ports (dw_db dw) d) [] (dw_mac dw) = Some (new, ms)"
    by (auto simp: hardware_ports_def split: option.splits)
  obtain dw2 e2 where a: "(if new = [] then (dw\<lparr>dw_mac := ms\<rparr>, None) else add_ports env new (dw\<lparr>dw_mac := ms\<rparr>)) = (dw2, e2)" by fastforce
  have dw': "e2 = None" "dw' = set_db (join_bridge_domain (dw_db dw2) d) dw2"
    using assms unfolding hardware_ports_def p option.case prod.case Let_def a by (auto split: option.splits)
  have ifs: "interfaces (dw_db dw2) = interfaces (dw_db dw) @ new"
    using a dw'(1) add_ports_db [of env new "dw\<lparr>dw_mac := ms\<rparr>" dw2] by (auto split: if_splits)
  show ?thesis
    using profile_ports_cover [OF p] unfolding has_ports_iff dw'(2) set_db_dw join_keys ifs ifc.get_None_iff by auto
qed

lemma has_ports_new:
  "interfaces s = xs @ map (\<lambda>nm. Interface (k @ ''-'' @ nm) k nm) ns \<Longrightarrow> has_ports s0 s k (set ns)"
  by (simp add: has_ports_iff Interface_def port_key_def image_Un image_image)

lemma default_ports_cover:
  assumes "default_ports env d dw = Some (dw', None)" "device_ifaces (dw_db dw) (dev_id d) = []" "dev_hardware_model_id d = None"
  shows "has_ports (dw_db dw) (dw_db dw') (dev_id d) (expected_names s d)"
proof (cases "dev_type d = SPLITTER")
  case True
  let ?new = "drop (length (interfaces (dw_db dw))) (interfaces (ensure_default_ports_for_splitter (dw_db dw) d (Some DEFAULT_SPLIT_RATIO)))"
  have none: "filter (\<lambda>i. if_device_id i = dev_id d) (interfaces (dw_db dw)) = []" using assms(2) by (simp add: device_ifaces_def)
  have "add_ports env ?new dw = (dw', None)" using assms(1) True by (simp add: default_ports_def)
  then have ifs: "interfaces (dw_db dw') = interfaces (dw_db dw) @ ?new" by (rule add_ports_db)
  define ns where "ns = ''in'' # map (\<lambda>k. ''out'' @ nat_digits k) [1..<DEFAULT_SPLIT_RATIO + 1]"
  have r: "(case Some DEFAULT_SPLIT_RATIO of None \<Rightarrow> DEFAULT_SPLIT_RATIO | Some r \<Rightarrow> if r = 0 then DEFAULT_SPLIT_RATIO else r) = DEFAULT_SPLIT_RATIO"
    by (simp add: DEFAULT_SPLIT_RATIO_def)
  have new: "?new = map (\<lambda>nm. Interface (dev_id d @ ''-'' @ nm) (dev_id d) nm) ns"
    unfolding ensure_default_ports_for_splitter_def Let_def none r ns_def [symmetric] using True by simp
  have names: "expected_names s d = set ns" unfolding expected_names_def ns_def using True assms(3) by simp
  show ?thesis unfolding names by (rule has_ports_new [OF ifs [unfolded new]])
next
  case False
  have ids: "expected_names s d = {''if0''}" using False assms(3) by (simp add: expected_names_def)
  show ?thesis
  proof (cases "get_interface (dw_db dw) (dev_id d @ ''-if0'')")
    case None
    with assms(1) False obtain mac ms where
      "add_ports env [(Interface (dev_id d @ ''-if0'') (dev_id d) ''if0'')\<lparr>if_mac_address := Some mac\<rparr>] (dw\<lparr>dw_mac := ms\<rparr>) = (dw', None)"
      by (auto simp: default_ports_def Let_def split: option.splits)
    from add_ports_db [OF this] show ?thesis by (simp add: has_ports_def ids Interface_def)
  next
    case (Some r)
    then have "dev_id d @ ''-if0'' \<in> if_id ` set (interfaces (dw_db dw))" using ifc.get_None_iff by (metis option.distinct(1))
    with assms(1) False Some show ?thesis by (auto simp: has_ports_iff ids)
  qed
qed


lemma backbone_mgmt_keys:
  assumes "backbone_mgmt env d dw = (dw', None)"
  shows "port_key ` set (interfaces (dw_db dw)) \<subseteq> port_key ` set (interfaces (dw_db dw'))"
proof -
  have "port_key ` set (interfaces s) \<subseteq> port_key ` set (interfaces t)" if a: "allocate_backbone_mgmt v6 s d = Inr (new, t)" for v6 s t new
  proof -
    define s1 where "s1 = ensure_ipam_defaults s"
    define k where "k = dev_id d @ ''-mgmt0''"
    define s2 where "s2 = s1\<lparr>interfaces := map (\<lambda>i. if if_id i = k then i\<lparr>if_role := Some ROLE_MANAGEMENT\<rparr> else i) (interfaces s1)\<rparr>"
    define new1 where "new1 = (if get_interface s1 k = None then [(Interface k (dev_id d) ''mgmt0'')\<lparr>if_role := Some ROLE_MANAGEMENT\<rparr>] else [])"
    have i1: "interfaces s1 = interfaces s" by (simp add: s1_def ensure_ipam_defaults_def Let_def ensure_prefixes_tables ensure_vrf_frame)
    have "map port_key (interfaces s2) = map port_key (interfaces s)" by (simp add: s2_def i1 port_key_def)
    then have i2: "port_key ` set (interfaces s2) = port_key ` set (interfaces s)" by (metis set_map)
    from a consider "t = s1" | s3 where "insert_interfaces s2 new1 = Some s3" "interfaces t = interfaces s3"
      unfolding allocate_backbone_mgmt_def s1_def [symmetric] k_def [symmetric] Let_def s2_def [symmetric] new1_def [symmetric]
      by (auto split: option.splits if_splits sum.splits)
    then show ?thesis
    proof cases
      case (2 s3)
      then show ?thesis using insert_interfaces_SomeD [OF 2(1)] i2 by auto
    qed (simp add: i1)
  qed
  with assms show ?thesis by (auto simp: backbone_mgmt_def split: if_splits sum.splits dest!: commit_ports_db) blast
qed

lemma wanted_ports_cong: "port_profiles t = port_profiles s \<Longrightarrow> wanted_ports t d = wanted_ports s d"
  by (simp add: wanted_ports_def)

lemma equip_device_cover:
  assumes "equip_device env d dw = Some (dw', None)" "device_ifaces (dw_db dw) (dev_id d) = []"
  shows "has_ports (dw_db dw) (dw_db dw') (dev_id d) (expected_names (dw_db dw) d)"
proof -
  define s1 where "s1 = ensure_bridge_domain (Provisioning.update_device (dw_db dw) d) d"
  have s1: "interfaces s1 = interfaces (dw_db dw)" "port_profiles s1 = port_profiles (dw_db dw)"
    by (simp_all add: s1_def ensure_bridge_domain_def Provisioning.update_device_def)
  have ifs: "device_ifaces (dw_db (set_db s1 dw)) (dev_id d) = []" using assms(2) by (simp add: device_ifaces_def s1)
  from assms(1) obtain dw2 where p: "(if dev_hardware_model_id d \<noteq> None then hardware_ports env d (set_db s1 dw) else default_ports env d (set_db s1 dw)) = Some (dw2, None)"
    and m: "backbone_mgmt env d dw2 = (dw', None)"
    unfolding equip_device_def Let_def s1_def [symmetric] by (auto split: option.splits)
  have old: "has_ports (dw_db (set_db s1 dw)) t k ns = has_ports (dw_db dw) t k ns" for t k ns by (simp add: has_ports_def s1)
  have "has_ports (dw_db dw) (dw_db dw2) (dev_id d) (expected_names (dw_db dw) d)"
  proof (cases "dev_hardware_model_id d")
    case None
    then have "default_ports env d (set_db s1 dw) = Some (dw2, None)" using p by simp
    from default_ports_cover [OF this ifs None] show ?thesis unfolding old .
  next
    case (Some h)
    then have "hardware_ports env d (set_db s1 dw) = Some (dw2, None)" using p by simp
    from hardware_ports_cover [OF this, unfolded old] wanted_ports_cong [OF s1(2)] Some show ?thesis by (simp add: expected_names_def)
  qed
  then show ?thesis using has_ports_mono backbone_mgmt_keys [OF m] by blast
qed


lemma go_frame_ids:
  assumes "go_frame (ce_go (de_cenv env))"
  shows "interfaces (dw_db (go env cl c dw)) = interfaces (dw_db dw)" "dw_tariffs (go env cl c dw) = dw_tariffs dw"
proof -
  have "interfaces (ce_go (de_cenv env) c s) = interfaces s" for s
    using assms unfolding go_frame_def by (metis (no_types, lifting) db.select_convs(2) db.surjective db.update_convs(1))
  then show "interfaces (dw_db (go env cl c dw)) = interfaces (dw_db dw)" by (auto simp: go_def go_call_def split: go_client.splits)
  show "dw_tariffs (go env cl c dw) = dw_tariffs dw" by (auto simp: go_def split: option.splits)
qed

lemma commit_ports_tariffs: "dw_tariffs (fst (commit_ports env s new dw)) = dw_tariffs dw"
  by (simp add: commit_ports_def split: sum.splits)

lemma add_ports_tariffs: "dw_tariffs (fst (add_ports env new dw)) = dw_tariffs dw"
  by (simp add: add_ports_def commit_ports_tariffs split: option.splits)

lemma hardware_ports_tariffs: "hardware_ports env d dw = Some (dw', e) \<Longrightarrow> dw_tariffs dw' = dw_tariffs dw"
  using add_ports_tariffs [of env _ "dw\<lparr>dw_mac := _\<rparr>"]
  by (auto simp: hardware_ports_def set_db_def Let_def split: option.splits prod.splits if_splits) (metis fst_conv dworld.select_convs(3) dworld.surjective dworld.update_convs(4))+

lemma default_ports_tariffs: "default_ports env d dw = Some (dw', e) \<Longrightarrow> dw_tariffs dw' = dw_tariffs dw"
proof (cases "dev_type d = SPLITTER")
  assume p: "default_ports env d dw = Some (dw', e)"
  case True
  with p have "\<exists>new. add_ports env new dw = (dw', e)" unfolding default_ports_def Let_def by (metis option.inject)
  then show ?thesis using add_ports_tariffs by (metis fst_conv)
next
  assume p: "default_ports env d dw = Some (dw', e)"
  case False
  with p have "dw' = dw \<or> (\<exists>new ms. add_ports env new (dw\<lparr>dw_mac := ms\<rparr>) = (dw', e))"
    unfolding default_ports_def Let_def by (auto split: option.splits if_splits)
  moreover have "dw_tariffs (dw\<lparr>dw_mac := ms\<rparr>) = dw_tariffs dw" for ms by simp
  ultimately show ?thesis using add_ports_tariffs by (metis fst_conv)
qed

lemma backbone_mgmt_tariffs: "backbone_mgmt env d dw = (dw', e) \<Longrightarrow> dw_tariffs dw' = dw_tariffs dw"
  by (auto simp: backbone_mgmt_def split: option.splits if_splits sum.splits) (metis commit_ports_tariffs fst_conv)

lemma equip_device_tariffs: "equip_device env d dw = Some (dw', e) \<Longrightarrow> dw_tariffs dw' = dw_tariffs dw"
  by (auto simp: equip_device_def Let_def split: option.splits if_splits dest!: hardware_ports_tariffs default_ports_tariffs backbone_mgmt_tariffs)
    (simp_all add: set_db_def)


text \<open>Equipping a device leaves the rows of devices alone, apart from writing this device's own row.\<close>

lemma commit_ports_devices: "commit_ports env s new dw = (dw', None) \<Longrightarrow> devices (dw_db dw') = devices s"
  by (simp add: commit_ports_db)

lemma add_ports_devices: "add_ports env new dw = (dw', None) \<Longrightarrow> devices (dw_db dw') = devices (dw_db dw)"
  by (auto simp: add_ports_def split: option.splits dest!: commit_ports_db insert_interfaces_SomeD)

lemma hardware_ports_devices:
  assumes "hardware_ports env d dw = Some (dw', None)"
  shows "devices (dw_db dw') = devices (dw_db dw)"
proof -
  from assms obtain new ms where p: "profile_ports (de_mac env) (dw_db dw) d (wanted_ports (dw_db dw) d) [] (dw_mac dw) = Some (new, ms)"
    by (auto simp: hardware_ports_def split: option.splits)
  obtain dw2 e2 where a: "(if new = [] then (dw\<lparr>dw_mac := ms\<rparr>, None) else add_ports env new (dw\<lparr>dw_mac := ms\<rparr>)) = (dw2, e2)" by fastforce
  have dw': "e2 = None" "dw' = set_db (join_bridge_domain (dw_db dw2) d) dw2"
    using assms unfolding hardware_ports_def p option.case prod.case Let_def a by (auto split: option.splits)
  have "devices (dw_db dw2) = devices (dw_db dw)"
    using a dw'(1) add_ports_devices [of env new "dw\<lparr>dw_mac := ms\<rparr>" dw2] by (auto split: if_splits)
  then show ?thesis by (simp add: dw'(2) join_bridge_domain_def split: option.split)
qed

lemma default_ports_devices: "default_ports env d dw = Some (dw', None) \<Longrightarrow> devices (dw_db dw') = devices (dw_db dw)"
  by (auto simp: default_ports_def Let_def split: if_splits option.splits dest!: add_ports_devices)

lemma backbone_mgmt_devices:
  assumes "backbone_mgmt env d dw = (dw', None)"
  shows "devices (dw_db dw') = devices (dw_db dw)"
proof -
  have "devices t = devices s" if a: "allocate_backbone_mgmt v6 s d = Inr (new, t)" for v6 s t new
  proof -
    have "devices (ensure_ipam_defaults s) = devices s"
      by (simp add: ensure_ipam_defaults_def Let_def ensure_prefixes_tables ensure_vrf_frame)
    with a show ?thesis
      by (auto simp: allocate_backbone_mgmt_def Let_def split: option.splits if_splits sum.splits dest!: insert_interfaces_SomeD)
  qed
  with assms show ?thesis by (auto simp: backbone_mgmt_def split: if_splits sum.splits dest!: commit_ports_devices)
qed

lemma equip_device_stores:
  assumes "equip_device env d dw = Some (dw', None)"
  shows "devices (dw_db dw') = devices (Provisioning.update_device (dw_db dw) d)"
proof -
  define s1 where "s1 = ensure_bridge_domain (Provisioning.update_device (dw_db dw) d) d"
  have s1: "devices s1 = devices (Provisioning.update_device (dw_db dw) d)" by (simp add: s1_def ensure_bridge_domain_def)
  from assms obtain dw2 where p: "(if dev_hardware_model_id d \<noteq> None then hardware_ports env d (set_db s1 dw) else default_ports env d (set_db s1 dw)) = Some (dw2, None)"
    and m: "backbone_mgmt env d dw2 = (dw', None)"
    unfolding equip_device_def Let_def s1_def [symmetric] by (auto split: option.splits)
  have "devices (dw_db dw2) = devices s1"
    using p hardware_ports_devices [of env d "set_db s1 dw" dw2] default_ports_devices [of env d "set_db s1 dw" dw2] by (auto split: if_splits)
  then show ?thesis using backbone_mgmt_devices [OF m] s1 by simp
qed

text \<open>What the Go services write: the status and the signal columns of device rows.\<close>

definition go_columns :: "(go_call \<Rightarrow> db \<Rightarrow> db) \<Rightarrow> bool" where
  "go_columns g \<longleftrightarrow> (\<forall>c s. \<exists>u. (\<forall>x. u x = x\<lparr>dev_status := dev_status (u x), dev_signal_power_dbm := dev_signal_power_dbm (u x),
       dev_signal_margin_db := dev_signal_margin_db (u x), dev_attenuation_db := dev_attenuation_db (u x),
       dev_signal_status := dev_signal_status (u x)\<rparr>) \<and> g c s = s\<lparr>devices := map u (devices s)\<rparr>)"

lemma go_columnsD:
  assumes "go_columns g"
  shows "\<exists>u. (\<forall>x. dev_id (u x) = dev_id x \<and> dev_type (u x) = dev_type x \<and> dev_tariff_id (u x) = dev_tariff_id x \<and>
      dev_hardware_model_id (u x) = dev_hardware_model_id x) \<and> g c s = s\<lparr>devices := map u (devices s)\<rparr>"
proof -
  from assms obtain u where u: "\<forall>x. u x = x\<lparr>dev_status := dev_status (u x), dev_signal_power_dbm := dev_signal_power_dbm (u x),
       dev_signal_margin_db := dev_signal_margin_db (u x), dev_attenuation_db := dev_attenuation_db (u x),
       dev_signal_status := dev_signal_status (u x)\<rparr>" "g c s = s\<lparr>devices := map u (devices s)\<rparr>"
    unfolding go_columns_def by metis
  have "dev_id (u x) = dev_id x \<and> dev_type (u x) = dev_type x \<and> dev_tariff_id (u x) = dev_tariff_id x \<and>
      dev_hardware_model_id (u x) = dev_hardware_model_id x" for x
    by (subst (1 2 3 4) u(1) [rule_format]) simp
  with u(2) show ?thesis by blast
qed

lemma go_columns_frame: "go_columns g \<Longrightarrow> go_frame g"
  unfolding go_frame_def using go_columnsD by metis

lemma go_columns_row:
  assumes "go_columns (ce_go (de_cenv env))" "get_device (dw_db dw) k = Some d"
  shows "\<exists>e. get_device (dw_db (go env cl c dw)) k = Some e \<and> dev_id e = dev_id d \<and> dev_type e = dev_type d \<and> dev_tariff_id e = dev_tariff_id d \<and>
    dev_hardware_model_id e = dev_hardware_model_id d"
proof -
  have "\<exists>e. get_device (ce_go (de_cenv env) c s) k = Some e \<and> dev_id e = dev_id d \<and> dev_type e = dev_type d \<and> dev_tariff_id e = dev_tariff_id d \<and>
    dev_hardware_model_id e = dev_hardware_model_id d" if "get_device s k = Some d" for s
  proof -
    from go_columnsD [OF assms(1)] obtain u where u: "\<forall>x. dev_id (u x) = dev_id x \<and> dev_type (u x) = dev_type x \<and> dev_tariff_id (u x) = dev_tariff_id x \<and>
      dev_hardware_model_id (u x) = dev_hardware_model_id x" "ce_go (de_cenv env) c s = s\<lparr>devices := map u (devices s)\<rparr>" by metis
    have "get_device (ce_go (de_cenv env) c s) k = Some (u d)"
      using that by (simp add: u get_device_def find_map comp_def)
    with u(1) show ?thesis by blast
  qed
  with assms(2) show ?thesis by (auto simp: go_def go_call_def split: go_client.splits)
qed

lemma assign_tariff_fits:
  assumes "required_technology (dev_type d) = Some tech" "dev_tariff_id d = None" "\<exists>t \<in> set ts. tr_technology t = Some tech"
  shows "\<exists>t \<in> set ts. dev_tariff_id (assign_tariff ts d) = Some (tf_id t) \<and> tr_technology t = Some tech"
proof -
  define rows where "rows = sort_key tr_name (filter (\<lambda>t. tr_technology t = Some tech) ts)"
  have set: "set rows = {t \<in> set ts. tr_technology t = Some tech}" by (simp add: rows_def)
  with assms(3) obtain t rest where r: "rows = t # rest" by (cases rows) auto
  then have "t \<in> set ts \<and> tr_technology t = Some tech" using set by auto
  with assms(1,2) r show ?thesis by (auto simp: assign_tariff_def rows_def [symmetric])
qed

lemma new_device_tariff: "dev_tariff_id (new_device env s p) = None"
proof -
  have "dev_tariff_id (catalog_insertion_loss s d) = dev_tariff_id d" for d
    by (simp add: catalog_insertion_loss_def split: option.splits)
  then show ?thesis by (simp add: new_device_def Device_def)
qed

text \<open>C7: A device that was created is complete. When the request succeeds, a row with the requested type is stored under the requested id. It
  has an interface of its own, with its device id and the name, for every port its hardware model lists in the catalogue (the numbered
  names of every profile), or as a splitter without a model for \<^verbatim>\<open>in\<close> and \<^verbatim>\<open>out1\<close> to \<^verbatim>\<open>out32\<close>, or else for \<^verbatim>\<open>if0\<close>, except where another
  interface had the identifier before the request. The stored row of an ONT or an AON CPE names a tariff of its technology as soon as the
  table, with the default tariffs added, has one, and the answer names the same tariff. The Go services are taken to write only status and
  signal columns of device rows.\<close>

theorem created_device_complete:
  assumes "create_device_impl env dw p = Some (dw', Inr out)" "topology_inv (dw_db dw)" "refs_ok (dw_db dw)" "go_columns (ce_go (de_cenv env))"
  shows "\<exists>d. get_device (dw_db dw') (dc_id p) = Some d \<and> dev_type d = dc_type p \<and> dev_id (do_device out) = dc_id p \<and>
     has_ports (dw_db dw) (dw_db dw') (dc_id p) (expected_names (dw_db dw) d) \<and>
     dev_tariff_id (do_device out) = dev_tariff_id d \<and>
     (\<forall>tech. required_technology (dc_type p) = Some tech \<and> (\<exists>t \<in> set (dw_tariffs dw'). tr_technology t = Some tech) \<longrightarrow>
        (\<exists>t \<in> set (dw_tariffs dw'). dev_tariff_id d = Some (tf_id t) \<and> tr_technology t = Some tech))"
proof -
  let ?s = "dw_db dw" and ?ts = "ensure_default_tariffs (dw_tariffs dw)"
  note frame = go_columns_frame [OF assms(4)]
  define d where "d = new_device env ?s p"
  define d1 where "d1 = assign_tariff ?ts d"
  have none: "create_error env ?s p = None" using assms(1) by (auto simp: create_device_impl_def Let_def split: option.splits)
  then have fresh: "get_device ?s (dc_id p) = None" by (auto simp: create_error_def split: if_splits)
  obtain st where st: "append_domain_event (dw_store dw) ''DEVICE_CREATED'' (dev_id d)
      [(''device_type'', JStr (DeviceType_name (dev_type d))), (''name'', JStr (dev_name d)), (''status'', JStr (Status_str (dev_status d)))]
      None (ce_now (de_cenv env)) = Inr st" by (simp add: append_domain_event_def DOMAIN_EVENT_TYPES_def)
  define dw1 where "dw1 = snd (bump (commit (insert_device d ?s) st (dw\<lparr>dw_tariffs := ?ts\<rparr>)))"
  have dw1: "dw_db dw1 = insert_device d ?s" "dw_tariffs dw1 = ?ts"
    by (simp_all add: dw1_def bump_def commit_def Links.bump_version_def)
  from assms(1) obtain dw2 where e: "equip_device env d1 dw1 = Some (dw2, None)"
    and dw': "dw' = go env (ce_status (de_cenv env)) (PropagateStatus [dev_id d1] []) dw2" and out: "do_device out = d1"
    unfolding create_device_impl_def Let_def none option.case d_def [symmetric] st sum.case dw1_def [symmetric] d1_def [symmetric]
    by (auto simp: device_answer_def split: option.splits)
  have id: "dev_id d1 = dc_id p" "dev_type d1 = dc_type p" "dev_id d = dc_id p" by (simp_all add: d1_def d_def)
  have ts: "dw_tariffs dw' = ?ts" using equip_device_tariffs [OF e] dw1(2) go_frame_ids(2) [OF frame] by (simp add: dw')
  have "get_device (dw_db dw2) (dc_id p) = Some d1"
  proof -
    have old: "find (\<lambda>x. dev_id x = dc_id p) (devices ?s) = None" using fresh by (simp add: get_device_def)
    show ?thesis unfolding get_device_def equip_device_stores [OF e] dw1 Provisioning.update_device_def insert_device_def
      by (simp add: find_append find_map id comp_def old if_distrib [where f = dev_id] cong: if_cong)
  qed
  from go_columns_row [OF assms(4) this] obtain r where
    r: "get_device (dw_db dw') (dc_id p) = Some r" "dev_type r = dev_type d1" "dev_tariff_id r = dev_tariff_id d1"
      "dev_hardware_model_id r = dev_hardware_model_id d1" unfolding dw' by blast
  have "if_device_id i \<noteq> dc_id p" if "i \<in> set (interfaces ?s)" for i
    using assms(3) fresh that unfolding dev.get_None_iff refs_ok_def by (metis imageI subsetD)
  then have "device_ifaces ?s (dc_id p) = []" by (simp add: device_ifaces_def filter_empty_conv)
  then have ifs: "device_ifaces (dw_db dw1) (dev_id d1) = []" by (simp add: dw1 device_ifaces_def insert_device_def id)
  have "has_ports ?s (dw_db dw2) (dc_id p) (expected_names (dw_db dw1) d1)"
    using equip_device_cover [OF e ifs] by (simp add: id dw1 insert_device_def has_ports_def)
  moreover have "expected_names (dw_db dw1) d1 = expected_names ?s r"
    by (simp add: expected_names_def wanted_ports_def dw1 insert_device_def r)
  ultimately have ports: "has_ports ?s (dw_db dw') (dc_id p) (expected_names ?s r)"
    by (simp add: dw' has_ports_def go_frame_ids(1) [OF frame])
  have "\<exists>t \<in> set ?ts. dev_tariff_id d1 = Some (tf_id t) \<and> tr_technology t = Some tech"
    if "required_technology (dc_type p) = Some tech" "\<exists>t \<in> set ?ts. tr_technology t = Some tech" for tech
    using assign_tariff_fits [of d tech ?ts] that new_device_tariff [of env ?s p] by (simp add: d1_def d_def)
  with r ports show ?thesis unfolding ts out by (simp add: id)
qed


section \<open>Witnesses\<close>

text \<open>An OLT in a POP, linked to an ODF.\<close>

definition demo_rack :: db where
  "demo_rack = empty_db\<lparr>devices := [Device ''pop'' POP, (Device ''olt'' OLT)\<lparr>dev_parent_container_id := Some ''pop''\<rparr>, Device ''odf'' ODF],
     interfaces := [Interface ''olt-if0'' ''olt'' ''if0'', Interface ''odf-if0'' ''odf'' ''if0''],
     links := [Link ''odf__olt'' ''odf-if0'' ''olt-if0'']\<rparr>"

definition demo_dworld :: dworld where
  "demo_dworld = \<lparr>dw_world = demo_world\<lparr>w_db := demo_rack\<rparr>, dw_records = [], dw_tariffs = [], dw_mac = demo_mac\<rparr>"

definition demo_denv :: "list_graph denv" where
  "demo_denv = \<lparr>de_cenv = demo_env0, de_nx = list_nx, de_so = sorted_list_of_set, de_v6 = no_v6, de_mac = (\<lambda>_. all_ok),
     de_single_backbone = False, de_backbone_mgmt = False, de_auto_assign = False\<rparr>"

definition demo_ont :: device_create where
  "demo_ont = \<lparr>dc_id = ''ont'', dc_name = ''ont'', dc_type = ONT, dc_status = UP, dc_parent_container_id = None, dc_hardware_model_id = None\<rparr>"

lemma demo_dw [simp]: "dw_db demo_dworld = demo_rack" "co_lock (w_coal (dw_world demo_dworld)) = False"
  "ce_timer_ok (de_cenv demo_denv) = True" "de_cenv demo_denv = demo_env0"
  by (simp_all add: demo_dworld_def demo_world_def initial_coal_def demo_denv_def demo_env0_def)

lemma demo_rack_get:
  "get_device demo_rack ''olt'' = Some ((Device ''olt'' OLT)\<lparr>dev_parent_container_id := Some ''pop''\<rparr>)"
  "get_device demo_rack ''pop'' = Some (Device ''pop'' POP)" "device_ifaces demo_rack ''olt'' = [''olt-if0'']"
  "links demo_rack = [Link ''odf__olt'' ''odf-if0'' ''olt-if0'']"
  by (simp_all add: demo_rack_def get_device_def device_ifaces_def row_defs)

lemma demo_rack_wf: "wf_db demo_rack"
  by (simp add: wf_db_def demo_rack_def row_defs)

lemma demo_rack_inv: "topology_inv demo_rack" "refs_ok demo_rack"
proof -
  show "refs_ok demo_rack" by (simp add: refs_ok_def demo_rack_def row_defs)
  have le: "link_ends demo_rack (Link ''odf__olt'' ''odf-if0'' ''olt-if0'') = Some (''odf'', ''olt'')"
    "dtype demo_rack ''odf'' = Some ODF" "dtype demo_rack ''olt'' = Some OLT"
    by (simp_all add: link_ends_def dtype_def get_defs demo_rack_def row_defs)
  have "pair_ok (Device ''odf'' ODF) ((Device ''olt'' OLT)\<lparr>dev_parent_container_id := Some ''pop''\<rparr>)" by code_simp
  then have ok: "link_ok demo_rack (Link ''odf__olt'' ''odf-if0'' ''olt-if0'')"
    by (simp add: link_ok_ends le) (simp add: get_defs demo_rack_def row_defs)
  have "length (filter P [x]) \<le> 1" for P and x :: link by simp
  then have "single_upstream demo_rack" unfolding single_upstream_def count_upstream_links_def demo_rack_get(4) by blast
  with ok demo_rack_wf show "topology_inv demo_rack" by (simp add: topology_inv_def demo_rack_get(4))
qed

theorem device_requests_keep_references_witness:
  "\<exists>dw'. device_run [demo_denv] demo_dworld dw' \<and> delete_device_impl demo_denv demo_dworld ''olt'' = (dw', None) \<and>
     topology_inv (dw_db dw') \<and> refs_ok (dw_db dw')"
proof -
  have "snd (delete_device_impl demo_denv demo_dworld ''olt'') = None" by code_simp
  then obtain dw' where d: "delete_device_impl demo_denv demo_dworld ''olt'' = (dw', None)" by (metis prod.collapse)
  from device_run.delete [OF device_run.idle d] have run: "device_run [demo_denv] demo_dworld dw'" by simp
  from device_requests_keep_references [OF run] demo_rack_inv demo_go_frame d run show ?thesis by auto
qed


theorem rename_announces_status_witness:
  "\<exists>dw' out e. update_device_impl demo_denv demo_dworld ''olt'' (no_update\<lparr>du_name := Some (Some ''olt-2'')\<rparr>) = Some (dw', Inr out) \<and>
     do_status out = DOWN \<and> dw_history dw' = [e] \<and> ev_type e = ''device.status.changed''"
  using rename_announces_status [of demo_dworld "''olt''" "(Device ''olt'' OLT)\<lparr>dev_parent_container_id := Some ''pop''\<rparr>" demo_denv "''olt-2''"]
  by (fastforce simp: demo_rack_get Device_def derive_role_def demo_dworld_def demo_world_def demo_bus_def)


theorem deleted_container_leaves_children_witness:
  "\<exists>dw' d. delete_device_impl demo_denv demo_dworld ''pop'' = (dw', None) \<and> get_device (dw_db dw') ''pop'' = None \<and>
     get_device (dw_db dw') ''olt'' = Some d \<and> dev_parent_container_id d = Some ''pop'' \<and>
     update_device_impl demo_denv dw' ''olt'' (no_update\<lparr>du_parent_container_id := Some (Some ''pop'')\<rparr>) =
       Some (dw', Inl (UnprocessableError ''Parent device not found''))"
proof -
  obtain dw' e where d: "delete_device_impl demo_denv demo_dworld ''pop'' = (dw', e)" by fastforce
  from deleted_container_leaves_children [OF _ _ _ _ d] demo_rack_get d show ?thesis by (fastforce simp: Device_def)
qed

theorem created_device_complete_witness:
  "\<exists>dw' out d t i. create_device_impl demo_denv demo_dworld demo_ont = Some (dw', Inr out) \<and>
     get_device (dw_db dw') ''ont'' = Some d \<and> dev_type d = ONT \<and>
     i \<in> set (interfaces (dw_db dw')) \<and> if_id i = ''ont-if0'' \<and> if_device_id i = ''ont'' \<and>
     t \<in> set (dw_tariffs dw') \<and> dev_tariff_id d = Some (tf_id t) \<and> tr_technology t = Some GPON"
proof -
  have "case create_device_impl demo_denv demo_dworld demo_ont of Some (dw', Inr out) \<Rightarrow>
      list_ex (\<lambda>t. tr_technology t = Some GPON) (dw_tariffs dw') \<and>
      map_option dev_hardware_model_id (get_device (dw_db dw') ''ont'') = Some None
    | _ \<Rightarrow> False" by code_simp
  then obtain dw' out where c: "create_device_impl demo_denv demo_dworld demo_ont = Some (dw', Inr out)"
    "\<exists>t \<in> set (dw_tariffs dw'). tr_technology t = Some GPON" "map_option dev_hardware_model_id (get_device (dw_db dw') ''ont'') = Some None"
    by (auto simp: list_ex_iff split: option.split_asm prod.split_asm sum.split_asm)
  have go: "go_columns (ce_go (de_cenv demo_denv))" unfolding go_columns_def by (auto simp: demo_env0_def intro!: exI [of _ "\<lambda>x. x"])
  have inv: "topology_inv (dw_db demo_dworld)" "refs_ok (dw_db demo_dworld)" using demo_rack_inv by simp_all
  from created_device_complete [OF c(1) inv go] obtain d where d: "get_device (dw_db dw') ''ont'' = Some d" "dev_type d = ONT"
    "has_ports demo_rack (dw_db dw') ''ont'' (expected_names demo_rack d)"
    "\<forall>tech. required_technology ONT = Some tech \<and> (\<exists>t \<in> set (dw_tariffs dw'). tr_technology t = Some tech) \<longrightarrow>
        (\<exists>t \<in> set (dw_tariffs dw'). dev_tariff_id d = Some (tf_id t) \<and> tr_technology t = Some tech)"
    by (auto simp: demo_ont_def)
  have "expected_names demo_rack d = {''if0''}" using d(1,2) c(3) by (simp add: expected_names_def)
  with d(3) obtain i where i: "i \<in> set (interfaces (dw_db dw'))" "if_id i = ''ont-if0''" "if_device_id i = ''ont''"
    by (auto simp: has_ports_def demo_rack_def row_defs)
  have "required_technology ONT = Some GPON" by code_simp
  with d(4) c(2) obtain t where "t \<in> set (dw_tariffs dw')" "dev_tariff_id d = Some (tf_id t)" "tr_technology t = Some GPON" by blast
  with c(1) d(1,2) i show ?thesis by blast
qed

end
