(* ===== verification/Spec2Isabelle.thy ===== *)
theory Spec2Isabelle
  imports L3_Trace Links Mac_Allocator Pathfinding Optical_Service Uplinks Traffic_Segments Devices
begin

text \<open>
  A verification development for UNOC, a simulator of fiber access networks: the Python backend
  under \<^verbatim>\<open>src/backend\<close>. Paths below are relative to that directory.

  \<^bold>\<open>The program.\<close> A relational database holds devices, their interfaces and the links between
  interfaces. A request creates, updates or deletes a device with
  its ports, or creates or deletes a link: the link is classified by rule tables, checked by the
  optical policy, gets default values, is stored, bumps the version of the topology, notifies the Go
  services, appends events and schedules a recomputation. The coalescer gathers such schedules and runs
  one recomputation for all of them. The recomputation asks the optical resolver for the signal of an
  ONT and the dependency resolver for the upstream of a device, and writes the device statuses. The
  dependency resolver in turn uses the logical graph of the path finder and traces the L3 route of a
  router to a backbone gateway. Provisioning checks a device's upstream, gives it a management address out of the
  address plan and sets up the uplinks of a router; the forwarding service answers where a packet goes. The traffic engine
  ticks: subscribers that are up and have an upstream send along a path to an anchor, the totals give the utilization of
  devices, links and PON segments, and congestion is reported with hysteresis. Changes leave as events through a bus into a
  bounded websocket outbox and into an append-only store.

  \<^bold>\<open>Theories and sources.\<close>
  \<^item> \<open>Prelude\<close>: Python strings and truth values, first-match queries, reachability.
  \<^item> \<open>Worklist\<close>: the locales \<open>worklist\<close>, \<open>worklist_search\<close>, \<open>flood\<close> and \<open>flood_search\<close>, the contract of the
    hand-written queue loops; each traversal of the program is an interpretation.
  \<^item> \<open>Models\<close>: the tables of \<^verbatim>\<open>models_pkg\<close> as records, the database \<open>db\<close> as lists of rows,
    \<^verbatim>\<open>errors.py\<close>; the locale \<open>table\<close> is the contract of a lookup by key.
  \<^item> \<open>Link_Rules\<close>: \<^verbatim>\<open>link_rules.py\<close>, \<^verbatim>\<open>constants/link_types.py\<close>, \<^verbatim>\<open>link_classification_service.py\<close>.
    The two copies of the rule table agree.
  \<^item> \<open>Link_State\<close>: \<^verbatim>\<open>status_link.py\<close>, \<^verbatim>\<open>link_validator_service.py\<close>, \<^verbatim>\<open>utils.py\<close>.
  \<^item> \<open>Splitter\<close>: \<^verbatim>\<open>splitter_service.py\<close>. The three walks compute reachability over links, and the counts
    are the numbers they claim to be.
  \<^item> \<open>Link_Policy\<close>: \<^verbatim>\<open>link_policy_optical.py\<close>. Each rule is decided by a property of the topology, and an
    accepted link keeps the single upstream.
  \<^item> \<open>Events\<close>: \<^verbatim>\<open>events.py\<close>, \<^verbatim>\<open>event_store.py\<close>, the outbox of \<^verbatim>\<open>ws.py\<close>.
  \<^item> \<open>Coalescer\<close>: \<^verbatim>\<open>recompute_coalescer.py\<close>. Each locked section is a step, and the sections of request and timer
    threads interleave; no scheduled key is lost.
  \<^item> \<open>Links\<close>: \<^verbatim>\<open>links_helpers_create.py\<close>, \<^verbatim>\<open>links_helpers_delete.py\<close>, \<^verbatim>\<open>links_service.py\<close>. Every branch of
    the handlers, and the invariant of the topology over sequences of requests.
  \<^item> \<open>Mac_Allocator\<close>: \<^verbatim>\<open>mac_allocator.py\<close>.
  \<^item> \<open>L3_Trace\<close>: \<^verbatim>\<open>dependency_resolver_trace.py\<close>. The trace is the path of chosen peers; each failure
    has its reason.
  \<^item> \<open>Graphs\<close>: the operations of \<^verbatim>\<open>networkx\<close> the code calls, their documented laws, and a list graph that
    meets them.
  \<^item> \<open>Pathfinding\<close>: \<^verbatim>\<open>pathfinding.py\<close>. Dijkstra's search returns the least path; the logical graph has the
    edges the module promises; the store never serves a graph of an older topology, and serves every caller
    the graph of the caller that asked first.
  \<^item> \<open>Optical_Path\<close>: \<^verbatim>\<open>optical_path_resolver.py\<close>, \<^verbatim>\<open>catalog_effective.py\<close>, the path query of
    \<^verbatim>\<open>optical_client.py\<close>.
  \<^item> \<open>Tools\<close>: ping and traceroute of \<^verbatim>\<open>api/endpoints/tools.py\<close>, which share the store with the resolver.
  \<^item> \<open>Dependency\<close>: \<^verbatim>\<open>dependency_resolver_core.py\<close>. The evaluation with memo tables refines the pure
    evaluation \<open>upstream_result\<close>, unless a tools request was the first to ask for the graph of the topology.
  \<^item> \<open>Status\<close>: \<^verbatim>\<open>status_service.py\<close>, \<^verbatim>\<open>status_service_passive.py\<close>, \<^verbatim>\<open>status_recompute.py\<close>,
    \<^verbatim>\<open>status_propagation_store.py\<close>. The rules of device status, the incremental and the full
    recomputation, the propagation snapshot and the causal chain.
  \<^item> \<open>Optical_Service\<close>: \<^verbatim>\<open>optical_service.py\<close>.
  \<^item> \<open>Ip_Address\<close>: what the code uses of Python's \<^verbatim>\<open>ipaddress\<close>; texts and words correspond one to one.
  \<^item> \<open>Ipam\<close>: \<^verbatim>\<open>vrf_prefix.py\<close>, \<^verbatim>\<open>ipam.py\<close>, \<^verbatim>\<open>interfaces.py\<close>, \<^verbatim>\<open>provisioning_ipam.py\<close>, \<^verbatim>\<open>seed_helpers/ipam.py\<close> and the
    pools of \<^verbatim>\<open>models_pkg/ipam.py\<close>. The address tables stay canonical over every sequence of requests, and the search
    for an address returns the least free one.
  \<^item> \<open>Forwarding\<close>: \<^verbatim>\<open>l2_service.py\<close>, \<^verbatim>\<open>l3_service.py\<close>, \<^verbatim>\<open>forwarding_service.py\<close>, \<^verbatim>\<open>routing.py\<close>. A frame is handled as by a
    learning bridge, a route is the longest match, a flow follows links that are up.
  \<^item> \<open>Provisioning\<close>: \<^verbatim>\<open>provisioning_service.py\<close>, \<^verbatim>\<open>provisioning_dependency.py\<close>, \<^verbatim>\<open>provisioning_l3_auto.py\<close>,
    \<^verbatim>\<open>constants/provisioning.py\<close> and the older \<^verbatim>\<open>provisioning.py\<close>. What the gates accept and when the pool is
    reported as exhausted.
  \<^item> \<open>Uplinks\<close>: what provisioning leaves behind, up to the status of a core router whose uplinks were set up.
  \<^item> \<open>Traffic_Paths\<close>: \<^verbatim>\<open>services/traffic/rand.py\<close>, \<^verbatim>\<open>v2_graph.py\<close>, \<^verbatim>\<open>v2_path.py\<close>, \<^verbatim>\<open>v2_tick.py\<close>. The search returns a
    shortest path to the most preferred anchor, and the totals are the sums of the demands.
  \<^item> \<open>Traffic_Engine\<close>: \<^verbatim>\<open>v2_aggregation.py\<close>, \<^verbatim>\<open>v2_congestion.py\<close>, \<^verbatim>\<open>v2_segments.py\<close>, \<^verbatim>\<open>v2_caches.py\<close>, \<^verbatim>\<open>v2_phases.py\<close>,
    \<^verbatim>\<open>v2_snapshot.py\<close>, \<^verbatim>\<open>v2_dirty.py\<close>, \<^verbatim>\<open>v2_engine.py\<close> and the facade \<^verbatim>\<open>traffic_engine.py\<close>: the state of the engine and one tick.
  \<^item> \<open>Traffic_Tick\<close>: the locale \<open>alarm_source\<close>, interpreted for the congestion of devices and of links over any
    sequence of ticks, and the snapshot of a tick.
  \<^item> \<open>Traffic_Segments\<close>: the accounts of the PON segments, the alarm they lose, and the dirty sets.
  \<^item> \<open>Devices\<close>: \<^verbatim>\<open>devices_helpers_mutation_core.py\<close>, \<^verbatim>\<open>devices_helpers_delete.py\<close>, \<^verbatim>\<open>devices_helpers_override.py\<close> of
    \<^verbatim>\<open>api/endpoints\<close>, the tariffs of \<^verbatim>\<open>seed_helpers/catalog.py\<close> and \<^verbatim>\<open>allocate_backbone_mgmt\<close> of \<^verbatim>\<open>services/seed_service.py\<close>. Requests on devices
    and links in any order keep the topology well-formed and leave no dangling reference; what a created device has and what
    deleting one removes.

  \<^bold>\<open>State and effects.\<close> A session's database is a value of the record \<open>db\<close>; a handler takes a world and
  returns the new world or the error it raises, and an error before the commit leaves the world as it
  was. Dictionaries are association lists or maps, strings are lists of bytes in lexicographic order,
  floats are rationals. Caches of the process are records passed along. \<open>Status\<close>, \<open>Provisioning\<close> and the traffic theories
  use the pure \<open>upstream_result\<close> where the code calls the memoised resolver: this is what the resolver answers while
  \<open>resolver_state\<close> holds, that is when no tools request has filled the store first (\<open>resolver_query\<close>); for the gates of
  provisioning and traffic the memoised forms are \<open>dependency_ok_memo\<close> and \<open>gated_leaves_memo\<close>, with the facts that they agree.
  \<open>graph_fresh\<close> names the same kind of assumption for the adjacency cache of the status recomputation.

  \<^bold>\<open>Parameters.\<close> Code outside the repository's Python sources is an argument: the Go services and what
  they answer, \<^verbatim>\<open>networkx\<close> (\<open>nx\<close> with \<open>nx_laws\<close>, \<open>nx_path_laws\<close>, \<open>nx_dijkstra_laws\<close>), MD5 and SHA-1, the text of
  IPv6 addresses (\<open>v6_text\<close>), the clock, whether a
  timer starts or a database session opens, the order \<open>so\<close> in which Python walks a set. The theorems
  hold for every value that meets the named laws, and the witnesses give concrete ones.

  \<^bold>\<open>Termination.\<close> No function carries fuel. Queue loops end because the unmarked nodes of a finite set
  shrink; the trace because the unvisited rows do; Dijkstra's loop because every step settles a node or
  shortens the heap. Two computations may not return, and say so by \<open>None\<close>: the search of the MAC
  allocator, which is proved to return while addresses are left, and \<open>schedule\<close>, which waits for a lock it
  holds when no timer can be started.

  \<^bold>\<open>Not modelled.\<close> Sockets, the delays of timers, logging, SQL migrations and start-up are I/O around the modelled
  operations; the Go engine and the front end are written in other languages; protobuf stubs are
  generated. Errors of the database are not modelled, except where the code handles them (the MAC
  allocator, the uniqueness of link endpoints) or where they leave a request half done (\<open>Devices\<close>). Rounding of floats and Python's recursion limit are not
  modelled. Link update, override and batch creation, the port summaries, the replay of simulation events and the
  health checks of the event store are left out; they would extend the same records and the invariant of \<open>Devices\<close>.
\<close>

end
